(* ===== verification/NS6_Prelude.thy ===== *)
theory NS6_Prelude
  imports Main "HOL-Library.Word"
begin

text \<open>
  Shared vocabulary of the development: the fixed-width integer types of the sources, the
  result codes of the USB stack, the memory-block primitives (\<^verbatim>\<open>memcpy\<close>, \<^verbatim>\<open>fill\<close>) on lists,
  the circular-buffer window and its lemmas, and the rule collections the component proofs use.
\<close>

named_theorems ns6_defs "definitions a component proof unfolds"
named_theorems ns6_inv "invariant preservation rules"

subsection \<open>Machine types\<close>

type_synonym u8 = "8 word"
type_synonym u16 = "16 word"
type_synonym u32 = "32 word"
type_synonym u64 = "64 word"

abbreviation UINT32_MAX :: u32 where "UINT32_MAX \<equiv> - 1"
abbreviation UINT64_MAX :: u64 where "UINT64_MAX \<equiv> - 1"

text \<open>
  Result codes of IOKit. Their numeric values live in system headers; the sources only compare
  them with one another, so the named codes are distinct constructors and every other code is
  \<open>kIOReturnOther\<close>.
\<close>

datatype IOReturn =
    kIOReturnSuccess
  | kIOReturnNotReady
  | kIOReturnNoResources
  | kIOReturnNoMemory
  | kIOReturnNoDevice
  | kIOReturnBadArgument
  | kIOReturnExclusiveAccess
  | kIOReturnUnsupported
  | kIOReturnNotFound
  | kIOReturnTimeout
  | kIOReturnUnderrun
  | kIOReturnNotResponding
  | kIOUSBPipeStalled
  | kIOReturnOther nat

subsection \<open>Memory blocks\<close>

text \<open>\<open>overwrite off ys xs\<close> is \<^verbatim>\<open>memcpy(xs + off, ys, length ys)\<close>.\<close>

definition overwrite :: "nat \<Rightarrow> 'a list \<Rightarrow> 'a list \<Rightarrow> 'a list" where
  "overwrite off ys xs = take off xs @ ys @ drop (off + length ys) xs"

definition fill_n :: "nat \<Rightarrow> 'a \<Rightarrow> 'a list" where
  "fill_n n x = replicate n x"

lemma length_overwrite [simp]:
  "off + length ys \<le> length xs \<Longrightarrow> length (overwrite off ys xs) = length xs"
  by (simp add: overwrite_def)

lemma overwrite_Nil [simp]: "off \<le> length xs \<Longrightarrow> overwrite off [] xs = xs"
  by (simp add: overwrite_def)

lemma nth_overwrite:
  assumes "off + length ys \<le> length xs" and "i < length xs"
  shows "overwrite off ys xs ! i =
    (if off \<le> i \<and> i < off + length ys then ys ! (i - off) else xs ! i)"
  using assms by (auto simp: overwrite_def nth_append min_def)

subsection \<open>Circular windows\<close>

text \<open>
  \<open>window n m buf i\<close> lists the \<open>m\<close> consecutive entries of a circular buffer with \<open>n\<close> slots
  that start at absolute position \<open>i\<close>.
\<close>

definition window :: "nat \<Rightarrow> nat \<Rightarrow> 'a list \<Rightarrow> nat \<Rightarrow> 'a list" where
  "window n m buf i = map (\<lambda>k. buf ! ((i + k) mod n)) [0..<m]"

lemma length_window [simp]: "length (window n m buf i) = m"
  by (simp add: window_def)

lemma window_0 [simp]: "window n 0 buf i = []"
  by (simp add: window_def)

lemma nth_window [simp]: "k < m \<Longrightarrow> window n m buf i ! k = buf ! ((i + k) mod n)"
  by (simp add: window_def)

lemma take_window: "k \<le> m \<Longrightarrow> take k (window n m buf i) = window n k buf i"
  by (auto simp: list_eq_iff_nth_eq)

lemma drop_window: "drop k (window n m buf i) = window n (m - k) buf (i + k)"
  by (rule nth_equalityI) (auto simp: add.assoc)

lemma window_append:
  "window n a buf i @ window n b buf (i + a) = window n (a + b) buf i"
  by (rule nth_equalityI) (auto simp: nth_append add.assoc)

lemma window_mod: "window n m buf (i mod n) = window n m buf i"
  by (simp add: window_def mod_simps)

lemma window_cong_mod: "i mod n = j mod n \<Longrightarrow> window n m buf i = window n m buf j"
  by (metis window_mod)

text \<open>
  \<open>circ_write n i ys buf\<close> stores \<open>ys\<close> at absolute position \<open>i\<close> of a circular buffer with \<open>n\<close>
  slots by two block copies: up to the end of the buffer, then the rest from its start.
\<close>

definition circ_write :: "nat \<Rightarrow> nat \<Rightarrow> 'a list \<Rightarrow> 'a list \<Rightarrow> 'a list" where
  "circ_write n i ys buf =
     (let off = i mod n; first = min (length ys) (n - off)
      in overwrite 0 (drop first ys) (overwrite off (take first ys) buf))"

lemma length_circ_write [simp]:
  "0 < n \<Longrightarrow> length buf = n \<Longrightarrow> length ys \<le> n \<Longrightarrow> length (circ_write n i ys buf) = n"
proof -
  assume "0 < n" "length buf = n" "length ys \<le> n"
  moreover from this have "i mod n < n" by simp
  ultimately show ?thesis by (simp add: circ_write_def Let_def min_def)
qed

lemma mod_add_small:
  fixes i k n :: nat
  assumes "k < n"
  shows "(i + k) mod n = (if i mod n + k < n then i mod n + k else i mod n + k - n)"
proof -
  define r where "r = i mod n"
  have r: "r < n" using assms by (simp add: r_def)
  have "(i + k) mod n = (r + k) mod n" by (simp add: r_def mod_add_left_eq)
  then show ?thesis
    unfolding r_def [symmetric] using assms r le_mod_geq [of n "r + k"] by auto
qed

lemma nth_circ_write_in:
  assumes "0 < n" and "length buf = n" and "length ys \<le> n" and "k < length ys"
  shows "circ_write n i ys buf ! ((i + k) mod n) = ys ! k"
proof -
  define off where "off = i mod n"
  have off: "off < n" using assms by (simp add: off_def)
  have m: "(i + k) mod n = (if off + k < n then off + k else off + k - n)"
    unfolding off_def using assms by (intro mod_add_small) auto
  show ?thesis
    using assms off unfolding m
    by (auto simp: circ_write_def Let_def off_def [symmetric] nth_overwrite min_def)
qed

lemma nth_circ_write_out:
  assumes "0 < n" and "length buf = n" and "length ys \<le> n" and "length ys \<le> k" and "k < n"
  shows "circ_write n i ys buf ! ((i + k) mod n) = buf ! ((i + k) mod n)"
proof -
  define off where "off = i mod n"
  have off: "off < n" using assms by (simp add: off_def)
  have m: "(i + k) mod n = (if off + k < n then off + k else off + k - n)"
    unfolding off_def using assms by (intro mod_add_small) auto
  show ?thesis
    using assms off unfolding m
    by (auto simp: circ_write_def Let_def off_def [symmetric] nth_overwrite min_def)
qed

text \<open>Appending to the occupied window.\<close>

lemma window_circ_write:
  assumes "0 < n" and "length buf = n" and "m + length ys \<le> n" and "j mod n = (i + m) mod n"
  shows "window n (m + length ys) (circ_write n j ys buf) i = window n m buf i @ ys"
proof (rule nth_equalityI)
  fix k
  assume "k < length (window n (m + length ys) (circ_write n j ys buf) i)"
  then have k: "k < m + length ys" by simp
  have eq: "circ_write n j ys buf = circ_write n (i + m) ys buf"
    using assms(4) by (simp add: circ_write_def)
  show "window n (m + length ys) (circ_write n j ys buf) i ! k = (window n m buf i @ ys) ! k"
  proof (cases "k < m")
    case True
    have "i + m + (n - m + k) = i + k + n" using assms True by simp
    then have "(i + k) mod n = (i + m + (n - m + k)) mod n" by (simp only: mod_add_self2)
    moreover have "circ_write n (i + m) ys buf ! ((i + m + (n - m + k)) mod n) =
        buf ! ((i + m + (n - m + k)) mod n)"
      using assms True by (intro nth_circ_write_out) auto
    ultimately show ?thesis using True k by (simp add: eq nth_append)
  next
    case False
    then obtain l where l: "k = m + l" using le_Suc_ex not_le by metis
    have "circ_write n (i + m) ys buf ! ((i + m + l) mod n) = ys ! l"
      using assms k by (intro nth_circ_write_in) (auto simp: l)
    then show ?thesis using k by (simp add: eq l nth_append add.assoc)
  qed
qed simp

text \<open>Reading a window by two block copies.\<close>

lemma circ_index:
  fixes i j n :: nat
  assumes "j < n"
  obtains k where "k < n" and "(i + k) mod n = j"
proof
  define r where "r = i mod n"
  have r: "r < n" using assms by (simp add: r_def)
  show "(j + n - r) mod n < n" using assms by simp
  have "(i + (j + n - r) mod n) mod n = (r + (j + n - r)) mod n" by (simp add: mod_simps r_def)
  also have "\<dots> = j" using r assms by simp
  finally show "(i + (j + n - r) mod n) mod n = j" .
qed

lemma circ_write_append:
  assumes "0 < n" and "length buf = n" and "length a + length b \<le> n"
  shows "circ_write n (i + length a) b (circ_write n i a buf) = circ_write n i (a @ b) buf"
proof (rule nth_equalityI)
  show "length (circ_write n (i + length a) b (circ_write n i a buf)) = length (circ_write n i (a @ b) buf)"
    using assms by simp
  fix j assume "j < length (circ_write n (i + length a) b (circ_write n i a buf))"
  then have "j < n" using assms by simp
  then obtain k where k: "k < n" "(i + k) mod n = j" by (rule circ_index)
  let ?buf = "circ_write n i a buf"
  have len: "length ?buf = n" using assms by simp
  consider "k < length a" | "length a \<le> k" "k < length a + length b" | "length a + length b \<le> k" by linarith
  then show "circ_write n (i + length a) b ?buf ! j = circ_write n i (a @ b) buf ! j"
  proof cases
    case 1
    have "i + length a + (k + n - length a) = (i + k) + n" using assms by simp
    then have pos: "(i + length a + (k + n - length a)) mod n = j" by (simp only: mod_add_self2 k)
    have "circ_write n (i + length a) b ?buf ! j = ?buf ! j"
      using nth_circ_write_out [OF assms(1) len, of b "k + n - length a" "i + length a"] 1 assms
      unfolding pos by simp
    then show ?thesis
      using nth_circ_write_in [of n buf a k i] nth_circ_write_in [of n buf "a @ b" k i] 1 assms k
      by (simp add: nth_append)
  next
    case 2
    have pos: "(i + length a + (k - length a)) mod n = j" using 2 k by simp
    have "circ_write n (i + length a) b ?buf ! j = b ! (k - length a)"
      using nth_circ_write_in [OF assms(1) len, of b "k - length a" "i + length a"] 2 assms
      unfolding pos by simp
    then show ?thesis
      using nth_circ_write_in [of n buf "a @ b" k i] 2 assms k by (simp add: nth_append)
  next
    case 3
    have pos: "(i + length a + (k - length a)) mod n = j" using 3 k by simp
    have "circ_write n (i + length a) b ?buf ! j = ?buf ! j"
      using nth_circ_write_out [OF assms(1) len, of b "k - length a" "i + length a"] 3 assms k
      unfolding pos by simp
    then show ?thesis
      using nth_circ_write_out [of n buf a k i] nth_circ_write_out [of n buf "a @ b" k i] 3 assms k by simp
  qed
qed

lemma overwrite_overwrite_append:
  "overwrite (length a) b (overwrite 0 a dst) = overwrite 0 (a @ b) dst"
  by (simp add: overwrite_def add.commute)

lemma u32_less: "unat (w :: u32) < 2 ^ 32" and u64_less: "unat (v :: u64) < 2 ^ 64"
  using unsigned_less [where 'a = nat, of w] unsigned_less [where 'a = nat, of v] by simp_all

lemma unat_ucast_up: "LENGTH('a) \<le> LENGTH('b) \<Longrightarrow> unat (ucast w :: 'b::len word) = unat w" for w :: "'a::len word"
proof -
  assume le: "LENGTH('a) \<le> LENGTH('b)"
  have "unat w < 2 ^ LENGTH('a)" by (rule unsigned_less)
  also have "\<dots> \<le> 2 ^ LENGTH('b)" using le by simp
  finally show ?thesis by (simp add: unsigned_ucast_eq take_bit_nat_eq_self)
qed

lemma word_of_unat: "word_of_nat (unat w) = w" for w :: "'a::len word"
  by simp

lemma lane_less:
  fixes i n c w :: nat
  assumes "i < n" and "c < w"
  shows "i * w + c < n * w"
proof -
  have "i * w + c < Suc i * w" using assms(2) by simp
  also have "\<dots> \<le> n * w" using assms(1) by (intro mult_le_mono1) simp
  finally show ?thesis .
qed

lemma lane_le_iff: "0 < w \<Longrightarrow> n * w \<le> i * w \<longleftrightarrow> n \<le> i" for n i w :: nat
  by simp

lemma overwrite_append_at:
  "off \<le> length dst \<Longrightarrow> overwrite (off + length a) b (overwrite off a dst) = overwrite off (a @ b) dst"
  by (simp add: overwrite_def add.commute add.left_commute)

lemma window_two_parts:
  assumes "0 < n" and "length buf = n" and "m \<le> n" and "first = min m (n - i mod n)"
  shows "take first (drop (i mod n) buf) @ take (m - first) buf = window n m buf i"
proof (rule nth_equalityI)
  define off where "off = i mod n"
  have off: "off < n" using assms by (simp add: off_def)
  have first: "first = min m (n - off)" by (simp add: assms(4) off_def)
  show len: "length (take first (drop (i mod n) buf) @ take (m - first) buf) =
      length (window n m buf i)"
    unfolding off_def [symmetric] first using off assms(2,3) by (auto simp: min_def)
  fix k
  assume "k < length (take first (drop (i mod n) buf) @ take (m - first) buf)"
  then have k: "k < m" by (simp only: len length_window)
  have "(i + k) mod n = (if off + k < n then off + k else off + k - n)"
    unfolding off_def using k assms by (intro mod_add_small) simp
  then show "(take first (drop (i mod n) buf) @ take (m - first) buf) ! k = window n m buf i ! k"
    unfolding off_def [symmetric] first using k assms(2,3) off
    by (auto simp: nth_append min_def add.commute)
qed

subsection \<open>Runs of operations and simulation\<close>

text \<open>The results of a sequence of operations and the final state.\<close>

fun run_ops :: "('op \<Rightarrow> 's \<Rightarrow> 'r \<times> 's) \<Rightarrow> 'op list \<Rightarrow> 's \<Rightarrow> 'r list \<times> 's" where
  "run_ops step [] s = ([], s)"
| "run_ops step (op # ops) s = (case step op s of (x, s) \<Rightarrow> case run_ops step ops s of (xs, s) \<Rightarrow> (x # xs, s))"

text \<open>
  The contract between a component and its abstract description: every operation gives the described result and keeps the invariant,
  which may depend on the number of operations so far, up to a limit.
\<close>

locale simulation =
  fixes step :: "'op \<Rightarrow> 's \<Rightarrow> 'r \<times> 's" and spec :: "'op \<Rightarrow> 'a \<Rightarrow> 'r \<times> 'a" and view :: "'s \<Rightarrow> 'a"
    and good :: "nat \<Rightarrow> 's \<Rightarrow> bool" and within :: "nat \<Rightarrow> bool"
  assumes step_ok: "good k s \<Longrightarrow> within (Suc k) \<Longrightarrow> step op s = (r, s') \<Longrightarrow> good (Suc k) s' \<and> spec op (view s) = (r, view s')"
    and within_less: "within n \<Longrightarrow> k \<le> n \<Longrightarrow> within k"
begin

lemma run_ok: "good k s \<Longrightarrow> within (k + length ops) \<Longrightarrow> run_ops step ops s = (rs, s') \<Longrightarrow>
    good (k + length ops) s' \<and> run_ops spec ops (view s) = (rs, view s')"
proof (induction ops arbitrary: k s rs s')
  case (Cons op ops)
  obtain r s1 where s: "step op s = (r, s1)" by fastforce
  obtain rs1 s2 where run: "run_ops step ops s1 = (rs1, s2)" by fastforce
  have "within (Suc k)" using Cons.prems(2) by (rule within_less) simp
  from step_ok [OF Cons.prems(1) this s] Cons.IH [of "Suc k", OF _ _ run] Cons.prems(2,3) s run show ?case by auto
qed simp

end

end
