(* ===== verification/NS6_Float.thy ===== *)
theory NS6_Float
  imports Complex_Main NS6_Prelude
begin

text \<open>
  The sources compute with IEEE-754 \<^verbatim>\<open>float\<close> and \<^verbatim>\<open>double\<close>. This theory models both formats
  executably: a value is a rational, an infinity or a NaN, and every operation rounds its exact
  result to nearest, ties to even, with gradual underflow and overflow to infinity. The two zeros
  are identified: no source of the repository divides by a computed zero or inspects a sign bit.
  Each operation of the source rounds separately (no fused multiply-add).
  The lemmas are the ones the components need: rounding is monotone, odd, exact on representable
  values, and its results are representable.
\<close>

subsection \<open>Rounding to an integer and the binary exponent\<close>

definition rint_even :: "rat \<Rightarrow> int" where
  "rint_even x =
     (let f = \<lfloor>x\<rfloor>; d = x - of_int f in
      if d < 1/2 then f else if 1/2 < d then f + 1 else if even f then f else f + 1)"

fun ilog2_nat :: "nat \<Rightarrow> nat" where
  "ilog2_nat n = (if n \<le> 1 then 0 else Suc (ilog2_nat (n div 2)))"

declare ilog2_nat.simps [simp del]

definition pow2 :: "int \<Rightarrow> rat" where
  "pow2 e = (if 0 \<le> e then 2 ^ nat e else 1 / 2 ^ nat (- e))"

text \<open>The exponent \<open>e\<close> with \<open>pow2 e \<le> x < pow2 (e + 1)\<close>, for positive \<open>x\<close>.\<close>

definition ilog2 :: "rat \<Rightarrow> int" where
  "ilog2 x = (case quotient_of x of (a, b) \<Rightarrow>
     let k = int (ilog2_nat (nat a)) - int (ilog2_nat (nat b))
     in if pow2 k \<le> x then k else k - 1)"

lemma rint_even_of_int [simp]: "rint_even (of_int m) = m"
  by (simp add: rint_even_def)

lemma rint_even_bounds: "\<lfloor>x\<rfloor> \<le> rint_even x \<and> rint_even x \<le> \<lfloor>x\<rfloor> + 1"
  by (simp add: rint_even_def Let_def)

lemma rint_even_mono: "x \<le> y \<Longrightarrow> rint_even x \<le> rint_even y"
proof -
  assume le: "x \<le> y"
  then have fl: "\<lfloor>x\<rfloor> \<le> \<lfloor>y\<rfloor>" by (rule floor_mono)
  show ?thesis
  proof (cases "\<lfloor>x\<rfloor> = \<lfloor>y\<rfloor>")
    case True
    with le show ?thesis by (auto simp: rint_even_def Let_def)
  next
    case False
    with fl have "\<lfloor>x\<rfloor> + 1 \<le> \<lfloor>y\<rfloor>" by linarith
    with rint_even_bounds [of x] rint_even_bounds [of y] show ?thesis by linarith
  qed
qed

lemma rint_even_uminus: "rint_even (- x) = - rint_even x"
proof (cases "x = of_int \<lfloor>x\<rfloor>")
  case True
  then show ?thesis by (metis of_int_minus rint_even_of_int)
next
  case False
  with of_int_floor_le [of x] have lt: "of_int \<lfloor>x\<rfloor> < x" by linarith
  have "\<lfloor>- x\<rfloor> = - \<lfloor>x\<rfloor> - 1"
    by (rule floor_unique) (use lt in \<open>linarith+\<close>)
  then show ?thesis by (auto simp: rint_even_def Let_def)
qed

lemma rint_even_le: "x \<le> of_int m \<Longrightarrow> rint_even x \<le> m"
  using rint_even_mono [of x "of_int m"] by simp

lemma rint_even_ge: "of_int m \<le> x \<Longrightarrow> m \<le> rint_even x"
  using rint_even_mono [of "of_int m" x] by simp

lemma pow2_pos [simp]: "0 < pow2 e"
  by (simp add: pow2_def)

lemma pow2_nonneg [simp]: "0 \<le> pow2 e" "pow2 e \<noteq> 0"
  using pow2_pos [of e] by linarith+

lemma pow2_powi: "pow2 e = 2 powi e"
  by (auto simp: pow2_def power_int_def divide_simps)

lemma pow2_add: "pow2 (a + b) = pow2 a * pow2 b"
  by (simp add: pow2_powi power_int_add)

lemma pow2_diff: "pow2 (a - b) = pow2 a / pow2 b"
  by (simp add: pow2_powi power_int_diff)

lemma pow2_mono: "a \<le> b \<Longrightarrow> pow2 a \<le> pow2 b"
  by (simp add: pow2_powi power_int_increasing)

lemma pow2_less_cancel: "pow2 a < pow2 b \<Longrightarrow> a < b"
  using pow2_mono [of b a] by (meson leD leI)

lemma pow2_int: "0 \<le> e \<Longrightarrow> pow2 e = of_int (2 ^ nat e)"
  by (simp add: pow2_def)

lemma pow2_nat: "pow2 (int n) = of_int (2 ^ n)"
  by (simp add: pow2_int)

lemma pow2_split: "e \<le> k \<Longrightarrow> pow2 k = of_int (2 ^ nat (k - e)) * pow2 e"
  using pow2_add [of "k - e" e] pow2_int [of "k - e"] by simp

lemma ilog2_nat_bounds: "0 < n \<Longrightarrow> 2 ^ ilog2_nat n \<le> n \<and> n < 2 ^ Suc (ilog2_nat n)"
proof (induction n rule: ilog2_nat.induct)
  case (1 n)
  show ?case
  proof (cases "n \<le> 1")
    case True
    with "1.prems" show ?thesis by (simp add: ilog2_nat.simps [of n])
  next
    case False
    with "1.IH" have "2 ^ ilog2_nat (n div 2) \<le> n div 2 \<and> n div 2 < 2 ^ Suc (ilog2_nat (n div 2))"
      by simp
    with False show ?thesis by (simp add: ilog2_nat.simps [of n]) linarith
  qed
qed

lemma ilog2_bounds:
  assumes "0 < x"
  shows "pow2 (ilog2 x) \<le> x \<and> x < pow2 (ilog2 x + 1)"
proof -
  obtain a b where q: "quotient_of x = (a, b)" by fastforce
  then have b: "0 < b" and x: "x = of_int a / of_int b"
    by (auto simp: quotient_of_denom_pos quotient_of_div)
  with assms have a: "0 < a" by (simp add: zero_less_divide_iff)
  define i j where "i = ilog2_nat (nat a)" and "j = ilog2_nat (nat b)"
  have "2 ^ i \<le> nat a \<and> nat a < 2 ^ Suc i" "2 ^ j \<le> nat b \<and> nat b < 2 ^ Suc j"
    unfolding i_def j_def using a b by (intro ilog2_nat_bounds; simp)+
  then have "2 ^ i \<le> a" "a < 2 ^ Suc i" "2 ^ j \<le> b" "b < 2 ^ Suc j"
    using a b by (simp_all add: nat_less_iff le_nat_iff)
  then have ab: "pow2 (int i) \<le> of_int a" "of_int a < pow2 (int (Suc i))"
      "pow2 (int j) \<le> of_int b" "of_int b < pow2 (int (Suc j))"
    by (simp_all only: pow2_nat of_int_le_iff of_int_less_iff)
  have "pow2 (int i - int j - 1) < x"
  proof -
    have "pow2 (int i - int j - 1) = pow2 (int i) / pow2 (int (Suc j))"
      by (simp add: algebra_simps flip: pow2_diff)
    also have "\<dots> < of_int a / of_int b"
      using ab b by (intro frac_less2) auto
    finally show ?thesis by (simp add: x)
  qed
  moreover have "x < pow2 (int i - int j + 1)"
  proof -
    have "of_int a / of_int b < pow2 (int (Suc i)) / pow2 (int j)"
      using ab a b by (intro frac_less) auto
    also have "\<dots> = pow2 (int i - int j + 1)"
      by (simp add: algebra_simps flip: pow2_diff)
    finally show ?thesis by (simp add: x)
  qed
  ultimately show ?thesis
    by (auto simp: ilog2_def q Let_def i_def j_def algebra_simps)
qed

lemma ilog2_unique: "pow2 e \<le> x \<Longrightarrow> x < pow2 (e + 1) \<Longrightarrow> ilog2 x = e"
proof -
  assume le: "pow2 e \<le> x" and lt: "x < pow2 (e + 1)"
  then have "0 < x" using pow2_pos [of e] by linarith
  from ilog2_bounds [OF this] le lt have "pow2 e < pow2 (ilog2 x + 1)" "pow2 (ilog2 x) < pow2 (e + 1)"
    by linarith+
  from this [THEN pow2_less_cancel] show ?thesis by linarith
qed

lemma ilog2_mono: "0 < x \<Longrightarrow> x \<le> y \<Longrightarrow> ilog2 x \<le> ilog2 y"
proof -
  assume "0 < x" "x \<le> y"
  then have "pow2 (ilog2 x) < pow2 (ilog2 y + 1)"
    using ilog2_bounds [of x] ilog2_bounds [of y] by linarith
  from this [THEN pow2_less_cancel] show ?thesis by linarith
qed

subsection \<open>Rounding to a format\<close>

text \<open>
  A format has \<open>prec\<close> significand bits, least exponent \<open>emin\<close> (of the last place of a subnormal)
  and greatest exponent \<open>emax\<close>.
\<close>

record fmt =
  prec :: nat
  emin :: int
  emax :: int

definition f64 :: fmt where "f64 = \<lparr>prec = 53, emin = - 1074, emax = 1023\<rparr>"
definition f32 :: fmt where "f32 = \<lparr>prec = 24, emin = - 149, emax = 127\<rparr>"

text \<open>The exponent of the last place of the values next to \<open>x\<close>.\<close>

definition ulp_exp :: "fmt \<Rightarrow> rat \<Rightarrow> int" where
  "ulp_exp F x = max (ilog2 \<bar>x\<bar> - (int (prec F) - 1)) (emin F)"

definition rnd :: "fmt \<Rightarrow> rat \<Rightarrow> rat" where
  "rnd F x = (if x = 0 then 0 else
     let u = pow2 (ulp_exp F x) in of_int (rint_even (x / u)) * u)"

text \<open>\<open>repr F x\<close>: \<open>x\<close> is a value of the format, exponent range above aside.\<close>

definition repr :: "fmt \<Rightarrow> rat \<Rightarrow> bool" where
  "repr F x \<longleftrightarrow> (\<exists>m e. x = of_int m * pow2 e \<and> \<bar>m\<bar> \<le> 2 ^ prec F \<and> emin F \<le> e)"

lemma rnd_0 [simp]: "rnd F 0 = 0"
  by (simp add: rnd_def)

lemma rnd_uminus: "rnd F (- x) = - rnd F x"
  by (simp add: rnd_def Let_def ulp_exp_def rint_even_uminus)

text \<open>A value that is a multiple of the last place is exact.\<close>

lemma rnd_multiple:
  assumes "x = of_int m * pow2 e" and "ulp_exp F x \<le> e"
  shows "rnd F x = x"
proof (cases "x = 0")
  case False
  have "x / pow2 (ulp_exp F x) = of_int (m * 2 ^ nat (e - ulp_exp F x))"
    using assms by (simp add: pow2_diff [symmetric] pow2_int flip: pow2_diff times_divide_eq_right)
  then show ?thesis using False
    by (simp only: rnd_def Let_def rint_even_of_int if_False) (simp add: field_simps)
qed simp

lemma ilog2_less: "0 < x \<Longrightarrow> x < pow2 e \<Longrightarrow> ilog2 x < e"
  using ilog2_bounds [of x] by (meson le_less_trans pow2_less_cancel)

lemma rnd_exact: "repr F x \<Longrightarrow> 0 < prec F \<Longrightarrow> rnd F x = x"
proof -
  assume "repr F x" and p: "0 < prec F"
  then obtain m e where x: "x = of_int m * pow2 e" and m: "\<bar>m\<bar> \<le> 2 ^ prec F" and e: "emin F \<le> e"
    by (auto simp: repr_def)
  show ?thesis
  proof (cases "x = 0 \<or> \<bar>m\<bar> = 2 ^ prec F")
    case True
    then show ?thesis
    proof
      assume top: "\<bar>m\<bar> = 2 ^ prec F"
      have ax: "\<bar>x\<bar> = pow2 (int (prec F) + e)"
        using top by (simp add: x abs_mult pow2_add pow2_int flip: of_int_abs)
      then have "ilog2 \<bar>x\<bar> = int (prec F) + e"
        by (intro ilog2_unique) (auto simp: pow2_add pow2_int)
      moreover have "x = of_int (if 0 < m then 2 ^ (prec F - 1) else - (2 ^ (prec F - 1))) * pow2 (e + 1)"
      proof (cases "0 < m")
        case True
        with top p show ?thesis by (cases "prec F") (simp_all add: x pow2_add pow2_int)
      next
        case False
        with top have "m = - (2 ^ prec F)" by simp
        with False p show ?thesis by (cases "prec F") (simp_all add: x pow2_add pow2_int)
      qed
      ultimately show ?thesis
        using e by (intro rnd_multiple) (auto simp: ulp_exp_def)
    qed simp
  next
    case False
    with m have "\<bar>m\<bar> < 2 ^ prec F" by simp
    then have "of_int \<bar>m\<bar> < pow2 (int (prec F))"
      by (simp add: pow2_int flip: of_int_less_iff [where 'a = rat])
    then have "\<bar>x\<bar> < pow2 (int (prec F) + e)"
      by (simp add: x abs_mult pow2_add)
    with False have "ilog2 \<bar>x\<bar> < int (prec F) + e" by (intro ilog2_less) auto
    then show ?thesis using x e by (intro rnd_multiple) (auto simp: ulp_exp_def)
  qed
qed

lemma rnd_pos_eq: "0 < x \<Longrightarrow> rnd F x = of_int (rint_even (x / pow2 (ulp_exp F x))) * pow2 (ulp_exp F x)"
  by (simp add: rnd_def Let_def)

lemma rnd_le_pow2:
  assumes "0 < x" and "x \<le> pow2 k" and "ulp_exp F x \<le> k"
  shows "rnd F x \<le> pow2 k"
proof -
  let ?e = "ulp_exp F x"
  have k: "pow2 k = of_int (2 ^ nat (k - ?e)) * pow2 ?e"
    using assms(3) by (rule pow2_split)
  have "x / pow2 ?e \<le> of_int (2 ^ nat (k - ?e))"
    using assms(2) by (simp only: k pos_divide_le_eq [OF pow2_pos])
  then have "rint_even (x / pow2 ?e) \<le> 2 ^ nat (k - ?e)" by (rule rint_even_le)
  then have "(of_int (rint_even (x / pow2 ?e)) :: rat) \<le> of_int (2 ^ nat (k - ?e))"
    by (simp only: of_int_le_iff)
  then show ?thesis
    by (simp only: k rnd_pos_eq [OF assms(1)] mult_le_cancel_right_pos [OF pow2_pos])
qed

lemma rnd_ge_pow2:
  assumes "pow2 k \<le> x" and "ulp_exp F x \<le> k"
  shows "pow2 k \<le> rnd F x"
proof -
  let ?e = "ulp_exp F x"
  have pos: "0 < x" using assms(1) pow2_pos [of k] by linarith
  have k: "pow2 k = of_int (2 ^ nat (k - ?e)) * pow2 ?e"
    using assms(2) by (rule pow2_split)
  have "of_int (2 ^ nat (k - ?e)) \<le> x / pow2 ?e"
    using assms(1) by (simp only: k pos_le_divide_eq [OF pow2_pos])
  then have "2 ^ nat (k - ?e) \<le> rint_even (x / pow2 ?e)" by (rule rint_even_ge)
  then have "(of_int (2 ^ nat (k - ?e)) :: rat) \<le> of_int (rint_even (x / pow2 ?e))"
    by (simp only: of_int_le_iff)
  then show ?thesis
    by (simp only: k rnd_pos_eq [OF pos] mult_le_cancel_right_pos [OF pow2_pos])
qed

lemma rnd_mono_pos:
  assumes "0 < prec F" and "0 < x" and "x \<le> y"
  shows "rnd F x \<le> rnd F y"
proof -
  have y: "0 < y" using assms by linarith
  have il: "ilog2 x \<le> ilog2 y" using assms by (intro ilog2_mono)
  then have le: "ulp_exp F x \<le> ulp_exp F y" using assms y by (simp add: ulp_exp_def)
  show ?thesis
  proof (cases "ulp_exp F x = ulp_exp F y")
    case True
    have "x / pow2 (ulp_exp F x) \<le> y / pow2 (ulp_exp F x)"
      using assms(3) by (simp add: divide_right_mono)
    with rint_even_mono True show ?thesis
      by (simp add: rnd_pos_eq assms(2) y)
  next
    case False
    with le have lt: "ulp_exp F x < ulp_exp F y" by simp
    then have ey: "ulp_exp F y = ilog2 y - (int (prec F) - 1)" and "ilog2 x < ilog2 y"
      using assms(2) y by (auto simp: ulp_exp_def max_def split: if_splits)
    then have "x \<le> pow2 (ilog2 y)"
      using ilog2_bounds [OF assms(2)] pow2_mono [of "ilog2 x + 1" "ilog2 y"] by linarith
    with lt ey have "rnd F x \<le> pow2 (ilog2 y)"
      using assms(1,2) by (intro rnd_le_pow2) auto
    also have "\<dots> \<le> rnd F y"
      using ilog2_bounds [OF y] ey assms(1) by (intro rnd_ge_pow2) auto
    finally show ?thesis .
  qed
qed

lemma rnd_nonneg: "0 \<le> x \<Longrightarrow> 0 \<le> rnd F x"
  by (auto simp: rnd_def Let_def intro!: mult_nonneg_nonneg rint_even_ge [of 0, simplified])

lemma rnd_mono:
  assumes "0 < prec F" and "x \<le> y"
  shows "rnd F x \<le> rnd F y"
proof (cases "0 < x \<or> y < 0")
  case True
  then show ?thesis
  proof
    assume "y < 0"
    with assms have "rnd F (- y) \<le> rnd F (- x)" by (intro rnd_mono_pos) auto
    then show ?thesis by (simp add: rnd_uminus)
  qed (use assms rnd_mono_pos in auto)
next
  case False
  then have "rnd F x \<le> 0" "0 \<le> rnd F y"
    using rnd_nonneg [of "- x" F] rnd_nonneg [of y F] by (auto simp: rnd_uminus)
  then show ?thesis by linarith
qed

lemma rnd_repr:
  assumes "0 < prec F"
  shows "repr F (rnd F x)"
proof -
  have pos: "repr F (rnd F x)" if "0 < x" for x
  proof -
    let ?e = "ulp_exp F x"
    have "pow2 (ilog2 x - (int (prec F) - 1)) \<le> pow2 ?e"
      using that by (intro pow2_mono) (simp add: ulp_exp_def)
    then have "pow2 (ilog2 x + 1) \<le> of_int (2 ^ prec F) * pow2 ?e"
      by (simp add: pow2_diff pow2_add field_simps pow2_int)
    with ilog2_bounds [OF that] have "x \<le> of_int (2 ^ prec F) * pow2 ?e" by linarith
    then have "x / pow2 ?e \<le> of_int (2 ^ prec F)" by (simp only: pos_divide_le_eq [OF pow2_pos])
    then have "rint_even (x / pow2 ?e) \<le> 2 ^ prec F" by (rule rint_even_le)
    moreover have "0 \<le> rint_even (x / pow2 ?e)"
      using that by (intro rint_even_ge) simp
    ultimately show ?thesis
      unfolding repr_def rnd_pos_eq [OF that] by (auto intro!: exI simp: ulp_exp_def)
  qed
  have neg: "repr F (- y)" if "repr F y" for y
    using that by (auto simp: repr_def) (metis abs_minus_cancel minus_mult_left of_int_minus)
  consider "x = 0" | "0 < x" | "0 < - x" by linarith
  then show ?thesis
  proof cases
    case 1
    then show ?thesis by (auto simp: repr_def intro: exI [of _ 0])
  next
    case 3
    from neg [OF pos [OF this]] show ?thesis by (simp add: rnd_uminus)
  qed (rule pos)
qed

lemma rnd_upper: "0 < prec F \<Longrightarrow> repr F b \<Longrightarrow> x \<le> b \<Longrightarrow> rnd F x \<le> b"
  using rnd_mono [of F x b] by (simp add: rnd_exact)

lemma rnd_lower: "0 < prec F \<Longrightarrow> repr F b \<Longrightarrow> b \<le> x \<Longrightarrow> b \<le> rnd F x"
  using rnd_mono [of F b x] by (simp add: rnd_exact)

lemma repr_int: "\<bar>m\<bar> \<le> 2 ^ prec F \<Longrightarrow> emin F \<le> 0 \<Longrightarrow> repr F (of_int m)"
  unfolding repr_def by (intro exI [of _ m] exI [of _ 0]) (simp add: pow2_def)

lemma repr_scale: "\<bar>m\<bar> \<le> 2 ^ prec F \<Longrightarrow> emin F \<le> e \<Longrightarrow> repr F (of_int m * pow2 e)"
  by (auto simp: repr_def)

text \<open>The fractional part of a representable value is representable, so it is computed exactly.\<close>

lemma repr_frac:
  assumes "repr F x" and "0 \<le> x" and "0 < prec F" and "emin F \<le> 0"
  shows "repr F (x - of_int \<lfloor>x\<rfloor>)"
proof -
  from assms(1) obtain m e where x: "x = of_int m * pow2 e" and m: "\<bar>m\<bar> \<le> 2 ^ prec F"
    and e: "emin F \<le> e" by (auto simp: repr_def)
  show ?thesis
  proof (cases "0 \<le> e")
    case True
    then have "x = of_int (m * 2 ^ nat e)" by (simp add: x pow2_int)
    then have "x - of_int \<lfloor>x\<rfloor> = of_int 0" by (simp only: floor_of_int)
    then show ?thesis using assms(4) by (simp only:) (intro repr_int; simp)
  next
    case False
    define k where "k = m - \<lfloor>x\<rfloor> * 2 ^ nat (- e)"
    have "1 = of_int (2 ^ nat (- e)) * pow2 e"
      using False pow2_split [of e 0] by (simp add: pow2_def)
    then have d: "x - of_int \<lfloor>x\<rfloor> = of_int k * pow2 e"
      by (simp add: k_def x left_diff_distrib mult.assoc flip: of_int_power)
    have "of_int 0 * pow2 e \<le> of_int k * pow2 e" "of_int k * pow2 e \<le> of_int m * pow2 e"
      using assms(2) by (simp_all flip: d x)
    then have "0 \<le> k" "k \<le> m"
      by (simp_all only: mult_le_cancel_right_pos [OF pow2_pos] of_int_le_iff)
    with m show ?thesis using e by (simp only: d) (intro repr_scale; simp)
  qed
qed

subsection \<open>Floating-point values and operations\<close>

datatype flt = Fin rat | PInf | MInf | NaN

definition fround :: "fmt \<Rightarrow> rat \<Rightarrow> flt" where
  "fround F x = (let r = rnd F x in
     if pow2 (emax F + 1) \<le> r then PInf else if r \<le> - pow2 (emax F + 1) then MInf else Fin r)"

fun isfinite :: "flt \<Rightarrow> bool" where
  "isfinite (Fin _) = True"
| "isfinite _ = False"

fun fneg :: "flt \<Rightarrow> flt" where
  "fneg (Fin a) = Fin (- a)"
| "fneg PInf = MInf"
| "fneg MInf = PInf"
| "fneg NaN = NaN"

fun fabs :: "flt \<Rightarrow> flt" where
  "fabs (Fin a) = Fin \<bar>a\<bar>"
| "fabs PInf = PInf"
| "fabs MInf = PInf"
| "fabs NaN = NaN"

fun fadd :: "fmt \<Rightarrow> flt \<Rightarrow> flt \<Rightarrow> flt" where
  "fadd F (Fin a) (Fin b) = fround F (a + b)"
| "fadd F NaN _ = NaN"
| "fadd F _ NaN = NaN"
| "fadd F PInf MInf = NaN"
| "fadd F MInf PInf = NaN"
| "fadd F PInf _ = PInf"
| "fadd F _ PInf = PInf"
| "fadd F MInf _ = MInf"
| "fadd F _ MInf = MInf"

definition fsub :: "fmt \<Rightarrow> flt \<Rightarrow> flt \<Rightarrow> flt" where
  "fsub F a b = fadd F a (fneg b)"

fun fsign :: "flt \<Rightarrow> int" where
  "fsign (Fin a) = (if 0 < a then 1 else if a < 0 then - 1 else 0)"
| "fsign PInf = 1"
| "fsign MInf = - 1"
| "fsign NaN = 0"

definition finf :: "int \<Rightarrow> flt" where
  "finf s = (if s = 0 then NaN else if 0 < s then PInf else MInf)"

fun fmul :: "fmt \<Rightarrow> flt \<Rightarrow> flt \<Rightarrow> flt" where
  "fmul F (Fin a) (Fin b) = fround F (a * b)"
| "fmul F a b = finf (fsign a * fsign b)"

text \<open>Division; a zero divisor gives an infinity or, for \<open>0 / 0\<close>, a NaN.\<close>

fun fdiv :: "fmt \<Rightarrow> flt \<Rightarrow> flt \<Rightarrow> flt" where
  "fdiv F (Fin a) (Fin b) = (if b = 0 then finf (fsign (Fin a)) else fround F (a / b))"
| "fdiv F NaN _ = NaN"
| "fdiv F _ NaN = NaN"
| "fdiv F (Fin _) _ = Fin 0"
| "fdiv F a (Fin b) = finf (fsign a * (if b < 0 then - 1 else 1))"
| "fdiv F _ _ = NaN"

fun fless :: "flt \<Rightarrow> flt \<Rightarrow> bool" where
  "fless (Fin a) (Fin b) \<longleftrightarrow> a < b"
| "fless NaN _ \<longleftrightarrow> False"
| "fless _ NaN \<longleftrightarrow> False"
| "fless MInf b \<longleftrightarrow> b \<noteq> MInf"
| "fless a PInf \<longleftrightarrow> a \<noteq> PInf"
| "fless _ _ \<longleftrightarrow> False"

definition fneq :: "flt \<Rightarrow> flt \<Rightarrow> bool" where
  "fneq a b \<longleftrightarrow> a = NaN \<or> b = NaN \<or> a \<noteq> b"

text \<open>\<^verbatim>\<open>std::clamp\<close>, by its two comparisons.\<close>

definition fclamp :: "flt \<Rightarrow> flt \<Rightarrow> flt \<Rightarrow> flt" where
  "fclamp v lo hi = (if fless v lo then lo else if fless hi v then hi else v)"

definition fmax :: "flt \<Rightarrow> flt \<Rightarrow> flt" where
  "fmax a b = (if fless a b then b else a)"

text \<open>
  Conversions. A literal or an integer is rounded to the format; \<open>fconv\<close> converts between formats.
  A conversion to an unsigned integer truncates towards zero and, out of range, saturates as the
  arm64 instruction does (the language leaves that case undefined).
\<close>

definition fconv :: "fmt \<Rightarrow> flt \<Rightarrow> flt" where
  "fconv F x = (case x of Fin a \<Rightarrow> fround F a | _ \<Rightarrow> x)"

definition dlit :: "rat \<Rightarrow> flt" where "dlit x = fround f64 x"
definition slit :: "rat \<Rightarrow> flt" where "slit x = fround f32 x"

definition double_of_nat :: "nat \<Rightarrow> flt" where "double_of_nat n = fround f64 (of_nat n)"
definition double_of_int :: "int \<Rightarrow> flt" where "double_of_int n = fround f64 (of_int n)"
definition float_of_int :: "int \<Rightarrow> flt" where "float_of_int n = fround f32 (of_int n)"

definition trunc_sat :: "nat \<Rightarrow> flt \<Rightarrow> nat" where
  "trunc_sat w x = (case x of Fin a \<Rightarrow> min (nat \<lfloor>a\<rfloor>) (2 ^ w - 1)
     | PInf \<Rightarrow> 2 ^ w - 1 | _ \<Rightarrow> 0)"

definition ffloor :: "flt \<Rightarrow> flt" where
  "ffloor x = (case x of Fin a \<Rightarrow> Fin (of_int \<lfloor>a\<rfloor>) | _ \<Rightarrow> x)"

text \<open>\<^verbatim>\<open>llround\<close>: to the nearest integer, halves away from zero.\<close>

definition rint_away :: "rat \<Rightarrow> int" where
  "rint_away x = (if 0 \<le> x then \<lfloor>x + 1/2\<rfloor> else \<lceil>x - 1/2\<rceil>)"

subsection \<open>The interface of a format\<close>

text \<open>
  What the components rely on, for any format with at least one significand bit whose range
  includes the integers of its precision. Both formats of the sources are instances.
\<close>

locale fp_format =
  fixes F :: fmt
  assumes prec_pos: "0 < prec F"
    and emin_neg: "emin F < 0"
    and emax_prec: "int (prec F) \<le> emax F"
begin

lemma fround_exact: "repr F x \<Longrightarrow> \<bar>x\<bar> < pow2 (emax F + 1) \<Longrightarrow> fround F x = Fin x"
  using prec_pos by (auto simp: fround_def rnd_exact)

lemma fround_between:
  assumes "repr F lo" and "repr F hi" and "lo \<le> x" and "x \<le> hi"
    and "\<bar>lo\<bar> < pow2 (emax F + 1)" and "\<bar>hi\<bar> < pow2 (emax F + 1)"
  shows "fround F x = Fin (rnd F x) \<and> lo \<le> rnd F x \<and> rnd F x \<le> hi"
proof -
  have "lo \<le> rnd F x" "rnd F x \<le> hi"
    using assms prec_pos by (auto intro: rnd_lower rnd_upper)
  with assms show ?thesis by (auto simp: fround_def Let_def)
qed

lemma small_int_in_range:
  assumes "\<bar>m\<bar> \<le> 2 ^ prec F"
  shows "repr F (of_int m)" and "\<bar>of_int m\<bar> < pow2 (emax F + 1)"
proof -
  show "repr F (of_int m)" using assms emin_neg by (intro repr_int) auto
  have "\<bar>of_int m :: rat\<bar> \<le> of_int (2 ^ prec F)"
    using assms by (simp only: of_int_abs [symmetric] of_int_le_iff)
  also have "\<dots> = pow2 (int (prec F))" by (simp add: pow2_nat)
  also have "\<dots> < pow2 (emax F + 1)"
    using pow2_split [of "int (prec F)" "emax F + 1"] emax_prec
    by (simp add: nat_add_distrib)
  finally show "\<bar>of_int m\<bar> < pow2 (emax F + 1)" .
qed

lemma fround_small_int: "\<bar>m\<bar> \<le> 2 ^ prec F \<Longrightarrow> fround F (of_int m) = Fin (of_int m)"
  by (rule fround_exact) (rule small_int_in_range, assumption)+

lemma fround_between_ints:
  assumes "\<bar>lo\<bar> \<le> 2 ^ prec F" and "\<bar>hi\<bar> \<le> 2 ^ prec F" and "of_int lo \<le> x" and "x \<le> of_int hi"
  shows "fround F x = Fin (rnd F x) \<and> of_int lo \<le> rnd F x \<and> rnd F x \<le> of_int hi"
  using assms by (intro fround_between small_int_in_range)

lemma fround_repr: "fround F x = Fin r \<Longrightarrow> repr F r"
  using prec_pos by (auto simp: fround_def Let_def rnd_repr split: if_splits)

text \<open>Subtracting the integer part is exact.\<close>

lemma fsub_floor:
  assumes "repr F x" and "0 \<le> x"
  shows "fsub F (Fin x) (Fin (of_int \<lfloor>x\<rfloor>)) = Fin (x - of_int \<lfloor>x\<rfloor>)"
proof -
  have r: "repr F (x - of_int \<lfloor>x\<rfloor>)"
    using assms prec_pos emin_neg by (intro repr_frac) auto
  have "\<bar>x - of_int \<lfloor>x\<rfloor>\<bar> < of_int 1" by (simp add: abs_less_iff) linarith
  also have "\<bar>of_int 1 :: rat\<bar> < pow2 (emax F + 1)"
    by (rule small_int_in_range) simp
  then have "of_int 1 < pow2 (emax F + 1)" by simp
  finally show ?thesis
    using r by (simp add: fsub_def fround_exact)
qed

end

interpretation dbl: fp_format f64
  by unfold_locales (auto simp: f64_def)

interpretation sgl: fp_format f32
  by unfold_locales (auto simp: f32_def)

lemma fclamp_Fin:
  assumes "lo \<le> hi" and "v \<noteq> NaN"
  shows "\<exists>r. fclamp v (Fin lo) (Fin hi) = Fin r \<and> lo \<le> r \<and> r \<le> hi"
  using assms by (cases v) (auto simp: fclamp_def)

subsection \<open>Literals and ranges of doubles\<close>

lemma dlit_int: "\<bar>m\<bar> \<le> 2 ^ 53 \<Longrightarrow> dlit (of_int m) = Fin (of_int m)"
  using dbl.fround_small_int [of m] by (simp add: dlit_def f64_def)

lemma dlit_half: "dlit (1/2) = Fin (1/2)" "dlit (3/2) = Fin (3/2)"
proof -
  have "repr f64 (of_int m * pow2 (- 1))" if "\<bar>m\<bar> \<le> 3" for m
    using that by (intro repr_scale) (auto simp: f64_def)
  from this [of 1] this [of 3] have "repr f64 (1/2)" "repr f64 (3/2)" by (simp_all add: pow2_def)
  moreover have "(3/2 :: rat) < pow2 (emax f64 + 1)" by (simp add: f64_def pow2_def)
  ultimately show "dlit (1/2) = Fin (1/2)" "dlit (3/2) = Fin (3/2)"
    unfolding dlit_def by (auto intro!: dbl.fround_exact)
qed

lemma dlit_0_1 [simp]: "dlit 0 = Fin 0" "dlit 1 = Fin 1"
  using dlit_int [of 0] dlit_int [of 1] by simp_all

lemma double_of_u32: "double_of_nat (unat (w :: u32)) = Fin (of_nat (unat w))"
proof -
  have "uint w < 2 ^ 32" using unsigned_less [of w] by simp
  then show ?thesis using dlit_int [of "uint w"] by (simp add: double_of_nat_def dlit_def)
qed

lemma fround_0 [simp]: "fround f32 0 = Fin 0" "fround f64 0 = Fin 0"
  by (simp_all add: fround_def f32_def f64_def pow2_def)

text \<open>
  Finite with integer bounds: enough to show that a computation neither overflows nor produces a NaN.
\<close>

definition fin_in :: "int \<Rightarrow> int \<Rightarrow> flt \<Rightarrow> bool" where
  "fin_in lo hi x \<longleftrightarrow> (case x of Fin q \<Rightarrow> of_int lo \<le> q \<and> q \<le> of_int hi | _ \<Rightarrow> False)"

lemma fin_in_cases:
  assumes "fin_in lo hi x"
  obtains q where "x = Fin q" and "of_int lo \<le> q" and "q \<le> of_int hi"
  using assms by (auto simp: fin_in_def split: flt.splits)

lemma fin_in_finite: "fin_in lo hi x \<Longrightarrow> isfinite x"
  by (auto elim: fin_in_cases)

lemma fin_in_fround:
  "of_int lo \<le> q \<Longrightarrow> q \<le> of_int hi \<Longrightarrow> \<bar>lo\<bar> \<le> 2 ^ 53 \<Longrightarrow> \<bar>hi\<bar> \<le> 2 ^ 53 \<Longrightarrow> fin_in lo hi (fround f64 q)"
  using dbl.fround_between_ints [of lo hi q] by (simp add: fin_in_def f64_def)

lemma fin_in_weaken: "fin_in a b x \<Longrightarrow> lo \<le> a \<Longrightarrow> b \<le> hi \<Longrightarrow> fin_in lo hi x"
  by (auto simp: fin_in_def split: flt.splits)

lemma fin_in_fadd:
  assumes "fin_in a b x" and "fin_in c d y" and "\<bar>a + c\<bar> \<le> 2 ^ 53" and "\<bar>b + d\<bar> \<le> 2 ^ 53"
  shows "fin_in (a + c) (b + d) (fadd f64 x y)"
  using assms by (auto elim!: fin_in_cases intro!: fin_in_fround simp: add_mono)

lemma fin_in_fneg: "fin_in a b x \<Longrightarrow> fin_in (- b) (- a) (fneg x)"
  by (auto simp: fin_in_def split: flt.splits)

lemma fin_in_fsub:
  "fin_in a b x \<Longrightarrow> fin_in c d y \<Longrightarrow> \<bar>a - d\<bar> \<le> 2 ^ 53 \<Longrightarrow> \<bar>b - c\<bar> \<le> 2 ^ 53 \<Longrightarrow>
   fin_in (a - d) (b - c) (fsub f64 x y)"
  using fin_in_fadd [OF _ fin_in_fneg] by (fastforce simp: fsub_def)

lemma fin_in_fmul:
  assumes "fin_in (- b) b x" and "fin_in (- d) d y" and "b * d \<le> 2 ^ 53"
  shows "fin_in (- (b * d)) (b * d) (fmul f64 x y)"
proof -
  obtain p q where pq: "x = Fin p" "\<bar>p\<bar> \<le> of_int b" "y = Fin q" "\<bar>q\<bar> \<le> of_int d"
    using assms(1,2) by (auto elim!: fin_in_cases simp: abs_le_iff)
  then have "\<bar>p * q\<bar> \<le> of_int b * of_int d" by (simp add: abs_mult mult_mono)
  then have "\<bar>p * q\<bar> \<le> of_int (b * d)" by simp
  moreover have "0 \<le> b * d" using pq by (metis abs_ge_zero dual_order.trans mult_nonneg_nonneg of_int_0_le_iff)
  ultimately show ?thesis
    using pq assms(3) by (auto simp: abs_le_iff intro!: fin_in_fround)
qed

lemma fin_in_dlit: "of_int lo \<le> q \<Longrightarrow> q \<le> of_int hi \<Longrightarrow> \<bar>lo\<bar> \<le> 2 ^ 53 \<Longrightarrow> \<bar>hi\<bar> \<le> 2 ^ 53 \<Longrightarrow> fin_in lo hi (dlit q)"
  by (simp add: dlit_def fin_in_fround)

lemma fin_in_u32: "fin_in 0 (2 ^ 32) (double_of_nat (unat (w :: u32)))"
  using u32_less [of w] by (simp add: double_of_u32 fin_in_def del: of_nat_unat)

end
