(* ===== verification/NS6_Ring.thy ===== *)
theory NS6_Ring
  imports NS6_Float
begin

text \<open>
  The two single-producer single-consumer rings of the sources. \<open>AudioOutputRing\<close>
  (\<^verbatim>\<open>numark-ns6/audio-out/AudioOutputRing.cpp\<close>) carries interleaved float frames between CoreAudio
  and the USB worker, with a linear resampler on the consumer side. \<open>NS6CaptureRing\<close>
  (\<^verbatim>\<open>coreaudio/NS6CaptureRing.h\<close>) is the fixed-size stereo ring of the shared-memory driver.
  Both refine one interface, \<open>bounded_fifo\<close>: the stored window of the circular buffer, read from
  the consumer cursor, is a first-in first-out queue of whole frames. A null buffer pointer is
  \<open>None\<close>. The atomic cursors are plain fields: each is written by one side only, and each operation
  below is the run of one side between the loads and the store of its own cursor.
\<close>

subsection \<open>The interface\<close>

datatype 'f fifo_op = Put "'f list" nat | Get nat

text \<open>
  Run a sequence of operations of the two sides; collect the samples the queue accepted and the
  samples it handed out.
\<close>

fun fifo_run :: "('f list \<Rightarrow> nat \<Rightarrow> 'q \<Rightarrow> nat \<times> 'q) \<Rightarrow> (nat \<Rightarrow> 'q \<Rightarrow> 'f list \<times> 'q) \<Rightarrow> nat \<Rightarrow>
    'q \<Rightarrow> 'f fifo_op list \<Rightarrow> 'f list \<times> 'f list \<times> 'q" where
  "fifo_run put get w q [] = ([], [], q)"
| "fifo_run put get w q (Put src n # ops) =
     (case put src n q of (k, q') \<Rightarrow>
        case fifo_run put get w q' ops of (acc, out, q'') \<Rightarrow> (take (k * w) src @ acc, out, q''))"
| "fifo_run put get w q (Get n # ops) =
     (case get n q of (xs, q') \<Rightarrow>
        case fifo_run put get w q' ops of (acc, out, q'') \<Rightarrow> (acc, xs @ out, q''))"

fun fifo_op_ok :: "nat \<Rightarrow> nat \<Rightarrow> 'f fifo_op \<Rightarrow> bool" where
  "fifo_op_ok bnd w (Put src n) \<longleftrightarrow> n < bnd \<and> n * w \<le> length src"
| "fifo_op_ok bnd w (Get n) \<longleftrightarrow> n < bnd"

text \<open>What an operation answers: the frames accepted, or the samples handed out.\<close>

datatype 'f fifo_result = Accepted nat | Delivered "'f list"

fun fifo_step :: "('f list \<Rightarrow> nat \<Rightarrow> 'q \<Rightarrow> nat \<times> 'q) \<Rightarrow> (nat \<Rightarrow> 'q \<Rightarrow> 'f list \<times> 'q) \<Rightarrow> 'f fifo_op \<Rightarrow> 'q \<Rightarrow> 'f fifo_result \<times> 'q" where
  "fifo_step put get (Put src n) q = (case put src n q of (k, q') \<Rightarrow> (Accepted k, q'))"
| "fifo_step put get (Get n) q = (case get n q of (xs, q') \<Rightarrow> (Delivered xs, q'))"

text \<open>
  The reference: a queue of at most \<open>capacity\<close> frames of \<open>width\<close> samples. It accepts as many of the frames offered as there is room for, and
  hands out as many of the frames asked for as it has, oldest first.
\<close>

fun queue_step :: "nat \<Rightarrow> nat \<Rightarrow> 'f fifo_op \<Rightarrow> 'f list \<Rightarrow> 'f fifo_result \<times> 'f list" where
  "queue_step capacity width (Put src n) q =
     (let k = min n (capacity - length q div width) in (Accepted k, q @ take (k * width) src))"
| "queue_step capacity width (Get n) q =
     (let k = min n (length q div width) in (Delivered (take (k * width) q), drop (k * width) q))"

locale bounded_fifo =
  fixes inv :: "'q \<Rightarrow> bool"
    and contents :: "'q \<Rightarrow> 'f list"
    and width :: "'q \<Rightarrow> nat"
    and capacity :: "'q \<Rightarrow> nat"
    and bnd :: nat
    and put :: "'f list \<Rightarrow> nat \<Rightarrow> 'q \<Rightarrow> nat \<times> 'q"
    and get :: "nat \<Rightarrow> 'q \<Rightarrow> 'f list \<times> 'q"
  assumes bounded: "inv q \<Longrightarrow> length (contents q) \<le> capacity q * width q"
    and whole: "inv q \<Longrightarrow> 0 < width q \<and> width q dvd length (contents q)"
    and put_spec: "inv q \<Longrightarrow> n < bnd \<Longrightarrow> n * width q \<le> length src \<Longrightarrow> put src n q = (k, q') \<Longrightarrow>
      inv q' \<and> width q' = width q \<and> capacity q' = capacity q \<and>
      k * width q = min (n * width q) (capacity q * width q - length (contents q)) \<and>
      contents q' = contents q @ take (k * width q) src"
    and get_spec: "inv q \<Longrightarrow> n < bnd \<Longrightarrow> get n q = (xs, q') \<Longrightarrow>
      inv q' \<and> width q' = width q \<and> capacity q' = capacity q \<and>
      xs @ contents q' = contents q \<and> length xs = min (n * width q) (length (contents q))"
begin

lemma step_queue:
  assumes "inv q" and "fifo_op_ok bnd (width q) op" and "fifo_step put get op q = (x, q')"
  shows "inv q' \<and> width q' = width q \<and> capacity q' = capacity q \<and> queue_step (capacity q) (width q) op (contents q) = (x, contents q')"
proof -
  obtain j where j: "length (contents q) = j * width q" and w: "0 < width q" using whole [OF assms(1)] by (auto elim: dvdE)
  show ?thesis
  proof (cases op)
    case (Put src n)
    then obtain k where p: "put src n q = (k, q')" "x = Accepted k" using assms(3) by (auto split: prod.splits)
    have spec: "inv q'" "width q' = width q" "capacity q' = capacity q" "k * width q = min (n * width q) (capacity q * width q - length (contents q))"
      "contents q' = contents q @ take (k * width q) src"
      using put_spec [OF assms(1) _ _ p(1)] assms(2) Put by auto
    have "k * width q = min n (capacity q - j) * width q" using spec(4) j by (simp add: nat_mult_min_left diff_mult_distrib)
    then have "k = min n (capacity q - j)" using w by simp
    then show ?thesis using spec p Put j w by (simp add: Let_def)
  next
    case (Get n)
    then obtain xs where g: "get n q = (xs, q')" "x = Delivered xs" using assms(3) by (auto split: prod.splits)
    have spec: "inv q'" "width q' = width q" "capacity q' = capacity q" "xs @ contents q' = contents q" "length xs = min (n * width q) (length (contents q))"
      using get_spec [OF assms(1) _ g(1)] assms(2) Get by auto
    have "length xs = min n j * width q" using spec(5) j by (simp add: nat_mult_min_left)
    then have "xs = take (min n j * width q) (contents q)" "contents q' = drop (min n j * width q) (contents q)"
      using spec(4) by (metis append_eq_conv_conj)+
    then show ?thesis using spec g Get j w by (simp add: Let_def)
  qed
qed

text \<open>Whatever the interleaving of the two sides, every answer is that of the reference queue.\<close>

lemma run_queue:
  "inv q \<Longrightarrow> list_all (fifo_op_ok bnd (width q)) ops \<Longrightarrow> run_ops (fifo_step put get) ops q = (xs, q') \<Longrightarrow>
   inv q' \<and> width q' = width q \<and> capacity q' = capacity q \<and> run_ops (queue_step (capacity q) (width q)) ops (contents q) = (xs, contents q')"
proof (induction ops arbitrary: q xs)
  case (Cons op ops)
  obtain x q1 where s: "fifo_step put get op q = (x, q1)" by fastforce
  obtain ys q2 where r: "run_ops (fifo_step put get) ops q1 = (ys, q2)" by fastforce
  have op: "fifo_op_ok bnd (width q) op" using Cons.prems(2) by simp
  note spec = step_queue [OF Cons.prems(1) op s]
  with Cons.IH [of q1 ys] Cons.prems r s show ?case by auto
qed simp

end

subsection \<open>AudioOutputRing\<close>

record AudioOutputRing =
  r_capacityFrames :: u32
  r_channels :: u32
  r_samples :: "flt list"
  r_writeFrame :: u32
  r_readFrame :: u32
  r_readFraction :: flt

text \<open>The constructor; \<open>None\<close> is the \<^verbatim>\<open>std::invalid_argument\<close> it throws.\<close>

definition AudioOutputRing_new :: "u32 \<Rightarrow> u32 \<Rightarrow> AudioOutputRing option" where
  "AudioOutputRing_new capacityFrames channels =
     (if capacityFrames = 0 \<or> UINT32_MAX div 2 < capacityFrames \<or> channels = 0 \<or>
         (2 ^ 64 - 1) div unat capacityFrames < unat channels
      then None
      else Some \<lparr>r_capacityFrames = capacityFrames, r_channels = channels,
                 r_samples = replicate (unat capacityFrames * unat channels) (Fin 0),
                 r_writeFrame = 0, r_readFrame = 0, r_readFraction = Fin 0\<rparr>)"

definition ring_write :: "flt list option \<Rightarrow> u32 \<Rightarrow> AudioOutputRing \<Rightarrow> u32 \<times> AudioOutputRing" where
  "ring_write interleaved frames r =
     (case interleaved of None \<Rightarrow> (0, r) | Some src \<Rightarrow>
      if frames = 0 then (0, r) else
      let writeFrame = r_writeFrame r; readFrame = r_readFrame r;
          used = writeFrame - readFrame;
          count = min frames (r_capacityFrames r - used);
          offset = writeFrame mod r_capacityFrames r;
          firstFrames = min count (r_capacityFrames r - offset);
          firstSamples = unat firstFrames * unat (r_channels r);
          s1 = overwrite (unat offset * unat (r_channels r)) (take firstSamples src) (r_samples r);
          remainingFrames = count - firstFrames;
          s2 = (if remainingFrames \<noteq> 0
                then overwrite 0 (take (unat remainingFrames * unat (r_channels r))
                                       (drop firstSamples src)) s1
                else s1)
      in (count, r\<lparr>r_samples := s2, r_writeFrame := writeFrame + count\<rparr>))"

text \<open>The destination buffer is returned with the copied samples in place.\<close>

definition ring_read ::
    "flt list option \<Rightarrow> u32 \<Rightarrow> AudioOutputRing \<Rightarrow> u32 \<times> flt list option \<times> AudioOutputRing" where
  "ring_read interleaved frames r =
     (case interleaved of None \<Rightarrow> (0, None, r) | Some dst \<Rightarrow>
      if frames = 0 then (0, Some dst, r) else
      let readFrame = r_readFrame r; writeFrame = r_writeFrame r;
          available = writeFrame - readFrame;
          count = min frames available;
          offset = readFrame mod r_capacityFrames r;
          firstFrames = min count (r_capacityFrames r - offset);
          firstSamples = unat firstFrames * unat (r_channels r);
          d1 = overwrite 0 (take firstSamples (drop (unat offset * unat (r_channels r)) (r_samples r))) dst;
          remainingFrames = count - firstFrames;
          d2 = (if remainingFrames \<noteq> 0
                then overwrite firstSamples
                       (take (unat remainingFrames * unat (r_channels r)) (r_samples r)) d1
                else d1)
      in (count, Some d2, r\<lparr>r_readFrame := readFrame + count\<rparr>))"

definition ring_availableFrames :: "AudioOutputRing \<Rightarrow> u32" where
  "ring_availableFrames r = min (r_writeFrame r - r_readFrame r) (r_capacityFrames r)"

text \<open>A step outside 0.5 to 1.5, or not finite, is replaced by one.\<close>

definition sane_step :: "flt \<Rightarrow> flt" where
  "sane_step sourceStep =
     (if \<not> isfinite sourceStep \<or> fless sourceStep (dlit (1/2)) \<or> fless (dlit (3/2)) sourceStep
      then dlit 1 else sourceStep)"

definition trunc_u32 :: "flt \<Rightarrow> u32" where
  "trunc_u32 x = word_of_nat (trunc_sat 32 x)"

text \<open>One output frame: every channel interpolated between two neighbouring source frames.\<close>

definition interpolate_channels :: "AudioOutputRing \<Rightarrow> u32 \<Rightarrow> u32 \<Rightarrow> flt \<Rightarrow> flt list" where
  "interpolate_channels r firstSlot secondSlot fraction =
     map (\<lambda>channel.
        let first = r_samples r ! (unat firstSlot * unat (r_channels r) + channel);
            second = r_samples r ! (unat secondSlot * unat (r_channels r) + channel)
        in fadd f32 first (fmul f32 (fconv f32 fraction) (fsub f32 second first)))
       [0..<unat (r_channels r)]"

text \<open>The loop of \<^verbatim>\<open>readResampled\<close>; the first number counts the iterations left.\<close>

fun resample_loop :: "nat \<Rightarrow> AudioOutputRing \<Rightarrow> u32 \<Rightarrow> flt \<Rightarrow> nat \<Rightarrow> flt \<Rightarrow> flt list \<Rightarrow>
    nat \<times> flt \<times> flt list" where
  "resample_loop 0 r available sourceStep produced phase out = (produced, phase, out)"
| "resample_loop (Suc left) r available sourceStep produced phase out =
     (let firstOffset = trunc_u32 phase;
          fraction = fsub f64 phase (double_of_nat (unat firstOffset))
      in if available \<le> firstOffset then (produced, phase, out) else
      let secondOffset = firstOffset +
            (if fless (dlit 0) fraction \<and> firstOffset + 1 < available then 1 else 0);
          firstSlot = (r_readFrame r + firstOffset) mod r_capacityFrames r;
          secondSlot = (r_readFrame r + secondOffset) mod r_capacityFrames r
      in resample_loop left r available sourceStep (Suc produced) (fadd f64 phase sourceStep)
           (overwrite (produced * unat (r_channels r))
              (interpolate_channels r firstSlot secondSlot fraction) out))"

definition ring_readResampled ::
    "flt list option \<Rightarrow> u32 \<Rightarrow> flt \<Rightarrow> AudioOutputRing \<Rightarrow> u32 \<times> flt list option \<times> AudioOutputRing" where
  "ring_readResampled interleaved frames sourceStep r =
     (if interleaved = None \<and> frames \<noteq> 0 then (0, interleaved, r) else
      let step = sane_step sourceStep;
          available = min (r_writeFrame r - r_readFrame r) (r_capacityFrames r);
          dst = (case interleaved of None \<Rightarrow> [] | Some d \<Rightarrow> d)
      in case resample_loop (unat frames) r available step 0 (r_readFraction r) dst of
         (produced, phase, out) \<Rightarrow>
           let consumed = min (trunc_u32 phase) available
           in (word_of_nat produced, map_option (\<lambda>_. out) interleaved,
               r\<lparr>r_readFraction := fsub f64 phase (ffloor phase),
                 r_readFrame := r_readFrame r + consumed\<rparr>))"

definition ring_advanceResampled :: "u32 \<Rightarrow> flt \<Rightarrow> AudioOutputRing \<Rightarrow> AudioOutputRing" where
  "ring_advanceResampled frames sourceStep r =
     (let phase = fadd f64 (r_readFraction r)
                    (fmul f64 (double_of_nat (unat frames)) (sane_step sourceStep));
          consumed = min (trunc_u32 phase) (ring_availableFrames r)
      in r\<lparr>r_readFraction := fsub f64 phase (ffloor phase),
           r_readFrame := r_readFrame r + consumed\<rparr>)"

subsection \<open>The ring as a queue\<close>

definition ring_used :: "AudioOutputRing \<Rightarrow> nat" where
  "ring_used r = unat (r_writeFrame r - r_readFrame r)"

definition ring_contents :: "AudioOutputRing \<Rightarrow> flt list" where
  "ring_contents r =
     window (unat (r_capacityFrames r) * unat (r_channels r)) (ring_used r * unat (r_channels r))
       (r_samples r) (unat (r_readFrame r) * unat (r_channels r))"

text \<open>A resampling phase between two frames: finite, in [0, 1), a value of the format.\<close>

definition frac_ok :: "flt \<Rightarrow> bool" where
  "frac_ok x = (case x of Fin f \<Rightarrow> 0 \<le> f \<and> f < 1 \<and> rnd f64 f = f | _ \<Rightarrow> False)"

definition ring_inv :: "AudioOutputRing \<Rightarrow> bool" where
  "ring_inv r \<longleftrightarrow>
     0 < unat (r_capacityFrames r) \<and> unat (r_capacityFrames r) < 2 ^ 31 \<and> 0 < unat (r_channels r) \<and>
     length (r_samples r) = unat (r_capacityFrames r) * unat (r_channels r) \<and>
     ring_used r \<le> unat (r_capacityFrames r) \<and> frac_ok (r_readFraction r)"

text \<open>
  The cursors count frames modulo \<open>2 ^ 32\<close>, so positions continue over the wrap exactly when the
  capacity divides \<open>2 ^ 32\<close>; the driver builds its rings with 16384 frames.
\<close>

definition ring_regular :: "AudioOutputRing \<Rightarrow> bool" where
  "ring_regular r \<longleftrightarrow> ring_inv r \<and> unat (r_capacityFrames r) dvd 2 ^ 32"

lemma unat_min: "unat (min a b) = min (unat a) (unat b)" for a b :: "'a::len word"
  by (simp add: min_def word_le_nat_alt)

lemma unat_add_small: "unat a + unat b < 2 ^ 32 \<Longrightarrow> unat (a + b) = unat a + unat b" for a b :: u32
  by (simp add: unat_word_ariths)

lemma unat_cursor_add:
  fixes i k :: u32
  assumes "c dvd 2 ^ 32"
  shows "unat (i + k) mod c = (unat i + unat k) mod c"
proof -
  have "unat (i + k) = (unat i + unat k) mod 2 ^ 32"
    by (simp add: unat_word_ariths)
  then show ?thesis using assms by (simp add: mod_mod_cancel)
qed

lemma ring_writeFrame_pos:
  assumes "ring_regular r"
  shows "unat (r_writeFrame r) mod unat (r_capacityFrames r) =
    (unat (r_readFrame r) + ring_used r) mod unat (r_capacityFrames r)"
proof -
  have "r_writeFrame r = r_readFrame r + (r_writeFrame r - r_readFrame r)" by simp
  then show ?thesis
    using assms unat_cursor_add unfolding ring_regular_def ring_used_def by metis
qed

text \<open>
  The two block copies of \<open>ring_write\<close> are one circular write, and the number accepted is what fits.
\<close>

lemma ring_write_circ:
  assumes "ring_inv r" and "frames \<noteq> 0" and "unat frames * unat (r_channels r) \<le> length src"
    and "count = min frames (r_capacityFrames r - (r_writeFrame r - r_readFrame r))"
  shows "ring_write (Some src) frames r = (count, r\<lparr>
      r_samples := circ_write (unat (r_capacityFrames r) * unat (r_channels r))
        (unat (r_writeFrame r) * unat (r_channels r)) (take (unat count * unat (r_channels r)) src) (r_samples r),
      r_writeFrame := r_writeFrame r + count\<rparr>)"
proof -
  define cap ch w where "cap = unat (r_capacityFrames r)" and "ch = unat (r_channels r)"
    and "w = r_writeFrame r mod r_capacityFrames r"
  have cap: "0 < cap" "0 < ch" using assms by (auto simp: ring_inv_def cap_def ch_def)
  have w: "unat w = unat (r_writeFrame r) mod cap"
    by (simp add: w_def cap_def unat_mod)
  then have wcap: "unat w < cap" using cap by simp
  have le: "w \<le> r_capacityFrames r"
    using wcap by (simp add: word_le_nat_alt cap_def)
  define first where "first = min count (r_capacityFrames r - w)"
  have first: "unat first = min (unat count) (cap - unat w)"
    using le by (simp add: first_def unat_min unat_sub cap_def)
  have rem: "unat (count - first) = unat count - unat first"
    by (intro unat_sub) (simp add: first_def)
  have cnt: "unat count * ch \<le> length src"
  proof -
    have "unat count \<le> unat frames" by (simp add: assms(4) unat_min)
    then show ?thesis using assms(3) by (simp add: ch_def) (meson le_trans mult_le_mono1)
  qed
  have off: "(unat (r_writeFrame r) * ch) mod (cap * ch) = unat w * ch"
    by (simp add: w mult_mod_left)
  have fs: "min (unat count * ch) (cap * ch - unat w * ch) = unat first * ch"
    by (simp add: first nat_mult_min_left diff_mult_distrib)
  have len: "length (take (unat count * ch) src) = unat count * ch"
    using cnt by simp
  have le2: "unat first * ch \<le> unat count * ch" by (simp add: first)
  have "circ_write (cap * ch) (unat (r_writeFrame r) * ch) (take (unat count * ch) src) (r_samples r) =
      overwrite 0 (take (unat (count - first) * ch) (drop (unat first * ch) src))
        (overwrite (unat w * ch) (take (unat first * ch) src) (r_samples r))"
    by (simp only: circ_write_def Let_def len off fs)
      (simp add: rem drop_take diff_mult_distrib min_absorb1 [OF le2])
  moreover have "overwrite 0 (take (unat (count - first) * ch) (drop (unat first * ch) src)) s =
      (if count - first \<noteq> 0
       then overwrite 0 (take (unat (count - first) * ch) (drop (unat first * ch) src)) s else s)" for s
    by simp
  moreover have "ring_write (Some src) frames r = (count, r\<lparr>
      r_samples := (let s = overwrite (unat w * ch) (take (unat first * ch) src) (r_samples r) in
        if count - first \<noteq> 0
        then overwrite 0 (take (unat (count - first) * ch) (drop (unat first * ch) src)) s else s),
      r_writeFrame := r_writeFrame r + count\<rparr>)"
    unfolding ring_write_def
    by (simp only: Let_def option.case assms(2) if_False flip: assms(4) w_def first_def ch_def)
  ultimately show ?thesis
    by (simp only: Let_def flip: cap_def ch_def)
qed

lemma ring_write_count:
  assumes "ring_inv r" and "frames \<noteq> 0" and "unat frames * unat (r_channels r) \<le> length src"
    and "ring_write (Some src) frames r = (count, r')"
  shows "unat count = min (unat frames) (unat (r_capacityFrames r) - ring_used r)"
proof -
  have "r_writeFrame r - r_readFrame r \<le> r_capacityFrames r"
    using assms(1) by (simp add: ring_inv_def ring_used_def word_le_nat_alt)
  then show ?thesis
    using assms ring_write_circ [OF assms(1-3) refl]
    by (auto simp: unat_min unat_sub ring_used_def)
qed

lemma ring_used_write:
  assumes "ring_inv r" and "unat count \<le> unat (r_capacityFrames r) - ring_used r"
  shows "ring_used (r\<lparr>r_samples := ss, r_writeFrame := r_writeFrame r + count\<rparr>) = ring_used r + unat count"
proof -
  have "r_writeFrame r + count - r_readFrame r = (r_writeFrame r - r_readFrame r) + count" by simp
  moreover have "unat (r_writeFrame r - r_readFrame r) + unat count < 2 ^ 32"
    using assms by (auto simp: ring_inv_def ring_used_def)
  ultimately have "unat (r_writeFrame r + count - r_readFrame r) =
      unat (r_writeFrame r - r_readFrame r) + unat count"
    by (simp only: unat_add_small)
  then show ?thesis by (simp add: ring_used_def)
qed

lemma ring_write_spec:
  assumes "ring_regular r" and "unat frames * unat (r_channels r) \<le> length src"
    and "ring_write (Some src) frames r = (count, r')"
  shows "ring_regular r' \<and> r_capacityFrames r' = r_capacityFrames r \<and> r_channels r' = r_channels r \<and>
    unat count = min (unat frames) (unat (r_capacityFrames r) - ring_used r) \<and>
    ring_contents r' = ring_contents r @ take (unat count * unat (r_channels r)) src"
proof (cases "frames = 0")
  case True
  then show ?thesis using assms by (simp add: ring_write_def)
next
  case False
  let ?cap = "unat (r_capacityFrames r)" and ?ch = "unat (r_channels r)"
  have inv: "ring_inv r" using assms by (simp add: ring_regular_def)
  have cnt: "unat count = min (unat frames) (?cap - ring_used r)"
    using ring_write_count [OF inv False assms(2,3)] .
  let ?ys = "take (unat count * ?ch) src"
  have "unat count * ?ch \<le> unat frames * ?ch" by (simp add: cnt)
  then have "unat count * ?ch \<le> length src" using assms(2) by (rule le_trans)
  then have ys: "length ?ys = unat count * ?ch" by (simp only: length_take min_absorb2)
  have r': "r' = r\<lparr>r_samples := circ_write (?cap * ?ch) (unat (r_writeFrame r) * ?ch) ?ys (r_samples r),
      r_writeFrame := r_writeFrame r + count\<rparr>"
    using ring_write_circ [OF inv False assms(2) refl] assms(3) by auto
  have used: "ring_used r' = ring_used r + unat count"
    unfolding r' using cnt by (intro ring_used_write [OF inv]) simp
  have N: "0 < ?cap * ?ch" "length (r_samples r) = ?cap * ?ch" "ring_used r \<le> ?cap"
    using inv by (auto simp: ring_inv_def)
  have fit: "ring_used r * ?ch + length ?ys \<le> ?cap * ?ch"
  proof -
    have "ring_used r + unat count \<le> ?cap" using N(3) cnt by simp
    from mult_le_mono1 [OF this, of ?ch] show ?thesis by (simp only: ys add_mult_distrib)
  qed
  have pos: "unat (r_writeFrame r) * ?ch mod (?cap * ?ch) =
      (unat (r_readFrame r) * ?ch + ring_used r * ?ch) mod (?cap * ?ch)"
    by (simp only: add_mult_distrib [symmetric] mult_mod_left [symmetric] ring_writeFrame_pos [OF assms(1)])
  have "ring_contents r' = ring_contents r @ ?ys"
    using window_circ_write [OF N(1,2) fit pos]
    by (simp only: ring_contents_def used ys add_mult_distrib) (simp add: r' ys)
  moreover have "ring_used r + unat count \<le> ?cap" using N(3) cnt by simp
  then have "ring_regular r'"
    using assms(1) N(1,2) ys fit by (auto simp: ring_regular_def ring_inv_def used) (simp_all add: r')
  ultimately show ?thesis using cnt by (simp add: r')
qed

lemma ring_read_window:
  assumes "ring_inv r" and "frames \<noteq> 0"
    and "count = min frames (r_writeFrame r - r_readFrame r)"
  shows "ring_read (Some dst) frames r = (count,
      Some (overwrite 0 (window (unat (r_capacityFrames r) * unat (r_channels r))
        (unat count * unat (r_channels r)) (r_samples r) (unat (r_readFrame r) * unat (r_channels r))) dst),
      r\<lparr>r_readFrame := r_readFrame r + count\<rparr>)"
proof -
  define cap ch w where "cap = unat (r_capacityFrames r)" and "ch = unat (r_channels r)"
    and "w = r_readFrame r mod r_capacityFrames r"
  have cap: "0 < cap" "0 < ch" "length (r_samples r) = cap * ch"
    using assms by (auto simp: ring_inv_def cap_def ch_def)
  have w: "unat w = unat (r_readFrame r) mod cap"
    by (simp add: w_def cap_def unat_mod)
  then have "unat w < cap" using cap by simp
  then have le: "w \<le> r_capacityFrames r" and wle: "unat w * ch \<le> cap * ch"
    by (simp_all add: word_le_nat_alt cap_def)
  define first where "first = min count (r_capacityFrames r - w)"
  have first: "unat first = min (unat count) (cap - unat w)"
    using le by (simp add: first_def unat_min unat_sub cap_def)
  have rem: "unat (count - first) = unat count - unat first"
    by (intro unat_sub) (simp add: first_def)
  have off: "unat (r_readFrame r) * ch mod (cap * ch) = unat w * ch"
    by (simp add: w mult_mod_left)
  have fs: "unat first * ch = min (unat count * ch) (cap * ch - unat (r_readFrame r) * ch mod (cap * ch))"
    by (simp add: off first nat_mult_min_left diff_mult_distrib)
  have "unat count \<le> cap"
    using assms by (auto simp: unat_min ring_inv_def ring_used_def cap_def)
  then have m: "unat count * ch \<le> cap * ch" by simp
  let ?a = "take (unat first * ch) (drop (unat w * ch) (r_samples r))"
  let ?b = "take (unat (count - first) * ch) (r_samples r)"
  have win: "window (cap * ch) (unat count * ch) (r_samples r) (unat (r_readFrame r) * ch) = ?a @ ?b"
    using window_two_parts [OF _ cap(3) m fs] cap(1,2) by (simp add: off rem diff_mult_distrib)
  have la: "length ?a = unat first * ch"
    using fs wle by (simp add: cap(3) off)
  have "overwrite 0 (?a @ ?b) dst = (if count - first \<noteq> 0
      then overwrite (unat first * ch) ?b (overwrite 0 ?a dst) else overwrite 0 ?a dst)"
  proof -
    from overwrite_overwrite_append [of ?a ?b dst]
    have "overwrite (unat first * ch) ?b (overwrite 0 ?a dst) = overwrite 0 (?a @ ?b) dst"
      unfolding la .
    then show ?thesis by simp
  qed
  moreover have "ring_read (Some dst) frames r = (count, Some (if count - first \<noteq> 0
      then overwrite (unat first * ch) ?b (overwrite 0 ?a dst) else overwrite 0 ?a dst),
      r\<lparr>r_readFrame := r_readFrame r + count\<rparr>)"
    unfolding ring_read_def
    by (simp only: Let_def option.case assms(2) if_False flip: assms(3) w_def first_def ch_def)
  ultimately show ?thesis
    by (simp only: win flip: cap_def ch_def)
qed

text \<open>Dropping frames from the consumer side: shared by reading and by advancing.\<close>

lemma ring_consume:
  assumes "ring_regular r" and "unat k \<le> ring_used r" and "frac_ok f"
  defines "r' \<equiv> r\<lparr>r_readFraction := f, r_readFrame := r_readFrame r + k\<rparr>"
  shows "ring_regular r' \<and> ring_used r' = ring_used r - unat k \<and>
    ring_contents r' = drop (unat k * unat (r_channels r)) (ring_contents r)"
proof -
  let ?ch = "unat (r_channels r)" and ?cap = "unat (r_capacityFrames r)"
  have "k \<le> r_writeFrame r - r_readFrame r"
    using assms(2) by (simp add: ring_used_def word_le_nat_alt)
  then have used: "ring_used r' = ring_used r - unat k"
    by (simp add: ring_used_def r'_def diff_diff_eq [symmetric] unat_sub)
  have "unat (r_readFrame r + k) mod ?cap = (unat (r_readFrame r) + unat k) mod ?cap"
    using assms(1) by (intro unat_cursor_add) (simp add: ring_regular_def)
  then have "unat (r_readFrame r + k) * ?ch mod (?cap * ?ch) =
      (unat (r_readFrame r) * ?ch + unat k * ?ch) mod (?cap * ?ch)"
    by (simp only: add_mult_distrib [symmetric] mult_mod_left [symmetric])
  from window_cong_mod [OF this]
  have "ring_contents r' = drop (unat k * ?ch) (ring_contents r)"
    by (simp add: ring_contents_def used drop_window diff_mult_distrib) (simp add: r'_def)
  moreover have "ring_regular r'"
    using assms(1,3) by (auto simp: ring_regular_def ring_inv_def used) (simp_all add: r'_def)
  ultimately show ?thesis using used by simp
qed

lemma ring_read_spec:
  assumes "ring_regular r" and "ring_read (Some dst) frames r = (count, dst', r')"
  shows "ring_regular r' \<and> r_capacityFrames r' = r_capacityFrames r \<and> r_channels r' = r_channels r \<and>
    unat count = min (unat frames) (ring_used r) \<and>
    dst' = Some (overwrite 0 (take (unat count * unat (r_channels r)) (ring_contents r)) dst) \<and>
    ring_contents r' = drop (unat count * unat (r_channels r)) (ring_contents r)"
proof (cases "frames = 0")
  case True
  then show ?thesis using assms by (auto simp: ring_read_def)
next
  case False
  have inv: "ring_inv r" using assms by (simp add: ring_regular_def)
  have rd: "count = min frames (r_writeFrame r - r_readFrame r)"
      "r' = r\<lparr>r_readFraction := r_readFraction r, r_readFrame := r_readFrame r + count\<rparr>"
    using ring_read_window [OF inv False refl, of dst] assms(2) by auto
  have cnt: "unat count = min (unat frames) (ring_used r)"
    by (simp add: rd(1) unat_min ring_used_def)
  have "take (unat count * unat (r_channels r)) (ring_contents r) =
      window (unat (r_capacityFrames r) * unat (r_channels r)) (unat count * unat (r_channels r))
        (r_samples r) (unat (r_readFrame r) * unat (r_channels r))"
    by (simp add: ring_contents_def take_window cnt)
  moreover have "frac_ok (r_readFraction r)" using inv by (simp add: ring_inv_def)
  ultimately show ?thesis
    using ring_consume [OF assms(1), of count "r_readFraction r"] cnt assms(2)
      ring_read_window [OF inv False rd(1)]
    by (simp add: rd(2))
qed

subsection \<open>The resampler\<close>

lemma sane_step_cases:
  obtains s where "sane_step x = Fin s" and "1/2 \<le> s" and "s \<le> 3/2"
proof -
  have "\<exists>s. sane_step x = Fin s \<and> 1/2 \<le> s \<and> s \<le> 3/2"
    by (cases x) (simp_all add: sane_step_def dlit_half)
  then show ?thesis using that by blast
qed

lemma sane_step_1 [simp]: "sane_step (Fin 1) = Fin 1"
  by (simp add: sane_step_def dlit_half)

text \<open>The phase the loop keeps: a nonnegative double, at most \<open>2 n + 1\<close> after \<open>n\<close> frames.\<close>

definition phase_ok :: "nat \<Rightarrow> flt \<Rightarrow> bool" where
  "phase_ok n x = (case x of Fin p \<Rightarrow> 0 \<le> p \<and> p \<le> of_int (2 * int n + 1) \<and> rnd f64 p = p | _ \<Rightarrow> False)"

lemma phase_ok_start: "frac_ok x \<Longrightarrow> phase_ok 0 x"
  by (auto simp: frac_ok_def phase_ok_def split: flt.splits)

lemma phase_ok_step:
  assumes "phase_ok n x" and "n < 2 ^ 32"
  shows "phase_ok (Suc n) (fadd f64 x (sane_step st))"
proof -
  obtain s where s: "sane_step st = Fin s" "1/2 \<le> s" "s \<le> 3/2" by (rule sane_step_cases)
  from assms obtain p where p: "x = Fin p" "0 \<le> p" "p \<le> of_int (2 * int n + 1)"
    by (auto simp: phase_ok_def split: flt.splits)
  have "fround f64 (p + s) = Fin (rnd f64 (p + s)) \<and> of_int 0 \<le> rnd f64 (p + s) \<and>
      rnd f64 (p + s) \<le> of_int (2 * int (Suc n) + 1)"
    by (rule dbl.fround_between_ints) (use assms(2) p s in \<open>auto simp: f64_def\<close>)
  moreover have "rnd f64 (rnd f64 (p + s)) = rnd f64 (p + s)"
    using dbl.prec_pos by (intro rnd_exact rnd_repr)
  ultimately show ?thesis by (simp add: p s phase_ok_def)
qed

lemma phase_ok_frac: "phase_ok n x \<Longrightarrow> frac_ok (fsub f64 x (ffloor x))"
proof -
  assume "phase_ok n x"
  then obtain p where x: "x = Fin p" and p: "0 \<le> p" "rnd f64 p = p"
    by (auto simp: phase_ok_def split: flt.splits)
  have rep: "repr f64 p" using rnd_repr [of f64 p] dbl.prec_pos p by simp
  then have "repr f64 (p - of_int \<lfloor>p\<rfloor>)"
    using p dbl.prec_pos dbl.emin_neg by (intro repr_frac) auto
  then have "rnd f64 (p - of_int \<lfloor>p\<rfloor>) = p - of_int \<lfloor>p\<rfloor>"
    using dbl.prec_pos by (intro rnd_exact)
  moreover have "p - of_int \<lfloor>p\<rfloor> < 1" by linarith
  ultimately show ?thesis
    using dbl.fsub_floor [OF rep p(1)] by (simp add: x ffloor_def frac_ok_def)
qed

lemma resample_loop_phase:
  "phase_ok produced phase \<Longrightarrow> produced + left \<le> 2 ^ 32 \<Longrightarrow>
   resample_loop left r available (sane_step st) produced phase out = (n, phase', out') \<Longrightarrow>
   phase_ok n phase' \<and> produced \<le> n \<and> n \<le> produced + left"
proof (induction left arbitrary: produced phase out)
  case 0
  then show ?case by simp
next
  case (Suc left)
  show ?case
  proof (cases "available \<le> trunc_u32 phase")
    case True
    with Suc.prems show ?thesis by (simp add: Let_def)
  next
    case False
    have "phase_ok (Suc produced) (fadd f64 phase (sane_step st))"
      using Suc.prems by (intro phase_ok_step) auto
    with False Suc.prems Suc.IH show ?thesis by (fastforce simp: Let_def)
  qed
qed

text \<open>
  The reference resampler works on the queue itself: the output frame at phase \<open>p\<close> interpolates the
  queued frame \<open>\<lfloor>p\<rfloor>\<close> and its successor, or repeats the last one, and the phase advances by the step
  with one double rounding.
\<close>

definition resample_frame :: "nat \<Rightarrow> flt list \<Rightarrow> rat \<Rightarrow> flt list" where
  "resample_frame ch xs p =
     (let i = nat \<lfloor>p\<rfloor>; q = p - of_int \<lfloor>p\<rfloor>;
          j = (if 0 < q \<and> (i + 1) * ch < length xs then i + 1 else i)
      in map (\<lambda>c. fadd f32 (xs ! (i * ch + c))
           (fmul f32 (fround f32 q) (fsub f32 (xs ! (j * ch + c)) (xs ! (i * ch + c))))) [0..<ch])"

fun resample_ref :: "nat \<Rightarrow> nat \<Rightarrow> flt list \<Rightarrow> rat \<Rightarrow> rat \<Rightarrow> flt list list \<times> rat" where
  "resample_ref 0 ch xs s p = ([], p)"
| "resample_ref (Suc n) ch xs s p =
     (if length xs \<le> nat \<lfloor>p\<rfloor> * ch then ([], p)
      else case resample_ref n ch xs s (rnd f64 (p + s)) of (frames, p') \<Rightarrow>
        (resample_frame ch xs p # frames, p'))"

lemma trunc_u32_Fin: "0 \<le> p \<Longrightarrow> unat (trunc_u32 (Fin p)) = min (nat \<lfloor>p\<rfloor>) (2 ^ 32 - 1)"
  by (simp add: trunc_u32_def trunc_sat_def unat_of_nat)

lemma ring_sample:
  assumes "ring_regular r" and "unat off < ring_used r" and "c < unat (r_channels r)"
  shows "r_samples r ! (unat ((r_readFrame r + off) mod r_capacityFrames r) * unat (r_channels r) + c) =
    ring_contents r ! (unat off * unat (r_channels r) + c)"
proof -
  let ?cap = "unat (r_capacityFrames r)" and ?ch = "unat (r_channels r)"
  have cap: "?cap dvd 2 ^ 32" "0 < ?cap" using assms(1) by (auto simp: ring_regular_def ring_inv_def)
  define o' where "o' = (unat (r_readFrame r) + unat off) mod ?cap"
  have o': "o' < ?cap" using cap by (simp add: o'_def)
  have "unat off * ?ch + c < ring_used r * ?ch"
    using assms(2,3) by (rule lane_less)
  moreover have "o' * ?ch + c < ?cap * ?ch"
    using o' assms(3) by (rule lane_less)
  moreover from this have "(unat (r_readFrame r) * ?ch + (unat off * ?ch + c)) mod (?cap * ?ch) = o' * ?ch + c"
  proof -
    have "(unat (r_readFrame r) * ?ch + (unat off * ?ch + c)) mod (?cap * ?ch) =
        ((unat (r_readFrame r) + unat off) * ?ch mod (?cap * ?ch) + c) mod (?cap * ?ch)"
      by (simp only: mod_add_left_eq add_mult_distrib add.assoc)
    also have "\<dots> = (o' * ?ch + c) mod (?cap * ?ch)"
      by (simp only: o'_def mult_mod_left)
    finally show ?thesis using \<open>o' * ?ch + c < ?cap * ?ch\<close> by simp
  qed
  ultimately show ?thesis
    using unat_cursor_add [OF cap(1), of "r_readFrame r" off]
    by (simp add: ring_contents_def unat_mod o'_def)
qed

lemma interpolate_channels_ref:
  assumes "ring_regular r" and "unat i < ring_used r" and "unat j < ring_used r" and "ch = unat (r_channels r)"
  shows "interpolate_channels r ((r_readFrame r + i) mod r_capacityFrames r)
      ((r_readFrame r + j) mod r_capacityFrames r) (Fin q) =
    map (\<lambda>c. fadd f32 (ring_contents r ! (unat i * ch + c))
      (fmul f32 (fround f32 q) (fsub f32 (ring_contents r ! (unat j * ch + c)) (ring_contents r ! (unat i * ch + c)))))
      [0..<ch]"
  using assms by (simp add: interpolate_channels_def Let_def ring_sample fconv_def)

lemma length_ring_contents: "length (ring_contents r) = ring_used r * unat (r_channels r)"
  by (simp add: ring_contents_def)

lemma ring_available: "ring_inv r \<Longrightarrow> min (r_writeFrame r - r_readFrame r) (r_capacityFrames r) = r_writeFrame r - r_readFrame r"
  by (simp add: ring_inv_def ring_used_def min_def word_le_nat_alt)

text \<open>One iteration of the loop, when it stops and when it emits a frame.\<close>

lemma resample_loop_stops:
  assumes "ring_regular r" and "phase_ok m (Fin p)"
  shows "r_writeFrame r - r_readFrame r \<le> trunc_u32 (Fin p) \<longleftrightarrow>
    length (ring_contents r) \<le> nat \<lfloor>p\<rfloor> * unat (r_channels r)"
proof -
  have "unat (trunc_u32 (Fin p)) = min (nat \<lfloor>p\<rfloor>) (2 ^ 32 - 1)"
    using assms(2) by (intro trunc_u32_Fin) (simp add: phase_ok_def)
  moreover have "0 < unat (r_channels r)" "ring_used r < 2 ^ 31"
    using assms(1) by (auto simp: ring_regular_def ring_inv_def)
  ultimately show ?thesis by (auto simp: length_ring_contents word_le_nat_alt ring_used_def)
qed

lemma resample_loop_emits:
  assumes "ring_regular r" and "phase_ok m (Fin p)"
    and "\<not> r_writeFrame r - r_readFrame r \<le> trunc_u32 (Fin p)"
  shows "resample_loop (Suc left) r (r_writeFrame r - r_readFrame r) (Fin s) k (Fin p) out =
    resample_loop left r (r_writeFrame r - r_readFrame r) (Fin s) (Suc k) (fround f64 (p + s))
      (overwrite (k * unat (r_channels r)) (resample_frame (unat (r_channels r)) (ring_contents r) p) out)"
proof -
  let ?ch = "unat (r_channels r)" and ?av = "r_writeFrame r - r_readFrame r"
  have inv: "0 < ?ch" "ring_used r < 2 ^ 31"
    using assms(1) by (auto simp: ring_regular_def ring_inv_def)
  have p: "0 \<le> p" "rnd f64 p = p" using assms(2) by (auto simp: phase_ok_def)
  then have rep: "repr f64 p" using rnd_repr [of f64 p] dbl.prec_pos by simp
  define i where "i = trunc_u32 (Fin p)"
  define q where "q = p - of_int \<lfloor>p\<rfloor>"
  have i: "unat i = min (nat \<lfloor>p\<rfloor>) (2 ^ 32 - 1)" using p by (simp add: i_def trunc_u32_Fin)
  from assms(3) have lt: "unat i < ring_used r" by (simp add: i_def word_le_nat_alt ring_used_def)
  with i inv have ui: "nat \<lfloor>p\<rfloor> = unat i" by simp
  have q: "fsub f64 (Fin p) (double_of_nat (unat i)) = Fin q"
  proof -
    have "rat_of_nat (unat i) = of_int \<lfloor>p\<rfloor>" using p(1) by (simp add: ui [symmetric])
    then show ?thesis using dbl.fsub_floor [OF rep p(1)] by (simp only: double_of_u32 q_def)
  qed
  have i1: "unat (i + 1) = unat i + 1" using lt inv by (intro unat_add_small [THEN trans]) auto
  define j where "j = i + (if fless (dlit 0) (Fin q) \<and> i + 1 < ?av then 1 else 0)"
  have nxt: "i + 1 < ?av \<longleftrightarrow> (unat i + 1) * ?ch < length (ring_contents r)"
    using inv(1) by (simp only: word_less_nat_alt i1 length_ring_contents ring_used_def mult_less_cancel2 simp_thms)
  have j: "unat j = (if 0 < q \<and> (unat i + 1) * ?ch < length (ring_contents r) then unat i + 1 else unat i)"
    unfolding nxt [symmetric] by (simp add: j_def i1)
  have "unat j < ring_used r"
    using lt by (auto simp: j_def i1 ring_used_def word_less_nat_alt)
  from interpolate_channels_ref [OF assms(1) lt this refl, of q]
  have "interpolate_channels r ((r_readFrame r + i) mod r_capacityFrames r)
      ((r_readFrame r + j) mod r_capacityFrames r) (Fin q) = resample_frame ?ch (ring_contents r) p"
    by (simp only: resample_frame_def Let_def ui j flip: q_def)
  then show ?thesis
    using assms(3) by (simp only: resample_loop.simps Let_def q if_False fadd.simps flip: i_def j_def)
qed

lemma resample_loop_ref:
  assumes "ring_regular r" and "sane_step st = Fin s"
  shows "phase_ok m (Fin p) \<Longrightarrow> m + left \<le> 2 ^ 32 \<Longrightarrow>
   (m + left) * unat (r_channels r) \<le> length out \<Longrightarrow>
   resample_ref left (unat (r_channels r)) (ring_contents r) s p = (frames, p') \<Longrightarrow>
   resample_loop left r (r_writeFrame r - r_readFrame r) (Fin s) m (Fin p) out =
     (m + length frames, Fin p', overwrite (m * unat (r_channels r)) (concat frames) out)"
proof (induction left arbitrary: m p out frames)
  case 0
  then show ?case by simp
next
  case (Suc left)
  let ?ch = "unat (r_channels r)" and ?frame = "resample_frame (unat (r_channels r)) (ring_contents r) p"
  note stops = resample_loop_stops [OF assms(1) Suc.prems(1)]
  have out: "m * ?ch + ?ch \<le> length out" using Suc.prems(3) by (simp add: algebra_simps)
  have len: "length ?frame = ?ch" by (simp add: resample_frame_def Let_def)
  show ?case
  proof (cases "r_writeFrame r - r_readFrame r \<le> trunc_u32 (Fin p)")
    case True
    with stops Suc.prems out show ?thesis by (simp add: Let_def del: fadd.simps split: if_splits)
  next
    case False
    have ok: "phase_ok (Suc m) (fadd f64 (Fin p) (sane_step st))"
      using Suc.prems by (intro phase_ok_step) auto
    then have fr: "fround f64 (p + s) = Fin (rnd f64 (p + s))"
      by (auto simp: assms(2) phase_ok_def fround_def Let_def split: if_splits)
    with ok have ok': "phase_ok (Suc m) (Fin (rnd f64 (p + s)))" by (simp add: assms(2))
    obtain rest where rest: "resample_ref left ?ch (ring_contents r) s (rnd f64 (p + s)) = (rest, p')"
        "frames = ?frame # rest"
      using Suc.prems(4) stops False by (auto split: prod.splits)
    have "overwrite (Suc m * ?ch) (concat rest) (overwrite (m * ?ch) ?frame out) =
        overwrite (m * ?ch) (concat frames) out"
      using overwrite_append_at [of "m * ?ch" out ?frame "concat rest"] out
      by (simp add: len rest(2) add.commute)
    then show ?thesis
      using Suc.IH [OF ok' _ _ rest(1), of "overwrite (m * ?ch) ?frame out"] Suc.prems(2,3) out len
        resample_loop_emits [OF assms(1) Suc.prems(1) False]
      by (simp add: fr rest(2) del: resample_loop.simps)
  qed
qed

lemma ring_readResampled_ref:
  assumes "ring_regular r" and "unat frames * unat (r_channels r) \<le> length dst"
    and "sane_step st = Fin s" and "r_readFraction r = Fin f"
    and "resample_ref (unat frames) (unat (r_channels r)) (ring_contents r) s f = (out, p)"
    and "ring_readResampled (Some dst) frames st r = (produced, dst', r')"
  shows "unat produced = length out \<and> length out \<le> unat frames \<and>
    dst' = Some (overwrite 0 (concat out) dst) \<and> ring_regular r' \<and>
    r_capacityFrames r' = r_capacityFrames r \<and> r_channels r' = r_channels r \<and>
    ring_contents r' = drop (nat \<lfloor>p\<rfloor> * unat (r_channels r)) (ring_contents r) \<and>
    r' = r\<lparr>r_readFraction := Fin (p - of_int \<lfloor>p\<rfloor>),
           r_readFrame := r_readFrame r + word_of_nat (min (nat \<lfloor>p\<rfloor>) (ring_used r))\<rparr>"
proof -
  let ?ch = "unat (r_channels r)" and ?av = "r_writeFrame r - r_readFrame r"
  have inv: "ring_inv r" "ring_used r < 2 ^ 31" using assms(1) by (auto simp: ring_regular_def ring_inv_def)
  then have f: "phase_ok 0 (Fin f)"
    using phase_ok_start [of "Fin f"] assms(4) by (simp add: ring_inv_def)
  have fr: "unat frames < 2 ^ 32" using unsigned_less [of frames] by simp
  have loop: "resample_loop (unat frames) r ?av (Fin s) 0 (Fin f) dst =
      (length out, Fin p, overwrite 0 (concat out) dst)"
    using resample_loop_ref [OF assms(1,3) f _ _ assms(5), of dst] assms(2) fr by simp
  then have ph: "phase_ok (length out) (Fin p)" and le: "length out \<le> unat frames"
    using resample_loop_phase [OF f, of "unat frames" r ?av st] fr by (auto simp: assms(3))
  define k where "k = min (trunc_u32 (Fin p)) ?av"
  have p0: "0 \<le> p" using ph by (simp add: phase_ok_def)
  have k: "unat k = min (nat \<lfloor>p\<rfloor>) (ring_used r)"
    using inv p0 by (simp add: k_def unat_min trunc_u32_Fin ring_used_def)
  have "rnd f64 p = p" using ph by (simp add: phase_ok_def)
  then have "repr f64 p" using rnd_repr [of f64 p] dbl.prec_pos by simp
  from dbl.fsub_floor [OF this p0]
  have frac: "fsub f64 (Fin p) (ffloor (Fin p)) = Fin (p - of_int \<lfloor>p\<rfloor>)" by (simp add: ffloor_def)
  have kw: "word_of_nat (min (nat \<lfloor>p\<rfloor>) (ring_used r)) = k"
    by (simp only: k [symmetric] word_of_unat)
  have eq: "produced = word_of_nat (length out)" "dst' = Some (overwrite 0 (concat out) dst)"
      "r' = r\<lparr>r_readFraction := Fin (p - of_int \<lfloor>p\<rfloor>), r_readFrame := r_readFrame r + k\<rparr>"
    using assms(6) by (simp_all add: ring_readResampled_def assms(3,4) ring_available [OF inv(1)] loop frac k_def)
  have "drop (unat k * ?ch) (ring_contents r) = drop (nat \<lfloor>p\<rfloor> * ?ch) (ring_contents r)"
    by (cases "nat \<lfloor>p\<rfloor> \<le> ring_used r") (simp_all add: k length_ring_contents)
  then show ?thesis
    using ring_consume [OF assms(1), of k, OF _ phase_ok_frac [OF ph]] k le fr
    by (simp add: eq frac unat_of_nat kw)
qed

lemma fround_phase_ok:
  assumes "0 \<le> x" and "x \<le> of_int (2 * int n + 1)" and "n \<le> 2 ^ 32"
  shows "phase_ok n (fround f64 x)"
proof -
  have "fround f64 x = Fin (rnd f64 x) \<and> of_int 0 \<le> rnd f64 x \<and> rnd f64 x \<le> of_int (2 * int n + 1)"
    by (rule dbl.fround_between_ints) (use assms in \<open>auto simp: f64_def\<close>)
  moreover have "rnd f64 (rnd f64 x) = rnd f64 x" using dbl.prec_pos by (intro rnd_exact rnd_repr)
  ultimately show ?thesis by (simp add: phase_ok_def)
qed

lemma ring_advance_phase:
  fixes frames :: u32
  assumes "frac_ok x"
  shows "phase_ok (unat frames) (fadd f64 x (fmul f64 (double_of_nat (unat frames)) (sane_step st)))"
proof -
  obtain s where s: "sane_step st = Fin s" "1/2 \<le> s" "s \<le> 3/2" by (rule sane_step_cases)
  from assms obtain f where f: "x = Fin f" "0 \<le> f" "f < 1" by (auto simp: frac_ok_def split: flt.splits)
  define n where "n = unat frames"
  have n: "n < 2 ^ 32" "double_of_nat n = Fin (of_nat n)"
    using u32_less [of frames] double_of_u32 [of frames] by (auto simp: n_def)
  let ?x = "of_nat n * s"
  have "?x \<le> of_nat n * 2" "0 \<le> ?x" using s by (auto intro!: mult_left_mono)
  then have "fround f64 ?x = Fin (rnd f64 ?x) \<and> of_int 0 \<le> rnd f64 ?x \<and> rnd f64 ?x \<le> of_int (2 * int n)"
    using n by (intro dbl.fround_between_ints) (auto simp: f64_def)
  moreover from this have "phase_ok n (fround f64 (f + rnd f64 ?x))"
    using f n by (intro fround_phase_ok) auto
  ultimately show ?thesis by (simp add: s f n flip: n_def)
qed

lemma ring_advanceResampled_spec:
  assumes "ring_regular r" and "r' = ring_advanceResampled frames st r"
  shows "ring_regular r' \<and> r_capacityFrames r' = r_capacityFrames r \<and> r_channels r' = r_channels r \<and>
    (\<exists>k \<le> ring_used r. ring_contents r' = drop (k * unat (r_channels r)) (ring_contents r))"
proof -
  have inv: "ring_inv r" "frac_ok (r_readFraction r)"
    using assms(1) by (auto simp: ring_regular_def ring_inv_def)
  define ph where "ph = fadd f64 (r_readFraction r) (fmul f64 (double_of_nat (unat frames)) (sane_step st))"
  define k where "k = min (trunc_u32 ph) (ring_availableFrames r)"
  have r': "r' = r\<lparr>r_readFraction := fsub f64 ph (ffloor ph), r_readFrame := r_readFrame r + k\<rparr>"
    by (simp add: assms(2) ring_advanceResampled_def Let_def ph_def k_def)
  have "frac_ok (fsub f64 ph (ffloor ph))"
    unfolding ph_def by (rule phase_ok_frac) (rule ring_advance_phase [OF inv(2)])
  moreover have "unat k \<le> ring_used r"
    by (simp add: k_def unat_min ring_availableFrames_def ring_used_def)
  ultimately show ?thesis using ring_consume [OF assms(1), of k] by (auto simp: r')
qed

subsection \<open>AudioOutputRing implements the interface\<close>

definition ring_put :: "flt list \<Rightarrow> nat \<Rightarrow> AudioOutputRing \<Rightarrow> nat \<times> AudioOutputRing" where
  "ring_put src n r = (case ring_write (Some src) (word_of_nat n) r of (k, r') \<Rightarrow> (unat k, r'))"

definition ring_get :: "nat \<Rightarrow> AudioOutputRing \<Rightarrow> flt list \<times> AudioOutputRing" where
  "ring_get n r =
     (let width = unat (r_channels r) in
      case ring_read (Some (replicate (n * width) (Fin 0))) (word_of_nat n) r of
        (k, dst, r') \<Rightarrow> (take (unat k * width) (case dst of None \<Rightarrow> [] | Some d \<Rightarrow> d), r'))"

lemma ring_regularD: "ring_regular r \<Longrightarrow> ring_used r \<le> unat (r_capacityFrames r)"
  "ring_regular r \<Longrightarrow> 0 < unat (r_channels r)"
  by (auto simp: ring_regular_def ring_inv_def)

interpretation rq: bounded_fifo ring_regular ring_contents "\<lambda>r. unat (r_channels r)"
  "\<lambda>r. unat (r_capacityFrames r)" "2 ^ 32" ring_put ring_get
proof unfold_locales
  fix q assume "ring_regular q"
  then show "length (ring_contents q) \<le> unat (r_capacityFrames q) * unat (r_channels q)"
    by (simp add: length_ring_contents ring_regularD)
next
  fix q assume "ring_regular q"
  then show "0 < unat (r_channels q) \<and> unat (r_channels q) dvd length (ring_contents q)"
    by (simp add: length_ring_contents ring_regularD(2))
next
  fix q q' n src k
  assume *: "ring_regular q" "n < 2 ^ 32" "n * unat (r_channels q) \<le> length src" "ring_put src n q = (k, q')"
  then have n: "unat (word_of_nat n :: u32) = n" by (simp add: unat_of_nat)
  obtain w where w: "ring_write (Some src) (word_of_nat n) q = (w, q')" "k = unat w"
    using *(4) by (auto simp: ring_put_def split: prod.splits)
  show "ring_regular q' \<and> unat (r_channels q') = unat (r_channels q) \<and>
      unat (r_capacityFrames q') = unat (r_capacityFrames q) \<and>
      k * unat (r_channels q) = min (n * unat (r_channels q))
        (unat (r_capacityFrames q) * unat (r_channels q) - length (ring_contents q)) \<and>
      ring_contents q' = ring_contents q @ take (k * unat (r_channels q)) src"
    using ring_write_spec [OF *(1) _ w(1)] *(3)
    by (simp add: n w(2) length_ring_contents nat_mult_min_left diff_mult_distrib)
next
  fix q q' n xs
  assume *: "ring_regular q" "n < 2 ^ 32" "ring_get n q = (xs, q')"
  then have n: "unat (word_of_nat n :: u32) = n" by (simp add: unat_of_nat)
  let ?dst = "replicate (n * unat (r_channels q)) (Fin 0)"
  obtain w d where w: "ring_read (Some ?dst) (word_of_nat n) q = (w, d, q')"
      "xs = take (unat w * unat (r_channels q)) (case d of None \<Rightarrow> [] | Some d \<Rightarrow> d)"
    using *(3) by (auto simp: ring_get_def Let_def split: prod.splits)
  show "ring_regular q' \<and> unat (r_channels q') = unat (r_channels q) \<and>
      unat (r_capacityFrames q') = unat (r_capacityFrames q) \<and>
      xs @ ring_contents q' = ring_contents q \<and>
      length xs = min (n * unat (r_channels q)) (length (ring_contents q))"
    using ring_read_spec [OF *(1) w(1)] ring_regularD [OF *(1)]
    by (auto simp: n w(2) length_ring_contents nat_mult_min_left overwrite_def)
qed

lemma AudioOutputRing_new_inv:
  assumes "AudioOutputRing_new c ch = Some r"
  shows "ring_inv r \<and> ring_contents r = [] \<and> r_capacityFrames r = c \<and> r_channels r = ch"
proof -
  have "unat c < 2 ^ 31" if "\<not> UINT32_MAX div 2 < c"
    using that by (simp add: word_less_nat_alt unat_div)
  then show ?thesis
    using assms by (auto simp: AudioOutputRing_new_def ring_inv_def ring_used_def ring_contents_def
        frac_ok_def unat_gt_0 split: if_splits)
qed

subsection \<open>Resampling by one\<close>

definition sample_ok :: "flt \<Rightarrow> bool" where
  "sample_ok x \<longleftrightarrow> (case x of Fin a \<Rightarrow> fround f32 a = Fin a | _ \<Rightarrow> False)"

lemma fadd_0_interp: "sample_ok x \<Longrightarrow> fadd f32 x (fmul f32 (Fin 0) (fsub f32 x x)) = x"
  by (cases x) (simp_all add: sample_ok_def fsub_def)

lemma resample_frame_int:
  assumes "list_all sample_ok xs" and "m * ch + ch \<le> length xs"
  shows "resample_frame ch xs (of_nat m) = take ch (drop (m * ch) xs)"
proof (rule nth_equalityI)
  fix c assume "c < length (resample_frame ch xs (of_nat m))"
  then have "c < ch" by (simp add: resample_frame_def Let_def)
  moreover from this have "sample_ok (xs ! (m * ch + c))" using assms by (simp add: list_all_length)
  ultimately show "resample_frame ch xs (of_nat m) ! c = take ch (drop (m * ch) xs) ! c"
    using assms(2) by (simp add: resample_frame_def Let_def fadd_0_interp)
qed (use assms(2) in \<open>simp add: resample_frame_def Let_def\<close>)

lemma resample_ref_int:
  assumes "list_all sample_ok xs" and "length xs = u * ch" and "0 < ch"
  shows "m + n \<le> 2 ^ 32 \<Longrightarrow> m \<le> u \<Longrightarrow> k = min n (u - m) \<Longrightarrow>
    \<exists>frames. resample_ref n ch xs 1 (of_nat m) = (frames, of_nat (m + k)) \<and>
      length frames = k \<and> concat frames = take (k * ch) (drop (m * ch) xs)"
proof (induction n arbitrary: m k)
  case 0
  then show ?case by simp
next
  case (Suc n)
  show ?case
  proof (cases "u \<le> m")
    case True
    then show ?thesis using Suc.prems assms by simp
  next
    case False
    have "fround f64 (of_int (int m + 1)) = Fin (of_int (int m + 1))"
      by (rule dbl.fround_small_int) (use Suc.prems in \<open>simp add: f64_def\<close>)
    then have rnd: "rnd f64 (of_nat m + 1) = of_nat (Suc m)"
      by (auto simp: fround_def Let_def add.commute split: if_splits)
    have len: "m * ch + ch \<le> length xs"
      using False mult_le_mono1 [of "Suc m" u ch] by (simp add: assms(2))
    have k: "k = Suc (k - 1)" "k - 1 = min n (u - Suc m)" using Suc.prems False by auto
    have "Suc m + n \<le> 2 ^ 32" "Suc m \<le> u" using Suc.prems False by auto
    from Suc.IH [OF this k(2)]
    obtain frames where f: "resample_ref n ch xs 1 (of_nat (Suc m)) = (frames, of_nat (Suc m + (k - 1)))"
        "length frames = k - 1" "concat frames = take ((k - 1) * ch) (drop (Suc m * ch) xs)"
      by blast
    have mk: "Suc m + (k - 1) = m + k" using k(1) by simp
    have "take (k * ch) (drop (m * ch) xs) =
        take ch (drop (m * ch) xs) @ take ((k - 1) * ch) (drop (Suc m * ch) xs)"
      by (subst k(1)) (simp add: take_add add.commute)
    then show ?thesis
      using f(1) [unfolded mk] f(2,3) k(1) False assms(2,3) resample_frame_int [OF assms(1) len]
      by (intro exI [of _ "take ch (drop (m * ch) xs) # frames"]) (simp add: rnd del: of_nat_Suc of_nat_add)
  qed
qed

lemma ring_readResampled_unit:
  assumes "ring_regular r" and "r_readFraction r = Fin 0" and "list_all sample_ok (ring_contents r)"
    and "unat frames * unat (r_channels r) \<le> length dst"
  shows "ring_readResampled (Some dst) frames (Fin 1) r = ring_read (Some dst) frames r"
proof -
  let ?ch = "unat (r_channels r)" and ?k = "min (unat frames) (ring_used r)"
  have fr: "unat frames \<le> 2 ^ 32" using u32_less by (rule less_imp_le)
  obtain out where out: "resample_ref (unat frames) ?ch (ring_contents r) 1 0 = (out, of_nat ?k)"
      "length out = ?k" "concat out = take (?k * ?ch) (ring_contents r)"
    using resample_ref_int [OF assms(3) length_ring_contents ring_regularD(2) [OF assms(1)], of 0 "unat frames" ?k] fr
    by auto
  obtain pr d r' where res: "ring_readResampled (Some dst) frames (Fin 1) r = (pr, d, r')"
    by (metis prod_cases3)
  obtain pr2 d2 r2 where rd: "ring_read (Some dst) frames r = (pr2, d2, r2)"
    by (metis prod_cases3)
  note R = ring_readResampled_ref [OF assms(1,4) sane_step_1 assms(2) out(1) res]
  note S = ring_read_spec [OF assms(1) rd]
  have "pr = pr2" using R S out(2) by (intro word_unat_eq_iff [THEN iffD2]) simp
  moreover have "r2 = r\<lparr>r_readFrame := r_readFrame r + pr2\<rparr>"
    using rd by (auto simp: ring_read_def Let_def split: if_splits)
  moreover have "word_of_nat (min (nat \<lfloor>of_nat ?k :: rat\<rfloor>) (ring_used r)) = pr2"
  proof -
    have "min (nat \<lfloor>of_nat ?k :: rat\<rfloor>) (ring_used r) = unat pr2" using S by simp
    then show ?thesis by (simp only: word_of_unat)
  qed
  ultimately show ?thesis
    using R S out assms(2) by (simp add: res rd)
qed

subsection \<open>NS6CaptureRing\<close>

record NS6CaptureRing =
  c_samples :: "flt list"
  c_head :: u64
  c_tail :: u64

abbreviation (input) NS6_CAPTURE_RING_CAPACITY :: nat where "NS6_CAPTURE_RING_CAPACITY \<equiv> 8192"
abbreviation (input) NS6_CAPTURE_RING_CHANNELS :: nat where "NS6_CAPTURE_RING_CHANNELS \<equiv> 2"

definition ns6_capture_ring_init :: "NS6CaptureRing option \<Rightarrow> NS6CaptureRing option" where
  "ns6_capture_ring_init ring = map_option (\<lambda>r. r\<lparr>c_head := 0, c_tail := 0\<rparr>) ring"

definition ns6_capture_ring_clear :: "NS6CaptureRing option \<Rightarrow> NS6CaptureRing option" where
  "ns6_capture_ring_clear ring = map_option (\<lambda>r. r\<lparr>c_tail := c_head r\<rparr>) ring"

definition capture_slot :: "u64 \<Rightarrow> nat \<Rightarrow> nat" where
  "capture_slot cursor frame =
     unat ((cursor + word_of_nat frame) mod word_of_nat NS6_CAPTURE_RING_CAPACITY) * NS6_CAPTURE_RING_CHANNELS"

definition ns6_capture_ring_write ::
    "NS6CaptureRing option \<Rightarrow> flt list option \<Rightarrow> u64 \<Rightarrow> u64 \<times> NS6CaptureRing option" where
  "ns6_capture_ring_write ring input frames =
     (case (ring, input) of (Some r, Some inp) \<Rightarrow>
        if frames = 0 then (0, ring) else
        let used = c_head r - c_tail r in
        if word_of_nat NS6_CAPTURE_RING_CAPACITY \<le> used then (0, ring) else
        let available = word_of_nat NS6_CAPTURE_RING_CAPACITY - used;
            frames = (if available < frames then available else frames);
            samples = fold (\<lambda>frame s. let slot = capture_slot (c_head r) frame in
                s[slot := inp ! (frame * NS6_CAPTURE_RING_CHANNELS),
                  slot + 1 := inp ! (frame * NS6_CAPTURE_RING_CHANNELS + 1)])
              [0..<unat frames] (c_samples r)
        in (frames, Some (r\<lparr>c_samples := samples, c_head := c_head r + frames\<rparr>))
      | _ \<Rightarrow> (0, ring))"

text \<open>The output beyond the frames consumed is silence.\<close>

definition ns6_capture_ring_read :: "NS6CaptureRing option \<Rightarrow> flt list option \<Rightarrow> u64 \<Rightarrow>
    u64 \<times> flt list option \<times> NS6CaptureRing option" where
  "ns6_capture_ring_read ring output frames =
     (case (ring, output) of (Some r, Some out) \<Rightarrow>
        if frames = 0 then (0, output, ring) else
        let available = c_head r - c_tail r;
            consumed = (if frames < available then frames else available);
            o1 = fold (\<lambda>frame s. let slot = capture_slot (c_tail r) frame in
                s[frame * NS6_CAPTURE_RING_CHANNELS := c_samples r ! slot,
                  frame * NS6_CAPTURE_RING_CHANNELS + 1 := c_samples r ! (slot + 1)])
              [0..<unat consumed] out;
            o2 = fold (\<lambda>frame s.
                s[frame * NS6_CAPTURE_RING_CHANNELS := Fin 0,
                  frame * NS6_CAPTURE_RING_CHANNELS + 1 := Fin 0])
              [unat consumed..<unat frames] o1
        in (consumed, Some o2, Some (r\<lparr>c_tail := c_tail r + consumed\<rparr>))
      | _ \<Rightarrow> (0, output, ring))"

definition capture_used :: "NS6CaptureRing \<Rightarrow> nat" where
  "capture_used r = unat (c_head r - c_tail r)"

definition capture_contents :: "NS6CaptureRing \<Rightarrow> flt list" where
  "capture_contents r = window 16384 (capture_used r * 2) (c_samples r) (unat (c_tail r) * 2)"

definition capture_inv :: "NS6CaptureRing \<Rightarrow> bool" where
  "capture_inv r \<longleftrightarrow> length (c_samples r) = 16384 \<and> capture_used r \<le> 8192"

lemma fold_two_updates:
  "n * 2 + m * 2 \<le> length s \<Longrightarrow>
   fold (\<lambda>k s. s[k * 2 := f k, k * 2 + 1 := g k]) [m..<m + n] s =
   overwrite (m * 2) (concat (map (\<lambda>k. [f k, g k]) [m..<m + n])) s"
proof (induction n arbitrary: m s)
  case 0
  then show ?case by simp
next
  case (Suc n)
  have "s[m * 2 := f m, m * 2 + 1 := g m] = overwrite (m * 2) [f m, g m] s"
    using Suc.prems by (auto simp: list_eq_iff_nth_eq nth_overwrite nth_list_update less_Suc_eq)
  moreover have "overwrite (m * 2 + 2) ys (overwrite (m * 2) [f m, g m] s) = overwrite (m * 2) ([f m, g m] @ ys) s" for ys
    using overwrite_append_at [of "m * 2" s "[f m, g m]" ys] Suc.prems by simp
  moreover have "[m..<m + Suc n] = m # [Suc m..<Suc m + n]" by (simp add: upt_rec)
  ultimately show ?case
    using Suc.IH [of "Suc m" "s[m * 2 := f m, m * 2 + 1 := g m]"] Suc.prems
    by (simp add: add.commute)
qed

lemma circ_write_pair:
  assumes "0 < c" and "length s = c * 2"
  shows "circ_write (c * 2) (k * 2) [x, y] s = s[k mod c * 2 := x, k mod c * 2 + 1 := y]"
proof -
  define o' where "o' = k mod c"
  have o': "o' < c" using assms(1) by (simp add: o'_def)
  then have "min 2 (c * 2 - o' * 2) = 2" by simp
  moreover have "k * 2 mod (c * 2) = o' * 2" by (simp add: o'_def mult_mod_left)
  ultimately have "circ_write (c * 2) (k * 2) [x, y] s = overwrite (o' * 2) [x, y] s"
    by (simp add: circ_write_def mult.commute)
  also have "\<dots> = s[o' * 2 := x, o' * 2 + 1 := y]"
    using o' assms(2) by (auto simp: list_eq_iff_nth_eq nth_overwrite nth_list_update less_Suc_eq)
  finally show ?thesis by (simp add: o'_def)
qed

lemma capture_slot_eq: "capture_slot cursor frame = (unat cursor + frame) mod 8192 * 2"
proof -
  have "unat (cursor + word_of_nat frame) = (unat cursor + frame) mod 2 ^ 64"
    by (simp add: unat_word_ariths unat_of_nat mod_simps)
  then show ?thesis by (simp add: capture_slot_def unat_mod mod_mod_cancel)
qed

lemma capture_store:
  assumes "length s = 16384"
  shows "n \<le> 8192 \<Longrightarrow> n * 2 \<le> length inp \<Longrightarrow>
    fold (\<lambda>frame s. let slot = capture_slot cursor frame in
       s[slot := inp ! (frame * 2), slot + 1 := inp ! (frame * 2 + 1)]) [0..<n] s =
    circ_write 16384 (unat cursor * 2) (take (n * 2) inp) s"
proof (induction n)
  case 0
  then show ?case by (simp add: circ_write_def assms Let_def)
next
  case (Suc n)
  let ?b = "[inp ! (n * 2), inp ! (n * 2 + 1)]"
  have len: "length (take (n * 2) inp) = n * 2" using Suc.prems by simp
  have "take (Suc n * 2) inp = take (n * 2) inp @ ?b"
    using Suc.prems by (simp add: take_Suc_conv_app_nth)
  moreover have "circ_write 16384 (unat cursor * 2 + n * 2) ?b (circ_write 16384 (unat cursor * 2) (take (n * 2) inp) s) =
      circ_write 16384 (unat cursor * 2) (take (n * 2) inp @ ?b) s"
    using circ_write_append [of 16384 s "take (n * 2) inp" ?b "unat cursor * 2"] Suc.prems assms
    by (simp add: len)
  moreover have "length (circ_write 16384 (unat cursor * 2) (take (n * 2) inp) s) = 8192 * 2"
    using Suc.prems assms by simp
  from circ_write_pair [OF _ this, of "unat cursor + n"]
  have "(circ_write 16384 (unat cursor * 2) (take (n * 2) inp) s)
      [capture_slot cursor n := inp ! (n * 2), capture_slot cursor n + 1 := inp ! (n * 2 + 1)] =
     circ_write 16384 (unat cursor * 2 + n * 2) ?b (circ_write 16384 (unat cursor * 2) (take (n * 2) inp) s)"
    by (simp add: capture_slot_eq add_mult_distrib)
  ultimately show ?case using Suc by (simp add: Let_def)
qed

lemma capture_fits: "unat a + unat b < 2 ^ 64 \<Longrightarrow> unat (a + b) = unat a + unat b" for a b :: u64
  by (simp add: unat_word_ariths)

lemma capture_position: "unat (a + b) * 2 mod 16384 = (unat a * 2 + unat b * 2) mod 16384" for a b :: u64
proof -
  have "unat (a + b) mod 8192 = (unat a + unat b) mod 8192"
    by (simp add: unat_word_ariths mod_mod_cancel)
  then have "unat (a + b) * 2 mod (8192 * 2) = (unat a + unat b) * 2 mod (8192 * 2)"
    by (simp only: mult_mod_left [symmetric])
  then show ?thesis by (simp add: add_mult_distrib)
qed

lemma ns6_capture_ring_write_spec:
  assumes "capture_inv r" and "unat frames * 2 \<le> length inp"
    and "ns6_capture_ring_write (Some r) (Some inp) frames = (k, ring')"
  shows "\<exists>r'. ring' = Some r' \<and> capture_inv r' \<and> unat k = min (unat frames) (8192 - capture_used r) \<and>
    capture_contents r' = capture_contents r @ take (unat k * 2) inp"
proof -
  define n where "n = (if 8192 - (c_head r - c_tail r) < frames then 8192 - (c_head r - c_tail r) else frames)"
  have inv: "length (c_samples r) = 16384" "capture_used r \<le> 8192" using assms(1) by (auto simp: capture_inv_def)
  have av: "unat (8192 - (c_head r - c_tail r)) = 8192 - capture_used r"
    using inv(2) by (subst unat_sub) (auto simp: capture_used_def word_le_nat_alt)
  then have n: "unat n = min (unat frames) (8192 - capture_used r)"
    by (auto simp: n_def word_less_nat_alt)
  have full: "(8192 :: u64) \<le> c_head r - c_tail r \<longleftrightarrow> capture_used r = 8192"
    using inv(2) by (auto simp: capture_used_def word_le_nat_alt)
  show ?thesis
  proof (cases "frames = 0 \<or> capture_used r = 8192")
    case True
    then have "k = 0" "ring' = Some r"
      using assms(3) full by (auto simp: ns6_capture_ring_write_def split: if_splits)
    with True assms(1) show ?thesis by auto
  next
    case False
    let ?s = "circ_write 16384 (unat (c_head r) * 2) (take (unat n * 2) inp) (c_samples r)"
    let ?r = "r\<lparr>c_samples := ?s, c_head := c_head r + n\<rparr>"
    have nl: "unat n \<le> 8192" "unat n * 2 \<le> length inp" using n assms(2) by auto
    have eq: "k = n" "ring' = Some ?r"
      using assms(3) False full capture_store [OF inv(1) nl, of "c_head r"]
      by (auto simp: ns6_capture_ring_write_def Let_def n_def)
    have "unat (c_head r - c_tail r) + unat n < 2 ^ 64" using n inv(2) by (simp add: capture_used_def)
    moreover have "c_head r + n - c_tail r = (c_head r - c_tail r) + n" by simp
    ultimately have "unat (c_head r + n - c_tail r) = unat (c_head r - c_tail r) + unat n"
      by (simp only: capture_fits)
    then have used: "capture_used ?r = capture_used r + unat n" by (simp add: capture_used_def)
    have pos: "unat (c_head r) * 2 mod 16384 = (unat (c_tail r) * 2 + capture_used r * 2) mod 16384"
      using capture_position [of "c_tail r" "c_head r - c_tail r"] by (simp add: capture_used_def)
    have len: "length (take (unat n * 2) inp) = unat n * 2" using nl by simp
    have "capture_used r * 2 + length (take (unat n * 2) inp) \<le> 16384" using n inv(2) by (simp add: len)
    from window_circ_write [OF _ inv(1) this pos]
    have "window 16384 ((capture_used r + unat n) * 2) ?s (unat (c_tail r) * 2) =
        capture_contents r @ take (unat n * 2) inp"
      unfolding len by (simp add: capture_contents_def add_mult_distrib)
    then have "capture_contents ?r = capture_contents r @ take (unat n * 2) inp"
      by (simp add: capture_contents_def used)
    moreover have "capture_inv ?r"
    proof -
      have "capture_used r + unat n \<le> 8192" using n inv(2) by linarith
      then show ?thesis using inv nl len unfolding capture_inv_def used by simp
    qed
    ultimately show ?thesis using n by (simp only: eq) blast
  qed
qed

lemma odd_mod: "(y * 2 + 1) mod 16384 = y mod 8192 * 2 + 1" for y :: nat
proof -
  have "(y * 2 + 1) mod 2 = 1" by presburger
  then show ?thesis using mod_mult2_eq [of "y * 2 + 1" 2 8192] by simp
qed

lemma ns6_capture_ring_read_spec:
  assumes "capture_inv r" and "unat frames * 2 \<le> length out"
    and "ns6_capture_ring_read (Some r) (Some out) frames = (k, out', ring')"
  shows "\<exists>r'. ring' = Some r' \<and> capture_inv r' \<and> unat k = min (unat frames) (capture_used r) \<and>
    out' = Some (overwrite 0 (take (unat k * 2) (capture_contents r) @
      replicate ((unat frames - unat k) * 2) (Fin 0)) out) \<and>
    capture_contents r' = drop (unat k * 2) (capture_contents r)"
proof (cases "frames = 0")
  case True
  then show ?thesis using assms by (auto simp: ns6_capture_ring_read_def)
next
  case False
  define n where "n = (if frames < c_head r - c_tail r then frames else c_head r - c_tail r)"
  have inv: "length (c_samples r) = 16384" "capture_used r \<le> 8192" using assms(1) by (auto simp: capture_inv_def)
  have n: "unat n = min (unat frames) (capture_used r)"
    by (auto simp: n_def word_less_nat_alt capture_used_def)
  let ?fr = "\<lambda>frame. [c_samples r ! capture_slot (c_tail r) frame, c_samples r ! (capture_slot (c_tail r) frame + 1)]"
  have take: "concat (map ?fr [0..<m]) = take (m * 2) (capture_contents r)" if "m \<le> capture_used r" for m
    using that
  proof (induction m)
    case (Suc m)
    have "(unat (c_tail r) + m) * 2 mod (8192 * 2) = (unat (c_tail r) + m) mod 8192 * 2"
      by (simp only: mult_mod_left)
    moreover note odd_mod [of "unat (c_tail r) + m"]
    ultimately show ?case
      using Suc by (simp add: take_Suc_conv_app_nth capture_contents_def capture_slot_eq algebra_simps)
  qed simp
  have zeros: "concat (map (\<lambda>k. [Fin 0, Fin 0]) [a..<a + d]) = replicate (d * 2) (Fin 0)" for a d :: nat
    by (induction d) (simp_all add: replicate_add [symmetric] replicate_append_same [symmetric])
  let ?t = "take (unat n * 2) (capture_contents r)"
  have lt: "length ?t = unat n * 2" using n by (simp add: capture_contents_def)
  obtain d where d: "unat frames = unat n + d" using n by (metis le_iff_add min.cobounded1)
  have "out' = Some (overwrite (unat n * 2) (replicate (d * 2) (Fin 0)) (overwrite 0 ?t out))"
  proof -
    have "concat (map ?fr [0..<unat n]) = ?t" using n by (intro take) simp
    then have f1: "fold (\<lambda>frame s. s[frame * 2 := c_samples r ! capture_slot (c_tail r) frame,
        frame * 2 + 1 := c_samples r ! (capture_slot (c_tail r) frame + 1)]) [0..<unat n] out = overwrite 0 ?t out"
      using fold_two_updates [of "unat n" 0 out "\<lambda>frame. c_samples r ! capture_slot (c_tail r) frame"
          "\<lambda>frame. c_samples r ! (capture_slot (c_tail r) frame + 1)"] assms(2) d by simp
    have "d * 2 + unat n * 2 \<le> length (overwrite 0 ?t out)" using assms(2) d lt by simp
    from fold_two_updates [OF this, of "\<lambda>_. Fin 0" "\<lambda>_. Fin 0"]
    have f2: "fold (\<lambda>frame s. s[frame * 2 := Fin 0, frame * 2 + 1 := Fin 0]) [unat n..<unat frames]
        (overwrite 0 ?t out) = overwrite (unat n * 2) (replicate (d * 2) (Fin 0)) (overwrite 0 ?t out)"
      by (simp only: zeros d)
    show ?thesis
      using assms(3) False unfolding ns6_capture_ring_read_def
      by (simp only: Let_def prod.case option.case if_False f1 f2 prod.inject flip: n_def) (elim conjE, simp only:)
  qed
  then have o': "out' = Some (overwrite 0 (?t @ replicate (d * 2) (Fin 0)) out)"
    using overwrite_overwrite_append [of ?t "replicate (d * 2) (Fin 0)" out] by (simp only: lt)
  have r': "k = n" "ring' = Some (r\<lparr>c_tail := c_tail r + n\<rparr>)"
    using assms(3) False by (auto simp: ns6_capture_ring_read_def Let_def n_def)
  have "n \<le> c_head r - c_tail r" using n by (simp add: word_le_nat_alt capture_used_def)
  then have used: "capture_used (r\<lparr>c_tail := c_tail r + n\<rparr>) = capture_used r - unat n"
    by (simp add: capture_used_def diff_diff_eq [symmetric] unat_sub)
  have "capture_contents (r\<lparr>c_tail := c_tail r + n\<rparr>) = drop (unat n * 2) (capture_contents r)"
    using window_cong_mod [OF capture_position [of "c_tail r" n]]
    by (simp add: capture_contents_def used drop_window diff_mult_distrib)
  moreover have "capture_inv (r\<lparr>c_tail := c_tail r + n\<rparr>)"
    unfolding capture_inv_def used using inv by simp
  moreover have "d = unat frames - unat n" using d by simp
  ultimately show ?thesis using n o' unfolding r' by blast
qed

subsection \<open>NS6CaptureRing implements the interface\<close>

definition capture_put :: "flt list \<Rightarrow> nat \<Rightarrow> NS6CaptureRing \<Rightarrow> nat \<times> NS6CaptureRing" where
  "capture_put src n r = (case ns6_capture_ring_write (Some r) (Some src) (word_of_nat n) of
     (k, ring) \<Rightarrow> (unat k, case ring of None \<Rightarrow> r | Some r' \<Rightarrow> r'))"

definition capture_get :: "nat \<Rightarrow> NS6CaptureRing \<Rightarrow> flt list \<times> NS6CaptureRing" where
  "capture_get n r = (case ns6_capture_ring_read (Some r) (Some (replicate (n * 2) (Fin 0))) (word_of_nat n) of
     (k, out, ring) \<Rightarrow> (take (unat k * 2) (case out of None \<Rightarrow> [] | Some xs \<Rightarrow> xs),
                       case ring of None \<Rightarrow> r | Some r' \<Rightarrow> r'))"

lemma length_capture_contents: "length (capture_contents r) = capture_used r * 2"
  by (simp add: capture_contents_def)

interpretation cq: bounded_fifo capture_inv capture_contents "\<lambda>_. 2" "\<lambda>_. 8192" "2 ^ 64" capture_put capture_get
proof unfold_locales
  fix q assume "capture_inv q"
  then show "length (capture_contents q) \<le> 8192 * 2"
    by (simp add: length_capture_contents capture_inv_def)
next
  fix q assume "capture_inv q"
  show "(0 :: nat) < 2 \<and> 2 dvd length (capture_contents q)" by (simp add: length_capture_contents)
next
  fix q q' n src k
  assume *: "capture_inv q" "n < 2 ^ 64" "n * 2 \<le> length src" "capture_put src n q = (k, q')"
  then have n: "unat (word_of_nat n :: u64) = n" by (simp add: unat_of_nat)
  obtain w ring where w: "ns6_capture_ring_write (Some q) (Some src) (word_of_nat n) = (w, ring)"
    by fastforce
  obtain r' where r': "ring = Some r'" "capture_inv r'" "unat w = min n (8192 - capture_used q)"
      "capture_contents r' = capture_contents q @ take (unat w * 2) src"
    using ns6_capture_ring_write_spec [OF *(1) _ w] *(3) n by auto
  moreover from *(4) have "k = unat w" "q' = r'" by (simp_all add: capture_put_def w r')
  ultimately show "capture_inv q' \<and> 2 = 2 \<and> 8192 = 8192 \<and> k * 2 = min (n * 2) (8192 * 2 - length (capture_contents q)) \<and>
      capture_contents q' = capture_contents q @ take (k * 2) src"
    by (simp add: length_capture_contents nat_mult_min_left diff_mult_distrib)
next
  fix q q' n xs
  assume *: "capture_inv q" "n < 2 ^ 64" "capture_get n q = (xs, q')"
  then have n: "unat (word_of_nat n :: u64) = n" by (simp add: unat_of_nat)
  let ?out = "replicate (n * 2) (Fin 0)"
  obtain w out ring where w: "ns6_capture_ring_read (Some q) (Some ?out) (word_of_nat n) = (w, out, ring)"
    by (metis prod_cases3)
  obtain r' where r': "ring = Some r'" "capture_inv r'" "unat w = min n (capture_used q)"
      "out = Some (overwrite 0 (take (unat w * 2) (capture_contents q) @ replicate ((n - unat w) * 2) (Fin 0)) ?out)"
      "capture_contents r' = drop (unat w * 2) (capture_contents q)"
    using ns6_capture_ring_read_spec [OF *(1) _ w] n by auto
  then have "xs = take (unat w * 2) (capture_contents q)" "q' = r'"
    using *(3) by (auto simp: capture_get_def w overwrite_def length_capture_contents)
  then show "capture_inv q' \<and> 2 = 2 \<and> 8192 = 8192 \<and> xs @ capture_contents q' = capture_contents q \<and>
      length xs = min (n * 2) (length (capture_contents q))"
    using r' by (simp add: length_capture_contents)
qed

lemma ns6_capture_ring_init_inv:
  "length (c_samples r) = 16384 \<Longrightarrow>
   \<exists>r'. ns6_capture_ring_init (Some r) = Some r' \<and> capture_inv r' \<and> capture_contents r' = []"
  by (simp add: ns6_capture_ring_init_def capture_inv_def capture_contents_def capture_used_def)

lemma ns6_capture_ring_clear_inv:
  "capture_inv r \<Longrightarrow>
   \<exists>r'. ns6_capture_ring_clear (Some r) = Some r' \<and> capture_inv r' \<and> capture_contents r' = []"
  by (simp add: ns6_capture_ring_clear_def capture_inv_def capture_contents_def capture_used_def)

subsection \<open>Capacities that do not divide the cursor range\<close>

lemma fifo_run_append:
  "fifo_run put get w q (xs @ ys) =
     (case fifo_run put get w q xs of (acc, out, q1) \<Rightarrow>
        case fifo_run put get w q1 ys of (acc2, out2, q2) \<Rightarrow> (acc @ acc2, out @ out2, q2))"
  by (induction put get w q xs rule: fifo_run.induct) (auto split: prod.splits)

text \<open>One frame in and one frame out moves both cursors of an empty ring by one.\<close>

lemma ring_cycle:
  assumes "ring_inv r" and "r_channels r = 1" and "r_writeFrame r = r_readFrame r"
  shows "\<exists>ss. fifo_run ring_put ring_get 1 r [Put [x] 1, Get 1] = ([x], [x],
    r\<lparr>r_samples := ss, r_writeFrame := r_writeFrame r + 1, r_readFrame := r_readFrame r + 1\<rparr>) \<and>
    length ss = length (r_samples r)"
proof -
  let ?cap = "unat (r_capacityFrames r)"
  have cap: "0 < ?cap" "length (r_samples r) = ?cap" using assms by (auto simp: ring_inv_def)
  then have one: "min 1 (r_capacityFrames r) = 1" by (simp add: min_def word_le_nat_alt)
  define ss where "ss = circ_write ?cap (unat (r_writeFrame r)) [x] (r_samples r)"
  have ss: "length ss = ?cap" "ss ! (unat (r_writeFrame r) mod ?cap) = x"
    using cap nth_circ_write_in [of ?cap "r_samples r" "[x]" 0 "unat (r_writeFrame r)"]
    by (auto simp: ss_def)
  let ?r1 = "r\<lparr>r_samples := ss, r_writeFrame := r_writeFrame r + 1\<rparr>"
  have w: "ring_write (Some [x]) 1 r = (1, ?r1)"
    using ring_write_circ [OF assms(1), of 1 "[x]" 1] assms one by (simp add: ss_def)
  have inv1: "ring_inv ?r1"
    using assms cap ss by (auto simp: ring_inv_def ring_used_def)
  have "ring_read (Some [Fin 0]) 1 ?r1 = (1, Some [x], ?r1\<lparr>r_readFrame := r_readFrame r + 1\<rparr>)"
    using ring_read_window [OF inv1, of 1 1 "[Fin 0]"] assms ss
    by (simp add: window_def overwrite_def)
  then show ?thesis
    using w ss cap assms by (auto simp: ring_put_def ring_get_def)
qed

lemma ring_cycles:
  "ring_inv r \<Longrightarrow> r_channels r = 1 \<Longrightarrow> r_writeFrame r = r_readFrame r \<Longrightarrow>
   \<exists>ss. fifo_run ring_put ring_get 1 r (concat (replicate n [Put [x] 1, Get 1])) =
     (replicate n x, replicate n x, r\<lparr>r_samples := ss, r_writeFrame := r_writeFrame r + word_of_nat n,
        r_readFrame := r_readFrame r + word_of_nat n\<rparr>) \<and> length ss = length (r_samples r)"
proof (induction n arbitrary: r)
  case 0
  show ?case by (intro exI [of _ "r_samples r"]) simp
next
  case (Suc n)
  obtain ss where ss: "fifo_run ring_put ring_get 1 r [Put [x] 1, Get 1] = ([x], [x],
      r\<lparr>r_samples := ss, r_writeFrame := r_writeFrame r + 1, r_readFrame := r_readFrame r + 1\<rparr>)"
      "length ss = length (r_samples r)"
    using ring_cycle [OF Suc.prems] by blast
  let ?r = "r\<lparr>r_samples := ss, r_writeFrame := r_writeFrame r + 1, r_readFrame := r_readFrame r + 1\<rparr>"
  have "ring_inv ?r" using Suc.prems ss(2) by (simp add: ring_inv_def ring_used_def)
  from Suc.IH [OF this] Suc.prems obtain ss2 where
    "fifo_run ring_put ring_get 1 ?r (concat (replicate n [Put [x] 1, Get 1])) =
      (replicate n x, replicate n x, ?r\<lparr>r_samples := ss2, r_writeFrame := r_writeFrame r + 1 + word_of_nat n,
        r_readFrame := r_readFrame r + 1 + word_of_nat n\<rparr>)" "length ss2 = length ss" by auto
  moreover have "concat (replicate (Suc n) [Put [x] 1, Get 1]) =
      [Put [x] 1, Get 1] @ concat (replicate n [Put [x] 1, Get 1])" by simp
  ultimately show ?case
    using ss by (intro exI [of _ ss2]) (simp only: fifo_run_append, simp add: add.assoc)
qed

lemma ring_at_wrap:
  "fifo_run ring_put ring_get 1 \<lparr>r_capacityFrames = 3, r_channels = 1, r_samples = [a, b, c],
      r_writeFrame = 4294967295, r_readFrame = 4294967295, r_readFraction = Fin 0\<rparr>
     [Put [Fin 1] 1, Put [Fin 2] 1, Get 2] =
   ([Fin 1, Fin 2], [Fin 2, b], \<lparr>r_capacityFrames = 3, r_channels = 1, r_samples = [Fin 2, b, c],
      r_writeFrame = 1, r_readFrame = 1, r_readFraction = Fin 0\<rparr>)"
  by code_simp

lemma AudioOutputRing_new_eq:
  "AudioOutputRing_new c ch =
    (if 0 < unat c \<and> unat c < 2 ^ 31 \<and> 0 < unat ch
     then Some \<lparr>r_capacityFrames = c, r_channels = ch, r_samples = replicate (unat c * unat ch) (Fin 0),
                r_writeFrame = 0, r_readFrame = 0, r_readFraction = Fin 0\<rparr> else None)"
proof -
  have "UINT32_MAX div 2 < c \<longleftrightarrow> \<not> unat c < 2 ^ 31"
    by (auto simp: word_less_nat_alt unat_div)
  moreover have "unat ch \<le> (2 ^ 64 - 1) div unat c" if "0 < unat c" "unat c < 2 ^ 31"
  proof -
    have "unat ch * unat c \<le> (2 ^ 32 - 1) * 2 ^ 31"
      using that(2) u32_less [of ch] by (intro mult_le_mono) auto
    then show ?thesis using that(1) by (simp add: less_eq_div_iff_mult_less_eq)
  qed
  ultimately show ?thesis
    by (auto simp: AudioOutputRing_new_def unat_eq_zero not_le [symmetric] unat_gt_0)
qed

subsection \<open>Properties\<close>

text \<open>
  (C19) The output ring is a bounded queue of frames: for a ring whose capacity divides the range of its 32-bit cursors, and any interleaving of
  producer and consumer calls of any sizes, every write accepts exactly the frames there is room for, every read hands out exactly the
  oldest frames asked for and stored, and what is left is what the reference queue holds, across the wrap of the buffer and of the cursors.
\<close>

theorem ring_is_fifo:
  assumes "AudioOutputRing_new c ch = Some r" and "unat c dvd 2 ^ 32"
    and "list_all (fifo_op_ok (2 ^ 32) (unat ch)) ops"
    and "run_ops (fifo_step ring_put ring_get) ops r = (xs, r')"
  shows "run_ops (queue_step (unat c) (unat ch)) ops [] = (xs, ring_contents r') \<and> length (ring_contents r') \<le> unat c * unat ch \<and> ring_inv r'"
proof -
  have r: "ring_regular r" "ring_contents r = []" "r_capacityFrames r = c" "r_channels r = ch"
    using AudioOutputRing_new_inv [OF assms(1)] assms(2) by (auto simp: ring_regular_def)
  with rq.run_queue [OF r(1), of ops xs r'] assms(3,4) rq.bounded [of r'] show ?thesis
    by (simp add: ring_regular_def)
qed

theorem ring_is_fifo_witness:
  "\<exists>r xs r'. AudioOutputRing_new 2 1 = Some r \<and> unat (2 :: u32) dvd 2 ^ 32 \<and>
     run_ops (fifo_step ring_put ring_get) [Put [Fin 1, Fin 2, Fin 3] 3, Get 1, Put [Fin 4, Fin 5] 2, Get 3] r = (xs, r') \<and>
     xs = [Accepted 2, Delivered [Fin 1], Accepted 1, Delivered [Fin 2, Fin 4]] \<and> ring_contents r' = []"
proof -
  let ?ops = "[Put [Fin 1, Fin 2, Fin 3] 3, Get 1, Put [Fin 4, Fin 5] 2, Get 3]"
  obtain r where new: "AudioOutputRing_new 2 1 = Some r" by (simp add: AudioOutputRing_new_eq)
  obtain xs r' where run: "run_ops (fifo_step ring_put ring_get) ?ops r = (xs, r')" by fastforce
  have two: "unat (2 :: u32) dvd 2 ^ 32" by simp
  have "list_all (fifo_op_ok (2 ^ 32) (unat (1 :: u32))) ?ops" by simp
  from ring_is_fifo [OF new two this run] have "run_ops (queue_step 2 1) ?ops [] = (xs, ring_contents r')" by simp
  moreover have "run_ops (queue_step 2 1) ?ops [] = ([Accepted 2, Delivered [Fin 1], Accepted 1, Delivered [Fin 2, Fin 4]], [])" by code_simp
  ultimately show ?thesis using new two run by auto
qed

text \<open>
  (C21) The resampling read implements the reference resampler on the queue: the frames it writes
  are the interpolated frames of the queued samples and nothing else, it consumes exactly the whole
  frames the phase has passed, and it leaves the ring well formed with the fractional phase kept.
\<close>

theorem ring_readResampled_refines:
  assumes "ring_regular r" and "unat frames * unat (r_channels r) \<le> length dst"
    and "sane_step st = Fin s" and "r_readFraction r = Fin f"
  shows "case (resample_ref (unat frames) (unat (r_channels r)) (ring_contents r) s f,
               ring_readResampled (Some dst) frames st r) of
     ((out, p), (produced, dst', r')) \<Rightarrow>
       unat produced = length out \<and> length out \<le> unat frames \<and>
       dst' = Some (overwrite 0 (concat out) dst) \<and> ring_regular r' \<and>
       ring_contents r' = drop (nat \<lfloor>p\<rfloor> * unat (r_channels r)) (ring_contents r) \<and>
       r_readFraction r' = Fin (p - of_int \<lfloor>p\<rfloor>)"
proof -
  obtain out p where ref: "resample_ref (unat frames) (unat (r_channels r)) (ring_contents r) s f = (out, p)"
    by fastforce
  obtain produced dst' r' where res: "ring_readResampled (Some dst) frames st r = (produced, dst', r')"
    by (metis prod_cases3)
  show ?thesis using ring_readResampled_ref [OF assms ref res] by (auto simp: ref res)
qed

text \<open>A ring with queued samples 3 and 7, read at half the source rate.\<close>

definition ring_example :: AudioOutputRing where
  "ring_example = \<lparr>r_capacityFrames = 2, r_channels = 1, r_samples = [Fin 7, Fin 3],
    r_writeFrame = 3, r_readFrame = 1, r_readFraction = Fin 0\<rparr>"

lemma ring_example_regular: "ring_regular ring_example" "ring_contents ring_example = [Fin 3, Fin 7]"
proof -
  have "[0..<2] = [0, 1::nat]" by (simp add: upt_rec)
  then show "ring_regular ring_example" "ring_contents ring_example = [Fin 3, Fin 7]"
    by (simp_all add: ring_example_def ring_regular_def ring_inv_def ring_used_def frac_ok_def
        ring_contents_def window_def)
qed

theorem ring_readResampled_refines_witness:
  "case ring_readResampled (Some [Fin 0, Fin 0]) 2 (Fin (1/2)) ring_example of
     (produced, dst, r') \<Rightarrow> unat produced = 2 \<and> dst = Some [Fin 3, Fin 5] \<and> ring_contents r' = [Fin 7] \<and>
       ring_regular r'"
proof -
  have step: "sane_step (Fin (1/2)) = Fin (1/2)" by (simp add: sane_step_def dlit_half)
  have ref: "resample_ref 2 1 [Fin 3, Fin 7] (1/2) 0 = ([[Fin 3], [Fin 5]], 1)" by code_simp
  have "r_readFraction ring_example = Fin 0" "r_channels ring_example = 1" by (simp_all add: ring_example_def)
  with ring_readResampled_refines [OF ring_example_regular(1) _ step, of 2 "[Fin 0, Fin 0]" 0] show ?thesis
    by (auto simp: ring_example_regular ref [unfolded One_nat_def] overwrite_def split: prod.splits)
qed

text \<open>
  (C35) The capture ring of the shared-memory driver is a bounded queue of 8192 stereo frames as well: after any interleaving of writes and
  reads of any sizes on an initialised ring, every write has accepted exactly the frames there was room for, every read has handed out
  exactly the oldest frames asked for and stored, and what is left is what the reference queue holds.
\<close>

theorem capture_ring_is_fifo:
  assumes "length (c_samples r0) = 16384" and "ns6_capture_ring_init (Some r0) = Some r"
    and "list_all (fifo_op_ok (2 ^ 64) 2) ops"
    and "run_ops (fifo_step capture_put capture_get) ops r = (xs, r')"
  shows "run_ops (queue_step 8192 2) ops [] = (xs, capture_contents r') \<and> length (capture_contents r') \<le> 8192 * 2"
proof -
  have r: "capture_inv r" "capture_contents r = []" using ns6_capture_ring_init_inv [OF assms(1)] assms(2) by auto
  with cq.run_queue [OF r(1), of ops xs r'] assms(3,4) cq.bounded [of r'] show ?thesis by simp
qed

theorem capture_ring_is_fifo_witness:
  "\<exists>r xs r'. ns6_capture_ring_init (Some \<lparr>c_samples = replicate 16384 (Fin 0), c_head = 5, c_tail = 3\<rparr>) = Some r \<and>
     run_ops (fifo_step capture_put capture_get) [Put [Fin 1, Fin 2, Fin 3, Fin 4] 2, Get 1, Get 5] r = (xs, r') \<and>
     xs = [Accepted 2, Delivered [Fin 1, Fin 2], Delivered [Fin 3, Fin 4]] \<and> capture_contents r' = []"
proof -
  let ?r0 = "\<lparr>c_samples = replicate 16384 (Fin 0), c_head = 5, c_tail = 3\<rparr>"
  let ?ops = "[Put [Fin 1, Fin 2, Fin 3, Fin 4] 2, Get 1, Get 5]"
  obtain r where r: "ns6_capture_ring_init (Some ?r0) = Some r" by (simp add: ns6_capture_ring_init_def)
  obtain xs r' where run: "run_ops (fifo_step capture_put capture_get) ?ops r = (xs, r')" by fastforce
  have "run_ops (queue_step 8192 2) ?ops [] = (xs, capture_contents r') \<and> length (capture_contents r') \<le> 8192 * 2"
    by (rule capture_ring_is_fifo [OF _ r _ run]) simp_all
  moreover have "run_ops (queue_step 8192 2) ?ops [] = ([Accepted 2, Delivered [Fin 1, Fin 2], Delivered [Fin 3, Fin 4]], [])" by code_simp
  ultimately show ?thesis using r run by auto
qed

text \<open>
  (C39) A capacity that does not divide the cursor range loses queued frames when the cursors wrap:
  the constructor accepts three frames, and after enough balanced traffic two accepted frames come
  out as the second one and a stale one.
\<close>

theorem ring_wrap_breaks_fifo:
  "\<exists>r ops acc out r'. AudioOutputRing_new 3 1 = Some r \<and> list_all (fifo_op_ok (2 ^ 32) 1) ops \<and>
     fifo_run ring_put ring_get 1 r ops = (acc, out, r') \<and> ring_contents r' = [] \<and> acc \<noteq> out"
proof -
  define n :: nat where "n = 2 ^ 32 - 1"
  let ?cyc = "concat (replicate n [Put [Fin 0] 1, Get 1])"
  let ?ops = "?cyc @ [Put [Fin 1] 1, Put [Fin 2] 1, Get 2]"
  let ?r = "\<lparr>r_capacityFrames = 3, r_channels = 1, r_samples = replicate 3 (Fin 0),
    r_writeFrame = 0, r_readFrame = 0, r_readFraction = Fin 0\<rparr>"
  have new: "AudioOutputRing_new 3 1 = Some ?r" by (simp add: AudioOutputRing_new_eq)
  have n: "(word_of_nat n :: u32) = 4294967295" by (simp add: n_def)
  obtain ss where cyc: "fifo_run ring_put ring_get 1 ?r ?cyc = (replicate n (Fin 0),
      replicate n (Fin 0), \<lparr>r_capacityFrames = 3, r_channels = 1, r_samples = ss,
        r_writeFrame = 4294967295, r_readFrame = 4294967295, r_readFraction = Fin 0\<rparr>)" "length ss = 3"
    using ring_cycles [of ?r n "Fin 0"] AudioOutputRing_new_inv [OF new] by (auto simp: n)
  then obtain a b c where ss: "ss = [a, b, c]"
    by (auto simp: length_Suc_conv numeral_3_eq_3)
  have run: "fifo_run ring_put ring_get 1 ?r ?ops = (replicate n (Fin 0) @ [Fin 1, Fin 2],
      replicate n (Fin 0) @ [Fin 2, b], \<lparr>r_capacityFrames = 3, r_channels = 1, r_samples = [Fin 2, b, c],
      r_writeFrame = 1, r_readFrame = 1, r_readFraction = Fin 0\<rparr>)"
    by (simp only: fifo_run_append cyc(1) ss ring_at_wrap prod.case)
  moreover have "list_all (fifo_op_ok (2 ^ 32) 1) ?ops" by (auto simp: list_all_iff)
  ultimately show ?thesis
    using new by (intro exI conjI) (assumption | simp add: ring_contents_def ring_used_def)+
qed

end
