(* ===== verification/NS6_Meter.thy ===== *)
theory NS6_Meter
  imports NS6_Prelude
begin

text \<open>
  The part the two clock models share: a circular buffer that drops its oldest element when it is
  full, and the interface \<open>feedback_meter\<close> of a component that keeps the last feedback reports of
  the device and turns a full window of them into a rate. It is implemented by \<open>NS6ClockControl\<close>
  and by \<open>AudioPacketPolicy\<close>.
\<close>

subsection \<open>Queues that drop their oldest element\<close>

definition push_bounded :: "nat \<Rightarrow> 'a \<Rightarrow> 'a list \<Rightarrow> 'a list" where
  "push_bounded n v xs = (if length xs = n then tl xs else xs) @ [v]"

lemma length_push_bounded: "0 < n \<Longrightarrow> length xs \<le> n \<Longrightarrow> length (push_bounded n v xs) = min n (Suc (length xs))"
  by (auto simp: push_bounded_def)

lemma push_bounded_last: "0 < n \<Longrightarrow> length xs \<le> n \<Longrightarrow> last (push_bounded n v xs) = v"
  by (simp add: push_bounded_def)

lemma set_push_bounded: "set (push_bounded n v xs) \<subseteq> insert v (set xs)"
  by (auto simp: push_bounded_def dest: list.set_sel(2) [rotated]) (metis list.set_sel(2) tl_Nil)

lemma sum_push_bounded:
  fixes f :: "'a \<Rightarrow> nat"
  assumes "0 < n" and "length xs \<le> n"
  shows "sum_list (map f (push_bounded n v xs)) + (if length xs = n then f (hd xs) else 0) =
    sum_list (map f xs) + f v"
  using assms by (cases xs) (auto simp: push_bounded_def)

text \<open>Pushing a sequence keeps its last \<open>n\<close> elements.\<close>

lemma fold_push_bounded:
  assumes "0 < n"
  shows "fold (push_bounded n) vs [] = drop (length vs - n) vs"
proof (induction vs rule: rev_induct)
  case (snoc v vs)
  have "length (drop (length vs - n) vs) = n \<longleftrightarrow> n \<le> length vs" by auto
  moreover have "tl (drop (length vs - n) vs) = drop (Suc (length vs) - n) vs" if "n \<le> length vs"
    using that by (simp add: tl_drop drop_Suc [symmetric] Suc_diff_le)
  moreover have "length vs - n = 0 \<and> Suc (length vs) - n = 0" if "\<not> n \<le> length vs"
    using that by simp
  ultimately show ?case using snoc assms by (auto simp: push_bounded_def)
qed simp

subsection \<open>Their circular representation\<close>

lemma circ_write_one: "0 < n \<Longrightarrow> length buf = n \<Longrightarrow> circ_write n i [v] buf = buf[i mod n := v]"
proof -
  assume n: "0 < n" "length buf = n"
  then have "min 1 (n - i mod n) = 1" by (simp add: Suc_leI)
  then show ?thesis
    using n by (auto simp: circ_write_def overwrite_def Let_def upd_conv_take_nth_drop)
qed

lemma window_push:
  assumes "length buf = n" and "cnt < n" and "j = (rd + cnt) mod n"
  shows "window n (Suc cnt) (buf[j := v]) rd = window n cnt buf rd @ [v]"
  using window_circ_write [of n buf cnt "[v]" j rd] circ_write_one [of n buf j v] assms by simp

lemma window_pop: "0 < cnt \<Longrightarrow> window n (cnt - 1) buf (Suc rd) = tl (window n cnt buf rd)"
  using drop_window [of 1 n cnt buf rd] by (simp add: drop_Suc)

lemma window_hd: "0 < cnt \<Longrightarrow> hd (window n cnt buf rd) = buf ! (rd mod n)"
  by (subst hd_conv_nth) (auto simp flip: length_greater_0_conv)

text \<open>The read cursor moves when the queue was full.\<close>

lemma window_push_bounded:
  assumes "length buf = n" and "cnt \<le> n" and "0 < n"
    and "rd' = (if cnt = n then (rd + 1) mod n else rd)" and "cnt' = (if cnt = n then cnt - 1 else cnt)"
  shows "window n (Suc cnt') (buf[(rd' + cnt') mod n := v]) rd' = push_bounded n v (window n cnt buf rd)"
proof (cases "cnt = n")
  case True
  then have c: "Suc (n - Suc 0) = n" "n - Suc 0 < n" using assms(3) by auto
  have "window n n (buf[(Suc rd mod n + (n - Suc 0)) mod n := v]) (Suc rd mod n) =
      window n (n - 1) buf (Suc rd mod n) @ [v]"
    using window_push [OF assms(1) c(2) refl, of "Suc rd mod n" v] by (simp add: c)
  also have "window n (n - 1) buf (Suc rd mod n) = tl (window n n buf rd)"
    using window_pop [of n n buf rd] assms(3) by (simp add: window_mod)
  finally show ?thesis using assms True by (simp add: push_bounded_def c)
next
  case False
  then show ?thesis
    using assms window_push [of buf n cnt "(rd + cnt) mod n" rd v] by (simp add: push_bounded_def)
qed

text \<open>A window addressed by its write index: the oldest element is under the index once it is full.\<close>

lemma window_slide:
  assumes "length buf = n" and "cnt \<le> n" and "idx < n" and "cnt < n \<Longrightarrow> idx = cnt"
    and "cnt' = (if cnt = n then n else Suc cnt)"
  shows "window n cnt' (buf[idx := v]) (if cnt' < n then 0 else Suc idx mod n) =
    push_bounded n v (window n cnt buf (if cnt < n then 0 else idx))"
proof (cases "cnt = n")
  case True
  let ?i = "Suc idx mod n"
  have c: "Suc (n - Suc 0) = n" "n - Suc 0 < n" using assms(3) by auto
  have "(?i + (n - Suc 0)) mod n = idx"
  proof (cases "Suc idx < n")
    case True
    then have "Suc idx mod n + (n - Suc 0) = idx + n" by simp
    then show ?thesis using assms(3) by simp
  next
    case False
    then have "Suc idx = n" using assms(3) by simp
    then show ?thesis by auto
  qed
  then have "window n n (buf[idx := v]) ?i = window n (n - 1) buf ?i @ [v]"
    using window_push [OF assms(1) c(2), of idx ?i v] by (simp add: c)
  moreover have "window n (n - 1) buf ?i = tl (window n n buf idx)"
    using window_pop [of n n buf idx] assms(3) by (simp add: window_mod)
  ultimately show ?thesis using assms True by (simp add: push_bounded_def)
next
  case False
  then have idx: "idx = cnt" "cnt < n" using assms by auto
  have "window n (Suc cnt) (buf[idx := v]) 0 = window n cnt buf 0 @ [v]"
    using assms(1) idx by (intro window_push) auto
  moreover have "Suc idx mod n = 0" if "\<not> Suc cnt < n"
  proof -
    have "Suc idx = n" using that idx by simp
    then show ?thesis by simp
  qed
  ultimately show ?thesis using assms(5) False idx by (cases "Suc cnt < n") (simp_all add: push_bounded_def)
qed

subsection \<open>The interface\<close>

definition valid_report :: "u8 \<Rightarrow> bool" where
  "valid_report v \<longleftrightarrow> 42 \<le> unat v \<and> unat v \<le> 46"

locale feedback_meter =
  fixes inv :: "'s \<Rightarrow> bool"
    and history :: "'s \<Rightarrow> u8 list"
    and rate :: "'s \<Rightarrow> nat"
    and observe :: "u8 \<Rightarrow> 's \<Rightarrow> 's"
    and size_w :: nat
  assumes size_pos: "0 < size_w"
    and observe_invalid: "\<not> valid_report v \<Longrightarrow> observe v s = s"
    and observe_valid: "inv s \<Longrightarrow> valid_report v \<Longrightarrow>
      inv (observe v s) \<and> history (observe v s) = push_bounded size_w v (history s) \<and>
      rate (observe v s) = (if length (history (observe v s)) = size_w
        then sum_list (map unat (history (observe v s))) * 1000000 div size_w else rate s)"
begin

lemma observe_all:
  "inv s \<Longrightarrow> history s = fold (push_bounded size_w) (filter valid_report us) [] \<Longrightarrow>
   inv (fold observe vs s) \<and>
   history (fold observe vs s) = fold (push_bounded size_w) (filter valid_report (us @ vs)) []"
proof (induction vs arbitrary: us s)
  case (Cons v vs)
  show ?case
  proof (cases "valid_report v")
    case True
    have "inv (observe v s)" "history (observe v s) = push_bounded size_w v (history s)"
      using observe_valid [OF Cons.prems(1) True] by blast+
    moreover have "push_bounded size_w v (history s) =
        fold (push_bounded size_w) (filter valid_report (us @ [v])) []"
      unfolding Cons.prems(2) using True by simp
    ultimately show ?thesis
      using Cons.IH [of "observe v s" "us @ [v]"] by simp
  next
    case False
    have "history s = fold (push_bounded size_w) (filter valid_report (us @ [v])) []"
      unfolding Cons.prems(2) using False by simp
    then show ?thesis
      using Cons.IH [of s "us @ [v]"] Cons.prems(1) observe_invalid [OF False, of s]
      by simp
  qed
qed simp

lemma history_all:
  assumes "inv s" and "history s = []"
  shows "inv (fold observe vs s) \<and>
    history (fold observe vs s) =
      (let good = filter valid_report vs in drop (length good - size_w) good)"
  using observe_all [of s "[]" vs] assms by (simp add: fold_push_bounded size_pos Let_def)

text \<open>Once the window is full, the rate is the mean of the last reports, rounded down.\<close>

lemma rate_all:
  assumes "inv s" and "history s = []"
  shows "let good = filter valid_report vs in
    rate (fold observe vs s) = (if size_w \<le> length good
      then sum_list (map unat (drop (length good - size_w) good)) * 1000000 div size_w else rate s)"
proof (induction vs rule: rev_induct)
  case (snoc v vs)
  let ?s = "fold observe vs s" and ?good = "filter valid_report vs"
  have h: "inv ?s" "history ?s = drop (length ?good - size_w) ?good"
    using history_all [OF assms, of vs] by (simp_all add: Let_def)
  show ?case
  proof (cases "valid_report v")
    case False
    then show ?thesis using snoc by (simp add: observe_invalid)
  next
    case True
    note ov = observe_valid [OF h(1) True]
    have h': "history (observe v ?s) = drop (length (?good @ [v]) - size_w) (?good @ [v])"
      using history_all [OF assms, of "vs @ [v]"] True by (simp add: Let_def)
    then have len: "length (history (observe v ?s)) = size_w \<longleftrightarrow> size_w \<le> length (?good @ [v])"
      by (simp only: length_drop) linarith
    have good: "filter valid_report (vs @ [v]) = ?good @ [v]" "fold observe (vs @ [v]) s = observe v ?s"
      using True by simp_all
    have "rate (observe v ?s) = (if length (history (observe v ?s)) = size_w
        then sum_list (map unat (history (observe v ?s))) * 1000000 div size_w else rate ?s)"
      using ov by blast
    then have "rate (observe v ?s) = (if size_w \<le> length (?good @ [v])
        then sum_list (map unat (drop (length (?good @ [v]) - size_w) (?good @ [v]))) * 1000000 div size_w else rate ?s)"
      unfolding len [unfolded h'] h' .
    moreover have "rate ?s = rate s" if "\<not> size_w \<le> length (?good @ [v])"
      using snoc that by (simp add: Let_def)
    ultimately show ?thesis unfolding good Let_def by argo
  qed
qed (use size_pos in \<open>simp add: Let_def\<close>)

end

text \<open>A mean of reports between 42 and 46 is a rate between 42 and 46 kHz.\<close>

lemma mean_bounds:
  assumes "list_all valid_report xs" and "length xs = n" and "0 < n"
  shows "42000000 \<le> sum_list (map unat xs) * 1000000 div n \<and> sum_list (map unat xs) * 1000000 div n \<le> 46000000"
proof -
  have "n * 42 \<le> sum_list (map unat xs) \<and> sum_list (map unat xs) \<le> n * 46"
    using assms(1,2) by (induction xs arbitrary: n) (auto simp: valid_report_def)
  then have le: "42000000 * n \<le> sum_list (map unat xs) * 1000000" "sum_list (map unat xs) * 1000000 \<le> n * 46000000"
    by auto
  from le(1) have "42000000 \<le> sum_list (map unat xs) * 1000000 div n"
    using assms(3) by (simp only: less_eq_div_iff_mult_less_eq)
  moreover from div_le_mono [OF le(2), of n] have "sum_list (map unat xs) * 1000000 div n \<le> 46000000"
    using assms(3) by simp
  ultimately show ?thesis ..
qed

lemma sum_reports_le: "list_all valid_report xs \<Longrightarrow> sum_list (map unat xs) \<le> 46 * length xs"
  by (induction xs) (auto simp: valid_report_def)

lemma list_all_push_bounded: "list_all P xs \<Longrightarrow> P v \<Longrightarrow> list_all P (push_bounded n v xs)"
  using set_push_bounded [of n v xs] by (auto simp: list_all_iff)

text \<open>The running sum, kept in a 64-bit word: the leaving report is subtracted, the new one added.\<close>

lemma report_sum_step:
  fixes total :: u64
  assumes "unat total = sum_list (map unat h)" and "list_all valid_report h" and "length h \<le> 40000"
    and "valid_report v" and "length h = 40000 \<Longrightarrow> hd h = gone"
  shows "unat ((if length h = 40000 then total - ucast gone else total) + ucast v) =
    sum_list (map unat (push_bounded 40000 v h))"
proof -
  have "unat total \<le> 46 * 40000" using sum_reports_le [OF assms(2)] assms(1,3) by simp
  then have bound: "unat total + unat v < 2 ^ 64" using assms(4) by (simp add: valid_report_def)
  note sp = sum_push_bounded [of 40000 h "unat :: u8 \<Rightarrow> nat" v]
  have v64: "unat (ucast v :: u64) = unat v" for v :: u8 by (simp add: unat_ucast_up)
  show ?thesis
  proof (cases "length h = 40000")
    case True
    then have le: "unat gone \<le> sum_list (map unat h)" using assms(5) by (cases h) auto
    then have "unat (total - ucast gone) = unat total - unat gone"
      using assms(1) by (subst unat_sub) (auto simp: word_le_nat_alt v64)
    then have "unat (total - ucast gone + ucast v) = unat total - unat gone + unat v"
      using bound by (simp add: unat_word_ariths v64)
    then show ?thesis using sp assms(1,3) True assms(5) [OF True] le by simp
  next
    case False
    then show ?thesis using sp assms(1,3) bound by (simp add: unat_word_ariths v64)
  qed
qed

lemma report_rate_words:
  fixes total :: u64
  assumes "unat total = sum_list (map unat h)" and "list_all valid_report h" and "length h \<le> 40000"
  shows "unat (total * 1000000 div 40000) = sum_list (map unat h) * 1000000 div 40000"
proof -
  have "sum_list (map unat h) \<le> 46 * 40000" using sum_reports_le [OF assms(2)] assms(3) by simp
  then show ?thesis using assms(1) by (simp add: unat_div unat_word_ariths)
qed

end
