(* ===== verification/NS6_Clock.thy ===== *)
theory NS6_Clock
  imports NS6_Float NS6_Meter
begin

text \<open>
  The clock model of the shared-memory driver, \<^verbatim>\<open>coreaudio/NS6ClockControl.c\<close>: it collects the feedback
  reports of the device, derives the output rate, decides how many frames each millisecond of
  eight packets carries and how fast the source is resampled. The preprocessor switches of
  \<^verbatim>\<open>NS6ClockControl.h\<close> are the fields of a configuration record.
\<close>

record clock_config =
  NS6_ADAPTIVE_CLOCK_ENABLED :: bool
  NS6_FEEDBACK_PATTERN_SCHEDULER_ENABLED :: bool
  NS6_CLOCK_QUEUE_TARGET_FRAMES :: u32
  NS6_ADAPTIVE_CLOCK_MIN_OUTPUT_RATE_MILLIHZ :: u64

record NS6ClockControl =
  feedback_sum :: u64
  rate_millihz :: u64
  requested_total :: u64
  sent_total :: u64
  fixed_fraction :: u64
  adaptive_fraction_millionths :: u64
  feedback_count :: u32
  feedback_index :: u32
  clock_locked :: bool
  target_frames_per_ms :: u8
  feedback_window :: "u8 list"
  pattern_queue :: "u8 list"
  pattern_queue_read :: u16
  pattern_queue_count :: u16

abbreviation (input) NS6_FEEDBACK_WINDOW :: nat where "NS6_FEEDBACK_WINDOW \<equiv> 40000"
abbreviation (input) NS6_FEEDBACK_PATTERN_QUEUE_CAPACITY :: nat where "NS6_FEEDBACK_PATTERN_QUEUE_CAPACITY \<equiv> 256"
abbreviation (input) NS6_NOMINAL_RATE_MILLIHZ :: u64 where "NS6_NOMINAL_RATE_MILLIHZ \<equiv> 44100000"
abbreviation (input) NS6_MAX_OUTPUT_RATE_MILLIHZ :: u64 where "NS6_MAX_OUTPUT_RATE_MILLIHZ \<equiv> 44100300"

definition ns6_clock_control_feedback_value_is_valid :: "u8 \<Rightarrow> bool" where
  "ns6_clock_control_feedback_value_is_valid frames_per_ms \<longleftrightarrow> 42 \<le> frames_per_ms \<and> frames_per_ms \<le> 46"

definition ns6_clock_control_init :: "NS6ClockControl option \<Rightarrow> NS6ClockControl option" where
  "ns6_clock_control_init control = map_option (\<lambda>_.
     \<lparr>feedback_sum = 0, rate_millihz = NS6_NOMINAL_RATE_MILLIHZ, requested_total = 0, sent_total = 0,
      fixed_fraction = 0, adaptive_fraction_millionths = 0, feedback_count = 0, feedback_index = 0,
      clock_locked = False, target_frames_per_ms = 44,
      feedback_window = replicate NS6_FEEDBACK_WINDOW 0,
      pattern_queue = replicate NS6_FEEDBACK_PATTERN_QUEUE_CAPACITY 0,
      pattern_queue_read = 0, pattern_queue_count = 0\<rparr>) control"

text \<open>The pattern queue keeps its stale bytes; its count is cleared.\<close>

definition ns6_clock_control_reset_feedback :: "NS6ClockControl option \<Rightarrow> NS6ClockControl option" where
  "ns6_clock_control_reset_feedback control = map_option (\<lambda>c. c\<lparr>
     feedback_sum := 0, feedback_count := 0, feedback_index := 0,
     feedback_window := replicate NS6_FEEDBACK_WINDOW 0,
     rate_millihz := NS6_NOMINAL_RATE_MILLIHZ, requested_total := 0, sent_total := 0,
     clock_locked := False, target_frames_per_ms := 44, adaptive_fraction_millionths := 0,
     fixed_fraction := 0, pattern_queue_read := 0, pattern_queue_count := 0\<rparr>) control"

definition clock_window_observe :: "u8 \<Rightarrow> NS6ClockControl \<Rightarrow> NS6ClockControl" where
  "clock_window_observe frames_per_ms c =
     (let c1 = (if feedback_count c = word_of_nat NS6_FEEDBACK_WINDOW
                then c\<lparr>feedback_sum := feedback_sum c - ucast (feedback_window c ! unat (feedback_index c))\<rparr>
                else c\<lparr>feedback_count := feedback_count c + 1\<rparr>)
      in c1\<lparr>feedback_window := (feedback_window c1)[unat (feedback_index c) := frames_per_ms],
            feedback_sum := feedback_sum c1 + ucast frames_per_ms,
            feedback_index := (feedback_index c + 1) mod word_of_nat NS6_FEEDBACK_WINDOW\<rparr>)"

definition clock_pattern_push :: "u8 \<Rightarrow> NS6ClockControl \<Rightarrow> NS6ClockControl" where
  "clock_pattern_push frames_per_ms c =
     (let c1 = (if pattern_queue_count c = word_of_nat NS6_FEEDBACK_PATTERN_QUEUE_CAPACITY
                then c\<lparr>pattern_queue_read := (pattern_queue_read c + 1) mod word_of_nat NS6_FEEDBACK_PATTERN_QUEUE_CAPACITY,
                       pattern_queue_count := pattern_queue_count c - 1\<rparr>
                else c);
          write_index = (pattern_queue_read c1 + pattern_queue_count c1) mod word_of_nat NS6_FEEDBACK_PATTERN_QUEUE_CAPACITY
      in c1\<lparr>pattern_queue := (pattern_queue c1)[unat write_index := frames_per_ms],
            pattern_queue_count := pattern_queue_count c1 + 1\<rparr>)"

text \<open>The body of the observation once the pointer is known to be there.\<close>

definition clock_observe :: "clock_config \<Rightarrow> u8 \<Rightarrow> NS6ClockControl \<Rightarrow> NS6ClockControl" where
  "clock_observe cfg frames_per_ms c =
     (if \<not> ns6_clock_control_feedback_value_is_valid frames_per_ms then c else
      let c1 = c\<lparr>target_frames_per_ms := frames_per_ms,
                 requested_total := requested_total c + ucast frames_per_ms, clock_locked := True\<rparr>;
          c2 = clock_window_observe frames_per_ms c1;
          c3 = (if NS6_ADAPTIVE_CLOCK_ENABLED cfg \<and> NS6_FEEDBACK_PATTERN_SCHEDULER_ENABLED cfg
                then clock_pattern_push frames_per_ms c2 else c2)
      in if feedback_count c3 = word_of_nat NS6_FEEDBACK_WINDOW
         then c3\<lparr>rate_millihz := (feedback_sum c3 * 1000000) div word_of_nat NS6_FEEDBACK_WINDOW\<rparr>
         else c3)"

definition ns6_clock_control_observe :: "clock_config \<Rightarrow> NS6ClockControl option \<Rightarrow> u8 \<Rightarrow> NS6ClockControl option" where
  "ns6_clock_control_observe cfg control frames_per_ms = map_option (clock_observe cfg frames_per_ms) control"

definition ns6_clock_control_output_rate_millihz :: "clock_config \<Rightarrow> NS6ClockControl option \<Rightarrow> u64" where
  "ns6_clock_control_output_rate_millihz cfg control =
     (if NS6_ADAPTIVE_CLOCK_ENABLED cfg
      then let r0 = (case control of
                       Some c \<Rightarrow> if clock_locked c \<and> rate_millihz c \<noteq> 0 then rate_millihz c
                                 else NS6_NOMINAL_RATE_MILLIHZ
                     | None \<Rightarrow> NS6_NOMINAL_RATE_MILLIHZ);
               r1 = (if r0 < NS6_ADAPTIVE_CLOCK_MIN_OUTPUT_RATE_MILLIHZ cfg
                     then NS6_ADAPTIVE_CLOCK_MIN_OUTPUT_RATE_MILLIHZ cfg else r0)
           in if NS6_MAX_OUTPUT_RATE_MILLIHZ < r1 then NS6_MAX_OUTPUT_RATE_MILLIHZ else r1
      else NS6_NOMINAL_RATE_MILLIHZ)"

text \<open>The nominal cadence: every tenth millisecond carries 45 frames.\<close>

definition clock_fixed_frames :: "NS6ClockControl \<Rightarrow> u32 \<times> NS6ClockControl" where
  "clock_fixed_frames c =
     (let f = fixed_fraction c + 100
      in if 1000 \<le> f then (45, c\<lparr>fixed_fraction := f - 1000\<rparr>) else (44, c\<lparr>fixed_fraction := f\<rparr>))"

definition clock_pattern_frames :: "NS6ClockControl \<Rightarrow> u32 \<times> NS6ClockControl" where
  "clock_pattern_frames c =
     (if pattern_queue_count c \<noteq> 0
      then (ucast (pattern_queue c ! unat (pattern_queue_read c)),
            c\<lparr>pattern_queue_read := (pattern_queue_read c + 1) mod word_of_nat NS6_FEEDBACK_PATTERN_QUEUE_CAPACITY,
              pattern_queue_count := pattern_queue_count c - 1\<rparr>)
      else clock_fixed_frames c)"

definition clock_adaptive_frames :: "clock_config \<Rightarrow> NS6ClockControl \<Rightarrow> u32 \<times> NS6ClockControl" where
  "clock_adaptive_frames cfg c =
     (let rate = ns6_clock_control_output_rate_millihz cfg (Some c);
          frames = ucast (rate div 1000000) :: u32;
          acc = adaptive_fraction_millionths c + rate mod 1000000;
          (frames, acc) = (if 1000000 \<le> acc then (frames + 1, acc - 1000000) else (frames, acc));
          frames = (if frames < 40 then 40 else frames);
          frames = (if 48 < frames then 48 else frames)
      in (frames, c\<lparr>adaptive_fraction_millionths := acc\<rparr>))"

definition clock_patterns :: "u32 list list" where
  "clock_patterns =
    [[6, 5, 5, 5, 6, 5, 5, 5],
     [5, 5, 6, 5, 6, 5, 6, 5],
     [6, 5, 6, 5, 6, 5, 6, 5],
     [6, 6, 5, 6, 5, 6, 5, 6],
     [5, 6, 6, 6, 5, 6, 6, 6]]"

text \<open>The even spread of the frames over the packets; the first number counts the packets left.\<close>

fun clock_spread :: "nat \<Rightarrow> u32 \<Rightarrow> u32 \<Rightarrow> u32 \<Rightarrow> u32 list" where
  "clock_spread 0 base remainder accumulator = []"
| "clock_spread (Suc n) base remainder accumulator =
     (let accumulator = accumulator + remainder
      in if 8 \<le> accumulator then (base + 1) # clock_spread n base remainder (accumulator - 8)
         else base # clock_spread n base remainder accumulator)"

definition clock_next :: "clock_config \<Rightarrow> NS6ClockControl \<Rightarrow> u32 list \<times> NS6ClockControl" where
  "clock_next cfg c =
     (if NS6_ADAPTIVE_CLOCK_ENABLED cfg \<and> NS6_FEEDBACK_PATTERN_SCHEDULER_ENABLED cfg
      then case clock_pattern_frames c of (frames, c1) \<Rightarrow>
             (clock_patterns ! unat (frames - 42), c1\<lparr>sent_total := sent_total c1 + ucast frames\<rparr>)
      else case (if NS6_ADAPTIVE_CLOCK_ENABLED cfg then clock_adaptive_frames cfg c else clock_fixed_frames c) of
             (frames, c1) \<Rightarrow>
             (clock_spread 8 (frames div 8) (frames mod 8) 0, c1\<lparr>sent_total := sent_total c1 + ucast frames\<rparr>))"

definition ns6_clock_control_next_millisecond ::
    "clock_config \<Rightarrow> NS6ClockControl option \<Rightarrow> u32 list option \<Rightarrow> u32 list option \<times> NS6ClockControl option" where
  "ns6_clock_control_next_millisecond cfg control packet_frames =
     (case (control, packet_frames) of
        (Some c, Some _) \<Rightarrow> (case clock_next cfg c of (frames, c') \<Rightarrow> (Some frames, Some c'))
      | _ \<Rightarrow> (packet_frames, control))"

definition ns6_clock_control_debt :: "NS6ClockControl option \<Rightarrow> int" where
  "ns6_clock_control_debt control = (case control of None \<Rightarrow> 0 | Some c \<Rightarrow>
     if sent_total c \<le> requested_total c
     then sint (requested_total c - sent_total c)
     else - sint (sent_total c - requested_total c))"

definition ns6_clock_control_requested_total :: "NS6ClockControl option \<Rightarrow> u64" where
  "ns6_clock_control_requested_total control = (case control of None \<Rightarrow> 0 | Some c \<Rightarrow> requested_total c)"

definition ns6_clock_control_sent_total :: "NS6ClockControl option \<Rightarrow> u64" where
  "ns6_clock_control_sent_total control = (case control of None \<Rightarrow> 0 | Some c \<Rightarrow> sent_total c)"

definition ns6_clock_control_rate_millihz :: "NS6ClockControl option \<Rightarrow> u64" where
  "ns6_clock_control_rate_millihz control = (case control of None \<Rightarrow> 0 | Some c \<Rightarrow> rate_millihz c)"

definition ns6_clock_control_is_locked :: "NS6ClockControl option \<Rightarrow> bool" where
  "ns6_clock_control_is_locked control = (case control of None \<Rightarrow> False | Some c \<Rightarrow> clock_locked c)"

definition ns6_clock_control_is_adaptive_enabled :: "clock_config \<Rightarrow> bool" where
  "ns6_clock_control_is_adaptive_enabled cfg = NS6_ADAPTIVE_CLOCK_ENABLED cfg"

definition ns6_clock_control_is_feedback_pattern_enabled :: "clock_config \<Rightarrow> bool" where
  "ns6_clock_control_is_feedback_pattern_enabled cfg \<longleftrightarrow>
     NS6_ADAPTIVE_CLOCK_ENABLED cfg \<and> NS6_FEEDBACK_PATTERN_SCHEDULER_ENABLED cfg"

definition ns6_clock_control_source_frames_per_output_frame ::
    "clock_config \<Rightarrow> NS6ClockControl option \<Rightarrow> u32 \<Rightarrow> flt" where
  "ns6_clock_control_source_frames_per_output_frame cfg control queued_frames =
     (let measured = ns6_clock_control_output_rate_millihz cfg control;
          step = fdiv f64 (double_of_nat (unat NS6_NOMINAL_RATE_MILLIHZ)) (double_of_nat (unat measured));
          target_frames = double_of_nat (unat (NS6_CLOCK_QUEUE_TARGET_FRAMES cfg));
          trim = fmul f64 (fsub f64 (double_of_nat (unat queued_frames)) target_frames) (dlit (1/1000000));
          trim = (if fless (dlit (5/1000)) trim then dlit (5/1000) else trim);
          trim = (if fless trim (fneg (dlit (5/1000))) then fneg (dlit (5/1000)) else trim);
          step = fmul f64 step (fadd f64 (dlit 1) trim);
          step = (if fless (dlit (1005/1000)) step then dlit (1005/1000) else step);
          step = (if fless step (dlit (995/1000)) then dlit (995/1000) else step)
      in step)"

subsection \<open>The invariant\<close>

definition clock_history :: "NS6ClockControl \<Rightarrow> u8 list" where
  "clock_history c = window 40000 (unat (feedback_count c)) (feedback_window c)
     (if unat (feedback_count c) < 40000 then 0 else unat (feedback_index c))"

definition clock_reports :: "NS6ClockControl \<Rightarrow> u8 list" where
  "clock_reports c = window 256 (unat (pattern_queue_count c)) (pattern_queue c) (unat (pattern_queue_read c))"

definition clock_window_inv :: "NS6ClockControl \<Rightarrow> bool" where
  "clock_window_inv c \<longleftrightarrow> length (feedback_window c) = 40000 \<and> unat (feedback_index c) < 40000 \<and>
     unat (feedback_count c) \<le> 40000 \<and>
     (unat (feedback_count c) < 40000 \<longrightarrow> feedback_index c = feedback_count c) \<and>
     unat (feedback_sum c) = sum_list (map unat (clock_history c)) \<and> list_all valid_report (clock_history c)"

definition clock_queue_inv :: "NS6ClockControl \<Rightarrow> bool" where
  "clock_queue_inv c \<longleftrightarrow> length (pattern_queue c) = 256 \<and> unat (pattern_queue_read c) < 256 \<and>
     unat (pattern_queue_count c) \<le> 256 \<and> list_all valid_report (clock_reports c)"

definition clock_inv :: "NS6ClockControl \<Rightarrow> bool" where
  "clock_inv c \<longleftrightarrow> clock_window_inv c \<and> clock_queue_inv c \<and>
     unat (fixed_fraction c) < 1000 \<and> unat (adaptive_fraction_millionths c) < 1000000 \<and>
     42000000 \<le> unat (rate_millihz c) \<and> unat (rate_millihz c) \<le> 46000000"

lemma clock_valid_iff: "ns6_clock_control_feedback_value_is_valid v \<longleftrightarrow> valid_report v"
  by (simp add: ns6_clock_control_feedback_value_is_valid_def valid_report_def word_le_nat_alt)

lemma length_clock_history: "length (clock_history c) = unat (feedback_count c)"
  by (simp add: clock_history_def)

lemma clock_window_observe_counts:
  assumes "clock_window_inv c"
  shows "unat (feedback_count (clock_window_observe v c)) =
      (if unat (feedback_count c) = 40000 then 40000 else Suc (unat (feedback_count c)))"
    and "unat (feedback_index (clock_window_observe v c)) = Suc (unat (feedback_index c)) mod 40000"
    and "feedback_window (clock_window_observe v c) = (feedback_window c)[unat (feedback_index c) := v]"
proof -
  have b: "unat (feedback_count c) \<le> 40000" "unat (feedback_index c) < 40000"
    using assms by (auto simp: clock_window_inv_def)
  have full: "feedback_count c = 40000 \<longleftrightarrow> unat (feedback_count c) = 40000"
    using word_unat_eq_iff [of "feedback_count c" 40000] by simp
  have "unat (feedback_count c + 1) = Suc (unat (feedback_count c))"
    "unat ((feedback_index c + 1) mod 40000) = Suc (unat (feedback_index c)) mod 40000"
    using b by (simp_all add: unat_word_ariths unat_mod)
  then show "unat (feedback_count (clock_window_observe v c)) =
      (if unat (feedback_count c) = 40000 then 40000 else Suc (unat (feedback_count c)))"
    "unat (feedback_index (clock_window_observe v c)) = Suc (unat (feedback_index c)) mod 40000"
    "feedback_window (clock_window_observe v c) = (feedback_window c)[unat (feedback_index c) := v]"
    by (simp_all add: clock_window_observe_def Let_def full)
qed

lemma clock_window_observe_history:
  assumes "clock_window_inv c"
  shows "clock_history (clock_window_observe v c) = push_bounded 40000 v (clock_history c)"
proof -
  let ?c = "clock_window_observe v c"
  have inv: "length (feedback_window c) = 40000" "unat (feedback_count c) \<le> 40000" "unat (feedback_index c) < 40000"
      "unat (feedback_count c) < 40000 \<Longrightarrow> unat (feedback_index c) = unat (feedback_count c)"
    using assms by (auto simp: clock_window_inv_def)
  have cnt: "unat (feedback_count ?c) = (if unat (feedback_count c) = 40000 then 40000 else Suc (unat (feedback_count c)))"
    by (rule clock_window_observe_counts [OF assms])
  from window_slide [OF inv cnt, of v] show ?thesis
    unfolding clock_history_def clock_window_observe_counts(2,3) [OF assms] .
qed

lemma clock_window_observe_sum:
  assumes "clock_window_inv c" and "valid_report v"
  shows "unat (feedback_sum (clock_window_observe v c)) = sum_list (map unat (push_bounded 40000 v (clock_history c)))"
proof -
  let ?out = "feedback_window c ! unat (feedback_index c)"
  have inv: "unat (feedback_sum c) = sum_list (map unat (clock_history c))" "list_all valid_report (clock_history c)"
      "length (clock_history c) \<le> 40000"
    using assms(1) by (auto simp: clock_window_inv_def length_clock_history)
  have "hd (clock_history c) = ?out" if "length (clock_history c) = 40000"
    using that assms(1) by (simp add: length_clock_history clock_history_def window_hd clock_window_inv_def)
  note step = report_sum_step [OF inv assms(2) this]
  have "feedback_count c = 40000 \<longleftrightarrow> length (clock_history c) = 40000"
    using word_unat_eq_iff [of "feedback_count c" 40000] by (simp add: length_clock_history)
  with step show ?thesis by (simp add: clock_window_observe_def Let_def split: if_splits)
qed

lemma clock_window_observe_inv:
  assumes "clock_window_inv c" and "valid_report v"
  shows "clock_window_inv (clock_window_observe v c)"
proof -
  let ?c = "clock_window_observe v c"
  have inv: "length (feedback_window c) = 40000" "unat (feedback_count c) \<le> 40000" "unat (feedback_index c) < 40000"
      "list_all valid_report (clock_history c)"
      "unat (feedback_count c) < 40000 \<Longrightarrow> feedback_index c = feedback_count c"
    using assms(1) by (auto simp: clock_window_inv_def)
  have "feedback_index ?c = feedback_count ?c" if "unat (feedback_count ?c) < 40000"
    using that inv(2,5) clock_window_observe_counts(1,2) [OF assms(1), of v]
    by (intro word_unat_eq_iff [THEN iffD2]) (auto split: if_splits)
  then show ?thesis
    using inv clock_window_observe_sum [OF assms] clock_window_observe_counts [OF assms(1), of v] assms(2)
    by (simp add: clock_window_inv_def clock_window_observe_history [OF assms(1)] list_all_push_bounded)
qed

lemma clock_pattern_push_reports:
  assumes "clock_queue_inv c"
  shows "clock_reports (clock_pattern_push v c) = push_bounded 256 v (clock_reports c)"
    and "valid_report v \<Longrightarrow> clock_queue_inv (clock_pattern_push v c)"
proof -
  have inv: "length (pattern_queue c) = 256" "unat (pattern_queue_count c) \<le> 256" "unat (pattern_queue_read c) < 256"
      "list_all valid_report (clock_reports c)"
    using assms by (auto simp: clock_queue_inv_def)
  define rd where "rd = (if pattern_queue_count c = 256 then (pattern_queue_read c + 1) mod 256 else pattern_queue_read c)"
  define cnt where "cnt = (if pattern_queue_count c = 256 then pattern_queue_count c - 1 else pattern_queue_count c)"
  have full: "pattern_queue_count c = 256 \<longleftrightarrow> unat (pattern_queue_count c) = 256"
    using word_unat_eq_iff [of "pattern_queue_count c" 256] by simp
  have rd: "unat rd = (if unat (pattern_queue_count c) = 256 then (unat (pattern_queue_read c) + 1) mod 256
      else unat (pattern_queue_read c))" "unat rd < 256"
    using inv by (auto simp: rd_def full unat_mod unat_word_ariths)
  have cnt: "unat cnt = (if unat (pattern_queue_count c) = 256 then unat (pattern_queue_count c) - 1
      else unat (pattern_queue_count c))" "unat cnt < 256"
    using inv full by (cases "pattern_queue_count c = 256"; simp add: cnt_def)+
  have wr: "unat ((rd + cnt) mod 256) = (unat rd + unat cnt) mod 256"
    using rd cnt by (simp add: unat_mod unat_word_ariths)
  have c': "clock_pattern_push v c = c\<lparr>pattern_queue_read := rd,
      pattern_queue := (pattern_queue c)[(unat rd + unat cnt) mod 256 := v], pattern_queue_count := cnt + 1\<rparr>"
    unfolding wr [symmetric] by (simp add: clock_pattern_push_def Let_def rd_def cnt_def)
  have cnt1: "unat (cnt + 1) = Suc (unat cnt)" using cnt(2) by (simp add: unat_word_ariths)
  from window_push_bounded [OF inv(1,2) _ rd(1) cnt(1), of v]
  show rep: "clock_reports (clock_pattern_push v c) = push_bounded 256 v (clock_reports c)"
    by (simp add: clock_reports_def c' cnt1)
  show "clock_queue_inv (clock_pattern_push v c)" if "valid_report v"
    unfolding clock_queue_inv_def rep using inv rd cnt cnt1 that
    by (simp add: list_all_push_bounded) (simp add: c')
qed

lemma clock_window_observe_other:
  "pattern_queue (clock_window_observe v c) = pattern_queue c"
  "pattern_queue_read (clock_window_observe v c) = pattern_queue_read c"
  "pattern_queue_count (clock_window_observe v c) = pattern_queue_count c"
  "fixed_fraction (clock_window_observe v c) = fixed_fraction c"
  "adaptive_fraction_millionths (clock_window_observe v c) = adaptive_fraction_millionths c"
  "rate_millihz (clock_window_observe v c) = rate_millihz c"
  "requested_total (clock_window_observe v c) = requested_total c"
  "sent_total (clock_window_observe v c) = sent_total c"
  "clock_locked (clock_window_observe v c) = clock_locked c"
  by (simp_all add: clock_window_observe_def Let_def)

lemma clock_pattern_push_other:
  "feedback_window (clock_pattern_push v c) = feedback_window c"
  "feedback_index (clock_pattern_push v c) = feedback_index c"
  "feedback_count (clock_pattern_push v c) = feedback_count c"
  "feedback_sum (clock_pattern_push v c) = feedback_sum c"
  "fixed_fraction (clock_pattern_push v c) = fixed_fraction c"
  "adaptive_fraction_millionths (clock_pattern_push v c) = adaptive_fraction_millionths c"
  "rate_millihz (clock_pattern_push v c) = rate_millihz c"
  "requested_total (clock_pattern_push v c) = requested_total c"
  "sent_total (clock_pattern_push v c) = sent_total c"
  "clock_locked (clock_pattern_push v c) = clock_locked c"
  by (simp_all add: clock_pattern_push_def Let_def)

lemmas clock_other = clock_window_observe_other clock_pattern_push_other

lemma clock_inv_cong:
  "clock_window_inv (c\<lparr>target_frames_per_ms := a, requested_total := b, clock_locked := l\<rparr>) = clock_window_inv c"
  "clock_queue_inv (c\<lparr>target_frames_per_ms := a, requested_total := b, clock_locked := l\<rparr>) = clock_queue_inv c"
  "clock_history (c\<lparr>target_frames_per_ms := a, requested_total := b, clock_locked := l\<rparr>) = clock_history c"
  "clock_window_inv (c\<lparr>rate_millihz := x\<rparr>) = clock_window_inv c"
  "clock_queue_inv (c\<lparr>rate_millihz := x\<rparr>) = clock_queue_inv c"
  "clock_history (c\<lparr>rate_millihz := x\<rparr>) = clock_history c"
  "clock_window_inv (c\<lparr>adaptive_fraction_millionths := y\<rparr>) = clock_window_inv c"
  "clock_queue_inv (c\<lparr>adaptive_fraction_millionths := y\<rparr>) = clock_queue_inv c"
  "clock_window_inv (c\<lparr>fixed_fraction := y\<rparr>) = clock_window_inv c"
  "clock_queue_inv (c\<lparr>fixed_fraction := y\<rparr>) = clock_queue_inv c"
  "clock_reports (c\<lparr>fixed_fraction := y\<rparr>) = clock_reports c"
  "clock_window_inv (c\<lparr>sent_total := z\<rparr>) = clock_window_inv c"
  "clock_queue_inv (c\<lparr>sent_total := z\<rparr>) = clock_queue_inv c"
  "clock_reports (c\<lparr>sent_total := z\<rparr>) = clock_reports c"
  "clock_window_inv (c\<lparr>pattern_queue_read := rd, pattern_queue_count := n\<rparr>) = clock_window_inv c"
  by (simp_all add: clock_window_inv_def clock_queue_inv_def clock_history_def clock_reports_def)

lemma clock_pattern_push_window:
  "clock_history (clock_pattern_push v c) = clock_history c"
  "clock_window_inv (clock_pattern_push v c) = clock_window_inv c"
  by (simp_all add: clock_window_inv_def clock_history_def clock_other)

lemma clock_window_observe_queue: "clock_queue_inv (clock_window_observe v c) = clock_queue_inv c"
  by (simp add: clock_queue_inv_def clock_reports_def clock_other)

text \<open>The state after a valid report, before the rate is refreshed.\<close>

definition clock_collect :: "clock_config \<Rightarrow> u8 \<Rightarrow> NS6ClockControl \<Rightarrow> NS6ClockControl" where
  "clock_collect cfg v c =
     (let c2 = clock_window_observe v (c\<lparr>target_frames_per_ms := v,
                 requested_total := requested_total c + ucast v, clock_locked := True\<rparr>)
      in if NS6_ADAPTIVE_CLOCK_ENABLED cfg \<and> NS6_FEEDBACK_PATTERN_SCHEDULER_ENABLED cfg
         then clock_pattern_push v c2 else c2)"

lemma clock_observe_eq:
  "valid_report v \<Longrightarrow> clock_observe cfg v c =
     (let c3 = clock_collect cfg v c in
      if feedback_count c3 = 40000 then c3\<lparr>rate_millihz := (feedback_sum c3 * 1000000) div 40000\<rparr> else c3)"
  by (simp add: clock_observe_def clock_collect_def clock_valid_iff Let_def)

lemma clock_collect_spec:
  assumes "clock_inv c" and "valid_report v"
  shows "clock_inv (clock_collect cfg v c) \<and> clock_history (clock_collect cfg v c) = push_bounded 40000 v (clock_history c) \<and>
    rate_millihz (clock_collect cfg v c) = rate_millihz c"
  using assms
  by (auto simp: clock_inv_def clock_collect_def Let_def clock_other clock_inv_cong clock_pattern_push_window
      clock_window_observe_queue clock_window_observe_inv clock_window_observe_history clock_pattern_push_reports)

lemma clock_rate_words:
  assumes "clock_window_inv c"
  shows "unat (feedback_sum c * 1000000 div 40000) = sum_list (map unat (clock_history c)) * 1000000 div 40000"
  using assms by (intro report_rate_words) (auto simp: clock_window_inv_def length_clock_history)

lemma clock_observe_valid:
  assumes "clock_inv c" and "valid_report v"
  shows "clock_inv (clock_observe cfg v c) \<and>
    clock_history (clock_observe cfg v c) = push_bounded 40000 v (clock_history c) \<and>
    unat (rate_millihz (clock_observe cfg v c)) = (if length (clock_history (clock_observe cfg v c)) = 40000
      then sum_list (map unat (clock_history (clock_observe cfg v c))) * 1000000 div 40000 else unat (rate_millihz c))"
proof -
  let ?c = "clock_collect cfg v c" and ?h = "clock_history (clock_collect cfg v c)"
  note col = clock_collect_spec [OF assms, of cfg]
  have full: "feedback_count ?c = 40000 \<longleftrightarrow> length ?h = 40000"
    using word_unat_eq_iff [of "feedback_count ?c" 40000] by (simp add: length_clock_history)
  show ?thesis
  proof (cases "length ?h = 40000")
    case True
    have w: "clock_window_inv ?c" "list_all valid_report ?h"
      using col by (auto simp: clock_inv_def clock_window_inv_def)
    have "42000000 \<le> sum_list (map unat ?h) * 1000000 div 40000 \<and> sum_list (map unat ?h) * 1000000 div 40000 \<le> 46000000"
      using mean_bounds [OF w(2) True] by simp
    then show ?thesis
      using col True full
      by (simp add: clock_observe_eq [OF assms(2)] Let_def clock_inv_def clock_inv_cong clock_rate_words [OF w(1)])
  next
    case False
    then show ?thesis using col full by (simp add: clock_observe_eq [OF assms(2)] Let_def)
  qed
qed

interpretation ck: feedback_meter clock_inv clock_history "\<lambda>c. unat (rate_millihz c)" "clock_observe cfg" 40000 for cfg
proof unfold_locales
  show "clock_observe cfg v s = s" if "\<not> valid_report v" for v s
    using that by (simp add: clock_observe_def clock_valid_iff)
qed (use clock_observe_valid in \<open>auto\<close>)

subsection \<open>The next millisecond\<close>

definition packet_ok :: "u32 \<Rightarrow> bool" where
  "packet_ok p \<longleftrightarrow> p = 5 \<or> p = 6"

lemma clock_spread_spec:
  "unat remainder < 8 \<Longrightarrow> unat accumulator < 8 \<Longrightarrow> unat base < 2 ^ 31 \<Longrightarrow>
   length (clock_spread n base remainder accumulator) = n \<and>
   set (clock_spread n base remainder accumulator) \<subseteq> {base, base + 1} \<and>
   sum_list (map unat (clock_spread n base remainder accumulator)) =
     n * unat base + (unat accumulator + n * unat remainder) div 8"
proof (induction n arbitrary: accumulator)
  case (Suc n)
  have a: "unat (accumulator + remainder) = unat accumulator + unat remainder"
    using Suc.prems by (simp add: unat_word_ariths)
  have b: "unat (base + 1) = unat base + 1" using Suc.prems by (simp add: unat_word_ariths)
  show ?case
  proof (cases "8 \<le> accumulator + remainder")
    case True
    then have s: "unat (accumulator + remainder - 8) = unat accumulator + unat remainder - 8"
      by (simp add: unat_sub a)
    have ge: "8 \<le> unat accumulator + unat remainder" using True by (simp add: word_le_nat_alt a)
    then have "(unat accumulator + (unat remainder + n * unat remainder)) div 8 =
        Suc ((unat accumulator + unat remainder - 8 + n * unat remainder) div 8)"
      using le_div_geq [of 8 "unat accumulator + (unat remainder + n * unat remainder)"] by (simp add: algebra_simps)
    then show ?thesis
      using Suc.IH [of "accumulator + remainder - 8"] Suc.prems True ge s by (auto simp: Let_def b)
  next
    case False
    then have "unat (accumulator + remainder) < 8" by (simp add: word_le_nat_alt)
    then show ?thesis
      using Suc.IH [of "accumulator + remainder"] Suc.prems False by (auto simp: Let_def a add.assoc)
  qed
qed simp

lemma clock_spread_frames:
  assumes "40 \<le> unat frames" and "unat frames < 48"
  shows "length (clock_spread 8 (frames div 8) (frames mod 8) 0) = 8"
    and "list_all packet_ok (clock_spread 8 (frames div 8) (frames mod 8) 0)"
    and "sum_list (map unat (clock_spread 8 (frames div 8) (frames mod 8) 0)) = unat frames"
proof -
  have d: "unat (frames div 8) = 5" using assms by (simp add: unat_div)
  then have base: "frames div 8 = 5" using word_unat_eq_iff [of "frames div 8" 5] by simp
  have m: "unat (frames mod 8) = unat frames - 40"
    using assms by (simp add: unat_mod) presburger
  have sp: "length (clock_spread 8 5 (frames mod 8) 0) = 8" "set (clock_spread 8 5 (frames mod 8) 0) \<subseteq> {5, 6}"
      "sum_list (map unat (clock_spread 8 5 (frames mod 8) 0)) = unat frames"
    using clock_spread_spec [of "frames mod 8" 0 5 8] assms m by auto
  show "length (clock_spread 8 (frames div 8) (frames mod 8) 0) = 8"
    "list_all packet_ok (clock_spread 8 (frames div 8) (frames mod 8) 0)"
    "sum_list (map unat (clock_spread 8 (frames div 8) (frames mod 8) 0)) = unat frames"
    using sp by (auto simp: base packet_ok_def list_all_iff)
qed

lemma clock_patterns_frames:
  fixes frames :: u32
  assumes "42 \<le> unat frames" and "unat frames \<le> 46"
  shows "length (clock_patterns ! unat (frames - 42)) = 8 \<and> list_all packet_ok (clock_patterns ! unat (frames - 42)) \<and>
    sum_list (map unat (clock_patterns ! unat (frames - 42))) = unat frames"
proof -
  have "unat frames = 42 \<or> unat frames = 43 \<or> unat frames = 44 \<or> unat frames = 45 \<or> unat frames = 46"
    using assms by linarith
  then have "frames = 42 \<or> frames = 43 \<or> frames = 44 \<or> frames = 45 \<or> frames = 46"
    unfolding word_unat_eq_iff by simp
  then show ?thesis by (elim disjE) (simp_all add: clock_patterns_def packet_ok_def)
qed

lemma clock_fixed_frames_spec:
  assumes "clock_inv c" and "clock_fixed_frames c = (frames, c')"
  shows "clock_inv c' \<and> sent_total c' = sent_total c \<and> 44 \<le> unat frames \<and> unat frames \<le> 45 \<and>
    clock_reports c' = clock_reports c \<and>
    unat (fixed_fraction c') + 1000 * unat frames = unat (fixed_fraction c) + 44100"
proof -
  have f: "unat (fixed_fraction c) < 1000" using assms by (simp add: clock_inv_def)
  then have "unat (fixed_fraction c + 100) = unat (fixed_fraction c) + 100" by (simp add: unat_word_ariths)
  then show ?thesis
    using assms f
    by (auto simp: clock_fixed_frames_def Let_def clock_inv_def clock_inv_cong word_le_nat_alt unat_sub
        split: if_splits)
qed

lemma clock_output_rate_bounds:
  assumes "clock_inv c"
  shows "42000000 \<le> unat (ns6_clock_control_output_rate_millihz cfg (Some c)) \<and>
    unat (ns6_clock_control_output_rate_millihz cfg (Some c)) \<le> 44100300"
proof -
  have "42000000 \<le> unat (rate_millihz c)" using assms by (simp add: clock_inv_def)
  then show ?thesis
    by (auto simp: ns6_clock_control_output_rate_millihz_def Let_def word_less_nat_alt)
qed

lemma clock_output_rate_cong:
  "ns6_clock_control_output_rate_millihz cfg (Some (c\<lparr>adaptive_fraction_millionths := a, sent_total := t\<rparr>)) =
   ns6_clock_control_output_rate_millihz cfg (Some c)"
  by (simp add: ns6_clock_control_output_rate_millihz_def)

lemma clock_adaptive_frames_spec:
  assumes "clock_inv c" and "clock_adaptive_frames cfg c = (frames, c')"
  shows "clock_inv c' \<and> sent_total c' = sent_total c \<and> 42 \<le> unat frames \<and> unat frames \<le> 45 \<and>
    c' = c\<lparr>adaptive_fraction_millionths := adaptive_fraction_millionths c'\<rparr> \<and>
    unat (adaptive_fraction_millionths c') + 1000000 * unat frames =
      unat (adaptive_fraction_millionths c) + unat (ns6_clock_control_output_rate_millihz cfg (Some c))"
proof -
  define rate where "rate = ns6_clock_control_output_rate_millihz cfg (Some c)"
  have r: "42000000 \<le> unat rate" "unat rate \<le> 44100300"
    using clock_output_rate_bounds [OF assms(1), of cfg] by (simp_all add: rate_def)
  have a: "unat (adaptive_fraction_millionths c) < 1000000" using assms(1) by (simp add: clock_inv_def)
  define f :: u32 where "f = ucast (rate div 1000000)"
  have "unat (rate div 1000000) = unat rate div 1000000" by (simp add: unat_div)
  moreover have "unat rate div 1000000 < 2 ^ 32" using r by simp
  ultimately have f: "unat f = unat rate div 1000000"
    by (simp add: f_def unsigned_ucast_eq take_bit_nat_eq_self)
  define acc where "acc = adaptive_fraction_millionths c + rate mod 1000000"
  have acc: "unat acc = unat (adaptive_fraction_millionths c) + unat rate mod 1000000"
    using a by (simp add: acc_def unat_word_ariths unat_mod)
  have fb: "42 \<le> unat f" "unat f \<le> 44" using r f by auto
  then have f1: "unat (f + 1) = unat f + 1" by (simp add: unat_word_ariths)
  have split: "unat rate = 1000000 * unat f + unat rate mod 1000000" by (simp add: f)
  have am: "unat rate mod 1000000 < 1000000" by simp
  have res: "frames = (if 1000000 \<le> acc then f + 1 else f)"
      "c' = c\<lparr>adaptive_fraction_millionths := if 1000000 \<le> acc then acc - 1000000 else acc\<rparr>"
    using assms(2) fb f1
    by (auto simp: clock_adaptive_frames_def Let_def rate_def [symmetric] f_def [symmetric] acc_def [symmetric]
        word_less_nat_alt split: if_splits)
  have sub: "unat (acc - 1000000) = unat acc - 1000000" if "1000000 \<le> acc"
    using that by (simp add: unat_sub)
  have "unat (adaptive_fraction_millionths c') < 1000000" 
    using acc a am sub by (auto simp: res word_le_nat_alt)
  then have "clock_inv c'"
    using assms(1) by (simp add: res clock_inv_def clock_inv_cong)
  moreover have "unat (adaptive_fraction_millionths c') + 1000000 * unat frames =
      unat (adaptive_fraction_millionths c) + unat rate"
    using split acc sub f1 by (auto simp: res word_le_nat_alt)
  ultimately show ?thesis using fb f1 by (auto simp: res rate_def)
qed

lemma clock_pattern_frames_spec:
  assumes "clock_inv c" and "clock_pattern_frames c = (frames, c')"
  shows "clock_inv c' \<and> sent_total c' = sent_total c \<and> 42 \<le> unat frames \<and> unat frames \<le> 46 \<and>
    (clock_reports c \<noteq> [] \<longrightarrow> unat frames = unat (hd (clock_reports c))) \<and> clock_reports c' = tl (clock_reports c)"
proof (cases "pattern_queue_count c = 0")
  case True
  then have "clock_reports c = []" by (simp add: clock_reports_def)
  then show ?thesis
    using True assms(2) clock_fixed_frames_spec [OF assms(1), of frames c']
    by (auto simp: clock_pattern_frames_def)
next
  case False
  let ?rd = "unat (pattern_queue_read c)" and ?cnt = "unat (pattern_queue_count c)"
  have inv: "?rd < 256" "?cnt \<le> 256" "list_all valid_report (clock_reports c)"
    using assms(1) by (auto simp: clock_inv_def clock_queue_inv_def)
  have pos: "0 < ?cnt" using False by (simp add: unat_gt_0)
  have res: "frames = ucast (pattern_queue c ! ?rd)" "c' = c\<lparr>pattern_queue_read := (pattern_queue_read c + 1) mod 256,
      pattern_queue_count := pattern_queue_count c - 1\<rparr>"
    using assms(2) False by (auto simp: clock_pattern_frames_def)
  have hd: "hd (clock_reports c) = pattern_queue c ! ?rd" using pos inv(1) by (simp add: clock_reports_def window_hd)
  have ne: "clock_reports c \<noteq> []" using pos by (simp add: clock_reports_def flip: length_greater_0_conv)
  then have v: "valid_report (hd (clock_reports c))" using inv(3) by (cases "clock_reports c") auto
  have fr: "unat frames = unat (hd (clock_reports c))" by (simp add: res hd unat_ucast_up)
  have rd': "unat ((pattern_queue_read c + 1) mod 256) = Suc ?rd mod 256"
    using inv(1) by (simp add: unat_mod unat_word_ariths)
  have cnt': "unat (pattern_queue_count c - 1) = ?cnt - 1" using pos by (simp add: unat_minus_one unat_gt_0 [symmetric])
  have rep: "clock_reports c' = tl (clock_reports c)"
    using window_pop [OF pos, of 256 "pattern_queue c" ?rd]
    by (simp add: clock_reports_def res rd' cnt' window_mod)
  have "clock_queue_inv c'"
    unfolding clock_queue_inv_def rep using assms(1) inv(3) pos ne
    by (cases "clock_reports c") (auto simp: clock_inv_def clock_queue_inv_def res rd' cnt')
  then have "clock_inv c'"
    using assms(1) by (simp add: clock_inv_def res clock_inv_cong)
  then show ?thesis using fr v rep by (simp add: valid_report_def) (simp add: res)
qed

lemma clock_next_spec:
  assumes "clock_inv c" and "clock_next cfg c = (packets, c')"
  shows "clock_inv c' \<and> length packets = 8 \<and> list_all packet_ok packets \<and>
    sent_total c' = sent_total c + word_of_nat (sum_list (map unat packets))"
proof -
  show ?thesis
  proof (cases "NS6_ADAPTIVE_CLOCK_ENABLED cfg \<and> NS6_FEEDBACK_PATTERN_SCHEDULER_ENABLED cfg")
    case True
    obtain frames c1 where f: "clock_pattern_frames c = (frames, c1)" by fastforce
    note spec = clock_pattern_frames_spec [OF assms(1) f]
    with clock_patterns_frames [of frames] True assms(2) f show ?thesis
      by (auto simp: clock_next_def clock_inv_def clock_inv_cong)
  next
    case False
    obtain frames c1 where f: "(if NS6_ADAPTIVE_CLOCK_ENABLED cfg then clock_adaptive_frames cfg c
        else clock_fixed_frames c) = (frames, c1)" by fastforce
    have spec: "clock_inv c1" "sent_total c1 = sent_total c" "40 \<le> unat frames" "unat frames < 48"
      using clock_adaptive_frames_spec [OF assms(1), of cfg frames c1]
        clock_fixed_frames_spec [OF assms(1), of frames c1] f by (auto split: if_splits)
    show ?thesis
      using spec(1,2) clock_spread_frames [OF spec(3,4)] False assms(2) f
      by (auto simp: clock_next_def clock_inv_def clock_inv_cong split: if_splits)
  qed
qed

text \<open>A run of milliseconds without new feedback.\<close>

fun clock_run :: "clock_config \<Rightarrow> nat \<Rightarrow> NS6ClockControl \<Rightarrow> u32 list list \<times> NS6ClockControl" where
  "clock_run cfg 0 c = ([], c)"
| "clock_run cfg (Suc n) c =
     (case clock_next cfg c of (packets, c1) \<Rightarrow>
        case clock_run cfg n c1 of (rest, c2) \<Rightarrow> (packets # rest, c2))"

definition frames_of :: "u32 list list \<Rightarrow> nat" where
  "frames_of ms = sum_list (map (\<lambda>packets. sum_list (map unat packets)) ms)"

lemma clock_run_fixed:
  assumes "\<not> NS6_ADAPTIVE_CLOCK_ENABLED cfg"
  shows "clock_inv c \<Longrightarrow> clock_run cfg n c = (ms, c') \<Longrightarrow>
    clock_inv c' \<and> unat (fixed_fraction c') + 1000 * frames_of ms = unat (fixed_fraction c) + 44100 * n"
proof (induction n arbitrary: c ms c')
  case (Suc n)
  obtain frames c0 where f: "clock_fixed_frames c = (frames, c0)" by fastforce
  obtain rest c2 where r: "clock_run cfg n (c0\<lparr>sent_total := sent_total c0 + ucast frames\<rparr>) = (rest, c2)" by fastforce
  note spec = clock_fixed_frames_spec [OF Suc.prems(1) f]
  have "clock_inv (c0\<lparr>sent_total := sent_total c0 + ucast frames\<rparr>)"
    using spec by (simp add: clock_inv_def clock_inv_cong)
  from Suc.IH [OF this r] show ?case
    using Suc.prems assms f r spec clock_spread_frames(3) [of frames]
    by (auto simp: clock_next_def frames_of_def)
qed (simp add: frames_of_def)

lemma clock_run_pattern:
  assumes "NS6_ADAPTIVE_CLOCK_ENABLED cfg" and "NS6_FEEDBACK_PATTERN_SCHEDULER_ENABLED cfg"
  shows "clock_inv c \<Longrightarrow> n \<le> length (clock_reports c) \<Longrightarrow> clock_run cfg n c = (ms, c') \<Longrightarrow>
    map (\<lambda>packets. sum_list (map unat packets)) ms = map unat (take n (clock_reports c)) \<and>
    clock_reports c' = drop n (clock_reports c)"
proof (induction n arbitrary: c ms c')
  case (Suc n)
  obtain frames c0 where f: "clock_pattern_frames c = (frames, c0)" by fastforce
  let ?c1 = "c0\<lparr>sent_total := sent_total c0 + ucast frames\<rparr>"
  obtain rest c2 where r: "clock_run cfg n ?c1 = (rest, c2)" by fastforce
  note spec = clock_pattern_frames_spec [OF Suc.prems(1) f]
  obtain v vs where q: "clock_reports c = v # vs" using Suc.prems(2) by (cases "clock_reports c") auto
  have inv: "clock_inv ?c1" "n \<le> length (clock_reports ?c1)"
    using spec Suc.prems(2) q by (auto simp: clock_inv_def clock_inv_cong)
  from Suc.IH [OF inv r] show ?case
    using Suc.prems(3) assms f r spec clock_patterns_frames [of frames] q
    by (auto simp: clock_next_def clock_inv_cong)
qed simp

subsection \<open>The resampling step\<close>

lemma fin_in_clamp:
  assumes "fin_in a b x" and "fin_in c d lo" and "fin_in c d hi" and "\<not> fless hi lo"
  shows "fin_in (min a c) (max b d) (let x = (if fless hi x then hi else x) in if fless x lo then lo else x)"
    and "\<not> fless (let x = (if fless hi x then hi else x) in if fless x lo then lo else x) lo"
    and "\<not> fless hi (let x = (if fless hi x then hi else x) in if fless x lo then lo else x)"
proof -
  obtain q l h where *: "x = Fin q" "lo = Fin l" "hi = Fin h" "of_int a \<le> q" "q \<le> of_int b"
      "of_int c \<le> l" "l \<le> of_int d" "of_int c \<le> h" "h \<le> of_int d"
    using assms(1-3) by (auto elim!: fin_in_cases)
  then show "fin_in (min a c) (max b d) (let x = (if fless hi x then hi else x) in if fless x lo then lo else x)"
    by (auto simp: fin_in_def Let_def min_def max_def of_int_le_iff [where 'a = rat, symmetric] simp del: of_int_le_iff)
  show "\<not> fless (let x = (if fless hi x then hi else x) in if fless x lo then lo else x) lo"
    "\<not> fless hi (let x = (if fless hi x then hi else x) in if fless x lo then lo else x)"
    using * assms(4) by (auto simp: Let_def)
qed

lemma clock_measured_pos: "0 < unat (ns6_clock_control_output_rate_millihz cfg control)"
  "unat (ns6_clock_control_output_rate_millihz cfg control) \<le> 44100300"
  by (auto simp: ns6_clock_control_output_rate_millihz_def Let_def word_less_nat_alt unat_gt_0 split: option.splits)

lemma double_of_nat_exact: "n \<le> 2 ^ 53 \<Longrightarrow> double_of_nat n = Fin (of_nat n)"
  using dlit_int [of "int n"] by (simp add: double_of_nat_def dlit_def)

lemma rate_quotient:
  assumes "0 < m" and "m \<le> 2 ^ 53"
  shows "fin_in 0 44100000 (fdiv f64 (double_of_nat 44100000) (double_of_nat m))"
proof -
  have "44100000 / (of_nat m :: rat) \<le> 44100000" using assms by (simp add: divide_le_eq)
  then show ?thesis
    using assms by (auto simp: double_of_nat_exact intro!: fin_in_fround)
qed

lemma fin_in_ordered: "fin_in a b x \<Longrightarrow> fin_in b c y \<Longrightarrow> \<not> fless y x"
  by (auto simp: fin_in_def split: flt.splits)

lemma step_literals:
  "fin_in 0 1 (dlit (5/1000))" "fin_in (- 1) 0 (fneg (dlit (5/1000)))"
  "fin_in 0 1 (dlit (995/1000))" "fin_in 1 2 (dlit (1005/1000))" "fin_in 0 1 (dlit (1/1000000))"
  using fin_in_dlit [of 0 "5/1000" 1] fin_in_fneg [of 0 1 "dlit (5/1000)"]
  by (auto intro!: fin_in_dlit)

text \<open>The clamped product both drivers compute, with the trim already bounded by one.\<close>

lemma step_product:
  assumes "fin_in 0 44100000 step" and "fin_in (- 1) 1 trim"
  shows "fin_in (- 88200000) 88200000 (fmul f64 step (fadd f64 (dlit 1) trim))"
proof -
  have "fin_in (1 + - 1) (1 + 1) (fadd f64 (dlit 1) trim)"
    using assms(2) by (intro fin_in_fadd) (auto simp: fin_in_def)
  then have "fin_in (- 2) 2 (fadd f64 (dlit 1) trim)" by (rule fin_in_weaken) auto
  moreover have "fin_in (- 44100000) 44100000 step" using assms(1) by (rule fin_in_weaken) auto
  ultimately have "fin_in (- (44100000 * 2)) (44100000 * 2) (fmul f64 step (fadd f64 (dlit 1) trim))"
    by (intro fin_in_fmul) auto
  then show ?thesis by simp
qed

lemma clock_step_bounds:
  assumes "step = ns6_clock_control_source_frames_per_output_frame cfg control queued_frames"
  shows "isfinite step \<and> \<not> fless step (dlit (995/1000)) \<and> \<not> fless (dlit (1005/1000)) step"
proof -
  let ?lo = "fneg (dlit (5/1000))" and ?hi = "dlit (5/1000)"
  define s0 where "s0 = fdiv f64 (double_of_nat 44100000)
    (double_of_nat (unat (ns6_clock_control_output_rate_millihz cfg control)))"
  have s0: "fin_in 0 44100000 s0"
    unfolding s0_def using clock_measured_pos [of cfg control] by (intro rate_quotient) auto
  define t0 where "t0 = fmul f64 (fsub f64 (double_of_nat (unat queued_frames))
    (double_of_nat (unat (NS6_CLOCK_QUEUE_TARGET_FRAMES cfg)))) (dlit (1/1000000))"
  have "fin_in (0 - 2 ^ 32) (2 ^ 32 - 0) (fsub f64 (double_of_nat (unat queued_frames))
      (double_of_nat (unat (NS6_CLOCK_QUEUE_TARGET_FRAMES cfg))))"
    by (intro fin_in_fsub fin_in_u32) auto
  moreover have "fin_in (- 1) 1 (dlit (1/1000000))"
    using step_literals(5) by (rule fin_in_weaken) auto
  ultimately have t0: "fin_in (- (2 ^ 32 * 1)) (2 ^ 32 * 1) t0"
    unfolding t0_def by (intro fin_in_fmul) auto
  define t1 where "t1 = (let x = (if fless ?hi t0 then ?hi else t0) in if fless x ?lo then ?lo else x)"
  have lim: "fin_in (- 1) 1 ?lo" "fin_in (- 1) 1 ?hi" "\<not> fless ?hi ?lo"
    using step_literals(1,2) fin_in_ordered by (auto intro: fin_in_weaken)
  note cl = fin_in_clamp [OF t0 lim, folded t1_def]
  then have t1: "fin_in (- 1) 1 t1"
    using lim(1,2) by (auto simp: fin_in_def split: flt.splits)
  note p = step_product [OF s0 t1]
  have lim2: "fin_in 0 2 (dlit (995/1000))" "fin_in 0 2 (dlit (1005/1000))" "\<not> fless (dlit (1005/1000)) (dlit (995/1000))"
    using step_literals(3,4) fin_in_ordered by (auto intro: fin_in_weaken)
  have "step = (let x = fmul f64 s0 (fadd f64 (dlit 1) t1) in
      let x = (if fless (dlit (1005/1000)) x then dlit (1005/1000) else x) in
      if fless x (dlit (995/1000)) then dlit (995/1000) else x)"
    by (simp only: assms ns6_clock_control_source_frames_per_output_frame_def Let_def t1_def s0_def t0_def) simp
  then show ?thesis
    using fin_in_clamp [OF p lim2] fin_in_finite by (simp only: Let_def) blast
qed

subsection \<open>Reachable states\<close>

inductive clock_reach :: "clock_config \<Rightarrow> NS6ClockControl \<Rightarrow> bool" for cfg where
  init: "ns6_clock_control_init (Some c0) = Some c \<Longrightarrow> clock_reach cfg c"
| reset: "clock_reach cfg c \<Longrightarrow> ns6_clock_control_reset_feedback (Some c) = Some c' \<Longrightarrow> clock_reach cfg c'"
| observe: "clock_reach cfg c \<Longrightarrow> ns6_clock_control_observe cfg (Some c) v = Some c' \<Longrightarrow> clock_reach cfg c'"
| next_ms: "clock_reach cfg c \<Longrightarrow>
    ns6_clock_control_next_millisecond cfg (Some c) (Some buf) = (Some packets, Some c') \<Longrightarrow> clock_reach cfg c'"

lemma clock_init_inv:
  "ns6_clock_control_init (Some c0) = Some c \<Longrightarrow> clock_inv c \<and> clock_history c = [] \<and> clock_reports c = [] \<and>
     fixed_fraction c = 0 \<and> rate_millihz c = 44100000 \<and> requested_total c = 0 \<and> sent_total c = 0"
  by (auto simp: ns6_clock_control_init_def clock_inv_def clock_window_inv_def clock_queue_inv_def
      clock_history_def clock_reports_def)

lemma clock_reset_inv:
  "clock_inv c \<Longrightarrow> ns6_clock_control_reset_feedback (Some c) = Some c' \<Longrightarrow> clock_inv c'"
  by (auto simp: ns6_clock_control_reset_feedback_def clock_inv_def clock_window_inv_def clock_queue_inv_def
      clock_history_def clock_reports_def)

lemma clock_observe_inv: "clock_inv c \<Longrightarrow> clock_inv (clock_observe cfg v c)"
  using ck.observe_invalid [of v cfg c] ck.observe_valid [of c v cfg] by (cases "valid_report v") auto

lemma clock_reach_inv: "clock_reach cfg c \<Longrightarrow> clock_inv c"
proof (induction rule: clock_reach.induct)
  case (init c0 c)
  then show ?case using clock_init_inv by blast
next
  case (reset c c')
  then show ?case using clock_reset_inv by blast
next
  case (observe c v c')
  then show ?case using clock_observe_inv by (auto simp: ns6_clock_control_observe_def)
next
  case (next_ms c buf packets c')
  then show ?case
    using clock_next_spec [OF next_ms.IH, of cfg packets c']
    by (auto simp: ns6_clock_control_next_millisecond_def split: prod.splits)
qed

lemma clock_observe_reports:
  assumes "clock_inv c" and "NS6_ADAPTIVE_CLOCK_ENABLED cfg" and "NS6_FEEDBACK_PATTERN_SCHEDULER_ENABLED cfg"
  shows "clock_reports (clock_observe cfg v c) =
      (if valid_report v then push_bounded 256 v (clock_reports c) else clock_reports c)"
    and "requested_total (clock_observe cfg v c) = requested_total c + (if valid_report v then ucast v else 0)"
    and "sent_total (clock_observe cfg v c) = sent_total c"
proof -
  let ?c = "c\<lparr>target_frames_per_ms := v, requested_total := requested_total c + ucast v, clock_locked := True\<rparr>"
  have q: "clock_queue_inv (clock_window_observe v ?c)"
    using assms(1) by (simp add: clock_window_observe_queue clock_inv_def clock_inv_cong)
  have rep: "clock_reports (clock_window_observe v ?c) = clock_reports c"
    by (simp add: clock_reports_def clock_other)
  have up: "clock_reports (c\<lparr>rate_millihz := x\<rparr>) = clock_reports c" for c x by (simp add: clock_reports_def)
  show "clock_reports (clock_observe cfg v c) =
      (if valid_report v then push_bounded 256 v (clock_reports c) else clock_reports c)"
    using assms(2,3) clock_pattern_push_reports(1) [OF q, of v]
    by (simp add: ck.observe_invalid clock_observe_eq clock_collect_def Let_def up rep)
  show "requested_total (clock_observe cfg v c) = requested_total c + (if valid_report v then ucast v else 0)"
    "sent_total (clock_observe cfg v c) = sent_total c"
    using assms(2,3)
    by (cases "valid_report v"; simp add: ck.observe_invalid clock_observe_eq clock_collect_def Let_def clock_other)+
qed

lemma clock_observe_all_reports:
  assumes "NS6_ADAPTIVE_CLOCK_ENABLED cfg" and "NS6_FEEDBACK_PATTERN_SCHEDULER_ENABLED cfg"
  shows "clock_inv c \<Longrightarrow> clock_reports c = fold (push_bounded 256) (filter valid_report us) [] \<Longrightarrow>
   clock_inv (fold (clock_observe cfg) vs c) \<and>
   clock_reports (fold (clock_observe cfg) vs c) = fold (push_bounded 256) (filter valid_report (us @ vs)) []"
proof (induction vs arbitrary: us c)
  case (Cons v vs)
  have "clock_reports (clock_observe cfg v c) = fold (push_bounded 256) (filter valid_report (us @ [v])) []"
    using clock_observe_reports(1) [OF Cons.prems(1) assms, of v] Cons.prems(2) by simp
  from Cons.IH [OF clock_observe_inv [OF Cons.prems(1)] this] show ?case by simp
qed simp

lemma clock_observe_all_totals:
  assumes "NS6_ADAPTIVE_CLOCK_ENABLED cfg" and "NS6_FEEDBACK_PATTERN_SCHEDULER_ENABLED cfg"
  shows "clock_inv c \<Longrightarrow>
   sent_total (fold (clock_observe cfg) vs c) = sent_total c \<and>
   requested_total (fold (clock_observe cfg) vs c) =
     requested_total c + word_of_nat (sum_list (map unat (filter valid_report vs)))"
proof (induction vs arbitrary: c)
  case (Cons v vs)
  show ?case
    using Cons.IH [OF clock_observe_inv [OF Cons.prems], of cfg v] clock_observe_reports(2,3) [OF Cons.prems assms, of v]
    by (simp add: add.assoc)
qed simp

lemma clock_run_totals:
  "clock_inv c \<Longrightarrow> clock_run cfg n c = (ms, c') \<Longrightarrow>
   sent_total c' = sent_total c + word_of_nat (frames_of ms) \<and> requested_total c' = requested_total c"
proof (induction n arbitrary: c ms c')
  case (Suc n)
  obtain packets c1 where f: "clock_next cfg c = (packets, c1)" by fastforce
  obtain rest c2 where r: "clock_run cfg n c1 = (rest, c2)" by fastforce
  have "requested_total c1 = requested_total c"
    using f by (auto simp: clock_next_def clock_pattern_frames_def clock_fixed_frames_def clock_adaptive_frames_def Let_def
        split: if_splits prod.splits)
  then show ?case
    using Suc.IH [OF _ r] clock_next_spec [OF Suc.prems(1) f] Suc.prems(2) f r
    by (auto simp: frames_of_def add.assoc)
qed (simp add: frames_of_def)

text \<open>
  A run in which feedback arrives between the milliseconds: for each millisecond its packets and the output rate in force when it was
  prepared.
\<close>

datatype clock_event = Report u8 | Millisecond

fun clock_events :: "clock_config \<Rightarrow> clock_event list \<Rightarrow> NS6ClockControl \<Rightarrow> (u32 list \<times> nat) list \<times> NS6ClockControl" where
  "clock_events cfg [] c = ([], c)"
| "clock_events cfg (Report v # es) c = clock_events cfg es (clock_observe cfg v c)"
| "clock_events cfg (Millisecond # es) c =
     (case clock_next cfg c of (packets, c1) \<Rightarrow>
        case clock_events cfg es c1 of (rest, c2) \<Rightarrow> ((packets, unat (ns6_clock_control_output_rate_millihz cfg (Some c))) # rest, c2))"

lemma clock_observe_fraction: "adaptive_fraction_millionths (clock_observe cfg v c) = adaptive_fraction_millionths c"
  by (simp add: clock_observe_def clock_window_observe_def clock_pattern_push_def Let_def)

lemma clock_events_adaptive:
  assumes "NS6_ADAPTIVE_CLOCK_ENABLED cfg" and "\<not> NS6_FEEDBACK_PATTERN_SCHEDULER_ENABLED cfg"
  shows "clock_inv c \<Longrightarrow> clock_events cfg es c = (ms, c') \<Longrightarrow>
    clock_inv c' \<and> unat (adaptive_fraction_millionths c') + 1000000 * frames_of (map fst ms) =
      unat (adaptive_fraction_millionths c) + sum_list (map snd ms) \<and> (\<forall>rate \<in> snd ` set ms. 42000000 \<le> rate \<and> rate \<le> 44100300)"
proof (induction es arbitrary: c ms c')
  case Nil
  then show ?case by (simp add: frames_of_def)
next
  case (Cons e es)
  show ?case
  proof (cases e)
    case (Report v)
    have "clock_inv (clock_observe cfg v c)" using Cons.prems(1) by (rule clock_observe_inv)
    with Cons Report show ?thesis by (simp add: clock_observe_fraction)
  next
    case Millisecond
    obtain frames c0 where f: "clock_adaptive_frames cfg c = (frames, c0)" by fastforce
    let ?c1 = "c0\<lparr>sent_total := sent_total c0 + ucast frames\<rparr>"
    obtain rest c2 where r: "clock_events cfg es ?c1 = (rest, c2)" by fastforce
    note spec = clock_adaptive_frames_spec [OF Cons.prems(1) f]
    have n: "clock_next cfg c = (clock_spread 8 (frames div 8) (frames mod 8) 0, ?c1)" using f assms by (simp add: clock_next_def)
    have "clock_inv ?c1" using spec by (simp add: clock_inv_def clock_inv_cong)
    from Cons.IH [OF this r] show ?thesis
      using Cons.prems Millisecond n r spec clock_spread_frames(3) [of frames] clock_output_rate_bounds [OF Cons.prems(1), of cfg]
      by (auto simp: frames_of_def)
  qed
qed

subsection \<open>Properties\<close>

text \<open>
  (C24) In every reachable state and every configuration, the next millisecond is eight packets of five or
  six frames, and the sent total grows by exactly the frames of those packets.
\<close>

theorem clock_packets_sound:
  assumes "clock_reach cfg c"
    and "ns6_clock_control_next_millisecond cfg (Some c) (Some buf) = (Some packets, Some c')"
  shows "length packets = 8 \<and> (\<forall>p \<in> set packets. p = 5 \<or> p = 6) \<and>
    ns6_clock_control_sent_total (Some c') =
      ns6_clock_control_sent_total (Some c) + word_of_nat (sum_list (map unat packets))"
  using clock_next_spec [OF clock_reach_inv [OF assms(1)], of cfg packets c'] assms(2)
  by (auto simp: ns6_clock_control_next_millisecond_def ns6_clock_control_sent_total_def list_all_iff packet_ok_def
      split: prod.splits)

definition clock_example :: clock_config where
  "clock_example = \<lparr>NS6_ADAPTIVE_CLOCK_ENABLED = True, NS6_FEEDBACK_PATTERN_SCHEDULER_ENABLED = True,
     NS6_CLOCK_QUEUE_TARGET_FRAMES = 4096, NS6_ADAPTIVE_CLOCK_MIN_OUTPUT_RATE_MILLIHZ = 44000000\<rparr>"

lemma clock_init_some: "\<exists>c. ns6_clock_control_init (Some c0) = Some c"
  by (simp add: ns6_clock_control_init_def)

theorem clock_packets_sound_witness:
  "\<exists>c packets c'. clock_reach clock_example c \<and>
     ns6_clock_control_next_millisecond clock_example (Some c) (Some (replicate 8 0)) = (Some packets, Some c') \<and>
     length packets = 8"
proof -
  obtain c where c: "clock_reach clock_example c" using clock_init_some clock_reach.init by blast
  obtain packets c' where "clock_next clock_example c = (packets, c')" by fastforce
  then have n: "ns6_clock_control_next_millisecond clock_example (Some c) (Some (replicate 8 0)) = (Some packets, Some c')"
    by (simp add: ns6_clock_control_next_millisecond_def)
  show ?thesis using c n clock_packets_sound [OF c n] by blast
qed

text \<open>
  (C37) The measured rate is the mean of the last 40000 valid feedback reports, in thousandths of a hertz and
  rounded down, once that many have arrived, and the nominal rate before; invalid reports never count.
\<close>

theorem clock_rate_is_window_mean:
  assumes "ns6_clock_control_init (Some c0) = Some c"
  shows "let good = filter valid_report vs in
    unat (rate_millihz (fold (clock_observe cfg) vs c)) =
      (if 40000 \<le> length good
       then sum_list (map unat (drop (length good - 40000) good)) * 1000000 div 40000 else 44100000)"
  using ck.rate_all [of c vs cfg] clock_init_inv [OF assms] by (simp add: Let_def)

theorem clock_rate_is_window_mean_witness:
  "\<exists>c. ns6_clock_control_init (Some c) = Some c \<and>
     unat (rate_millihz (fold (clock_observe clock_example) (replicate 40000 45 @ [7]) c)) = 45000000"
proof -
  obtain c0 c :: NS6ClockControl where c: "ns6_clock_control_init (Some c0) = Some c"
    using clock_init_some by blast
  then have i: "ns6_clock_control_init (Some c) = Some c" by (simp add: ns6_clock_control_init_def)
  define n :: nat where "n = 40000"
  have good: "filter valid_report (replicate n 45 @ [7]) = replicate n 45"
    by (simp add: valid_report_def)
  have "length (replicate n (45 :: u8)) = n" "drop (n - n) (replicate n (45 :: u8)) = replicate n 45"
      "sum_list (map unat (replicate n (45 :: u8))) = n * 45"
    by (simp_all add: sum_list_replicate)
  then have "unat (rate_millihz (fold (clock_observe clock_example) (replicate n 45 @ [7]) c)) = 45000000"
    using clock_rate_is_window_mean [OF i, of "replicate n 45 @ [7]" clock_example, unfolded Let_def good]
    by (simp only: n_def) simp
  then show ?thesis using i unfolding n_def by blast
qed

text \<open>
  Without feedback the cadence is exact: after any number of milliseconds the frames sent are
  44.1 per millisecond, rounded down.
\<close>

lemma clock_fixed_cadence:
  assumes "ns6_clock_control_init (Some c0) = Some c" and "\<not> NS6_ADAPTIVE_CLOCK_ENABLED cfg"
  shows "frames_of (fst (clock_run cfg n c)) = 441 * n div 10"
proof -
  obtain ms c' where r: "clock_run cfg n c = (ms, c')" by fastforce
  have i: "clock_inv c" "fixed_fraction c = 0" using clock_init_inv [OF assms(1)] by auto
  from clock_run_fixed [OF assms(2) i(1) r] i(2)
  have "unat (fixed_fraction c') < 1000" "unat (fixed_fraction c') + 1000 * frames_of ms = 44100 * n"
    by (auto simp: clock_inv_def)
  then show ?thesis using r by (simp add: algebra_simps)
qed



text \<open>
  (C27) With the pattern scheduler the device gets what it asked for: after any feedback sequence, the next
  milliseconds carry the last 256 valid reports in their order, and once they are sent the debt is exactly the sum of the
  older valid reports, which the queue has dropped. It is zero if no more than 256 were valid.
\<close>

theorem clock_pattern_follows_feedback:
  assumes "ns6_clock_control_init (Some c0) = Some c" and "NS6_ADAPTIVE_CLOCK_ENABLED cfg"
    and "NS6_FEEDBACK_PATTERN_SCHEDULER_ENABLED cfg" and "good = filter valid_report vs" and "length good < 2 ^ 57"
    and "clock_run cfg (min 256 (length good)) (fold (clock_observe cfg) vs c) = (ms, c')"
  shows "map (\<lambda>packets. sum_list (map unat packets)) ms = map unat (drop (length good - 256) good) \<and>
    ns6_clock_control_debt (Some c') = int (sum_list (map unat (take (length good - 256) good)))"
proof -
  let ?c = "fold (clock_observe cfg) vs c" and ?old = "take (length good - 256) good" and ?new = "drop (length good - 256) good"
  have i: "clock_inv c" "clock_reports c = []" "requested_total c = 0" "sent_total c = 0"
    using clock_init_inv [OF assms(1)] by auto
  have o': "clock_inv ?c" "clock_reports ?c = ?new"
    using clock_observe_all_reports [OF assms(2,3) i(1), of "[]" vs] i(2)
    by (simp_all add: fold_push_bounded assms(4))
  then have len: "length (clock_reports ?c) = min 256 (length good)" by simp
  have ms: "map (\<lambda>packets. sum_list (map unat packets)) ms = map unat ?new"
    using clock_run_pattern [OF assms(2,3) o'(1) _ assms(6)] len o'(2) by simp
  have small: "sum_list (map unat xs) \<le> 46 * length xs" if "list_all valid_report xs" for xs :: "u8 list"
    using that by (induction xs) (auto simp: valid_report_def word_le_nat_alt)
  have "list_all valid_report good" by (simp add: assms(4) list_all_iff)
  from small [OF this] have all: "sum_list (map unat good) < 2 ^ 63" using assms(5) by simp
  have split: "sum_list (map unat good) = sum_list (map unat ?old) + sum_list (map unat ?new)"
    by (metis append_take_drop_id map_append sum_list_append)
  have t: "requested_total c' = word_of_nat (sum_list (map unat good))" "sent_total c' = word_of_nat (sum_list (map unat ?new))"
    using clock_run_totals [OF o'(1) assms(6)] clock_observe_all_totals [OF assms(2,3) i(1), of vs] ms i(3,4)
    by (simp_all add: frames_of_def assms(4))
  obtain p q r where pq: "p = sum_list (map unat ?old)" "q = sum_list (map unat ?new)" "r = p + q" by simp
  then have w: "requested_total c' = word_of_nat r" "sent_total c' = word_of_nat q" "r < 2 ^ 63" "q \<le> r" using t split all by simp_all
  then have "sent_total c' \<le> requested_total c'" by (simp add: word_le_nat_alt unat_of_nat)
  moreover have "requested_total c' - sent_total c' = word_of_nat p" using w pq(3) by simp
  moreover have "sint (word_of_nat p :: u64) = int p" using w(3) pq(3) by (simp add: signed_of_nat signed_take_bit_int_eq_self)
  ultimately show ?thesis using ms pq(1) by (simp add: ns6_clock_control_debt_def)
qed

theorem clock_pattern_follows_feedback_witness:
  "\<exists>c ms c'. ns6_clock_control_init (Some c) = Some c \<and>
     clock_run clock_example 2 (fold (clock_observe clock_example) [45, 99, 43] c) = (ms, c') \<and>
     map (\<lambda>packets. sum_list (map unat packets)) ms = [45, 43] \<and> ns6_clock_control_debt (Some c') = 0"
proof -
  obtain c0 c :: NS6ClockControl where "ns6_clock_control_init (Some c0) = Some c"
    using clock_init_some by blast
  then have i: "ns6_clock_control_init (Some c) = Some c" by (simp add: ns6_clock_control_init_def)
  obtain ms c' where r: "clock_run clock_example 2 (fold (clock_observe clock_example) [45, 99, 43] c) = (ms, c')"
    by fastforce
  have good: "filter valid_report [45, 99, 43] = [45, 43]" by (simp add: valid_report_def)
  have two: "min 256 (length [45 :: u8, 43]) = 2" "length [45 :: u8, 43] < 2 ^ 57" by simp_all
  have on: "NS6_ADAPTIVE_CLOCK_ENABLED clock_example" "NS6_FEEDBACK_PATTERN_SCHEDULER_ENABLED clock_example" by (simp_all add: clock_example_def)
  from clock_pattern_follows_feedback [OF i on good [symmetric] two(2), unfolded two(1), OF r] i r show ?thesis by auto
qed

text \<open>
  Whatever the measurements and the fill of the queue, the resampling step handed to the ring is a finite
  double within half a percent of one.
\<close>

lemma clock_step_within_half_percent:
  "isfinite (ns6_clock_control_source_frames_per_output_frame cfg control queued) \<and>
   \<not> fless (ns6_clock_control_source_frames_per_output_frame cfg control queued) (dlit (995/1000)) \<and>
   \<not> fless (dlit (1005/1000)) (ns6_clock_control_source_frames_per_output_frame cfg control queued)"
  by (rule clock_step_bounds) (rule refl)

end
