(* ===== verification/NS6_PacketPolicy.thy ===== *)
theory NS6_PacketPolicy
  imports NS6_Clock
begin

text \<open>
  The packet policy of the user-space driver: \<^verbatim>\<open>numark-ns6/audio-feedback/AudioFeedbackPatternPolicy.cpp\<close>
  and \<^verbatim>\<open>numark-ns6/audio-out/AudioPacketPolicy.cpp\<close>. Feedback reports are queued and each selects the eight
  packet sizes of one millisecond; an invalid report replays the packets of 16 milliseconds before
  and unlocks the policy until a whole history of valid milliseconds has passed. Array indices
  (\<^verbatim>\<open>std::size_t\<close>) are natural numbers, the counters and rates are words.
\<close>

subsection \<open>AudioFeedbackPatternPolicy\<close>

definition policy_patterns :: "u8 list list" where
  "policy_patterns =
    [[6, 5, 5, 5, 6, 5, 5, 5],
     [5, 5, 6, 5, 6, 5, 6, 5],
     [6, 5, 6, 5, 6, 5, 6, 5],
     [6, 6, 5, 6, 5, 6, 5, 6],
     [5, 6, 6, 6, 5, 6, 6, 6]]"

definition pattern_build :: "u8 \<Rightarrow> u8 list \<Rightarrow> bool \<times> u8 list" where
  "pattern_build framesPerMillisecond packets =
     (if framesPerMillisecond < 42 \<or> 46 < framesPerMillisecond then (False, packets)
      else (True, policy_patterns ! unat (framesPerMillisecond - 42)))"

subsection \<open>AudioPacketPolicy\<close>

record AudioPacketPolicy =
  p_wholeFrames :: u32
  p_remainderFrames :: u32
  p_serviceIntervalsPerSecond :: u32
  p_sampleRateHz :: u32
  p_phase :: u64
  p_feedbackPattern :: "u8 list"
  p_patternHistory :: "u8 list"
  p_patternHistoryCursor :: nat
  p_reacquisitionReference :: nat
  p_patternLocked :: bool
  p_feedbackQueue :: "u8 list"
  p_feedbackQueueRead :: nat
  p_feedbackQueueCount :: nat
  p_feedbackWindow :: "u8 list"
  p_feedbackSum :: u64
  p_feedbackCount :: nat
  p_feedbackIndex :: nat
  p_measuredClockMilliHz :: u64
  p_patternIndex :: u8
  p_nominalFraction :: u32

text \<open>The constructor; \<open>None\<close> is the exception it throws.\<close>

definition AudioPacketPolicy_new :: "u32 \<Rightarrow> u32 \<Rightarrow> AudioPacketPolicy option" where
  "AudioPacketPolicy_new sampleRateHz serviceIntervalsPerSecond =
     (if sampleRateHz = 0 \<or> serviceIntervalsPerSecond = 0 then None
      else Some \<lparr>p_wholeFrames = sampleRateHz div serviceIntervalsPerSecond,
        p_remainderFrames = sampleRateHz mod serviceIntervalsPerSecond,
        p_serviceIntervalsPerSecond = serviceIntervalsPerSecond,
        p_sampleRateHz = sampleRateHz,
        p_phase = 0,
        p_feedbackPattern = snd (pattern_build 44 (replicate 8 0)),
        p_patternHistory = map (\<lambda>i. 5 + word_of_nat (i mod 2) + (if i mod 80 = 0 then 1 else 0)) [0..<128],
        p_patternHistoryCursor = 0, p_reacquisitionReference = 0, p_patternLocked = False,
        p_feedbackQueue = replicate 32 0, p_feedbackQueueRead = 0, p_feedbackQueueCount = 0,
        p_feedbackWindow = replicate 40000 0, p_feedbackSum = 0, p_feedbackCount = 0, p_feedbackIndex = 0,
        p_measuredClockMilliHz = ucast sampleRateHz * 1000,
        p_patternIndex = 0, p_nominalFraction = 0\<rparr>)"

definition history_store :: "nat \<Rightarrow> u8 list \<Rightarrow> u8 list \<Rightarrow> u8 list" where
  "history_store cursor packets history =
     fold (\<lambda>i h. h[(cursor + i) mod 128 := packets ! i]) [0..<8] history"

definition history_load :: "nat \<Rightarrow> u8 list \<Rightarrow> u8 list \<Rightarrow> u8 list" where
  "history_load cursor history packets =
     fold (\<lambda>i p. p[i := history ! ((cursor + i) mod 128)]) [0..<8] packets"

text \<open>A millisecond with a queued report.\<close>

definition policy_take_report :: "AudioPacketPolicy \<Rightarrow> AudioPacketPolicy" where
  "policy_take_report p =
     (let feedback = p_feedbackQueue p ! p_feedbackQueueRead p;
          p1 = p\<lparr>p_feedbackQueueRead := (p_feedbackQueueRead p + 1) mod 32,
                 p_feedbackQueueCount := p_feedbackQueueCount p - 1\<rparr>;
          cursor = p_patternHistoryCursor p
      in case pattern_build feedback (replicate 8 0) of
           (True, selected) \<Rightarrow>
             let cursor' = (cursor + 8) mod 128
             in p1\<lparr>p_feedbackPattern := selected,
                   p_patternHistory := history_store cursor selected (p_patternHistory p),
                   p_patternHistoryCursor := cursor',
                   p_patternLocked := (if cursor' = p_reacquisitionReference p then True else p_patternLocked p)\<rparr>
         | (False, _) \<Rightarrow>
             let pattern = history_load cursor (p_patternHistory p) (p_feedbackPattern p)
             in p1\<lparr>p_patternLocked := False,
                   p_reacquisitionReference := cursor,
                   p_feedbackPattern := pattern,
                   p_patternHistory := history_store cursor pattern (p_patternHistory p),
                   p_patternHistoryCursor := (cursor + 8) mod 128\<rparr>)"

text \<open>A millisecond without a report: the nominal cadence.\<close>

definition policy_nominal :: "AudioPacketPolicy \<Rightarrow> AudioPacketPolicy" where
  "policy_nominal p =
     (let f = p_nominalFraction p + 100;
          framesPerMillisecond = 44 + (if 1000 \<le> f then 1 else 0);
          f' = (if 1000 \<le> f then f - 1000 else f)
      in p\<lparr>p_nominalFraction := f',
           p_feedbackPattern := snd (pattern_build framesPerMillisecond (p_feedbackPattern p))\<rparr>)"

definition nextPacketFrames :: "AudioPacketPolicy \<Rightarrow> u32 \<times> AudioPacketPolicy" where
  "nextPacketFrames p =
     (if p_serviceIntervalsPerSecond p = 8000
      then let p1 = (if p_patternIndex p = 0
                     then if p_feedbackQueueCount p \<noteq> 0 then policy_take_report p else policy_nominal p
                     else p);
               frames = p_feedbackPattern p1 ! unat (p_patternIndex p1)
           in (ucast frames, p1\<lparr>p_patternIndex := (p_patternIndex p1 + 1) mod 8\<rparr>)
      else let phase = p_phase p + ucast (p_remainderFrames p)
           in if ucast (p_serviceIntervalsPerSecond p) \<le> phase
              then (p_wholeFrames p + 1, p\<lparr>p_phase := phase - ucast (p_serviceIntervalsPerSecond p)\<rparr>)
              else (p_wholeFrames p, p\<lparr>p_phase := phase\<rparr>))"

definition policy_queue_push :: "u8 \<Rightarrow> AudioPacketPolicy \<Rightarrow> AudioPacketPolicy" where
  "policy_queue_push v p =
     (let p1 = (if p_feedbackQueueCount p = 32
                then p\<lparr>p_feedbackQueueRead := (p_feedbackQueueRead p + 1) mod 32,
                       p_feedbackQueueCount := p_feedbackQueueCount p - 1\<rparr>
                else p);
          write = (p_feedbackQueueRead p1 + p_feedbackQueueCount p1) mod 32
      in p1\<lparr>p_feedbackQueue := (p_feedbackQueue p1)[write := v],
            p_feedbackQueueCount := p_feedbackQueueCount p1 + 1\<rparr>)"

definition policy_window :: "u8 \<Rightarrow> AudioPacketPolicy \<Rightarrow> AudioPacketPolicy" where
  "policy_window v p =
     (let p1 = (if p_feedbackCount p = 40000
                then p\<lparr>p_feedbackSum := p_feedbackSum p - ucast (p_feedbackWindow p ! p_feedbackIndex p)\<rparr>
                else p\<lparr>p_feedbackCount := p_feedbackCount p + 1\<rparr>);
          p2 = p1\<lparr>p_feedbackWindow := (p_feedbackWindow p1)[p_feedbackIndex p := v],
                  p_feedbackSum := p_feedbackSum p1 + ucast v,
                  p_feedbackIndex := (p_feedbackIndex p + 1) mod 40000\<rparr>
      in if p_feedbackCount p2 = 40000
         then p2\<lparr>p_measuredClockMilliHz := p_feedbackSum p2 * 1000000 div 40000\<rparr> else p2)"

definition observeFeedback :: "u8 \<Rightarrow> AudioPacketPolicy \<Rightarrow> AudioPacketPolicy" where
  "observeFeedback framesPerMillisecond p =
     (if 42 \<le> framesPerMillisecond \<and> framesPerMillisecond \<le> 46
      then policy_queue_push framesPerMillisecond (policy_window framesPerMillisecond p) else p)"

definition observeInvalidFeedback :: "AudioPacketPolicy \<Rightarrow> AudioPacketPolicy" where
  "observeInvalidFeedback p = policy_queue_push 0 p"

definition effectiveClockMilliHz :: "AudioPacketPolicy \<Rightarrow> u64" where
  "effectiveClockMilliHz p =
     (if p_measuredClockMilliHz p < 44100000 then 44100000
      else if 44100300 < p_measuredClockMilliHz p then 44100300 else p_measuredClockMilliHz p)"

definition sourceFramesPerOutputFrame :: "AudioPacketPolicy \<Rightarrow> u32 \<Rightarrow> flt" where
  "sourceFramesPerOutputFrame p queuedFrames =
     (let step = fdiv f64 (fmul f64 (double_of_nat (unat (p_sampleRateHz p))) (dlit 1000))
                   (double_of_nat (unat (effectiveClockMilliHz p)));
          trim = fmul f64 (fsub f64 (double_of_nat (unat queuedFrames)) (double_of_nat 4096)) (dlit (2/1000000));
          trim = fclamp trim (fneg (dlit (5/1000))) (dlit (5/1000))
      in fclamp (fmul f64 step (fadd f64 (dlit 1) trim)) (dlit (995/1000)) (dlit (1005/1000)))"

subsection \<open>The invariant\<close>

definition size_ok :: "u8 \<Rightarrow> bool" where
  "size_ok x \<longleftrightarrow> x = 5 \<or> x = 6"

definition policy_history :: "AudioPacketPolicy \<Rightarrow> u8 list" where
  "policy_history p = window 40000 (p_feedbackCount p) (p_feedbackWindow p)
     (if p_feedbackCount p < 40000 then 0 else p_feedbackIndex p)"

definition policy_reports :: "AudioPacketPolicy \<Rightarrow> u8 list" where
  "policy_reports p = window 32 (p_feedbackQueueCount p) (p_feedbackQueue p) (p_feedbackQueueRead p)"

text \<open>The packets of the last 16 milliseconds that had a report, oldest first.\<close>

definition policy_past :: "AudioPacketPolicy \<Rightarrow> u8 list" where
  "policy_past p = window 128 128 (p_patternHistory p) (p_patternHistoryCursor p)"

text \<open>Milliseconds since the reference of the last unlock, modulo the 16 of the history.\<close>

definition policy_since :: "AudioPacketPolicy \<Rightarrow> nat" where
  "policy_since p = (p_patternHistoryCursor p div 8 + 16 - p_reacquisitionReference p div 8) mod 16"

definition policy_window_inv :: "AudioPacketPolicy \<Rightarrow> bool" where
  "policy_window_inv p \<longleftrightarrow> length (p_feedbackWindow p) = 40000 \<and> p_feedbackIndex p < 40000 \<and>
     p_feedbackCount p \<le> 40000 \<and> (p_feedbackCount p < 40000 \<longrightarrow> p_feedbackIndex p = p_feedbackCount p) \<and>
     unat (p_feedbackSum p) = sum_list (map unat (policy_history p)) \<and> list_all valid_report (policy_history p)"

definition policy_queue_inv :: "AudioPacketPolicy \<Rightarrow> bool" where
  "policy_queue_inv p \<longleftrightarrow> length (p_feedbackQueue p) = 32 \<and> p_feedbackQueueRead p < 32 \<and> p_feedbackQueueCount p \<le> 32"

definition policy_pattern_inv :: "AudioPacketPolicy \<Rightarrow> bool" where
  "policy_pattern_inv p \<longleftrightarrow> length (p_feedbackPattern p) = 8 \<and> list_all size_ok (p_feedbackPattern p) \<and>
     length (p_patternHistory p) = 128 \<and> list_all size_ok (p_patternHistory p) \<and>
     p_patternHistoryCursor p < 128 \<and> 8 dvd p_patternHistoryCursor p \<and>
     p_reacquisitionReference p < 128 \<and> 8 dvd p_reacquisitionReference p \<and>
     unat (p_patternIndex p) < 8 \<and> unat (p_nominalFraction p) < 1000"

definition policy_rate_inv :: "AudioPacketPolicy \<Rightarrow> bool" where
  "policy_rate_inv p \<longleftrightarrow> unat (p_remainderFrames p) < unat (p_serviceIntervalsPerSecond p) \<and>
     unat (p_phase p) < unat (p_serviceIntervalsPerSecond p) \<and>
     unat (p_wholeFrames p) * unat (p_serviceIntervalsPerSecond p) + unat (p_remainderFrames p) = unat (p_sampleRateHz p)"

definition policy_inv :: "AudioPacketPolicy \<Rightarrow> bool" where
  "policy_inv p \<longleftrightarrow> policy_window_inv p \<and> policy_queue_inv p \<and> policy_pattern_inv p \<and> policy_rate_inv p"

lemmas policy_inv_defs = policy_inv_def policy_window_inv_def policy_queue_inv_def policy_pattern_inv_def
  policy_rate_inv_def policy_history_def

lemma report_bounds: "(42 \<le> v \<and> v \<le> 46) = valid_report v" for v :: u8
  by (simp add: valid_report_def word_le_nat_alt)

subsection \<open>Observing feedback\<close>

lemma policy_window_counts:
  "p_feedbackCount (policy_window v p) = (if p_feedbackCount p = 40000 then 40000 else Suc (p_feedbackCount p))"
  "p_feedbackIndex (policy_window v p) = Suc (p_feedbackIndex p) mod 40000"
  "p_feedbackWindow (policy_window v p) = (p_feedbackWindow p)[p_feedbackIndex p := v]"
  by (simp_all add: policy_window_def Let_def)

lemma policy_window_history:
  assumes "policy_window_inv p"
  shows "policy_history (policy_window v p) = push_bounded 40000 v (policy_history p)"
proof -
  have inv: "length (p_feedbackWindow p) = 40000" "p_feedbackCount p \<le> 40000" "p_feedbackIndex p < 40000"
      "p_feedbackCount p < 40000 \<Longrightarrow> p_feedbackIndex p = p_feedbackCount p"
    using assms by (auto simp: policy_window_inv_def)
  have cnt: "p_feedbackCount (policy_window v p) = (if p_feedbackCount p = 40000 then 40000 else Suc (p_feedbackCount p))"
    by (rule policy_window_counts)
  from window_slide [OF inv cnt, where v = v] show ?thesis
    unfolding policy_history_def policy_window_counts(2,3) .
qed

lemma length_policy_history: "length (policy_history p) = p_feedbackCount p"
  by (simp add: policy_history_def)

lemma policy_window_sum:
  assumes "policy_window_inv p" and "valid_report v"
  shows "unat (p_feedbackSum (policy_window v p)) = sum_list (map unat (push_bounded 40000 v (policy_history p)))"
proof -
  let ?out = "p_feedbackWindow p ! p_feedbackIndex p"
  have inv: "unat (p_feedbackSum p) = sum_list (map unat (policy_history p))" "list_all valid_report (policy_history p)"
      "length (policy_history p) \<le> 40000"
    using assms(1) by (auto simp: policy_window_inv_def length_policy_history)
  have "hd (policy_history p) = ?out" if "length (policy_history p) = 40000"
    using that assms(1) by (simp add: length_policy_history policy_history_def window_hd policy_window_inv_def)
  from report_sum_step [OF inv assms(2) this] show ?thesis
    by (simp add: policy_window_def Let_def length_policy_history split: if_splits)
qed

lemma policy_window_inv_step:
  assumes "policy_window_inv p" and "valid_report v"
  shows "policy_window_inv (policy_window v p)"
  using assms policy_window_sum [OF assms] policy_window_counts [of v p]
  by (auto simp: policy_window_inv_def policy_window_history [OF assms(1)] list_all_push_bounded)

lemma policy_queue_push_reports:
  assumes "policy_queue_inv p"
  shows "policy_reports (policy_queue_push v p) = push_bounded 32 v (policy_reports p)"
    and "policy_queue_inv (policy_queue_push v p)"
proof -
  have inv: "length (p_feedbackQueue p) = 32" "p_feedbackQueueCount p \<le> 32" "p_feedbackQueueRead p < 32"
    using assms by (auto simp: policy_queue_inv_def)
  define rd where "rd = (if p_feedbackQueueCount p = 32 then (p_feedbackQueueRead p + 1) mod 32 else p_feedbackQueueRead p)"
  define cnt where "cnt = (if p_feedbackQueueCount p = 32 then p_feedbackQueueCount p - 1 else p_feedbackQueueCount p)"
  have p': "policy_queue_push v p = p\<lparr>p_feedbackQueueRead := rd,
      p_feedbackQueue := (p_feedbackQueue p)[(rd + cnt) mod 32 := v], p_feedbackQueueCount := Suc cnt\<rparr>"
    by (simp add: policy_queue_push_def Let_def rd_def cnt_def)
  from window_push_bounded [OF inv(1,2) _ rd_def cnt_def, of v]
  show "policy_reports (policy_queue_push v p) = push_bounded 32 v (policy_reports p)"
    by (simp add: policy_reports_def p')
  show "policy_queue_inv (policy_queue_push v p)"
    using inv by (auto simp: policy_queue_inv_def policy_queue_push_def Let_def)
qed

lemma policy_queue_push_other:
  "policy_window_inv (policy_queue_push v p) = policy_window_inv p"
  "policy_history (policy_queue_push v p) = policy_history p"
  "policy_pattern_inv (policy_queue_push v p) = policy_pattern_inv p"
  "policy_rate_inv (policy_queue_push v p) = policy_rate_inv p"
  "p_measuredClockMilliHz (policy_queue_push v p) = p_measuredClockMilliHz p"
  "policy_past (policy_queue_push v p) = policy_past p"
  "policy_since (policy_queue_push v p) = policy_since p"
  "p_patternLocked (policy_queue_push v p) = p_patternLocked p"
  by (simp_all add: policy_queue_push_def Let_def policy_window_inv_def policy_history_def policy_pattern_inv_def
      policy_rate_inv_def policy_past_def policy_since_def)

lemma policy_window_other:
  "policy_queue_inv (policy_window v p) = policy_queue_inv p"
  "policy_reports (policy_window v p) = policy_reports p"
  "policy_pattern_inv (policy_window v p) = policy_pattern_inv p"
  "policy_rate_inv (policy_window v p) = policy_rate_inv p"
  by (simp_all add: policy_window_def Let_def policy_queue_inv_def policy_reports_def policy_pattern_inv_def policy_rate_inv_def)

lemma policy_measured:
  assumes "policy_window_inv p" and "valid_report v"
  shows "unat (p_measuredClockMilliHz (policy_window v p)) =
    (if length (policy_history (policy_window v p)) = 40000
     then sum_list (map unat (policy_history (policy_window v p))) * 1000000 div 40000
     else unat (p_measuredClockMilliHz p))"
proof -
  let ?p = "policy_window v p"
  have inv: "policy_window_inv ?p" by (rule policy_window_inv_step [OF assms])
  have "p_measuredClockMilliHz ?p = (if p_feedbackCount ?p = 40000
      then p_feedbackSum ?p * 1000000 div 40000 else p_measuredClockMilliHz p)"
    by (simp add: policy_window_def Let_def)
  moreover have "unat (p_feedbackSum ?p * 1000000 div 40000) = sum_list (map unat (policy_history ?p)) * 1000000 div 40000"
    using inv by (intro report_rate_words) (auto simp: policy_window_inv_def length_policy_history)
  ultimately show ?thesis by (simp add: length_policy_history)
qed

interpretation pp: feedback_meter policy_inv policy_history "\<lambda>p. unat (p_measuredClockMilliHz p)" observeFeedback 40000
proof unfold_locales
  show "observeFeedback v p = p" if "\<not> valid_report v" for v p
    using that by (simp add: observeFeedback_def report_bounds)
  show "policy_inv (observeFeedback v p) \<and> policy_history (observeFeedback v p) = push_bounded 40000 v (policy_history p) \<and>
      unat (p_measuredClockMilliHz (observeFeedback v p)) = (if length (policy_history (observeFeedback v p)) = 40000
        then sum_list (map unat (policy_history (observeFeedback v p))) * 1000000 div 40000
        else unat (p_measuredClockMilliHz p))" if "policy_inv p" "valid_report v" for v p
    using that policy_measured [of p v]
    by (simp add: observeFeedback_def report_bounds policy_inv_def policy_queue_push_other policy_queue_push_reports
        policy_window_other policy_window_inv_step policy_window_history)
qed simp

subsection \<open>Reachable states\<close>

lemma pattern_build_valid:
  "valid_report v \<Longrightarrow> pattern_build v packets = (True, policy_patterns ! unat (v - 42))"
  "\<not> valid_report v \<Longrightarrow> pattern_build v packets = (False, packets)"
  by (auto simp: pattern_build_def valid_report_def word_less_nat_alt word_le_nat_alt)

lemma policy_patterns_sound:
  assumes "valid_report v"
  shows "length (policy_patterns ! unat (v - 42)) = 8 \<and> list_all size_ok (policy_patterns ! unat (v - 42)) \<and>
    sum_list (map unat (policy_patterns ! unat (v - 42))) = unat v"
proof -
  have "unat v = 42 \<or> unat v = 43 \<or> unat v = 44 \<or> unat v = 45 \<or> unat v = 46"
    using assms unfolding valid_report_def by linarith
  then have "v = 42 \<or> v = 43 \<or> v = 44 \<or> v = 45 \<or> v = 46"
    unfolding word_unat_eq_iff by simp
  then show ?thesis by (elim disjE) (simp_all add: policy_patterns_def size_ok_def)
qed

lemma fold_circ_store:
  assumes "length h = 128" and "length xs = 8"
  shows "m \<le> 8 \<Longrightarrow> fold (\<lambda>i h. h[(cursor + i) mod 128 := xs ! i]) [0..<m] h = circ_write 128 cursor (take m xs) h"
proof (induction m)
  case 0
  then show ?case by (simp add: circ_write_def assms Let_def)
next
  case (Suc m)
  have "take (Suc m) xs = take m xs @ [xs ! m]" using Suc.prems assms by (simp add: take_Suc_conv_app_nth)
  then have "circ_write 128 cursor (take (Suc m) xs) h =
      circ_write 128 (cursor + m) [xs ! m] (circ_write 128 cursor (take m xs) h)"
    using circ_write_append [of 128 h "take m xs" "[xs ! m]" cursor] Suc.prems assms by simp
  also have "\<dots> = (circ_write 128 cursor (take m xs) h)[(cursor + m) mod 128 := xs ! m]"
    using Suc.prems assms by (intro circ_write_one) auto
  finally show ?case using Suc by simp
qed

lemma history_store_circ:
  "length h = 128 \<Longrightarrow> length xs = 8 \<Longrightarrow> history_store cursor xs h = circ_write 128 cursor xs h"
  using fold_circ_store [of h xs 8 cursor] by (simp add: history_store_def)

lemma history_load_window:
  assumes "length packets = 8"
  shows "history_load cursor h packets = window 128 8 h cursor"
proof -
  have "m \<le> 8 \<Longrightarrow> fold (\<lambda>i p. p[i := h ! ((cursor + i) mod 128)]) [0..<m] packets =
      window 128 m h cursor @ drop m packets" for m
  proof (induction m)
    case (Suc m)
    have "drop m packets = packets ! m # drop (Suc m) packets"
      using Suc.prems assms by (simp add: Cons_nth_drop_Suc)
    then show ?case using Suc by (simp add: list_update_append window_def)
  qed simp
  from this [of 8] show ?thesis using assms by (simp add: history_load_def)
qed

text \<open>Storing a millisecond shifts the past by eight packets.\<close>

lemma window_shift:
  assumes "length h = 128" and "length xs = 8"
  shows "window 128 128 (circ_write 128 cursor xs h) ((cursor + 8) mod 128) = drop 8 (window 128 128 h cursor) @ xs"
proof -
  have "cursor mod 128 = ((cursor + 8) mod 128 + 120) mod 128" by (simp add: mod_simps)
  from window_circ_write [of 128 h 120 xs, OF _ _ _ this] assms
  have "window 128 128 (circ_write 128 cursor xs h) ((cursor + 8) mod 128) = window 128 120 h ((cursor + 8) mod 128) @ xs"
    by simp
  then show ?thesis by (simp add: window_mod drop_window)
qed

lemma list_all_window: "list_all P buf \<Longrightarrow> length buf = n \<Longrightarrow> 0 < n \<Longrightarrow> list_all P (window n m buf i)"
  by (auto simp: window_def list_all_iff)

lemma list_all_circ_write:
  assumes "list_all P buf" and "list_all P xs" and "length buf = n" and "0 < n"
  shows "list_all P (circ_write n i xs buf)"
  using assms
  by (auto simp: circ_write_def overwrite_def Let_def list_all_iff dest!: in_set_takeD in_set_dropD)

lemma policy_reports_pop:
  assumes "policy_queue_inv p" and "p_feedbackQueueCount p \<noteq> 0"
  shows "policy_reports p = p_feedbackQueue p ! p_feedbackQueueRead p #
      window 32 (p_feedbackQueueCount p - 1) (p_feedbackQueue p) ((p_feedbackQueueRead p + 1) mod 32)"
proof -
  have "policy_reports p \<noteq> []" using assms(2) by (simp add: policy_reports_def flip: length_greater_0_conv)
  then have "policy_reports p = hd (policy_reports p) # tl (policy_reports p)" by simp
  moreover have "hd (policy_reports p) = p_feedbackQueue p ! p_feedbackQueueRead p"
    using assms by (simp add: policy_reports_def window_hd policy_queue_inv_def)
  moreover have "tl (policy_reports p) = window 32 (p_feedbackQueueCount p - 1) (p_feedbackQueue p) ((p_feedbackQueueRead p + 1) mod 32)"
    using window_pop [of "p_feedbackQueueCount p" 32 "p_feedbackQueue p" "p_feedbackQueueRead p"] assms(2)
    by (simp add: policy_reports_def window_mod)
  ultimately show ?thesis by simp
qed

subsection \<open>The abstract policy\<close>

text \<open>
  What the policy promises for a millisecond: with a valid report \<open>v\<close> it sends the eight packets of \<open>v\<close>; with an
  invalid one it repeats the eight packets of 16 reported milliseconds before and unlocks; the lock comes back
  after 16 milliseconds counted from the unlocking one.
\<close>

record policy_spec =
  s_reports :: "u8 list"
  s_past :: "u8 list"
  s_locked :: bool
  s_since :: nat

definition spec_report :: "policy_spec \<Rightarrow> u8 list \<times> policy_spec" where
  "spec_report s =
     (case s_reports s of [] \<Rightarrow> ([], s)
      | v # vs \<Rightarrow>
        let packets = (if valid_report v then policy_patterns ! unat (v - 42) else take 8 (s_past s));
            since = (if valid_report v then Suc (s_since s) mod 16 else 1)
        in (packets, \<lparr>s_reports = vs, s_past = drop 8 (s_past s) @ packets,
               s_locked = (valid_report v \<and> (s_locked s \<or> since = 0)), s_since = since\<rparr>))"

definition policy_abs :: "AudioPacketPolicy \<Rightarrow> policy_spec" where
  "policy_abs p = \<lparr>s_reports = policy_reports p, s_past = policy_past p, s_locked = p_patternLocked p,
     s_since = policy_since p\<rparr>"

lemma since_step:
  assumes "cursor < 128" and "8 dvd cursor" and "r < 128" and "8 dvd r"
  shows "((cursor + 8) mod 128 div 8 + 16 - r div 8) mod 16 = Suc ((cursor div 8 + 16 - r div 8) mod 16) mod 16"
    and "((cursor + 8) mod 128 = r) = (((cursor + 8) mod 128 div 8 + 16 - r div 8) mod 16 = 0)"
    and "((cursor + 8) mod 128 div 8 + 16 - cursor div 8) mod 16 = 1"
proof -
  obtain a b where ab: "cursor = 8 * a" "r = 8 * b" "a < 16" "b < 16" using assms by (auto elim!: dvdE)
  have m: "x mod 16 = (if x < 16 then x else x - 16)" if "x < 32" for x :: nat
    using that by (simp add: le_mod_geq)
  have c: "(cursor + 8) mod 128 = 8 * (if a = 15 then 0 else Suc a)"
    using ab by (auto simp: le_mod_geq)
  have d: "(cursor + 8) mod 128 div 8 = (if a = 15 then 0 else Suc a)" "cursor div 8 = a" "r div 8 = b"
    by (simp_all add: c) (simp_all add: ab)
  show "((cursor + 8) mod 128 div 8 + 16 - r div 8) mod 16 = Suc ((cursor div 8 + 16 - r div 8) mod 16) mod 16"
    unfolding d using ab(3,4) by (cases "a = 15") (auto simp: m)
  show "((cursor + 8) mod 128 = r) = (((cursor + 8) mod 128 div 8 + 16 - r div 8) mod 16 = 0)"
    unfolding d unfolding c ab(2) using ab(3,4) by (cases "a = 15") (auto simp: m)
  show "((cursor + 8) mod 128 div 8 + 16 - cursor div 8) mod 16 = 1"
    unfolding d using ab(3) by (cases "a = 15") (auto simp: m)
qed

lemma policy_reports_empty_iff: "policy_reports p = [] \<longleftrightarrow> p_feedbackQueueCount p = 0"
  by (simp add: policy_reports_def flip: length_0_conv)

lemma policy_take_report_spec:
  assumes "policy_queue_inv p" and "policy_pattern_inv p" and "policy_reports p \<noteq> []"
  shows "spec_report (policy_abs p) = (p_feedbackPattern (policy_take_report p), policy_abs (policy_take_report p))"
    and "policy_queue_inv (policy_take_report p)" and "policy_pattern_inv (policy_take_report p)"
proof -
  let ?q = "policy_take_report p" and ?v = "p_feedbackQueue p ! p_feedbackQueueRead p"
  let ?cur = "p_patternHistoryCursor p" and ?h = "p_patternHistory p"
  have cnt: "p_feedbackQueueCount p \<noteq> 0" using assms(3) by (simp add: policy_reports_empty_iff)
  have pinv: "length (p_feedbackPattern p) = 8" "length ?h = 128" "list_all size_ok ?h" "?cur < 128" "8 dvd ?cur"
      "p_reacquisitionReference p < 128" "8 dvd p_reacquisitionReference p"
    using assms(2) by (auto simp: policy_pattern_inv_def)
  define pk where "pk = (if valid_report ?v then policy_patterns ! unat (?v - 42) else window 128 8 ?h ?cur)"
  have pk: "length pk = 8" "list_all size_ok pk"
    using policy_patterns_sound [of ?v] pinv by (auto simp: pk_def intro: list_all_window)
  have q: "?q = p\<lparr>p_feedbackQueueRead := (p_feedbackQueueRead p + 1) mod 32,
      p_feedbackQueueCount := p_feedbackQueueCount p - 1, p_feedbackPattern := pk,
      p_patternHistory := circ_write 128 ?cur pk ?h, p_patternHistoryCursor := (?cur + 8) mod 128,
      p_reacquisitionReference := if valid_report ?v then p_reacquisitionReference p else ?cur,
      p_patternLocked := valid_report ?v \<and> ((?cur + 8) mod 128 = p_reacquisitionReference p \<or> p_patternLocked p)\<rparr>"
    using pk(1) pinv(1,2)
    by (auto simp: policy_take_report_def Let_def pattern_build_valid pk_def history_store_circ history_load_window)
  have past: "policy_past ?q = drop 8 (policy_past p) @ pk"
    using window_shift [OF pinv(2) pk(1), of ?cur] by (simp add: policy_past_def q)
  have take: "take 8 (policy_past p) = window 128 8 ?h ?cur" by (simp add: policy_past_def take_window)
  note since = since_step [OF pinv(4-7)]
  have reps: "policy_reports p = ?v # policy_reports ?q"
    using policy_reports_pop [OF assms(1) cnt] by (simp add: policy_reports_def q)
  have sq: "policy_since ?q = (if valid_report ?v then Suc (policy_since p) mod 16 else 1)"
    by (simp add: policy_since_def q since(1,3) [simplified])
  have lq: "p_patternLocked ?q = (valid_report ?v \<and> (p_patternLocked p \<or> policy_since ?q = 0))"
    using since(2) by (auto simp: policy_since_def q)
  have pq: "p_feedbackPattern ?q = pk" by (simp add: q)
  show "spec_report (policy_abs p) = (p_feedbackPattern ?q, policy_abs ?q)"
    using reps past take lq sq unfolding spec_report_def policy_abs_def pq pk_def by (simp add: Let_def)
  show "policy_queue_inv ?q" using assms(1) by (auto simp: policy_queue_inv_def q)
  have "8 dvd (?cur + 8) mod 128" using pinv(5) by (simp add: dvd_mod)
  then show "policy_pattern_inv ?q"
    using assms(2) pk pinv by (auto simp: policy_pattern_inv_def q list_all_circ_write)
qed

lemma policy_nominal_spec:
  assumes "policy_pattern_inv p"
  shows "policy_pattern_inv (policy_nominal p)"
    and "unat (p_nominalFraction (policy_nominal p)) + 1000 * sum_list (map unat (p_feedbackPattern (policy_nominal p))) =
      unat (p_nominalFraction p) + 44100"
    and "policy_queue_inv (policy_nominal p) = policy_queue_inv p" and "policy_abs (policy_nominal p) = policy_abs p"
    and "p_feedbackQueueCount (policy_nominal p) = p_feedbackQueueCount p"
proof -
  let ?f = "p_nominalFraction p + 100"
  have f: "unat ?f = unat (p_nominalFraction p) + 100" "unat (p_nominalFraction p) < 1000"
    using assms by (auto simp: policy_pattern_inv_def unat_word_ariths)
  have v: "valid_report 44" "valid_report 45" by (simp_all add: valid_report_def)
  have sub: "unat (?f - 1000) = unat (p_nominalFraction p) + 100 - 1000" if "1000 \<le> ?f"
  proof -
    have "900 \<le> p_nominalFraction p" using that f(1) by (simp add: word_le_nat_alt)
    from unat_sub [OF this] show ?thesis by simp
  qed
  show "policy_pattern_inv (policy_nominal p)"
    using assms f sub policy_patterns_sound [OF v(1)] policy_patterns_sound [OF v(2)]
    by (auto simp: policy_pattern_inv_def policy_nominal_def Let_def pattern_build_valid v word_le_nat_alt)
  show "unat (p_nominalFraction (policy_nominal p)) + 1000 * sum_list (map unat (p_feedbackPattern (policy_nominal p))) =
      unat (p_nominalFraction p) + 44100"
    using f sub policy_patterns_sound [OF v(1)] policy_patterns_sound [OF v(2)]
    by (auto simp: policy_nominal_def Let_def pattern_build_valid v word_le_nat_alt)
  show "policy_queue_inv (policy_nominal p) = policy_queue_inv p" "policy_abs (policy_nominal p) = policy_abs p"
    "p_feedbackQueueCount (policy_nominal p) = p_feedbackQueueCount p"
    by (simp_all add: policy_nominal_def Let_def policy_queue_inv_def policy_abs_def policy_reports_def
        policy_past_def policy_since_def)
qed

subsection \<open>A millisecond of packets\<close>

fun policy_packets :: "nat \<Rightarrow> AudioPacketPolicy \<Rightarrow> u32 list \<times> AudioPacketPolicy" where
  "policy_packets 0 p = ([], p)"
| "policy_packets (Suc n) p =
     (case nextPacketFrames p of (frames, p1) \<Rightarrow>
        case policy_packets n p1 of (rest, p2) \<Rightarrow> (frames # rest, p2))"

definition policy_refill :: "AudioPacketPolicy \<Rightarrow> AudioPacketPolicy" where
  "policy_refill p = (if p_feedbackQueueCount p \<noteq> 0 then policy_take_report p else policy_nominal p)"

lemma policy_refill_same:
  "p_patternIndex (policy_refill p) = p_patternIndex p"
  "p_serviceIntervalsPerSecond (policy_refill p) = p_serviceIntervalsPerSecond p"
  "policy_window_inv (policy_refill p) = policy_window_inv p" "policy_rate_inv (policy_refill p) = policy_rate_inv p"
  "p_measuredClockMilliHz (policy_refill p) = p_measuredClockMilliHz p"
  by (auto simp: policy_refill_def policy_take_report_def policy_nominal_def Let_def policy_window_inv_def
      policy_history_def policy_rate_inv_def split: prod.splits bool.splits)

lemma policy_refill_inv: "policy_inv p \<Longrightarrow> policy_inv (policy_refill p)"
  using policy_take_report_spec(2,3) [of p] policy_nominal_spec [of p] policy_refill_same(3,4) [of p]
  by (auto simp: policy_inv_def policy_refill_def policy_reports_empty_iff)

text \<open>The packets after the first are read off the pattern.\<close>

lemma policy_packets_tail:
  assumes "p_serviceIntervalsPerSecond p = 8000" and "length (p_feedbackPattern p) = 8"
  shows "unat (p_patternIndex p) = 8 - n \<Longrightarrow> n < 8 \<Longrightarrow>
    policy_packets n p = (map ucast (drop (8 - n) (p_feedbackPattern p)), p\<lparr>p_patternIndex := if n = 0 then p_patternIndex p else 0\<rparr>)"
  using assms
proof (induction n arbitrary: p)
  case (Suc n)
  let ?i = "p_patternIndex p"
  have i: "?i \<noteq> 0" "unat ?i = 7 - n" using Suc.prems(1,2) by auto
  have next1: "unat ((?i + 1) mod 8) = (8 - n) mod 8"
  proof -
    have "Suc (7 - n) = 8 - n" using Suc.prems(2) by simp
    then show ?thesis using i(2) by (simp add: unat_mod unat_word_ariths)
  qed
  let ?p1 = "p\<lparr>p_patternIndex := (?i + 1) mod 8\<rparr>"
  have step: "nextPacketFrames p = (ucast (p_feedbackPattern p ! (7 - n)), ?p1)"
    using Suc.prems i by (simp add: nextPacketFrames_def Let_def)
  have drop: "drop (7 - n) (p_feedbackPattern p) = p_feedbackPattern p ! (7 - n) # drop (8 - n) (p_feedbackPattern p)"
  proof -
    have "Suc (7 - n) = 8 - n" using Suc.prems(2) by simp
    then show ?thesis
      using Cons_nth_drop_Suc [of "7 - n" "p_feedbackPattern p"] Suc.prems(2,4) by simp
  qed
  show ?case
  proof (cases n)
    case 0
    then have "(?i + 1) mod 8 = 0" using next1 by (simp add: word_unat_eq_iff)
    with 0 step drop Suc.prems(4) show ?thesis by simp
  next
    case (Suc m)
    then have "unat (p_patternIndex ?p1) = 8 - n" using next1 by simp
    with Suc.IH [of ?p1] Suc.prems step drop Suc show ?thesis by simp
  qed
qed simp

lemma nextPacketFrames_8000:
  "p_serviceIntervalsPerSecond p = 8000 \<Longrightarrow> nextPacketFrames p =
    (let q = (if p_patternIndex p = 0 then policy_refill p else p)
     in (ucast (p_feedbackPattern q ! unat (p_patternIndex q)), q\<lparr>p_patternIndex := (p_patternIndex q + 1) mod 8\<rparr>))"
  by (simp add: nextPacketFrames_def policy_refill_def)

lemma policy_inv_cong:
  "policy_window_inv (p\<lparr>p_patternIndex := i\<rparr>) = policy_window_inv p" "policy_queue_inv (p\<lparr>p_patternIndex := i\<rparr>) = policy_queue_inv p"
  "policy_rate_inv (p\<lparr>p_patternIndex := i\<rparr>) = policy_rate_inv p" "policy_window_inv (p\<lparr>p_phase := x\<rparr>) = policy_window_inv p"
  "policy_queue_inv (p\<lparr>p_phase := x\<rparr>) = policy_queue_inv p" "policy_pattern_inv (p\<lparr>p_phase := x\<rparr>) = policy_pattern_inv p"
  "policy_pattern_inv p \<Longrightarrow> unat i < 8 \<Longrightarrow> policy_pattern_inv (p\<lparr>p_patternIndex := i\<rparr>)"
  by (simp_all add: policy_window_inv_def policy_queue_inv_def policy_rate_inv_def policy_pattern_inv_def policy_history_def)

lemma policy_packets_ms:
  assumes "policy_inv p" and "p_serviceIntervalsPerSecond p = 8000" and "p_patternIndex p = 0"
  shows "policy_packets 8 p = (map ucast (p_feedbackPattern (policy_refill p)), policy_refill p)"
proof -
  let ?q = "policy_refill p"
  have inv: "length (p_feedbackPattern ?q) = 8"
    using policy_refill_inv [OF assms(1)] by (simp add: policy_inv_def policy_pattern_inv_def)
  let ?q1 = "?q\<lparr>p_patternIndex := 1\<rparr>"
  have step: "nextPacketFrames p = (ucast (p_feedbackPattern ?q ! 0), ?q1)"
    using assms(2,3) policy_refill_same(1) [of p] by (simp add: nextPacketFrames_8000 Let_def)
  have "policy_packets 7 ?q1 = (map ucast (drop 1 (p_feedbackPattern ?q)), ?q1\<lparr>p_patternIndex := 0\<rparr>)"
    using policy_packets_tail [of ?q1 7] assms(2) inv policy_refill_same(2) [of p] by simp
  moreover have "?q1\<lparr>p_patternIndex := 0\<rparr> = ?q" using policy_refill_same(1) [of p] assms(3) by simp
  moreover have "p_feedbackPattern ?q = p_feedbackPattern ?q ! 0 # drop 1 (p_feedbackPattern ?q)"
    using inv Cons_nth_drop_Suc [of 0 "p_feedbackPattern ?q"] by simp
  ultimately show ?thesis
    using step by (simp only: eval_nat_numeral(3) policy_packets.simps(2) numeral_nat) (simp, metis list.simps(9))
qed

text \<open>The general cadence spreads the remainder: phase and frames together carry the exact rate.\<close>

lemma policy_general_step:
  assumes "policy_rate_inv p" and "p_serviceIntervalsPerSecond p \<noteq> 8000" and "nextPacketFrames p = (frames, p')"
  shows "policy_rate_inv p' \<and> p_serviceIntervalsPerSecond p' = p_serviceIntervalsPerSecond p \<and>
    p_sampleRateHz p' = p_sampleRateHz p \<and>
    unat (p_phase p') + unat (p_serviceIntervalsPerSecond p) * unat frames = unat (p_phase p) + unat (p_sampleRateHz p)"
proof -
  let ?s = "unat (p_serviceIntervalsPerSecond p)" and ?r = "unat (p_remainderFrames p)" and ?w = "unat (p_wholeFrames p)"
  have inv: "?r < ?s" "unat (p_phase p) < ?s" "?w * ?s + ?r = unat (p_sampleRateHz p)"
    using assms(1) by (auto simp: policy_rate_inv_def)
  define ph where "ph = p_phase p + ucast (p_remainderFrames p)"
  have u: "unat (ucast (w :: u32) :: u64) = unat w" for w by (simp add: unat_ucast_up)
  have s32: "?s < 2 ^ 32" "unat (p_sampleRateHz p) < 2 ^ 32" by (rule u32_less)+
  have ph: "unat ph = unat (p_phase p) + ?r"
    using inv s32 by (simp add: ph_def unat_word_ariths u)
  show ?thesis
  proof (cases "ucast (p_serviceIntervalsPerSecond p) \<le> ph")
    case True
    then have ge: "?s \<le> unat ph" by (simp add: word_le_nat_alt u)
    then have "0 < ?r" using ph inv by simp
    have "?w \<le> ?w * ?s" using inv(1) by simp
    then have "?w + 1 < 2 ^ 32" using inv(3) s32(2) \<open>0 < ?r\<close> by linarith
    then have w1: "unat (p_wholeFrames p + 1) = ?w + 1" by (simp add: unat_word_ariths)
    have sub: "unat (ph - ucast (p_serviceIntervalsPerSecond p)) = unat ph - ?s"
      using True by (simp add: unat_sub u)
    have res: "frames = p_wholeFrames p + 1" "p' = p\<lparr>p_phase := ph - ucast (p_serviceIntervalsPerSecond p)\<rparr>"
      using assms(2,3) True by (auto simp: nextPacketFrames_def Let_def ph_def)
    show ?thesis
      using inv ph ge sub unfolding res w1 policy_rate_inv_def by (simp add: algebra_simps)
  next
    case False
    then have lt: "unat ph < ?s" by (simp add: word_le_nat_alt u)
    have res: "frames = p_wholeFrames p" "p' = p\<lparr>p_phase := ph\<rparr>"
      using assms(2,3) False by (auto simp: nextPacketFrames_def Let_def ph_def)
    show ?thesis using inv ph lt unfolding res policy_rate_inv_def by (simp add: algebra_simps)
  qed
qed

lemma policy_general_run:
  "policy_rate_inv p \<Longrightarrow> p_serviceIntervalsPerSecond p \<noteq> 8000 \<Longrightarrow> policy_packets n p = (frames, p') \<Longrightarrow>
   unat (p_phase p') < unat (p_serviceIntervalsPerSecond p) \<and>
   unat (p_phase p') + unat (p_serviceIntervalsPerSecond p) * sum_list (map unat frames) =
     unat (p_phase p) + n * unat (p_sampleRateHz p)"
proof (induction n arbitrary: p frames p')
  case 0
  then show ?case by (simp add: policy_rate_inv_def)
next
  case (Suc n)
  obtain f p1 where f: "nextPacketFrames p = (f, p1)" by fastforce
  obtain rest p2 where r: "policy_packets n p1 = (rest, p2)" by fastforce
  note st = policy_general_step [OF Suc.prems(1,2) f]
  from Suc.IH [OF _ _ r] st Suc.prems f r show ?case by (auto simp: algebra_simps)
qed

lemma nextPacketFrames_inv:
  assumes "policy_inv p" and "nextPacketFrames p = (frames, p')"
  shows "policy_inv p' \<and> (p_serviceIntervalsPerSecond p = 8000 \<longrightarrow> frames = 5 \<or> frames = 6)"
proof (cases "p_serviceIntervalsPerSecond p = 8000")
  case True
  define q where "q = (if p_patternIndex p = 0 then policy_refill p else p)"
  have q: "policy_inv q" using assms(1) policy_refill_inv by (simp add: q_def)
  have res: "frames = ucast (p_feedbackPattern q ! unat (p_patternIndex q))" "p' = q\<lparr>p_patternIndex := (p_patternIndex q + 1) mod 8\<rparr>"
    using assms(2) nextPacketFrames_8000 [OF True, folded q_def] by (auto simp: Let_def)
  have idx: "unat (p_patternIndex q) < 8" "length (p_feedbackPattern q) = 8" "list_all size_ok (p_feedbackPattern q)"
    using q by (auto simp: policy_inv_def policy_pattern_inv_def)
  then have "size_ok (p_feedbackPattern q ! unat (p_patternIndex q))" by (simp add: list_all_length)
  then have "frames = 5 \<or> frames = 6" by (auto simp: res size_ok_def)
  moreover have "unat ((p_patternIndex q + 1) mod 8) < 8" by (simp add: unat_mod)
  then have "policy_inv p'"
    using q by (simp add: res policy_inv_def policy_inv_cong)
  ultimately show ?thesis by simp
next
  case False
  then have "\<exists>ph. p' = p\<lparr>p_phase := ph\<rparr>"
    using assms(2) by (auto simp: nextPacketFrames_def Let_def split: if_splits)
  then show ?thesis
    using policy_general_step [OF _ False assms(2)] assms(1) False by (auto simp: policy_inv_def policy_inv_cong)
qed

lemma AudioPacketPolicy_new_inv:
  assumes "AudioPacketPolicy_new rate service = Some p"
  shows "policy_inv p \<and> policy_reports p = [] \<and> policy_history p = [] \<and> p_phase p = 0 \<and> p_patternIndex p = 0 \<and>
    p_nominalFraction p = 0 \<and> p_serviceIntervalsPerSecond p = service \<and> p_sampleRateHz p = rate \<and> policy_since p = 0 \<and>
    unat (p_measuredClockMilliHz p) = unat rate * 1000"
proof -
  have "list_all size_ok (map (\<lambda>i. 5 + word_of_nat (i mod 2) + (if i mod 80 = 0 then 1 else 0)) [0..<128])"
    by code_simp
  moreover have "length (policy_patterns ! unat (44 - 42 :: u8)) = 8 \<and> list_all size_ok (policy_patterns ! unat (44 - 42 :: u8))"
    using policy_patterns_sound [of 44] by (simp add: valid_report_def)
  moreover have "unat (rate div service) * unat service + unat (rate mod service) = unat rate"
    by (simp add: unat_div unat_mod)
  moreover have "unat (rate mod service) < unat service" if "service \<noteq> 0"
    using that by (simp add: unat_mod unat_gt_0)
  moreover have "unat (ucast rate * 1000 :: u64) = unat rate * 1000"
    using u32_less [of rate] by (simp add: unat_word_ariths unat_ucast_up)
  ultimately show ?thesis
    using assms pattern_build_valid(1) [of 44]
    by (auto simp: AudioPacketPolicy_new_def policy_inv_defs policy_reports_def policy_since_def valid_report_def
        unat_gt_0 split: if_splits)
qed

lemma policy_step_bounds:
  assumes "step = sourceFramesPerOutputFrame p queued"
  shows "isfinite step \<and> \<not> fless step (dlit (995/1000)) \<and> \<not> fless (dlit (1005/1000)) step"
proof -
  let ?lo = "fneg (dlit (5/1000))" and ?hi = "dlit (5/1000)"
  have eff: "44100000 \<le> unat (effectiveClockMilliHz p)" "unat (effectiveClockMilliHz p) \<le> 44100300"
    by (auto simp: effectiveClockMilliHz_def word_less_nat_alt)
  have d1000: "dlit 1000 = Fin 1000" using dlit_int [of 1000] by simp
  define r where "r = fmul f64 (double_of_nat (unat (p_sampleRateHz p))) (dlit 1000)"
  have "fin_in (- (2 ^ 32)) (2 ^ 32) (double_of_nat (unat (p_sampleRateHz p)))"
    using fin_in_u32 by (rule fin_in_weaken) auto
  then have "fin_in (- (2 ^ 32 * 1000)) (2 ^ 32 * 1000) r"
    unfolding r_def by (rule fin_in_fmul) (simp_all add: d1000 fin_in_def)
  then obtain x where x: "r = Fin x" "\<bar>x\<bar> \<le> of_int (2 ^ 32 * 1000)"
    by (auto elim!: fin_in_cases simp: abs_le_iff)
  define st where "st = fdiv f64 r (double_of_nat (unat (effectiveClockMilliHz p)))"
  have st: "fin_in (- (2 ^ 32 * 1000)) (2 ^ 32 * 1000) st"
  proof -
    let ?e = "of_nat (unat (effectiveClockMilliHz p)) :: rat"
    have e1: "1 \<le> ?e" using eff(1) by (simp del: of_nat_unat)
    from mult_left_mono [OF this abs_ge_zero, of x] e1 have "\<bar>x / ?e\<bar> \<le> \<bar>x\<bar>"
      by (simp add: divide_le_eq abs_divide del: of_nat_unat)
    then have "\<bar>x / ?e\<bar> \<le> of_int (2 ^ 32 * 1000)" using x(2) by linarith
    then have "of_int (- (2 ^ 32 * 1000)) \<le> x / ?e" "x / ?e \<le> of_int (2 ^ 32 * 1000)" by linarith+
    then have "fin_in (- (2 ^ 32 * 1000)) (2 ^ 32 * 1000) (fround f64 (x / ?e))"
      by (rule fin_in_fround) auto
    moreover have "st = fround f64 (x / ?e)"
      using eff by (simp add: st_def x double_of_nat_exact del: of_nat_unat)
    ultimately show ?thesis by simp
  qed
  define t0 where "t0 = fmul f64 (fsub f64 (double_of_nat (unat queued)) (double_of_nat 4096)) (dlit (2/1000000))"
  have "fin_in (0 - 4096) (2 ^ 32 - 4096) (fsub f64 (double_of_nat (unat queued)) (double_of_nat 4096))"
    by (intro fin_in_fsub fin_in_u32) (auto simp: double_of_nat_exact fin_in_def)
  then have "fin_in (- (2 ^ 32)) (2 ^ 32) (fsub f64 (double_of_nat (unat queued)) (double_of_nat 4096))"
    by (rule fin_in_weaken) auto
  moreover have "fin_in (- 1) 1 (dlit (2/1000000))" by (rule fin_in_dlit) auto
  ultimately have t0: "fin_in (- (2 ^ 32 * 1)) (2 ^ 32 * 1) t0" unfolding t0_def by (intro fin_in_fmul) auto
  have lim: "fin_in (- 1) 1 ?lo" "fin_in (- 1) 1 ?hi" "\<not> fless ?hi ?lo"
    using step_literals(1,2) fin_in_ordered by (auto intro: fin_in_weaken)
  define t1 where "t1 = fclamp t0 ?lo ?hi"
  have t1: "fin_in (- 1) 1 t1"
    using t0 lim by (auto simp: t1_def fclamp_def fin_in_def split: flt.splits)
  have "fin_in (1 + - 1) (1 + 1) (fadd f64 (dlit 1) t1)"
    using t1 by (intro fin_in_fadd) (auto simp: fin_in_def)
  then have "fin_in (- 2) 2 (fadd f64 (dlit 1) t1)" by (rule fin_in_weaken) auto
  then have p: "fin_in (- (2 ^ 32 * 1000 * 2)) (2 ^ 32 * 1000 * 2) (fmul f64 st (fadd f64 (dlit 1) t1))"
    using st by (intro fin_in_fmul) auto
  have lim2: "fin_in 0 2 (dlit (995/1000))" "fin_in 0 2 (dlit (1005/1000))" "\<not> fless (dlit (1005/1000)) (dlit (995/1000))"
    using step_literals(3,4) fin_in_ordered by (auto intro: fin_in_weaken)
  have "step = fclamp (fmul f64 st (fadd f64 (dlit 1) t1)) (dlit (995/1000)) (dlit (1005/1000))"
    unfolding assms sourceFramesPerOutputFrame_def Let_def st_def t1_def t0_def r_def ..
  then show ?thesis
    using p lim2 by (auto simp: fclamp_def fin_in_def split: flt.splits)
qed

subsection \<open>Properties\<close>

inductive policy_reach :: "u32 \<Rightarrow> u32 \<Rightarrow> AudioPacketPolicy \<Rightarrow> bool" for rate service where
  new: "AudioPacketPolicy_new rate service = Some p \<Longrightarrow> policy_reach rate service p"
| feedback: "policy_reach rate service p \<Longrightarrow> policy_reach rate service (observeFeedback v p)"
| invalid: "policy_reach rate service p \<Longrightarrow> policy_reach rate service (observeInvalidFeedback p)"
| packet: "policy_reach rate service p \<Longrightarrow> nextPacketFrames p = (frames, p') \<Longrightarrow> policy_reach rate service p'"

lemma policy_service_same:
  "p_serviceIntervalsPerSecond (observeFeedback v p) = p_serviceIntervalsPerSecond p"
  "p_serviceIntervalsPerSecond (observeInvalidFeedback p) = p_serviceIntervalsPerSecond p"
  "nextPacketFrames p = (frames, p') \<Longrightarrow> p_serviceIntervalsPerSecond p' = p_serviceIntervalsPerSecond p"
  using policy_refill_same(2) [of p]
  by (auto simp: observeFeedback_def observeInvalidFeedback_def policy_queue_push_def policy_window_def
      nextPacketFrames_def policy_refill_def Let_def split: if_splits)

lemma policy_reach_inv: "policy_reach rate service p \<Longrightarrow> policy_inv p \<and> p_serviceIntervalsPerSecond p = service"
proof (induction rule: policy_reach.induct)
  case (new p)
  then show ?case using AudioPacketPolicy_new_inv by blast
next
  case (feedback p v)
  then show ?case
    using pp.observe_invalid [of v p] pp.observe_valid [of p v]
    by (cases "valid_report v") (auto simp: policy_service_same)
next
  case (invalid p)
  then show ?case
    by (auto simp: policy_service_same observeInvalidFeedback_def policy_inv_def policy_queue_push_other policy_queue_push_reports)
      (auto simp: policy_queue_push_def Let_def)
next
  case (packet p frames p')
  then show ?case using nextPacketFrames_inv [of p frames p'] policy_service_same(3) [of p frames p'] by auto
qed

text \<open>
  On the 8 kHz endpoint every packet of every reachable state has five or six frames.
\<close>

lemma policy_packet_sizes:
  assumes "policy_reach rate 8000 p" and "nextPacketFrames p = (frames, p')"
  shows "frames = 5 \<or> frames = 6"
  using policy_reach_inv [OF assms(1)] nextPacketFrames_inv [OF _ assms(2)] by blast

lemma policy_example: "\<exists>p. AudioPacketPolicy_new 44100 8000 = Some p \<and> policy_reach 44100 8000 p"
  using policy_reach.new by (fastforce simp: AudioPacketPolicy_new_def)

text \<open>
  (C31) With a report waiting, a millisecond of packets implements the abstract policy: a valid report is sent
  exactly, an invalid one replays the packets of 16 reported milliseconds before, and queue, history and lock move as
  specified.
\<close>

theorem policy_millisecond_refines:
  assumes "policy_reach rate 8000 p" and "p_patternIndex p = 0" and "policy_reports p \<noteq> []"
    and "policy_packets 8 p = (frames, p')" and "spec_report (policy_abs p) = (packets, s)"
  shows "frames = map ucast packets \<and> policy_abs p' = s"
proof -
  have inv: "policy_inv p" "p_serviceIntervalsPerSecond p = 8000" using policy_reach_inv [OF assms(1)] by auto
  have "policy_refill p = policy_take_report p" using assms(3) by (simp add: policy_refill_def policy_reports_empty_iff)
  with policy_packets_ms [OF inv assms(2)] policy_take_report_spec(1) [OF _ _ assms(3)] inv(1) assms(4,5)
  show ?thesis by (auto simp: policy_inv_def)
qed

theorem policy_millisecond_refines_witness:
  "\<exists>p frames p' packets s. policy_reach 44100 8000 p \<and> policy_reports p = [45] \<and>
     policy_packets 8 p = (frames, p') \<and> spec_report (policy_abs p) = (packets, s) \<and>
     frames = map ucast packets \<and> policy_abs p' = s"
proof -
  obtain p0 where p0: "AudioPacketPolicy_new 44100 8000 = Some p0" "policy_reach 44100 8000 p0" using policy_example by blast
  let ?p = "observeFeedback 45 p0"
  have r: "policy_reach 44100 8000 ?p" by (rule policy_reach.feedback [OF p0(2)])
  have i: "policy_inv p0" "policy_reports p0 = []" "p_patternIndex p0 = 0" using AudioPacketPolicy_new_inv [OF p0(1)] by auto
  have rep: "policy_reports ?p = [45]"
    using i policy_queue_push_reports(1) [of "policy_window 45 p0" 45]
    by (simp add: observeFeedback_def policy_window_other policy_inv_def push_bounded_def)
  have idx: "p_patternIndex ?p = 0"
    using i by (simp add: observeFeedback_def policy_queue_push_def policy_window_def Let_def)
  obtain frames p' where f: "policy_packets 8 ?p = (frames, p')" by fastforce
  obtain packets s where s: "spec_report (policy_abs ?p) = (packets, s)" by fastforce
  have "policy_reports ?p \<noteq> []" by (simp add: rep)
  from policy_millisecond_refines [OF r idx this f s] r rep f s show ?thesis by blast
qed

fun spec_run :: "nat \<Rightarrow> policy_spec \<Rightarrow> policy_spec" where
  "spec_run 0 s = s"
| "spec_run (Suc n) s = spec_run n (snd (spec_report s))"

lemma spec_run_valid:
  "list_all valid_report (take n (s_reports s)) \<Longrightarrow> n \<le> length (s_reports s) \<Longrightarrow> \<not> s_locked s \<Longrightarrow>
   0 < s_since s \<Longrightarrow> s_since s + n \<le> 16 \<Longrightarrow>
   s_locked (spec_run n s) = (0 < n \<and> s_since s + n = 16)"
proof (induction n arbitrary: s)
  case (Suc n)
  obtain v vs where q: "s_reports s = v # vs" using Suc.prems(2) by (cases "s_reports s") auto
  let ?s = "snd (spec_report s)"
  have v: "valid_report v" using Suc.prems(1) q by simp
  have s1: "s_reports ?s = vs" "s_since ?s = Suc (s_since s) mod 16" "s_locked ?s = (Suc (s_since s) mod 16 = 0)"
    using Suc.prems(3) q v by (simp_all add: spec_report_def Let_def)
  show ?case
  proof (cases "Suc (s_since s) = 16")
    case True
    then have "n = 0" using Suc.prems(5) by simp
    then show ?thesis using s1 True by simp
  next
    case False
    then have m: "Suc (s_since s) mod 16 = Suc (s_since s)" using Suc.prems(5) by simp
    show ?thesis using Suc.IH [of ?s] Suc.prems q s1 m by (cases n) auto
  qed
qed simp

text \<open>A run of reported milliseconds on the implementation.\<close>

fun policy_ms_run :: "nat \<Rightarrow> AudioPacketPolicy \<Rightarrow> AudioPacketPolicy" where
  "policy_ms_run 0 p = p"
| "policy_ms_run (Suc n) p = policy_ms_run n (snd (policy_packets 8 p))"

lemma policy_ms_run_abs:
  "policy_inv p \<Longrightarrow> p_serviceIntervalsPerSecond p = 8000 \<Longrightarrow> p_patternIndex p = 0 \<Longrightarrow> n \<le> length (policy_reports p) \<Longrightarrow>
   policy_abs (policy_ms_run n p) = spec_run n (policy_abs p)"
proof (induction n arbitrary: p)
  case (Suc n)
  have ne: "policy_reports p \<noteq> []" using Suc.prems(4) by auto
  then have rf: "policy_refill p = policy_take_report p" by (simp add: policy_refill_def policy_reports_empty_iff)
  let ?q = "policy_take_report p"
  have sp: "spec_report (policy_abs p) = (p_feedbackPattern ?q, policy_abs ?q)"
    using policy_take_report_spec(1) [OF _ _ ne] Suc.prems(1) by (simp add: policy_inv_def)
  then have "length (policy_reports ?q) = length (policy_reports p) - 1"
    using ne by (auto simp: spec_report_def policy_abs_def Let_def split: list.splits)
  then have "policy_abs (policy_ms_run n ?q) = spec_run n (policy_abs ?q)"
    using Suc.prems policy_refill_inv [OF Suc.prems(1)] policy_refill_same(1,2) [of p]
    by (intro Suc.IH) (auto simp: rf)
  then show ?case using policy_packets_ms [OF Suc.prems(1-3)] sp by (simp add: rf)
qed simp

text \<open>
  After an invalid report the policy is unlocked and locks again exactly with the fifteenth consecutive
  valid report, for every sequence of valid reports that follows.
\<close>

lemma policy_relocks_after_15:
  assumes "policy_reach rate 8000 p" and "p_patternIndex p = 0"
    and "policy_reports p = bad # good" and "\<not> valid_report bad" and "list_all valid_report good"
    and "n \<le> length good" and "n \<le> 15"
  shows "p_patternLocked (policy_ms_run (Suc n) p) \<longleftrightarrow> n = 15"
proof -
  have inv: "policy_inv p" "p_serviceIntervalsPerSecond p = 8000" using policy_reach_inv [OF assms(1)] by auto
  let ?s = "snd (spec_report (policy_abs p))"
  have s: "s_reports ?s = good" "s_since ?s = 1" "\<not> s_locked ?s"
    using assms(3,4) by (simp_all add: spec_report_def policy_abs_def Let_def)
  have "list_all valid_report (take n good)" using assms(5) by (auto simp: list_all_iff dest: in_set_takeD)
  then have "s_locked (spec_run n ?s) \<longleftrightarrow> n = 15" using spec_run_valid [of n ?s] s assms(6,7) by auto
  moreover have "policy_abs (policy_ms_run (Suc n) p) = spec_run (Suc n) (policy_abs p)"
    using assms(3,6) by (intro policy_ms_run_abs [OF inv assms(2)]) simp
  moreover have "s_locked (policy_abs q) = p_patternLocked q" for q by (simp add: policy_abs_def)
  ultimately show ?thesis by (metis spec_run.simps(2))
qed

lemma policy_observe_all:
  "policy_reach rate service p \<Longrightarrow> list_all valid_report vs \<Longrightarrow> length (policy_reports p) + length vs \<le> 32 \<Longrightarrow>
   policy_reach rate service (fold observeFeedback vs p) \<and> policy_reports (fold observeFeedback vs p) = policy_reports p @ vs \<and>
   p_patternIndex (fold observeFeedback vs p) = p_patternIndex p"
proof (induction vs arbitrary: p)
  case (Cons v vs)
  have inv: "policy_queue_inv p" using policy_reach_inv [OF Cons.prems(1)] by (simp add: policy_inv_def)
  have "policy_reports (observeFeedback v p) = policy_reports p @ [v]"
    using inv Cons.prems policy_queue_push_reports(1) [of "policy_window v p" v]
    by (simp add: observeFeedback_def report_bounds policy_window_other push_bounded_def)
  moreover have "p_patternIndex (observeFeedback v p) = p_patternIndex p"
    by (simp add: observeFeedback_def policy_queue_push_def policy_window_def Let_def)
  ultimately show ?case
    using Cons.IH [of "observeFeedback v p"] policy_reach.feedback [OF Cons.prems(1)] Cons.prems by simp
qed simp

text \<open>Such a sequence of reports can be queued.\<close>

lemma policy_relocks_reachable:
  "\<exists>p. policy_reach 44100 8000 p \<and> policy_reports p = 0 # replicate 15 44 \<and> p_patternLocked (policy_ms_run (Suc 15) p)"
proof -
  obtain p0 where p0: "AudioPacketPolicy_new 44100 8000 = Some p0" "policy_reach 44100 8000 p0" using policy_example by blast
  let ?p1 = "observeInvalidFeedback p0"
  have r1: "policy_reach 44100 8000 ?p1" by (rule policy_reach.invalid [OF p0(2)])
  have "policy_reports ?p1 = [0]" "p_patternIndex ?p1 = 0"
    using AudioPacketPolicy_new_inv [OF p0(1)] policy_queue_push_reports(1) [of p0 0]
    by (simp_all add: observeInvalidFeedback_def policy_inv_def push_bounded_def) (simp add: policy_queue_push_def Let_def)
  with policy_observe_all [OF r1, of "replicate 15 44"]
  have p: "policy_reach 44100 8000 (fold observeFeedback (replicate 15 44) ?p1)"
      "policy_reports (fold observeFeedback (replicate 15 44) ?p1) = 0 # replicate 15 44"
      "p_patternIndex (fold observeFeedback (replicate 15 44) ?p1) = 0"
    by (simp_all add: valid_report_def list_all_iff)
  have "p_patternLocked (policy_ms_run (Suc 15) (fold observeFeedback (replicate 15 44) ?p1)) \<longleftrightarrow> (15 :: nat) = 15"
    by (rule policy_relocks_after_15 [OF p(1,3,2)]) (simp_all add: valid_report_def list_all_iff)
  with p show ?thesis by blast
qed

text \<open>
  On every other service rate the packets carry the sample rate exactly: after n packets the frames
  sent are n times the rate divided by the service rate, rounded down.
\<close>

lemma policy_general_cadence:
  assumes "AudioPacketPolicy_new rate service = Some p" and "service \<noteq> 8000"
  shows "sum_list (map unat (fst (policy_packets n p))) = n * unat rate div unat service"
proof -
  obtain frames p' where r: "policy_packets n p = (frames, p')" by fastforce
  have i: "policy_rate_inv p" "p_serviceIntervalsPerSecond p = service" "p_sampleRateHz p = rate" "p_phase p = 0"
    using AudioPacketPolicy_new_inv [OF assms(1)] by (auto simp: policy_inv_def)
  have "unat (p_phase p') < unat service" "unat (p_phase p') + unat service * sum_list (map unat frames) = n * unat rate"
    using policy_general_run [OF i(1) _ r] i assms(2) by auto
  then have "sum_list (map unat frames) = n * unat rate div unat service"
    by (metis div_less div_mult_self2 add.commute gr_implies_not0 add_0)
  then show ?thesis by (simp add: r)
qed

text \<open>
  The resampling step of the user-space driver is a finite double within half a percent of one, for every
  sample rate, measurement and queue fill.
\<close>

lemma policy_step_within_half_percent:
  "isfinite (sourceFramesPerOutputFrame p queued) \<and>
   \<not> fless (sourceFramesPerOutputFrame p queued) (dlit (995/1000)) \<and>
   \<not> fless (dlit (1005/1000)) (sourceFramesPerOutputFrame p queued)"
  by (rule policy_step_bounds) (rule refl)

end
