(* ===== verification/NS6_PCM.thy ===== *)
theory NS6_PCM
  imports NS6_Float
begin

text \<open>
  Samples on the wire. \<^verbatim>\<open>coreaudio/NS6CaptureDecoder.h\<close> and \<^verbatim>\<open>numark-ns6/audio-in/AudioInputDecoder.cpp\<close> read the
  bit lanes of the capture endpoint, the packing loop of \<^verbatim>\<open>numark-ns6/audio-out/AudioOutPacket.cpp\<close> writes
  24-bit little-endian samples, \<^verbatim>\<open>coreaudio/NS6PCMLevel.h\<close> measures such samples and \<^verbatim>\<open>coreaudio/NS6IdlePCM.h\<close> fills
  idle ones. Bytes are \<^typ>\<open>u8\<close>, samples are the single-precision values of \<open>NS6_Float\<close>.
\<close>

unbundle bit_operations_syntax

subsection \<open>Decoding the capture lanes\<close>

definition lane_value :: "u8 list \<Rightarrow> u32" where
  "lane_value lane = fold (\<lambda>i value. push_bit 1 value OR (ucast (lane ! i) AND 1)) [0..<24] 0"

definition ns6_capture_decode_lane :: "u8 list \<Rightarrow> flt" where
  "ns6_capture_decode_lane source =
     (let value = lane_value source;
          signed_value = (if value AND 0x800000 \<noteq> 0 then sint (value OR 0xff000000) else sint value)
      in fmul f32 (float_of_int signed_value) (fdiv f32 (slit 1) (slit 8388608)))"

definition ns6_capture_decode_block ::
    "u8 list option \<Rightarrow> nat \<Rightarrow> flt list option \<Rightarrow> nat \<Rightarrow> nat \<times> flt list option" where
  "ns6_capture_decode_block source source_bytes output output_capacity_frames =
     (case (source, output) of (Some src, Some out) \<Rightarrow>
        if source_bytes = 0 \<or> source_bytes mod 64 \<noteq> 0 then (0, output) else
        let frames = source_bytes div 64 in
        if output_capacity_frames < frames then (0, output)
        else (frames, Some (fold (\<lambda>frame out. let sample = drop (frame * 64) src in
               out[frame * 2 := ns6_capture_decode_lane sample,
                   frame * 2 + 1 := ns6_capture_decode_lane (drop 32 sample)]) [0..<frames] out))
      | _ \<Rightarrow> (0, output))"

definition decodeLane :: "u8 list \<Rightarrow> flt" where
  "decodeLane lane =
     (let value = lane_value lane;
          sample = (if value AND 0x800000 \<noteq> 0 then sint value - 0x1000000 else sint value)
      in fmul f32 (float_of_int sample) (fdiv f32 (slit 1) (slit 8388608)))"

definition AudioInputDecoder_decode ::
    "u8 list option \<Rightarrow> nat \<Rightarrow> flt list option \<Rightarrow> nat \<Rightarrow> nat \<times> flt list option" where
  "AudioInputDecoder_decode source sourceBytes interleaved outputCapacityFrames =
     (case (source, interleaved) of (Some src, Some out) \<Rightarrow>
        if sourceBytes = 0 \<or> sourceBytes mod 64 \<noteq> 0 then (0, interleaved) else
        let frames = sourceBytes div 64 in
        if outputCapacityFrames < frames then (0, interleaved)
        else (frames, Some (fold (\<lambda>frame out. let stride = drop (frame * 64) src in
               out[frame * 2 := decodeLane stride,
                   frame * 2 + 1 := decodeLane (drop 32 stride)]) [0..<frames] out))
      | _ \<Rightarrow> (0, interleaved))"

subsection \<open>Packing output samples\<close>

text \<open>One sample: not finite is silence, the value is clamped, scaled and rounded half away from zero.\<close>

definition pack_value :: "flt \<Rightarrow> int" where
  "pack_value sample =
     (let input = (if isfinite sample then sample else Fin 0);
          scaled = fmul f64 (fclamp (fconv f64 input) (dlit (- 1)) (dlit 1)) (dlit 8388608);
          rounded = (case scaled of Fin x \<Rightarrow> rint_away x | _ \<Rightarrow> 0)
      in max (- 8388608) (min 8388607 rounded))"

definition pack_bytes :: "int \<Rightarrow> u8 list" where
  "pack_bytes value =
     (let packed = word_of_int value :: u32
      in [ucast packed, ucast (drop_bit 8 packed), ucast (drop_bit 16 packed)])"

definition pack_sample :: "flt \<Rightarrow> u8 list" where
  "pack_sample sample = pack_bytes (pack_value sample)"

subsection \<open>Measuring and filling\<close>

record NS6PCMLevel =
  peak :: "u32 list"
  nonzero_frames :: u64

definition pcm24_raw :: "u8 list \<Rightarrow> nat \<Rightarrow> u32" where
  "pcm24_raw pcm i = ucast (pcm ! i) OR push_bit 8 (ucast (pcm ! (i + 1))) OR push_bit 16 (ucast (pcm ! (i + 2)))"

definition pcm24_value :: "u32 \<Rightarrow> int" where
  "pcm24_value raw =
     (let value = sint (raw AND 0x7fffff) in if raw AND 0x800000 \<noteq> 0 then value - 0x800000 else value)"

definition measure_channel :: "u8 list \<Rightarrow> nat \<Rightarrow> nat \<Rightarrow> u32 list \<times> bool \<Rightarrow> u32 list \<times> bool" where
  "measure_channel pcm frame channel = (\<lambda>(pk, nonzero).
     let value = pcm24_value (pcm24_raw pcm ((frame * 4 + channel) * 3));
         magnitude = (if value < 0 then word_of_int (- value) else word_of_int value) :: u32
     in (if pk ! channel < magnitude then pk[channel := magnitude] else pk, nonzero \<or> value \<noteq> 0))"

definition ns6_pcm24_measure :: "u8 list \<Rightarrow> u32 \<Rightarrow> NS6PCMLevel" where
  "ns6_pcm24_measure pcm frames =
     fold (\<lambda>frame level.
         case fold (measure_channel pcm frame) [0..<4] (peak level, False) of
           (pk, nonzero) \<Rightarrow> level\<lparr>peak := pk, nonzero_frames := nonzero_frames level + of_bool nonzero\<rparr>)
       [0..<unat frames] \<lparr>peak = [0, 0, 0, 0], nonzero_frames = 0\<rparr>"

definition ns6_fill_idle_pcm :: "u8 list option \<Rightarrow> u32 \<Rightarrow> bool \<Rightarrow> u8 list option" where
  "ns6_fill_idle_pcm output frames keep_alive =
     map_option (\<lambda>out.
       let silent = overwrite 0 (replicate (unat frames * 12) 0) out
       in if \<not> keep_alive then silent
          else fold (\<lambda>frame out. fold (\<lambda>channel out. out[frame * 12 + channel * 3 := 1]) [0..<4] out)
                 [0..<unat frames] silent) output"

subsection \<open>The lanes\<close>

text \<open>The number a lane spells, most significant bit first.\<close>

definition lane_number :: "u8 list \<Rightarrow> nat" where
  "lane_number lane = fold (\<lambda>b n. 2 * n + unat b mod 2) (take 24 lane) 0"

lemma push_bit_or_bit:
  fixes v x :: u32
  assumes "unat v < 2 ^ 31"
  shows "unat (push_bit 1 v OR (x AND 1)) = 2 * unat v + unat x mod 2"
proof -
  have "push_bit 1 v OR (x AND 1) = push_bit 1 v + (x AND 1)"
    by (rule disjunctive_add [symmetric])
      (simp only: bit_push_bit_iff bit_and_iff bit_1_iff, auto)
  moreover have "unat (x AND 1) = unat x mod 2"
    by (simp add: and_one_eq unat_mod)
  moreover have "unat (push_bit 1 v) = 2 * unat v"
    using assms by (simp add: push_bit_eq_mult unat_word_ariths)
  ultimately show ?thesis using assms by (simp add: unat_word_ariths)
qed

lemma lane_value_number:
  assumes "24 \<le> length lane"
  shows "unat (lane_value lane) = lane_number lane" and "lane_number lane < 2 ^ 24"
proof -
  have "n \<le> 24 \<Longrightarrow> unat (fold (\<lambda>i value. push_bit 1 value OR (ucast (lane ! i) AND 1)) [0..<n] (0 :: u32)) =
      fold (\<lambda>b n. 2 * n + unat b mod 2) (take n lane) 0 \<and>
      fold (\<lambda>b n. 2 * n + unat b mod 2) (take n lane) 0 < (2 :: nat) ^ n" for n
  proof (induction n)
    case (Suc n)
    let ?v = "fold (\<lambda>i value. push_bit 1 value OR (ucast (lane ! i) AND 1)) [0..<n] (0 :: u32)"
    let ?m = "fold (\<lambda>b n. 2 * n + unat b mod 2) (take n lane) (0 :: nat)"
    have t: "take (Suc n) lane = take n lane @ [lane ! n]" using Suc.prems assms by (simp add: take_Suc_conv_app_nth)
    have ih: "unat ?v = ?m" "?m < 2 ^ n" using Suc by auto
    have "(2 :: nat) ^ n \<le> 2 ^ 23" using Suc.prems by (intro power_increasing) auto
    then have "unat ?v < 2 ^ 31" using ih by simp
    from push_bit_or_bit [OF this] ih show ?case
      by (simp add: t unat_ucast_up)
  qed simp
  from this [of 24] show "unat (lane_value lane) = lane_number lane" "lane_number lane < 2 ^ 24"
    by (simp_all add: lane_value_def lane_number_def)
qed

lemma bit23: "w AND 0x800000 \<noteq> 0 \<longleftrightarrow> odd (unat w div 2 ^ 23)" for w :: u32
proof -
  have "w AND 2 ^ 23 = 0 \<longleftrightarrow> \<not> bit w 23" by (rule and_exp_eq_0_iff_not_bit)
  moreover have "bit w 23 \<longleftrightarrow> bit (unat w) 23" by (simp add: bit_unsigned_iff)
  ultimately show ?thesis by (simp add: bit_iff_odd)
qed

lemma sint_u32:
  fixes w :: u32
  assumes "unat w = n"
  shows "sint w = (if n < 2 ^ 31 then int n else int n - 2 ^ 32)"
proof -
  have u: "uint w = int n" using assms by (metis uint_nat)
  have "n < 2 ^ 32" using u32_less [of w] assms by simp
  moreover have "sint w = (int n + 2 ^ 31) mod 2 ^ 32 - 2 ^ 31"
    by (simp add: sint_uint signed_take_bit_eq_take_bit_shift take_bit_eq_mod u)
  moreover have "(int n + 2 ^ 31) mod 2 ^ 32 = int n - 2 ^ 31" if "2 ^ 31 \<le> n" "n < 2 ^ 32"
  proof -
    have "int n + 2 ^ 31 = (int n - 2 ^ 31) + 2 ^ 32" by simp
    then have "(int n + 2 ^ 31) mod 2 ^ 32 = (int n - 2 ^ 31) mod 2 ^ 32" by (metis mod_add_self2)
    then show ?thesis using that by (simp add: mod_pos_pos_trivial)
  qed
  ultimately show ?thesis by (auto simp: mod_pos_pos_trivial)
qed

lemma sint_small: "unat w < 2 ^ 31 \<Longrightarrow> sint w = int (unat w)" for w :: u32
  using sint_u32 [of w "unat w"] by simp

text \<open>Two's complement of a 24-bit number.\<close>

definition s24 :: "nat \<Rightarrow> int" where
  "s24 n = (if n < 2 ^ 23 then int n else int n - 2 ^ 24)"

lemma s24_range: "n < 2 ^ 24 \<Longrightarrow> - (2 ^ 23) \<le> s24 n \<and> s24 n < 2 ^ 23"
  by (simp add: s24_def)

lemma lane_bit23:
  fixes n :: nat
  assumes "n < 2 ^ 24"
  shows "odd (n div 2 ^ 23) \<longleftrightarrow> \<not> n < 2 ^ 23"
proof -
  have "n div 2 ^ 23 = 0 \<or> n div 2 ^ 23 = 1" using assms by auto
  then show ?thesis by (auto simp: div_eq_0_iff)
qed

lemma sint_extend:
  fixes w :: u32
  assumes "2 ^ 23 \<le> unat w" and "unat w < 2 ^ 24"
  shows "sint (w OR 0xff000000) = int (unat w) - 2 ^ 24"
proof -
  have "\<not> bit w i" if "24 \<le> i" for i
  proof -
    have "(2 :: nat) ^ 24 \<le> 2 ^ i" using that by (intro power_increasing) auto
    then have "\<not> bit (unat w) i" using assms(2) by (simp add: bit_iff_odd div_eq_0_iff)
    then show ?thesis by (auto simp: bit_unsigned_iff)
  qed
  moreover have "(0xff000000 :: u32) = push_bit 24 0xff" by simp
  then have "\<not> bit (0xff000000 :: u32) i" if "i < 24" for i
    using that by (simp only: bit_push_bit_iff) simp
  ultimately have "w OR 0xff000000 = w + 0xff000000"
    by (intro disjunctive_add [symmetric]) (meson not_le)
  moreover have "unat (w + 0xff000000) = unat w + 0xff000000"
    using assms by (simp add: unat_word_ariths)
  note sint_u32 [OF this]
  ultimately show ?thesis using assms by simp
qed

subsection \<open>Exact values\<close>

lemma scaled_exact:
  assumes "\<bar>m\<bar> \<le> 2 ^ 24"
  shows "fround f32 (of_int m / 8388608) = Fin (of_int m / 8388608)" "fround f64 (of_int m / 8388608) = Fin (of_int m / 8388608)"
proof -
  have e: "of_int m / 8388608 = (of_int m * pow2 (- 23) :: rat)" by (simp add: pow2_def field_simps)
  have r: "repr f32 (of_int m / 8388608)" "repr f64 (of_int m / 8388608)"
    unfolding e using assms by (auto intro!: repr_scale simp: f32_def f64_def)
  have "\<bar>of_int m :: rat\<bar> \<le> 2 ^ 24" using assms by (metis of_int_abs of_int_le_iff of_int_numeral of_int_power)
  then have b: "\<bar>of_int m / 8388608 :: rat\<bar> \<le> 2" by (simp add: abs_divide)
  have "(2 :: rat) < pow2 (emax f32 + 1)" "(2 :: rat) < pow2 (emax f64 + 1)" by (simp_all add: f32_def f64_def pow2_def)
  with b r show "fround f32 (of_int m / 8388608) = Fin (of_int m / 8388608)" "fround f64 (of_int m / 8388608) = Fin (of_int m / 8388608)"
    by (auto intro!: dbl.fround_exact sgl.fround_exact)
qed

lemma slit_int: "\<bar>m\<bar> \<le> 2 ^ 24 \<Longrightarrow> slit (of_int m) = Fin (of_int m)"
  using sgl.fround_small_int [of m] by (simp add: slit_def f32_def)

lemma decode_scale: "\<bar>m\<bar> \<le> 2 ^ 23 \<Longrightarrow>
  fmul f32 (float_of_int m) (fdiv f32 (slit 1) (slit 8388608)) = Fin (of_int m / 8388608)"
proof -
  assume m: "\<bar>m\<bar> \<le> 2 ^ 23"
  have "slit 1 = Fin 1" "slit 8388608 = Fin 8388608" using slit_int [of 1] slit_int [of 8388608] by simp_all
  moreover have "float_of_int m = Fin (of_int m)" using slit_int [of m] m by (simp add: slit_def float_of_int_def)
  moreover have "fround f32 (1 / 8388608) = Fin (1 / 8388608)" using scaled_exact(1) [of 1] by simp
  ultimately show ?thesis using scaled_exact(1) [of m] m by simp
qed

lemma decodeLane_value:
  assumes "24 \<le> length lane"
  shows "decodeLane lane = Fin (of_int (s24 (lane_number lane)) / 8388608)"
    and "ns6_capture_decode_lane lane = Fin (of_int (s24 (lane_number lane)) / 8388608)"
proof -
  let ?n = "lane_number lane"
  note n = lane_value_number [OF assms]
  have sm: "sint (lane_value lane) = int ?n" using sint_small [of "lane_value lane"] n by simp
  have b: "lane_value lane AND 0x800000 \<noteq> 0 \<longleftrightarrow> \<not> ?n < 2 ^ 23" using lane_bit23 [OF n(2)] n(1) by (simp add: bit23)
  have "\<bar>s24 ?n\<bar> \<le> 2 ^ 23" using s24_range [OF n(2)] by auto
  note d = decode_scale [OF this]
  have "(if lane_value lane AND 0x800000 \<noteq> 0 then sint (lane_value lane) - 0x1000000 else sint (lane_value lane)) = s24 ?n"
    unfolding b sm by (simp add: s24_def)
  then show "decodeLane lane = Fin (of_int (s24 ?n) / 8388608)"
    using d by (simp only: decodeLane_def Let_def)
  have "(if lane_value lane AND 0x800000 \<noteq> 0 then sint (lane_value lane OR 0xff000000) else sint (lane_value lane)) = s24 ?n"
    unfolding b sm using sint_extend [of "lane_value lane"] n by (auto simp: s24_def)
  then show "ns6_capture_decode_lane lane = Fin (of_int (s24 ?n) / 8388608)"
    using d by (simp only: ns6_capture_decode_lane_def Let_def)
qed

lemma dlit_pack [simp]: "dlit (- 1) = Fin (- 1)" "dlit 8388608 = Fin 8388608"
  using dlit_int [of "- 1"] dlit_int [of 8388608] by simp_all

lemma rint_away_int: "rint_away (of_int m) = m"
  unfolding rint_away_def by (cases "0 \<le> m") (auto intro!: floor_unique ceiling_unique)

lemma rint_away_near: "\<bar>of_int (rint_away x) - x\<bar> \<le> 1/2"
proof -
  have "of_int \<lfloor>x + 1/2\<rfloor> \<le> x + 1/2" "x + 1/2 < of_int \<lfloor>x + 1/2\<rfloor> + 1"
    "x - 1/2 \<le> of_int \<lceil>x - 1/2\<rceil>" "of_int \<lceil>x - 1/2\<rceil> < x - 1/2 + 1"
    by (simp_all only: of_int_floor_le floor_less_iff [symmetric] le_of_int_ceiling of_int_ceiling_le_add_one) linarith+
  then show ?thesis
    unfolding rint_away_def abs_le_iff by (cases "0 \<le> x"; simp only: if_True if_False; intro conjI; linarith)
qed

text \<open>A single-precision value in range is scaled without rounding before the final one.\<close>

lemma pack_value_scaled:
  assumes "fround f32 x = Fin x" and "\<bar>x\<bar> \<le> 1"
  shows "pack_value (Fin x) = max (- 8388608) (min 8388607 (rint_away (x * 8388608)))"
proof -
  obtain m e where x: "x = of_int m * pow2 e" and m: "\<bar>m\<bar> \<le> 2 ^ 24" and e: "- 149 \<le> e"
    using sgl.fround_repr [OF assms(1)] by (auto simp: repr_def f32_def)
  have m53: "\<bar>m\<bar> \<le> 2 ^ 53" using m by simp
  have r: "repr f64 x" unfolding x using m53 e by (intro repr_scale) (auto simp: f64_def)
  have "x * 8388608 = of_int m * pow2 (e + 23)"
    unfolding x using pow2_add [of e 23] by (simp add: pow2_def)
  then have r2: "repr f64 (x * 8388608)" using m53 e repr_scale [of m f64 "e + 23"] by (simp add: f64_def)
  have big: "(8388608 :: rat) < pow2 (emax f64 + 1)" by (simp add: f64_def pow2_def)
  have "fround f64 x = Fin x" using r assms(2) big by (intro dbl.fround_exact) auto
  moreover have "\<bar>x * 8388608\<bar> \<le> 8388608" using assms(2) by (simp add: abs_mult)
  then have "fround f64 (x * 8388608) = Fin (x * 8388608)" using r2 big by (intro dbl.fround_exact) auto
  ultimately show ?thesis
    using assms(2) by (simp add: pack_value_def fconv_def fclamp_def abs_le_iff)
qed

subsection \<open>Bytes\<close>

lemma or_shift:
  fixes a b :: u32
  assumes "unat a < 2 ^ k" and "unat b * 2 ^ k < 2 ^ 32" and "k < 32"
  shows "unat (a OR push_bit k b) = unat a + unat b * 2 ^ k"
proof -
  have "\<not> bit a i" if "k \<le> i" for i
  proof -
    have "(2 :: nat) ^ k \<le> 2 ^ i" using that by (intro power_increasing) auto
    with assms(1) have "unat a < 2 ^ i" by (rule less_le_trans)
    then have "\<not> bit (unat a) i" by (simp add: bit_iff_odd)
    then show ?thesis by (auto simp: bit_unsigned_iff)
  qed
  then have "a OR push_bit k b = a + push_bit k b"
    by (intro disjunctive_add [symmetric]) (auto simp only: bit_push_bit_iff)
  moreover have "unat (push_bit k b) = unat b * 2 ^ k"
    using assms(2) by (subst unsigned_push_bit_eq) (simp add: push_bit_eq_mult take_bit_nat_eq_self)
  moreover have "unat a + unat b * 2 ^ k < 2 ^ 32"
  proof -
    have "unat b < 2 ^ (32 - k)"
      using assms(2,3) by (metis less_imp_le_nat mult_less_cancel2 power_add le_add_diff_inverse2)
    then have "(unat b + 1) * 2 ^ k \<le> 2 ^ (32 - k) * 2 ^ k" by (intro mult_le_mono1) simp
    also have "\<dots> = 2 ^ 32" using assms(3) by (simp flip: power_add)
    finally show ?thesis using assms(1) by simp
  qed
  ultimately show ?thesis by (simp add: unat_word_ariths)
qed

lemma u8_less: "unat (b :: u8) < 256"
  using unsigned_less [where 'a = nat, of b] by simp

lemma pcm24_raw_number:
  "unat (pcm24_raw pcm i) = unat (pcm ! i) + 256 * unat (pcm ! (i + 1)) + 65536 * unat (pcm ! (i + 2))"
proof -
  let ?a = "ucast (pcm ! i) :: u32" and ?b = "ucast (pcm ! (i + 1)) :: u32" and ?c = "ucast (pcm ! (i + 2)) :: u32"
  have u: "unat ?a = unat (pcm ! i)" "unat ?b = unat (pcm ! (i + 1))" "unat ?c = unat (pcm ! (i + 2))"
    by (simp_all add: unat_ucast_up)
  have l: "unat ?a < 256" "unat ?b < 256" "unat ?c < 256" unfolding u by (rule u8_less)+
  have ab: "unat (?a OR push_bit 8 ?b) = unat ?a + unat ?b * 256" using or_shift [of ?a 8 ?b] l by simp
  have "unat ((?a OR push_bit 8 ?b) OR push_bit 16 ?c) = unat (?a OR push_bit 8 ?b) + unat ?c * 65536"
    using or_shift [of "?a OR push_bit 8 ?b" 16 ?c] l ab by simp
  then show ?thesis unfolding pcm24_raw_def ab using u by (simp add: or.assoc)
qed

lemma pcm24_value_number:
  assumes "unat raw < 2 ^ 24"
  shows "pcm24_value raw = s24 (unat raw)"
proof -
  have "(0x7fffff :: u32) = mask 23" by (simp add: mask_eq_exp_minus_1)
  then have "unat (raw AND 0x7fffff) = unat raw mod 2 ^ 23"
    by (simp only: take_bit_eq_mask [symmetric]) (simp add: unsigned_take_bit_eq take_bit_eq_mod unat_mod)
  moreover from this have "sint (raw AND 0x7fffff) = int (unat raw mod 2 ^ 23)"
    using sint_small [of "raw AND 0x7fffff"] mod_less_divisor [of "2 ^ 23" "unat raw"] by simp
  moreover have "raw AND 0x800000 \<noteq> 0 \<longleftrightarrow> \<not> unat raw < 2 ^ 23" using lane_bit23 [OF assms] by (simp add: bit23)
  moreover have "unat raw mod 2 ^ 23 = (if unat raw < 2 ^ 23 then unat raw else unat raw - 2 ^ 23)"
    using assms by (simp add: le_mod_geq)
  ultimately show ?thesis by (auto simp: pcm24_value_def Let_def s24_def)
qed

lemma pcm24_raw_less: "unat (pcm24_raw pcm i) < 2 ^ 24"
  using u8_less [of "pcm ! i"] u8_less [of "pcm ! (i + 1)"] u8_less [of "pcm ! (i + 2)"]
  by (simp add: pcm24_raw_number)

lemma bytes_mod: "n mod 256 + 256 * (n div 256 mod 256) + 65536 * (n div 65536 mod 256) = n mod 16777216" for n :: nat
proof -
  have "n mod (256 * 65536) = 256 * (n div 256 mod 65536) + n mod 256" by (rule mod_mult2_eq)
  moreover have "n div 256 mod (256 * 256) = 256 * (n div 256 div 256 mod 256) + n div 256 mod 256" by (rule mod_mult2_eq)
  moreover have "n div 256 div 256 = n div 65536" using div_mult2_eq [of n 256 256] by simp
  ultimately show ?thesis by simp
qed

lemma pack_bytes_read:
  assumes "- (2 ^ 23) \<le> v" and "v < 2 ^ 23"
  shows "pcm24_value (pcm24_raw (pack_bytes v) 0) = v"
proof -
  define w :: u32 where "w = word_of_int v"
  have b: "unat (ucast w :: u8) = unat w mod 256" "unat (ucast (drop_bit 8 w) :: u8) = unat w div 256 mod 256"
      "unat (ucast (drop_bit 16 w) :: u8) = unat w div 65536 mod 256"
    by (simp_all add: unsigned_ucast_eq take_bit_eq_mod unsigned_drop_bit_eq drop_bit_eq_div unat_div)
  have "unat (pcm24_raw (pack_bytes v) 0) = unat w mod 256 + 256 * (unat w div 256 mod 256) + 65536 * (unat w div 65536 mod 256)"
    by (simp add: pcm24_raw_number pack_bytes_def Let_def b flip: w_def)
  also have "\<dots> = unat w mod 2 ^ 24"
    using bytes_mod [of "unat w"] by simp
  finally have n: "unat (pcm24_raw (pack_bytes v) 0) = unat w mod 2 ^ 24" .
  have "int (unat w) = v mod 2 ^ 32" by (simp add: w_def uint_word_of_int take_bit_eq_mod)
  then have "int (unat w mod 2 ^ 24) = v mod 2 ^ 32 mod 2 ^ 24" by (simp add: zmod_int)
  also have "\<dots> = v mod 2 ^ 24" by (simp add: mod_mod_cancel)
  finally have m: "int (unat w mod 2 ^ 24) = v mod 2 ^ 24" .
  have "s24 (unat w mod 2 ^ 24) = v"
  proof (cases "0 \<le> v")
    case True
    then show ?thesis using m assms by (simp add: s24_def mod_pos_pos_trivial)
  next
    case False
    have "(v + 2 ^ 24) mod 2 ^ 24 = v + 2 ^ 24" using False assms by (intro mod_pos_pos_trivial) auto
    then have "v mod 2 ^ 24 = v + 2 ^ 24" by (simp only: mod_add_self2)
    then show ?thesis using m False assms by (auto simp: s24_def)
  qed
  then show ?thesis using pcm24_value_number [OF pcm24_raw_less] n by simp
qed

subsection \<open>Levels\<close>

definition pcm_sample :: "u8 list \<Rightarrow> nat \<Rightarrow> nat \<Rightarrow> int" where
  "pcm_sample pcm frame channel = s24 (unat (pcm24_raw pcm ((frame * 4 + channel) * 3)))"

definition pcm_peak :: "u8 list \<Rightarrow> nat \<Rightarrow> nat \<Rightarrow> nat" where
  "pcm_peak pcm frames channel = Max (insert 0 ((\<lambda>frame. nat \<bar>pcm_sample pcm frame channel\<bar>) ` {..<frames}))"

lemma pcm_peak_Suc: "pcm_peak pcm (Suc n) c = max (pcm_peak pcm n c) (nat \<bar>pcm_sample pcm n c\<bar>)"
  unfolding pcm_peak_def lessThan_Suc image_insert
  by (subst insert_commute, subst Max_insert) (simp_all add: max.commute)

lemma pcm_sample_magnitude:
  "unat (if pcm_sample pcm f c < 0 then word_of_int (- pcm_sample pcm f c) else word_of_int (pcm_sample pcm f c) :: u32) =
    nat \<bar>pcm_sample pcm f c\<bar>"
proof -
  have r: "- (2 ^ 23) \<le> pcm_sample pcm f c \<and> pcm_sample pcm f c < 2 ^ 23"
    unfolding pcm_sample_def by (rule s24_range) (rule pcm24_raw_less)
  have u: "unat (word_of_int k :: u32) = nat k" if "0 \<le> k" "k \<le> 2 ^ 23" for k
    using that by (simp add: unsigned_of_int take_bit_int_eq_self)
  show ?thesis using r u [of "- pcm_sample pcm f c"] u [of "pcm_sample pcm f c"]
    by (simp add: abs_if del: of_int_minus)
qed

lemma measure_channel_eq:
  assumes "c < length pk"
  shows "measure_channel pcm f c (pk, nz) =
    (pk[c := max (pk ! c) (word_of_nat (nat \<bar>pcm_sample pcm f c\<bar>))], nz \<or> pcm_sample pcm f c \<noteq> 0)"
proof -
  have v: "pcm24_value (pcm24_raw pcm ((f * 4 + c) * 3)) = pcm_sample pcm f c"
    unfolding pcm_sample_def by (rule pcm24_value_number) (rule pcm24_raw_less)
  define m :: u32 where "m = (if pcm_sample pcm f c < 0 then word_of_int (- pcm_sample pcm f c) else word_of_int (pcm_sample pcm f c))"
  have "unat m = nat \<bar>pcm_sample pcm f c\<bar>" unfolding m_def by (rule pcm_sample_magnitude)
  then have m: "m = word_of_nat (nat \<bar>pcm_sample pcm f c\<bar>)" by (metis word_of_unat)
  have "measure_channel pcm f c (pk, nz) = (if pk ! c < m then pk[c := m] else pk, nz \<or> pcm_sample pcm f c \<noteq> 0)"
    unfolding measure_channel_def Let_def v m_def prod.case by (rule refl)
  also have "\<dots> = (pk[c := max (pk ! c) m], nz \<or> pcm_sample pcm f c \<noteq> 0)"
    by (auto simp: max_def not_le)
  finally show ?thesis by (simp only: m)
qed

lemma pcm_sample_le: "nat \<bar>pcm_sample pcm f c\<bar> \<le> 2 ^ 23"
  using s24_range [OF pcm24_raw_less [of pcm "(f * 4 + c) * 3"]] by (auto simp: pcm_sample_def)

lemma pcm_peak_le: "pcm_peak pcm n c \<le> 2 ^ 23"
  unfolding pcm_peak_def using pcm_sample_le by (intro Max.boundedI) auto

lemma measure_frame:
  assumes "pk = map (\<lambda>c. word_of_nat (pcm_peak pcm f c)) [0..<4]"
  shows "fold (measure_channel pcm f) [0..<4] (pk, False) =
    (map (\<lambda>c. word_of_nat (pcm_peak pcm (Suc f) c)) [0..<4], \<exists>c<4. pcm_sample pcm f c \<noteq> 0)"
proof -
  have up: "[0..<4] = [0, 1, 2, 3 :: nat]" by (simp add: upt_rec)
  have mx: "max (word_of_nat (pcm_peak pcm f c)) (word_of_nat (nat \<bar>pcm_sample pcm f c\<bar>) :: u32) =
      word_of_nat (pcm_peak pcm (Suc f) c)" for c
  proof -
    show ?thesis using pcm_peak_le [of pcm f c] pcm_sample_le [of pcm f c]
      by (simp add: pcm_peak_Suc max_def word_le_nat_alt unat_of_nat del: of_nat_nat)
  qed
  have ex: "(\<exists>c<4. P c) \<longleftrightarrow> P 0 \<or> P 1 \<or> P 2 \<or> P (3 :: nat)" for P
    by (auto simp: numeral_eq_Suc less_Suc_eq)
  show ?thesis
    unfolding ex using assms by (auto simp: up measure_channel_eq mx simp del: of_nat_nat)
qed

lemma measure_all:
  "fold (\<lambda>frame level. case fold (measure_channel pcm frame) [0..<4] (peak level, False) of
       (pk, nonzero) \<Rightarrow> level\<lparr>peak := pk, nonzero_frames := nonzero_frames level + of_bool nonzero\<rparr>)
     [0..<n] \<lparr>peak = [0, 0, 0, 0], nonzero_frames = 0\<rparr> =
   \<lparr>peak = map (\<lambda>c. word_of_nat (pcm_peak pcm n c)) [0..<4],
    nonzero_frames = word_of_nat (card {f. f < n \<and> (\<exists>c<4. pcm_sample pcm f c \<noteq> 0)})\<rparr>"
proof (induction n)
  case 0
  have "[0..<4] = [0, 1, 2, 3 :: nat]" by (simp add: upt_rec)
  then show ?case by (simp add: pcm_peak_def)
next
  case (Suc n)
  let ?P = "\<lambda>f. \<exists>c<4. pcm_sample pcm f c \<noteq> 0"
  have "{f. f < Suc n \<and> ?P f} = (if ?P n then insert n {f. f < n \<and> ?P f} else {f. f < n \<and> ?P f})"
    by (auto simp: less_Suc_eq)
  then have "card {f. f < Suc n \<and> ?P f} = card {f. f < n \<and> ?P f} + (if ?P n then 1 else 0)" by simp
  moreover have "[0..<Suc n] = [0..<n] @ [n]" by simp
  ultimately show ?case using Suc measure_frame [OF refl, of pcm n] by simp
qed

lemma level_words:
  "map unat (peak (ns6_pcm24_measure pcm frames)) = map (pcm_peak pcm (unat frames)) [0..<4]"
  "unat (nonzero_frames (ns6_pcm24_measure pcm frames)) =
     card {f. f < unat frames \<and> (\<exists>c<4. pcm_sample pcm f c \<noteq> 0)}"
proof -
  let ?N = "{f. f < unat frames \<and> (\<exists>c<4. pcm_sample pcm f c \<noteq> 0)}"
  have "card ?N \<le> card {..<unat frames}" by (rule card_mono) auto
  then have "card ?N < 2 ^ 64" using u32_less [of frames] by simp
  then show "unat (nonzero_frames (ns6_pcm24_measure pcm frames)) = card ?N"
    by (simp add: ns6_pcm24_measure_def measure_all unat_of_nat)
  have "pcm_peak pcm n c < 2 ^ 32" for n c using pcm_peak_le [of pcm n c] by simp
  then show "map unat (peak (ns6_pcm24_measure pcm frames)) = map (pcm_peak pcm (unat frames)) [0..<4]"
    by (simp add: ns6_pcm24_measure_def measure_all unat_of_nat)
qed

lemma idle_bytes:
  assumes "n * 12 \<le> length out"
  shows "length (fold (\<lambda>frame out. fold (\<lambda>channel out. out[frame * 12 + channel * 3 := 1]) [0..<4] out) [0..<n] out) = length out"
    and "i < length out \<Longrightarrow>
      fold (\<lambda>frame out. fold (\<lambda>channel out. out[frame * 12 + channel * 3 := 1]) [0..<4] out) [0..<n] out ! i =
        (if i < n * 12 \<and> i mod 3 = 0 then 1 else out ! i :: u8)"
proof -
  have up: "[0..<4] = [0, 1, 2, 3 :: nat]" by (simp add: upt_rec)
  let ?f = "\<lambda>n. fold (\<lambda>frame out. fold (\<lambda>channel out. out[frame * 12 + channel * 3 := 1]) [0..<4] out) [0..<n] out"
  have "length (?f n) = length out \<and>
      (\<forall>i < length out. ?f n ! i = (if i < n * 12 \<and> i mod 3 = 0 then 1 else out ! i :: u8))"
    using assms
  proof (induction n)
    case 0
    then show ?case by simp
  next
    case (Suc n)
    have "i < Suc n * 12 \<and> i mod 3 = 0 \<longleftrightarrow>
        i < n * 12 \<and> i mod 3 = 0 \<or> i = n * 12 \<or> i = n * 12 + 3 \<or> i = n * 12 + 6 \<or> i = n * 12 + 9" for i
      by presburger
    with Suc show ?case by (auto simp: up nth_list_update)
  qed
  then show "length (?f n) = length out"
    and "i < length out \<Longrightarrow> ?f n ! i = (if i < n * 12 \<and> i mod 3 = 0 then 1 else out ! i :: u8)" by auto
qed

lemma idle_sample:
  assumes "unat frames * 12 \<le> length out" and "f < unat frames" and "c < 4"
  shows "pcm_sample (the (ns6_fill_idle_pcm (Some out) frames keep_alive)) f c = of_bool keep_alive"
proof -
  define silent :: "u8 list" where "silent = overwrite 0 (replicate (unat frames * 12) 0) out"
  have l: "length silent = length out" and z: "i < unat frames * 12 \<Longrightarrow> silent ! i = 0" for i
    using assms by (auto simp: silent_def overwrite_def nth_append)
  define pcm where "pcm = the (ns6_fill_idle_pcm (Some out) frames keep_alive)"
  have "(f * 4 + c) * 3 + 2 < n * 12" if "f < n" for n
    using mult_le_mono1 [of "Suc f" n 12] that assms(3) by simp
  note this [OF assms(2)]
  moreover have "((f * 4 + c) * 3 + k) mod 3 = 0 \<longleftrightarrow> k = 0" if "k < 3" for k using that by presburger
  ultimately have b: "pcm ! ((f * 4 + c) * 3 + k) = of_bool (keep_alive \<and> k = 0)" if "k < 3" for k
    using that z [of "(f * 4 + c) * 3 + k"] l assms(1) idle_bytes(2) [of "unat frames" silent "(f * 4 + c) * 3 + k"]
    by (simp add: pcm_def ns6_fill_idle_pcm_def Let_def flip: silent_def)
  then have "unat (pcm24_raw pcm ((f * 4 + c) * 3)) = of_bool keep_alive"
    using b [of 0] b [of 1] b [of 2] by (simp add: pcm24_raw_number)
  then show ?thesis by (simp add: pcm_sample_def s24_def flip: pcm_def)
qed

subsection \<open>Properties\<close>

text \<open>
  (C22) A captured sample survives the trip through both drivers bit for bit: a lane of 24 bits is decoded to the same value
  by the HAL plug-in and by the USB driver, and packing that value for output writes three bytes that spell the lane's
  two's complement number.
\<close>

theorem pcm_lane_roundtrip:
  assumes "24 \<le> length lane"
  shows "ns6_capture_decode_lane lane = decodeLane lane \<and>
    pcm24_value (pcm24_raw (pack_sample (decodeLane lane)) 0) = s24 (lane_number lane)"
proof -
  let ?m = "s24 (lane_number lane)"
  have r: "- (2 ^ 23) \<le> ?m \<and> ?m < 2 ^ 23" using s24_range lane_value_number(2) [OF assms] .
  have "\<bar>of_int ?m / 8388608 :: rat\<bar> \<le> 1" 
  proof -
    have "(of_int (- (2 ^ 23)) :: rat) \<le> of_int ?m" "(of_int ?m :: rat) \<le> of_int (2 ^ 23)"
      unfolding of_int_le_iff using r by simp_all
    then show ?thesis by (simp add: abs_le_iff)
  qed
  then have "pack_value (decodeLane lane) = ?m"
    using pack_value_scaled [of "of_int ?m / 8388608"] scaled_exact(1) [of ?m] r
    by (simp add: decodeLane_value(1) [OF assms] rint_away_int)
  then show ?thesis using r by (simp add: pack_sample_def pack_bytes_read decodeLane_value [OF assms])
qed

text \<open>Witness for C0: the lane of the smallest positive sample.\<close>

theorem pcm_lane_roundtrip_witness:
  "ns6_capture_decode_lane (replicate 23 0 @ [1]) = decodeLane (replicate 23 0 @ [1]) \<and>
   pcm24_value (pcm24_raw (pack_sample (decodeLane (replicate 23 0 @ [1]))) 0) = 1"
proof -
  have "lane_number (replicate 23 0 @ [1]) = 1" by code_simp
  then show ?thesis using pcm_lane_roundtrip [of "replicate 23 0 @ [1]"] by (simp add: s24_def)
qed

text \<open>
  Packing any single-precision sample of the interval from -1 to 1 writes the nearest 24-bit step: what the bytes spell
  differs from the exact product by at most half a step, or is the largest code for samples within half a step of 1.
\<close>

lemma pcm_pack_nearest:
  assumes "fround f32 x = Fin x" and "\<bar>x\<bar> \<le> 1"
  shows "\<bar>of_int (pcm24_value (pcm24_raw (pack_sample (Fin x)) 0)) - x * 8388608\<bar> \<le> 1/2 \<or>
    8388607 + 1/2 \<le> x * 8388608 \<and> pcm24_value (pcm24_raw (pack_sample (Fin x)) 0) = 8388607"
proof -
  let ?r = "rint_away (x * 8388608)"
  have n: "\<bar>of_int ?r - x * 8388608\<bar> \<le> 1/2" by (rule rint_away_near)
  have b: "- 8388608 \<le> x * 8388608" "x * 8388608 \<le> 8388608" using assms(2) by (auto simp: abs_le_iff)
  then have "- 8388608 - 1/2 \<le> (of_int ?r :: rat)" "(of_int ?r :: rat) \<le> 8388608 + 1/2" using n by linarith+
  then have r: "- 8388608 \<le> ?r" "?r \<le> 8388608" by linarith+
  have v: "pack_value (Fin x) = min 8388607 ?r" using pack_value_scaled [OF assms] r by simp
  then have "pcm24_value (pcm24_raw (pack_sample (Fin x)) 0) = min 8388607 ?r"
    using r pack_bytes_read [of "min 8388607 ?r"] by (simp add: pack_sample_def)
  moreover have "8388607 + 1/2 \<le> x * 8388608" if "\<not> ?r \<le> 8388607"
  proof -
    have "?r = 8388608" using that r by simp
    then have "(of_int ?r :: rat) = 8388608" by simp
    then show ?thesis using n by linarith
  qed
  ultimately show ?thesis using n by (cases "?r \<le> 8388607") (simp_all add: min_def)
qed


text \<open>
  The level measurement is exact: each channel's peak is the largest magnitude of its samples, and the count is the
  number of frames in which some channel is not zero.
\<close>

lemma pcm_level_exact:
  "map unat (peak (ns6_pcm24_measure pcm frames)) = map (pcm_peak pcm (unat frames)) [0..<4] \<and>
   unat (nonzero_frames (ns6_pcm24_measure pcm frames)) =
     card {f. f < unat frames \<and> (\<exists>c<4. pcm_sample pcm f c \<noteq> 0)}"
  using level_words [of pcm frames] by simp

text \<open>
  The keepalive is the smallest audible signal: a buffer filled for the idle output is measured as silence, or with
  the keepalive as peak one on all four channels in every frame.
\<close>

lemma pcm_idle_measured:
  assumes "unat frames * 12 \<le> length out" and "0 < unat frames"
  shows "let level = ns6_pcm24_measure (the (ns6_fill_idle_pcm (Some out) frames keep_alive)) frames
    in map unat (peak level) = replicate 4 (of_bool keep_alive) \<and>
       unat (nonzero_frames level) = (if keep_alive then unat frames else 0)"
proof -
  define pcm where "pcm = the (ns6_fill_idle_pcm (Some out) frames keep_alive)"
  have s: "pcm_sample pcm f c = of_bool keep_alive" if "f < unat frames" "c < 4" for f c
    unfolding pcm_def using idle_sample [OF assms(1) that] .
  have "(\<lambda>f. nat \<bar>pcm_sample pcm f c\<bar>) ` {..<unat frames} = {of_bool keep_alive}" if "c < 4" for c
    using that assms(2) by (auto simp: s image_iff)
  then have p: "pcm_peak pcm (unat frames) c = of_bool keep_alive" if "c < 4" for c
    using that by (simp add: pcm_peak_def)
  have "(\<exists>c<4. pcm_sample pcm f c \<noteq> 0) \<longleftrightarrow> keep_alive" if "f < unat frames" for f
    using that by (auto simp: s intro: exI [of _ 0])
  then have n: "{f. f < unat frames \<and> (\<exists>c<4. pcm_sample pcm f c \<noteq> 0)} = (if keep_alive then {..<unat frames} else {})"
    by auto
  have "map (pcm_peak pcm (unat frames)) [0..<4] = replicate 4 (of_bool keep_alive)"
    using p by (simp add: upt_rec eval_nat_numeral)
  then show ?thesis unfolding pcm_def [symmetric] using level_words [of pcm frames] n by (simp add: Let_def)
qed


end
