(* ===== verification/NS6_USB.thy ===== *)
theory NS6_USB
  imports NS6_Prelude
begin

text \<open>
  The USB session of \<^verbatim>\<open>numark-ns6/usb/NS6DeviceSession.cpp\<close>. IOKit and CoreFoundation are not part of the sources: they are
  the argument \<open>env\<close> of every operation, which answers a call from the history of all calls before it. The session
  record carries that history in its first field; the other fields are the members of the class. Handles (interfaces,
  run-loop sources, run loops) are numbers, a null pointer is \<open>None\<close>.
\<close>

unbundle bit_operations_syntax

subsection \<open>The USB stack as a parameter\<close>

datatype usb_call =
    MatchServices string
  | IteratorRelease
  | SleepMilliseconds nat
  | QueryInterface nat
  | CreateDevicePlugIn nat
  | QueryDevice nat
  | DeviceOpenSeize nat
  | GetConfiguration nat
  | SetConfiguration nat u8
  | DeviceClose nat
  | DeviceRelease nat
  | InterfaceOpenSeize nat
  | InterfaceClose nat
  | InterfaceRelease nat
  | SetAlternateInterface nat u8
  | ControlRequest nat u8 u8 u16 u16 "u8 list" nat
  | GetNumEndpoints nat
  | GetPipeProperties nat u8
  | CreateAsyncEventSource nat
  | SourceRelease nat
  | RunLoopRetain nat
  | RunLoopRelease nat
  | RunLoopAddSource nat nat
  | RunLoopRemoveSource nat nat
  | CreateBuffer nat nat
  | DestroyBuffer nat nat
  | AbortPipe nat u8
  | ClearPipeStall nat u8
  | IsocTransfer nat u8 nat
  | PipeTransfer nat u8 nat
  | WritePipe nat u8 "u8 list"
  | GetPipeStatus nat u8

type_synonym usb_trace = "(usb_call \<times> IOReturn) list"

text \<open>A property of a registry entry, and \<^verbatim>\<open>numberProperty\<close>: a number that fits 16 bits signed.\<close>

datatype cf_property = CFNumber int | CFOther

definition numberProperty :: "cf_property option \<Rightarrow> u16 option" where
  "numberProperty property =
     (case property of Some (CFNumber n) \<Rightarrow> if - (2 ^ 15) \<le> n \<and> n < 2 ^ 15 then Some (word_of_int n) else None
      | _ \<Rightarrow> None)"

text \<open>
  What the registry holds about an interface service: whether it has a parent device, the parent's properties, the
  interface handle its plug-in yields (if any) and the interface number (if it can be read).
\<close>

record interface_entry =
  ie_parent :: bool
  ie_vendor :: "cf_property option"
  ie_product :: "cf_property option"
  ie_speed :: "cf_property option"
  ie_device_id :: "u64 option"
  ie_handle :: "nat option"
  ie_number :: "u8 option"

record device_entry =
  de_vendor :: "cf_property option"
  de_product :: "cf_property option"
  de_id :: "u64 option"
  de_handle :: nat
  de_plugin :: bool
  de_device :: bool

record pipe_properties =
  pp_direction :: u8
  pp_number :: u8
  pp_transferType :: u8
  pp_maxPacketSize :: u16
  pp_interval :: u8

record usb_env =
  e_status :: "usb_trace \<Rightarrow> usb_call \<Rightarrow> IOReturn"
  e_interfaces :: "usb_trace \<Rightarrow> interface_entry list"
  e_devices :: "usb_trace \<Rightarrow> device_entry list"
  e_endpoints :: "usb_trace \<Rightarrow> nat \<Rightarrow> u8"
  e_pipe :: "usb_trace \<Rightarrow> nat \<Rightarrow> u8 \<Rightarrow> pipe_properties"
  e_data :: "usb_trace \<Rightarrow> usb_call \<Rightarrow> u8 list"
  e_source :: "usb_trace \<Rightarrow> nat"

abbreviation (input) kUSBDeviceSpeedHigh :: u16 where "kUSBDeviceSpeedHigh \<equiv> 2"
abbreviation (input) kUSBOut :: u8 where "kUSBOut \<equiv> 0"
abbreviation (input) kUSBIn :: u8 where "kUSBIn \<equiv> 1"
abbreviation (input) kUSBIsoc :: u8 where "kUSBIsoc \<equiv> 1"
abbreviation (input) kUSBBulk :: u8 where "kUSBBulk \<equiv> 2"

subsection \<open>The session\<close>

record NS6DeviceSession =
  ds_trace :: usb_trace
  ds_interface :: "nat option"
  ds_asyncEventSource :: "nat option"
  ds_audioOutPipe :: u8
  ds_midiInPipe :: u8
  ds_midiOutPipe :: u8
  ds_opened :: bool
  ds_eventRunLoop :: "nat option"
  ds_eventClients :: u32
  ds_auxInterface :: "nat option"
  ds_auxAsyncEventSource :: "nat option"
  ds_feedbackPipe :: u8
  ds_audioInPipe :: u8
  ds_auxOpened :: bool
  ds_firmwareVersion :: string
  ds_previousAudioMode :: u16
  ds_audioModeChanged :: bool
  ds_deviceID :: u64
  ds_auxEventRunLoop :: "nat option"
  ds_auxEventClients :: u32

definition session_new :: "usb_trace \<Rightarrow> NS6DeviceSession" where
  "session_new tr = \<lparr>ds_trace = tr, ds_interface = None, ds_asyncEventSource = None, ds_audioOutPipe = 0, ds_midiInPipe = 0,
     ds_midiOutPipe = 0, ds_opened = False, ds_eventRunLoop = None, ds_eventClients = 0, ds_auxInterface = None,
     ds_auxAsyncEventSource = None, ds_feedbackPipe = 0, ds_audioInPipe = 0, ds_auxOpened = False,
     ds_firmwareVersion = [], ds_previousAudioMode = 0, ds_audioModeChanged = False, ds_deviceID = 0,
     ds_auxEventRunLoop = None, ds_auxEventClients = 0\<rparr>"

text \<open>A call to the stack: its status, with the call and the status added to the history.\<close>

definition call :: "usb_env \<Rightarrow> usb_call \<Rightarrow> NS6DeviceSession \<Rightarrow> IOReturn \<times> NS6DeviceSession" where
  "call env c s = (let st = e_status env (ds_trace s) c in (st, s\<lparr>ds_trace := ds_trace s @ [(c, st)]\<rparr>))"

text \<open>A call without a status.\<close>

definition note_call :: "usb_call \<Rightarrow> NS6DeviceSession \<Rightarrow> NS6DeviceSession" where
  "note_call c s = s\<lparr>ds_trace := ds_trace s @ [(c, kIOReturnSuccess)]\<rparr>"

text \<open>The early return on a failed call.\<close>

definition on_success :: "IOReturn \<times> 's \<Rightarrow> ('s \<Rightarrow> IOReturn \<times> 's) \<Rightarrow> (IOReturn \<Rightarrow> 's \<Rightarrow> IOReturn \<times> 's) \<Rightarrow> IOReturn \<times> 's" where
  "on_success r ok failed = (case r of (st, s) \<Rightarrow> if st = kIOReturnSuccess then ok s else failed st s)"

definition buffer_of :: "nat \<Rightarrow> u8 list \<Rightarrow> u8 list" where
  "buffer_of n data = take n (data @ replicate n 0)"

subsection \<open>Finding the device\<close>

definition is_ns6 :: "cf_property option \<Rightarrow> cf_property option \<Rightarrow> bool" where
  "is_ns6 vendor product \<longleftrightarrow> numberProperty vendor = Some 0x15e4 \<and> numberProperty product = Some 0x0079"

definition currentDeviceID :: "usb_env \<Rightarrow> usb_trace \<Rightarrow> u64" where
  "currentDeviceID env tr =
     (if e_status env tr (MatchServices ''IOUSBHostDevice'') \<noteq> kIOReturnSuccess then 0
      else fold (\<lambda>d found. if found \<noteq> 0 then found
               else if is_ns6 (de_vendor d) (de_product d) then (case de_id d of Some i \<Rightarrow> i | None \<Rightarrow> found) else found)
             (e_devices env tr) 0)"

definition entry_matches :: "u64 option \<Rightarrow> interface_entry \<Rightarrow> bool" where
  "entry_matches wantedDeviceID e \<longleftrightarrow>
     ie_parent e \<and> is_ns6 (ie_vendor e) (ie_product e) \<and> numberProperty (ie_speed e) = Some kUSBDeviceSpeedHigh \<and>
     ie_device_id e \<noteq> None \<and> (wantedDeviceID = None \<or> wantedDeviceID = ie_device_id e)"

fun matchingInterface :: "interface_entry list \<Rightarrow> u8 \<Rightarrow> u64 option \<Rightarrow> NS6DeviceSession \<Rightarrow>
    (nat \<times> u64) option \<times> NS6DeviceSession" where
  "matchingInterface [] wantedNumber wantedDeviceID s = (None, s)"
| "matchingInterface (e # rest) wantedNumber wantedDeviceID s =
     (if \<not> entry_matches wantedDeviceID e then matchingInterface rest wantedNumber wantedDeviceID s
      else case ie_handle e of None \<Rightarrow> matchingInterface rest wantedNumber wantedDeviceID s
      | Some h \<Rightarrow>
        let s = note_call (QueryInterface h) s in
        if ie_number e = Some wantedNumber then (Some (h, the (ie_device_id e)), s)
        else matchingInterface rest wantedNumber wantedDeviceID (note_call (InterfaceRelease h) s))"

definition configure_found :: "usb_env \<Rightarrow> device_entry \<Rightarrow> NS6DeviceSession \<Rightarrow> IOReturn \<times> NS6DeviceSession" where
  "configure_found env d s =
     on_success (call env (CreateDevicePlugIn (de_handle d)) s) (\<lambda>s.
       if \<not> de_plugin d then (kIOReturnSuccess, s) else
       on_success (call env (QueryDevice (de_handle d)) s) (\<lambda>s.
         if \<not> de_device d then (kIOReturnSuccess, s) else
         let (r, s) = on_success (call env (DeviceOpenSeize (de_handle d)) s) (\<lambda>s.
               let (r, s) = on_success (call env (GetConfiguration (de_handle d)) s)
                     (call env (SetConfiguration (de_handle d) 1)) Pair
               in (r, note_call (DeviceClose (de_handle d)) s)) Pair
         in (r, note_call (DeviceRelease (de_handle d)) s)) Pair) Pair"

definition configureDevice :: "usb_env \<Rightarrow> NS6DeviceSession \<Rightarrow> IOReturn \<times> NS6DeviceSession" where
  "configureDevice env s =
     on_success (call env (MatchServices ''IOUSBHostDevice'') s) (\<lambda>s1.
       let s1 = note_call IteratorRelease s1 in
       case find (\<lambda>d. is_ns6 (de_vendor d) (de_product d)) (e_devices env (ds_trace s)) of
         None \<Rightarrow> (kIOReturnNotFound, s1) | Some d \<Rightarrow> configure_found env d s1) Pair"

definition find_interface :: "usb_env \<Rightarrow> u8 \<Rightarrow> u64 option \<Rightarrow> NS6DeviceSession \<Rightarrow>
    IOReturn \<times> (nat \<times> u64) option \<times> NS6DeviceSession" where
  "find_interface env number wantedDeviceID s =
     (case call env (MatchServices ''IOUSBHostInterface'') s of (st, s1) \<Rightarrow>
        if st \<noteq> kIOReturnSuccess then (st, None, s1)
        else case matchingInterface (e_interfaces env (ds_trace s)) number wantedDeviceID s1 of (found, s2) \<Rightarrow>
          (kIOReturnSuccess, found, note_call IteratorRelease s2))"

subsection \<open>Closing\<close>

definition close_mode :: "usb_env \<Rightarrow> NS6DeviceSession \<Rightarrow> IOReturn \<times> NS6DeviceSession" where
  "close_mode env s =
     (case ds_interface s of
        Some i \<Rightarrow> if ds_audioModeChanged s \<and> ds_opened s
          then (case call env (ControlRequest i 0x40 0x49 (ds_previousAudioMode s) 0 [] 0) s of
                  (st, s) \<Rightarrow> (st, s\<lparr>ds_audioModeChanged := False\<rparr>))
          else (kIOReturnSuccess, s)
      | None \<Rightarrow> (kIOReturnSuccess, s))"

definition close_run_loops :: "NS6DeviceSession \<Rightarrow> NS6DeviceSession" where
  "close_run_loops s =
     (let s = (case (ds_eventRunLoop s, ds_asyncEventSource s) of
                 (Some l, Some src) \<Rightarrow> note_call (RunLoopRemoveSource l src) s | _ \<Rightarrow> s);
          s = (case ds_eventRunLoop s of Some l \<Rightarrow> note_call (RunLoopRelease l) s | None \<Rightarrow> s);
          s = s\<lparr>ds_eventRunLoop := None, ds_eventClients := 0\<rparr>;
          s = (case (ds_auxEventRunLoop s, ds_auxAsyncEventSource s) of
                 (Some l, Some src) \<Rightarrow> note_call (RunLoopRemoveSource l src) s | _ \<Rightarrow> s);
          s = (case ds_auxEventRunLoop s of Some l \<Rightarrow> note_call (RunLoopRelease l) s | None \<Rightarrow> s)
      in s\<lparr>ds_auxEventRunLoop := None, ds_auxEventClients := 0\<rparr>)"

definition close_auxiliary :: "usb_env \<Rightarrow> IOReturn \<Rightarrow> NS6DeviceSession \<Rightarrow> IOReturn \<times> NS6DeviceSession" where
  "close_auxiliary env result s =
     (let (result, s) = (case ds_auxInterface s of
            Some i \<Rightarrow> if ds_auxOpened s
              then (case call env (InterfaceClose i) s of (st, s) \<Rightarrow> (st, s\<lparr>ds_auxOpened := False\<rparr>)) else (result, s)
          | None \<Rightarrow> (result, s));
          s = (case ds_auxAsyncEventSource s of Some src \<Rightarrow> note_call (SourceRelease src) s | None \<Rightarrow> s);
          s = s\<lparr>ds_auxAsyncEventSource := None\<rparr>;
          s = (case ds_auxInterface s of Some i \<Rightarrow> note_call (InterfaceRelease i) s | None \<Rightarrow> s);
          s = s\<lparr>ds_auxInterface := None\<rparr>
      in (result, s\<lparr>ds_feedbackPipe := 0, ds_audioInPipe := 0\<rparr>))"

definition close_primary :: "usb_env \<Rightarrow> IOReturn \<Rightarrow> NS6DeviceSession \<Rightarrow> IOReturn \<times> NS6DeviceSession" where
  "close_primary env result s =
     (let (result, s) = (case ds_interface s of
            Some i \<Rightarrow> if ds_opened s
              then (case call env (InterfaceClose i) s of
                      (st, s) \<Rightarrow> (if result = kIOReturnSuccess then st else result, s\<lparr>ds_opened := False\<rparr>))
              else (result, s)
          | None \<Rightarrow> (result, s));
          s = (case ds_asyncEventSource s of Some src \<Rightarrow> note_call (SourceRelease src) s | None \<Rightarrow> s);
          s = s\<lparr>ds_asyncEventSource := None\<rparr>;
          s = (case ds_interface s of Some i \<Rightarrow> note_call (InterfaceRelease i) s | None \<Rightarrow> s);
          s = s\<lparr>ds_interface := None\<rparr>
      in (result, s\<lparr>ds_audioOutPipe := 0, ds_midiInPipe := 0, ds_midiOutPipe := 0, ds_deviceID := 0\<rparr>))"

definition session_close :: "usb_env \<Rightarrow> NS6DeviceSession \<Rightarrow> IOReturn \<times> NS6DeviceSession" where
  "session_close env s =
     (let (result, s) = close_mode env s;
          s = close_run_loops s;
          (result, s) = close_auxiliary env result s
      in close_primary env result s)"

definition close_with :: "usb_env \<Rightarrow> IOReturn \<Rightarrow> NS6DeviceSession \<Rightarrow> IOReturn \<times> NS6DeviceSession" where
  "close_with env st s = (st, snd (session_close env s))"

subsection \<open>The input mode\<close>

definition select_input_mode :: "usb_env \<Rightarrow> nat \<Rightarrow> NS6DeviceSession \<Rightarrow> IOReturn \<times> NS6DeviceSession" where
  "select_input_mode env i s =
     (let read_mode = ControlRequest i 0xc0 0x49 0 0 [] 1;
          currentMode = buffer_of 1 (e_data env (ds_trace s) read_mode) ! 0
      in on_success (call env read_mode s) (\<lambda>s.
        let selectedMode = (ucast currentMode AND NOT 0x20) OR 0x30 :: u16 in
        case call env (ControlRequest i 0x40 0x49 selectedMode 0 [] 0) s of (st, s) \<Rightarrow>
          (st, if st = kIOReturnSuccess \<and> \<not> ds_audioModeChanged s
               then s\<lparr>ds_previousAudioMode := ucast currentMode, ds_audioModeChanged := True\<rparr> else s)) Pair)"

definition configureAudioInputMode :: "usb_env \<Rightarrow> NS6DeviceSession \<Rightarrow> IOReturn \<times> NS6DeviceSession" where
  "configureAudioInputMode env s =
     (case ds_interface s of None \<Rightarrow> (kIOReturnNotReady, s) | Some i \<Rightarrow>
        if \<not> ds_opened s then (kIOReturnNotReady, s) else
        let read_capability = (\<lambda>n. ControlRequest i 0xc0 86 0 0 [] n);
            capability = buffer_of 8 (e_data env (ds_trace s) (read_capability 8));
            set_rate = (\<lambda>selector. ControlRequest i 0x22 0x01 0x0100 selector [0x44, 0xac, 0x00] 3)
        in on_success (call env (read_capability 8) s) (\<lambda>s.
           on_success (if capability ! 0 = 0 then (kIOReturnSuccess, s)
                       else call env (read_capability (min (unat (capability ! 0)) 8)) s) (\<lambda>s.
           on_success (call env (set_rate 134) s) (\<lambda>s.
           on_success (call env (set_rate 2) s) (select_input_mode env i) Pair) Pair) Pair) Pair)"

subsection \<open>Opening\<close>

fun digits :: "nat \<Rightarrow> string" where
  "digits n = (if n < 10 then [char_of (48 + n)] else digits (n div 10) @ [char_of (48 + n mod 10)])"

definition read_firmware :: "usb_env \<Rightarrow> nat \<Rightarrow> NS6DeviceSession \<Rightarrow> NS6DeviceSession" where
  "read_firmware env i s =
     (let request = ControlRequest i 0xc0 0x56 0 0 [] 8;
          data = take 8 (e_data env (ds_trace s) request);
          firmware = buffer_of 8 data
      in case call env request s of (st, s) \<Rightarrow>
        if st = kIOReturnSuccess \<and> 3 \<le> length data \<and> firmware ! 0 = 0x31 \<and> firmware ! 1 \<noteq> 0 \<and> firmware ! 2 \<le> 99
        then s\<lparr>ds_firmwareVersion := digits (unat (firmware ! 1)) @ ''.'' @ digits (unat (firmware ! 2) div 10) @ ''.''
                 @ digits (unat (firmware ! 2) mod 10) @ '' (K1)''\<rparr>
        else s)"

definition classify_primary :: "pipe_properties \<Rightarrow> u8 \<Rightarrow> NS6DeviceSession \<Rightarrow> NS6DeviceSession" where
  "classify_primary p pipe s =
     (if pp_direction p = kUSBOut \<and> pp_number p = 2 \<and> pp_transferType p = kUSBIsoc \<and> pp_maxPacketSize p = 156 \<and>
         pp_interval p = 1 then s\<lparr>ds_audioOutPipe := pipe\<rparr>
      else if pp_direction p = kUSBIn \<and> pp_number p = 3 \<and> pp_transferType p = kUSBBulk then s\<lparr>ds_midiInPipe := pipe\<rparr>
      else if pp_direction p = kUSBOut \<and> pp_number p = 4 \<and> pp_transferType p = kUSBBulk \<and> pp_maxPacketSize p = 512
      then s\<lparr>ds_midiOutPipe := pipe\<rparr> else s)"

definition classify_auxiliary :: "pipe_properties \<Rightarrow> u8 \<Rightarrow> NS6DeviceSession \<Rightarrow> NS6DeviceSession" where
  "classify_auxiliary p pipe s =
     (if pp_direction p = kUSBIn \<and> pp_number p = 1 \<and> pp_transferType p = kUSBIsoc \<and> pp_maxPacketSize p = 64 \<and>
         pp_interval p = 4 then s\<lparr>ds_feedbackPipe := pipe\<rparr>
      else if pp_direction p = kUSBIn \<and> pp_number p = 6 \<and> pp_transferType p = kUSBBulk \<and> pp_maxPacketSize p = 512
      then s\<lparr>ds_audioInPipe := pipe\<rparr> else s)"

text \<open>The endpoint loop; an interface descriptor counts at most 30 endpoints, so the 8-bit counter does not wrap.\<close>

fun scan_pipes :: "usb_env \<Rightarrow> nat \<Rightarrow> (pipe_properties \<Rightarrow> u8 \<Rightarrow> NS6DeviceSession \<Rightarrow> NS6DeviceSession) \<Rightarrow> u8 list \<Rightarrow>
    NS6DeviceSession \<Rightarrow> IOReturn \<times> NS6DeviceSession" where
  "scan_pipes env i classify [] s = (kIOReturnSuccess, s)"
| "scan_pipes env i classify (pipe # pipes) s =
     on_success (call env (GetPipeProperties i pipe) s)
       (\<lambda>s1. scan_pipes env i classify pipes (classify (e_pipe env (ds_trace s) i pipe) pipe s1)) Pair"

definition endpoint_pipes :: "usb_env \<Rightarrow> nat \<Rightarrow> (pipe_properties \<Rightarrow> u8 \<Rightarrow> NS6DeviceSession \<Rightarrow> NS6DeviceSession) \<Rightarrow>
    NS6DeviceSession \<Rightarrow> IOReturn \<times> NS6DeviceSession" where
  "endpoint_pipes env i classify s =
     on_success (call env (GetNumEndpoints i) s)
       (\<lambda>s1. scan_pipes env i classify (map word_of_nat [1..<unat (e_endpoints env (ds_trace s) i) + 1]) s1) Pair"

definition create_source :: "usb_env \<Rightarrow> nat \<Rightarrow> NS6DeviceSession \<Rightarrow> (IOReturn \<times> nat) \<times> NS6DeviceSession" where
  "create_source env i s = (case call env (CreateAsyncEventSource i) s of (st, s1) \<Rightarrow> ((st, e_source env (ds_trace s)), s1))"

fun retry_interface :: "usb_env \<Rightarrow> nat \<Rightarrow> NS6DeviceSession \<Rightarrow> IOReturn \<times> (nat \<times> u64) option \<times> NS6DeviceSession" where
  "retry_interface env 0 s = (kIOReturnNotFound, None, s)"
| "retry_interface env (Suc n) s =
     (case find_interface env 0 None (note_call (SleepMilliseconds 100) s) of (st, found, s1) \<Rightarrow>
        if st \<noteq> kIOReturnSuccess then (st, None, s1)
        else if found = None then retry_interface env n (s1\<lparr>ds_interface := None\<rparr>)
        else (kIOReturnSuccess, found, s1\<lparr>ds_interface := map_option fst found\<rparr>))"

definition open_interface :: "usb_env \<Rightarrow> NS6DeviceSession \<Rightarrow> IOReturn \<times> (nat \<times> u64) option \<times> NS6DeviceSession" where
  "open_interface env s =
     (case find_interface env 0 None s of (st, found, s1) \<Rightarrow>
        if st \<noteq> kIOReturnSuccess then (st, None, s1)
        else if found \<noteq> None then (kIOReturnSuccess, found, s1\<lparr>ds_interface := map_option fst found\<rparr>)
        else case configureDevice env (s1\<lparr>ds_interface := None\<rparr>) of (st, s2) \<Rightarrow>
          if st \<noteq> kIOReturnSuccess then (st, None, s2) else retry_interface env 20 s2)"

definition finish_auxiliary :: "usb_env \<Rightarrow> u64 \<Rightarrow> nat \<Rightarrow> NS6DeviceSession \<Rightarrow> IOReturn \<times> NS6DeviceSession" where
  "finish_auxiliary env deviceID a s =
     (if ds_feedbackPipe s = 0 \<or> ds_audioInPipe s = 0 then close_with env kIOReturnUnsupported s
      else case create_source env a s of ((st, src), s) \<Rightarrow>
        if st \<noteq> kIOReturnSuccess then close_with env st s
        else (kIOReturnSuccess, s\<lparr>ds_auxAsyncEventSource := Some src, ds_deviceID := deviceID\<rparr>))"

definition setup_auxiliary :: "usb_env \<Rightarrow> u64 \<Rightarrow> nat \<Rightarrow> NS6DeviceSession \<Rightarrow> IOReturn \<times> NS6DeviceSession" where
  "setup_auxiliary env deviceID a s =
     on_success (call env (SetAlternateInterface a 1) s) (\<lambda>s.
       on_success (endpoint_pipes env a classify_auxiliary s) (finish_auxiliary env deviceID a) (close_with env)) (close_with env)"

definition open_auxiliary :: "usb_env \<Rightarrow> u64 \<Rightarrow> NS6DeviceSession \<Rightarrow> IOReturn \<times> NS6DeviceSession" where
  "open_auxiliary env deviceID s =
     (case find_interface env 1 (Some deviceID) s of (st, found, s) \<Rightarrow>
        if st \<noteq> kIOReturnSuccess then close_with env st s
        else case found of None \<Rightarrow> close_with env kIOReturnNotFound (s\<lparr>ds_auxInterface := None\<rparr>)
        | Some (a, _) \<Rightarrow>
          on_success (call env (InterfaceOpenSeize a) (s\<lparr>ds_auxInterface := Some a\<rparr>))
            (\<lambda>s. setup_auxiliary env deviceID a (s\<lparr>ds_auxOpened := True\<rparr>))
            (\<lambda>st s. close_with env st ((note_call (InterfaceRelease a) s)\<lparr>ds_auxInterface := None\<rparr>)))"

definition finish_primary :: "usb_env \<Rightarrow> nat \<Rightarrow> u64 \<Rightarrow> NS6DeviceSession \<Rightarrow> IOReturn \<times> NS6DeviceSession" where
  "finish_primary env i deviceID s =
     (if ds_audioOutPipe s = 0 then close_with env kIOReturnUnsupported s
      else case create_source env i s of ((st, src), s) \<Rightarrow>
        if st \<noteq> kIOReturnSuccess then close_with env st s
        else open_auxiliary env deviceID (s\<lparr>ds_asyncEventSource := Some src\<rparr>))"

definition open_primary :: "usb_env \<Rightarrow> nat \<Rightarrow> u64 \<Rightarrow> NS6DeviceSession \<Rightarrow> IOReturn \<times> NS6DeviceSession" where
  "open_primary env i deviceID s =
     on_success (call env (SetAlternateInterface i 1) s) (\<lambda>s.
       on_success (endpoint_pipes env i classify_primary (read_firmware env i s)) (finish_primary env i deviceID)
         (close_with env)) (close_with env)"

definition session_open :: "usb_env \<Rightarrow> NS6DeviceSession \<Rightarrow> IOReturn \<times> NS6DeviceSession" where
  "session_open env s =
     (if ds_opened s then (kIOReturnExclusiveAccess, s)
      else case open_interface env s of
        (st, None, s) \<Rightarrow> (st, s)
      | (_, Some (i, deviceID), s) \<Rightarrow>
          on_success (call env (InterfaceOpenSeize i) s) (\<lambda>s. open_primary env i deviceID (s\<lparr>ds_opened := True\<rparr>))
            (\<lambda>st s. (st, (note_call (InterfaceRelease i) s)\<lparr>ds_interface := None\<rparr>)))"

definition isCurrentDevice :: "usb_env \<Rightarrow> NS6DeviceSession \<Rightarrow> bool" where
  "isCurrentDevice env s \<longleftrightarrow> ds_opened s \<and> ds_deviceID s \<noteq> 0 \<and> ds_deviceID s = currentDeviceID env (ds_trace s)"

definition devicePresent :: "usb_env \<Rightarrow> usb_trace \<Rightarrow> bool" where
  "devicePresent env tr \<longleftrightarrow> currentDeviceID env tr \<noteq> 0"

subsection \<open>Event sources\<close>

definition acquireEvents :: "nat option \<Rightarrow> NS6DeviceSession \<Rightarrow> IOReturn \<times> NS6DeviceSession" where
  "acquireEvents runLoop s =
     (case (runLoop, ds_asyncEventSource s) of
        (Some l, Some src) \<Rightarrow>
          if ds_eventClients s \<noteq> 0 \<and> ds_eventRunLoop s \<noteq> runLoop then (kIOReturnNotReady, s)
          else let s = (if ds_eventClients s = 0
                        then note_call (RunLoopAddSource l src) (note_call (RunLoopRetain l) (s\<lparr>ds_eventRunLoop := runLoop\<rparr>))
                        else s)
               in (kIOReturnSuccess, s\<lparr>ds_eventClients := ds_eventClients s + 1\<rparr>)
      | _ \<Rightarrow> (kIOReturnNotReady, s))"

definition releaseEvents :: "nat option \<Rightarrow> NS6DeviceSession \<Rightarrow> IOReturn \<times> NS6DeviceSession" where
  "releaseEvents runLoop s =
     (if ds_eventClients s = 0 \<or> ds_eventRunLoop s \<noteq> runLoop then (kIOReturnNotReady, s)
      else let s = s\<lparr>ds_eventClients := ds_eventClients s - 1\<rparr> in
        (kIOReturnSuccess,
         if ds_eventClients s = 0
         then (case ds_eventRunLoop s of
                 Some l \<Rightarrow> (note_call (RunLoopRelease l)
                    (case ds_asyncEventSource s of Some src \<Rightarrow> note_call (RunLoopRemoveSource l src) s | None \<Rightarrow> s))
                    \<lparr>ds_eventRunLoop := None\<rparr>
               | None \<Rightarrow> s)
         else s))"

definition acquireAuxiliaryEvents :: "nat option \<Rightarrow> NS6DeviceSession \<Rightarrow> IOReturn \<times> NS6DeviceSession" where
  "acquireAuxiliaryEvents runLoop s =
     (case (runLoop, ds_auxAsyncEventSource s) of
        (Some l, Some src) \<Rightarrow>
          if ds_auxEventClients s \<noteq> 0 \<and> ds_auxEventRunLoop s \<noteq> runLoop then (kIOReturnNotReady, s)
          else let s = (if ds_auxEventClients s = 0
                        then note_call (RunLoopAddSource l src) (note_call (RunLoopRetain l) (s\<lparr>ds_auxEventRunLoop := runLoop\<rparr>))
                        else s)
               in (kIOReturnSuccess, s\<lparr>ds_auxEventClients := ds_auxEventClients s + 1\<rparr>)
      | _ \<Rightarrow> (kIOReturnNotReady, s))"

definition releaseAuxiliaryEvents :: "nat option \<Rightarrow> NS6DeviceSession \<Rightarrow> IOReturn \<times> NS6DeviceSession" where
  "releaseAuxiliaryEvents runLoop s =
     (if ds_auxEventClients s = 0 \<or> ds_auxEventRunLoop s \<noteq> runLoop then (kIOReturnNotReady, s)
      else let s = s\<lparr>ds_auxEventClients := ds_auxEventClients s - 1\<rparr> in
        (kIOReturnSuccess,
         if ds_auxEventClients s = 0
         then (case ds_auxEventRunLoop s of
                 Some l \<Rightarrow> (note_call (RunLoopRelease l)
                    (case ds_auxAsyncEventSource s of Some src \<Rightarrow> note_call (RunLoopRemoveSource l src) s | None \<Rightarrow> s))
                    \<lparr>ds_auxEventRunLoop := None\<rparr>
               | None \<Rightarrow> s)
         else s))"

subsection \<open>The resource ledger\<close>

text \<open>What the stack has handed out and not yet got back, read off the history.\<close>

datatype resource = IteratorObject | ReferenceTo nat | OpenInterface nat | EventSources | RetainedLoop nat
  | AttachedSource nat nat | OpenDevice nat

definition ledger_step :: "usb_call \<times> IOReturn \<Rightarrow> resource \<Rightarrow> int" where
  "ledger_step e r = (case e of (c, st) \<Rightarrow> (case c of
       MatchServices _ \<Rightarrow> of_bool (st = kIOReturnSuccess \<and> r = IteratorObject)
     | IteratorRelease \<Rightarrow> - of_bool (r = IteratorObject)
     | QueryInterface h \<Rightarrow> of_bool (r = ReferenceTo h)
     | InterfaceRelease h \<Rightarrow> - of_bool (r = ReferenceTo h)
     | InterfaceOpenSeize h \<Rightarrow> of_bool (st = kIOReturnSuccess \<and> r = OpenInterface h)
     | InterfaceClose h \<Rightarrow> - of_bool (r = OpenInterface h)
     | CreateAsyncEventSource _ \<Rightarrow> of_bool (st = kIOReturnSuccess \<and> r = EventSources)
     | SourceRelease _ \<Rightarrow> - of_bool (r = EventSources)
     | RunLoopRetain l \<Rightarrow> of_bool (r = RetainedLoop l)
     | RunLoopRelease l \<Rightarrow> - of_bool (r = RetainedLoop l)
     | RunLoopAddSource l src \<Rightarrow> of_bool (r = AttachedSource l src)
     | RunLoopRemoveSource l src \<Rightarrow> - of_bool (r = AttachedSource l src)
     | DeviceOpenSeize h \<Rightarrow> of_bool (st = kIOReturnSuccess \<and> r = OpenDevice h)
     | DeviceClose h \<Rightarrow> - of_bool (r = OpenDevice h)
     | _ \<Rightarrow> 0))"

definition ledger :: "usb_trace \<Rightarrow> resource \<Rightarrow> int" where
  "ledger tr r = (\<Sum>e\<leftarrow>tr. ledger_step e r)"

text \<open>What the members of a session hold.\<close>

definition holds :: "NS6DeviceSession \<Rightarrow> resource \<Rightarrow> int" where
  "holds s r = (case r of
       ReferenceTo h \<Rightarrow> of_bool (ds_interface s = Some h) + of_bool (ds_auxInterface s = Some h)
     | OpenInterface h \<Rightarrow> of_bool (ds_opened s \<and> ds_interface s = Some h) + of_bool (ds_auxOpened s \<and> ds_auxInterface s = Some h)
     | EventSources \<Rightarrow> of_bool (ds_asyncEventSource s \<noteq> None) + of_bool (ds_auxAsyncEventSource s \<noteq> None)
     | RetainedLoop l \<Rightarrow> of_bool (ds_eventRunLoop s = Some l) + of_bool (ds_auxEventRunLoop s = Some l)
     | AttachedSource l src \<Rightarrow> of_bool (ds_eventRunLoop s = Some l \<and> ds_asyncEventSource s = Some src)
         + of_bool (ds_auxEventRunLoop s = Some l \<and> ds_auxAsyncEventSource s = Some src)
     | _ \<Rightarrow> 0)"

text \<open>The ledger owes exactly what the members hold.\<close>

definition owed :: "NS6DeviceSession \<Rightarrow> resource \<Rightarrow> int" where
  "owed s r = ledger (ds_trace s) r - holds s r"

subsection \<open>Nothing is leaked\<close>

lemma ledger_append [simp]:
  "ledger (tr @ tr') r = ledger tr r + ledger tr' r" "ledger (e # tr) r = ledger_step e r + ledger tr r" "ledger [] r = 0"
  by (simp_all add: ledger_def)

lemma holds_trace [simp]: "holds (s\<lparr>ds_trace := tr\<rparr>) = holds s"
  by (rule ext) (simp add: holds_def split: resource.split)

lemma owed_note [simp]: "owed (note_call c s) r = owed s r + ledger_step (c, kIOReturnSuccess) r"
  by (simp add: owed_def note_call_def)

lemma owed_call: "owed (snd (call env c s)) r = owed s r + ledger_step (c, fst (call env c s)) r"
  by (simp add: owed_def call_def Let_def)

lemma note_fields [simp]:
  "ds_interface (note_call c s) = ds_interface s" "ds_auxInterface (note_call c s) = ds_auxInterface s"
  "ds_asyncEventSource (note_call c s) = ds_asyncEventSource s" "ds_auxAsyncEventSource (note_call c s) = ds_auxAsyncEventSource s"
  "ds_opened (note_call c s) = ds_opened s" "ds_auxOpened (note_call c s) = ds_auxOpened s"
  "ds_eventRunLoop (note_call c s) = ds_eventRunLoop s" "ds_auxEventRunLoop (note_call c s) = ds_auxEventRunLoop s"
  "ds_eventClients (note_call c s) = ds_eventClients s" "ds_auxEventClients (note_call c s) = ds_auxEventClients s"
  by (simp_all add: note_call_def)

text \<open>Every part of closing returns what its members held.\<close>

lemma owed_close_mode [simp]: "owed (snd (close_mode env s)) r = owed s r"
  by (auto simp: close_mode_def call_def Let_def owed_def holds_def ledger_step_def split: option.splits resource.splits)

lemma owed_close_run_loops [simp]: "owed (close_run_loops s) r = owed s r"
  by (cases r; cases "ds_eventRunLoop s"; cases "ds_asyncEventSource s"; cases "ds_auxEventRunLoop s";
      cases "ds_auxAsyncEventSource s")
    (auto simp: close_run_loops_def note_call_def Let_def owed_def holds_def ledger_step_def)

lemma owed_close_auxiliary:
  assumes "ds_auxEventRunLoop s = None"
  shows "owed (snd (close_auxiliary env st s)) r = owed s r"
  using assms
  by (cases r; cases "ds_auxInterface s"; cases "ds_auxAsyncEventSource s"; cases "ds_auxOpened s")
    (simp_all add: close_auxiliary_def note_call_def call_def Let_def owed_def holds_def ledger_step_def)

lemma owed_close_primary:
  assumes "ds_eventRunLoop s = None"
  shows "owed (snd (close_primary env st s)) r = owed s r"
  using assms
  by (cases r; cases "ds_interface s"; cases "ds_asyncEventSource s"; cases "ds_opened s")
    (simp_all add: close_primary_def note_call_def call_def Let_def owed_def holds_def ledger_step_def)

lemma close_run_loops_fields [simp]:
  "ds_eventRunLoop (close_run_loops s) = None" "ds_auxEventRunLoop (close_run_loops s) = None"
  "ds_eventClients (close_run_loops s) = 0" "ds_auxEventClients (close_run_loops s) = 0"
  "ds_interface (close_run_loops s) = ds_interface s" "ds_opened (close_run_loops s) = ds_opened s"
  "ds_auxInterface (close_run_loops s) = ds_auxInterface s" "ds_auxOpened (close_run_loops s) = ds_auxOpened s"
  by (cases "ds_eventRunLoop s"; cases "ds_asyncEventSource s"; cases "ds_auxEventRunLoop s";
      cases "ds_auxAsyncEventSource s"; simp add: close_run_loops_def note_call_def Let_def)+

lemma close_mode_fields [simp]:
  "ds_interface (snd (close_mode env s)) = ds_interface s" "ds_opened (snd (close_mode env s)) = ds_opened s"
  "ds_auxInterface (snd (close_mode env s)) = ds_auxInterface s" "ds_auxOpened (snd (close_mode env s)) = ds_auxOpened s"
  by (auto simp: close_mode_def call_def Let_def split: option.splits)

lemma close_auxiliary_fields:
  "ds_eventRunLoop (snd (close_auxiliary env st s)) = ds_eventRunLoop s"
  "ds_eventClients (snd (close_auxiliary env st s)) = ds_eventClients s"
  "ds_auxEventRunLoop (snd (close_auxiliary env st s)) = ds_auxEventRunLoop s"
  "ds_auxEventClients (snd (close_auxiliary env st s)) = ds_auxEventClients s"
  "ds_interface (snd (close_auxiliary env st s)) = ds_interface s" "ds_opened (snd (close_auxiliary env st s)) = ds_opened s"
  "ds_auxInterface (snd (close_auxiliary env st s)) = None" "ds_auxAsyncEventSource (snd (close_auxiliary env st s)) = None"
  "ds_auxOpened (snd (close_auxiliary env st s)) = (ds_auxOpened s \<and> ds_auxInterface s = None)"
  by (cases "ds_auxInterface s"; cases "ds_auxAsyncEventSource s"; cases "ds_auxOpened s";
      simp add: close_auxiliary_def note_call_def call_def Let_def)+

lemma close_primary_fields:
  "ds_eventRunLoop (snd (close_primary env st s)) = ds_eventRunLoop s"
  "ds_eventClients (snd (close_primary env st s)) = ds_eventClients s"
  "ds_auxEventRunLoop (snd (close_primary env st s)) = ds_auxEventRunLoop s"
  "ds_auxEventClients (snd (close_primary env st s)) = ds_auxEventClients s"
  "ds_auxInterface (snd (close_primary env st s)) = ds_auxInterface s" "ds_auxOpened (snd (close_primary env st s)) = ds_auxOpened s"
  "ds_auxAsyncEventSource (snd (close_primary env st s)) = ds_auxAsyncEventSource s"
  "ds_interface (snd (close_primary env st s)) = None" "ds_asyncEventSource (snd (close_primary env st s)) = None"
  "ds_opened (snd (close_primary env st s)) = (ds_opened s \<and> ds_interface s = None)"
  by (cases "ds_interface s"; cases "ds_asyncEventSource s"; cases "ds_opened s";
      simp add: close_primary_def note_call_def call_def Let_def)+

lemma session_close_parts:
  "snd (session_close env s) = (let a = snd (close_auxiliary env (fst (close_mode env s)) (close_run_loops (snd (close_mode env s))))
     in snd (close_primary env (fst (close_auxiliary env (fst (close_mode env s)) (close_run_loops (snd (close_mode env s))))) a))"
  by (simp add: session_close_def Let_def split_def)

lemma owed_close [simp]: "owed (snd (session_close env s)) r = owed s r"
  by (simp add: session_close_parts Let_def owed_close_primary owed_close_auxiliary close_auxiliary_fields)

lemma close_fields [simp]:
  "ds_interface (snd (session_close env s)) = None" "ds_auxInterface (snd (session_close env s)) = None"
  "ds_asyncEventSource (snd (session_close env s)) = None" "ds_auxAsyncEventSource (snd (session_close env s)) = None"
  "ds_eventRunLoop (snd (session_close env s)) = None" "ds_auxEventRunLoop (snd (session_close env s)) = None"
  "ds_eventClients (snd (session_close env s)) = 0" "ds_auxEventClients (snd (session_close env s)) = 0"
  "ds_opened (snd (session_close env s)) = (ds_opened s \<and> ds_interface s = None)"
  "ds_auxOpened (snd (session_close env s)) = (ds_auxOpened s \<and> ds_auxInterface s = None)"
  by (simp_all add: session_close_parts Let_def close_primary_fields close_auxiliary_fields)

lemma holds_closed [simp]: "holds (snd (session_close env s)) r = 0"
  by (simp add: holds_def split: resource.splits)

text \<open>Most operations leave the members that hold handles alone.\<close>

definition members :: "NS6DeviceSession \<Rightarrow> nat option \<times> nat option \<times> nat option \<times> nat option \<times> bool \<times> bool \<times>
    nat option \<times> nat option \<times> u32 \<times> u32" where
  "members s = (ds_interface s, ds_auxInterface s, ds_asyncEventSource s, ds_auxAsyncEventSource s, ds_opened s, ds_auxOpened s,
     ds_eventRunLoop s, ds_auxEventRunLoop s, ds_eventClients s, ds_auxEventClients s)"

lemma members_simps [simp]: "members (note_call c s) = members s" "members (snd (call env c s)) = members s"
  by (simp_all add: members_def note_call_def call_def Let_def)

lemma members_fields:
  assumes "members s' = members s"
  shows "ds_interface s' = ds_interface s" "ds_auxInterface s' = ds_auxInterface s"
    "ds_asyncEventSource s' = ds_asyncEventSource s" "ds_auxAsyncEventSource s' = ds_auxAsyncEventSource s"
    "ds_opened s' = ds_opened s" "ds_auxOpened s' = ds_auxOpened s"
    "ds_eventRunLoop s' = ds_eventRunLoop s" "ds_auxEventRunLoop s' = ds_auxEventRunLoop s"
    "ds_eventClients s' = ds_eventClients s" "ds_auxEventClients s' = ds_auxEventClients s"
  using assms by (simp_all add: members_def)

lemma call_cases:
  obtains st where "call env c s = (st, snd (call env c s))" "st = fst (call env c s)"
  by (metis surjective_pairing)

lemma matchingInterface_owed:
  assumes "matchingInterface es n d s = (found, s')"
  shows "owed s' r = owed s r + (case found of Some (h, _) \<Rightarrow> of_bool (r = ReferenceTo h) | None \<Rightarrow> 0)" "members s' = members s"
  using assms
  by (induction es n d s arbitrary: found s' rule: matchingInterface.induct)
    (fastforce simp: ledger_step_def Let_def split: if_splits option.splits prod.splits)+

lemma find_interface_owed:
  assumes "find_interface env n d s = (st, found, s')"
  shows "owed s' r = owed s r + (case found of Some (h, _) \<Rightarrow> of_bool (r = ReferenceTo h) | None \<Rightarrow> 0)" "members s' = members s"
    "found \<noteq> None \<Longrightarrow> st = kIOReturnSuccess"
proof -
  obtain st1 s1 where c: "call env (MatchServices ''IOUSBHostInterface'') s = (st1, s1)" by fastforce
  have o: "owed s1 r = owed s r + of_bool (st1 = kIOReturnSuccess \<and> r = IteratorObject)" "members s1 = members s"
    using owed_call [of env "MatchServices ''IOUSBHostInterface''" s r] members_simps(2) [of env "MatchServices ''IOUSBHostInterface''" s] c
    by (simp_all add: ledger_step_def)
  obtain f s2 where m: "matchingInterface (e_interfaces env (ds_trace s)) n d s1 = (f, s2)" by fastforce
  note f = matchingInterface_owed [OF m]
  show "owed s' r = owed s r + (case found of Some (h, _) \<Rightarrow> of_bool (r = ReferenceTo h) | None \<Rightarrow> 0)"
    and "members s' = members s" and "found \<noteq> None \<Longrightarrow> st = kIOReturnSuccess"
    using assms c m o f by (auto simp: find_interface_def ledger_step_def split: if_splits)
qed

lemma on_success_cases:
  assumes "on_success r ok failed = x"
  obtains (ok) s where "r = (kIOReturnSuccess, s)" "x = ok s"
  | (failed) st s where "r = (st, s)" "st \<noteq> kIOReturnSuccess" "x = failed st s"
  using assms by (cases r) (auto simp: on_success_def split: if_splits)

lemma on_success_rule:
  assumes "\<And>s. r = (kIOReturnSuccess, s) \<Longrightarrow> P (ok s)" and "\<And>st s. r = (st, s) \<Longrightarrow> st \<noteq> kIOReturnSuccess \<Longrightarrow> P (failed st s)"
  shows "P (on_success r ok failed)"
  using assms by (cases r) (auto simp: on_success_def)

text \<open>\<open>keeps w s x\<close>: the result state has the members of \<open>s\<close> and owes what \<open>w\<close> says.\<close>

definition keeps :: "(resource \<Rightarrow> int) \<Rightarrow> NS6DeviceSession \<Rightarrow> 'a \<times> NS6DeviceSession \<Rightarrow> bool" where
  "keeps w m x \<longleftrightarrow> (\<forall>r. owed (snd x) r = w r) \<and> members (snd x) = members m"

lemma call_keeps:
  assumes "call env c s = (st, s')" and "\<forall>r. ledger_step (c, st) r = 0"
  shows "keeps (owed s) s (st, s')"
  using assms owed_call [of env c s] members_simps(2) [of env c s] by (simp add: keeps_def)

lemma keeps_trans: "keeps (owed s) s (st, s') \<Longrightarrow> keeps (owed s') s' x \<Longrightarrow> keeps (owed s) s x"
  by (simp add: keeps_def)

lemma note_keeps: "\<forall>r. ledger_step (c, kIOReturnSuccess) r = 0 \<Longrightarrow> keeps w m (st, s) \<Longrightarrow> keeps w m (st, note_call c s)"
  by (simp add: keeps_def)

lemma on_success_keeps:
  assumes "keeps (owed s) s r" and "\<And>s'. keeps (owed s) s (kIOReturnSuccess, s') \<Longrightarrow> keeps (owed s) s (ok s')"
  shows "keeps (owed s) s (on_success r ok Pair)"
  using assms by (cases r) (auto simp: on_success_def)

lemma configure_open_keeps:
  "keeps (owed s) s (on_success (call env (DeviceOpenSeize h) s) (\<lambda>s5.
     let (r, s6) = on_success (call env (GetConfiguration h) s5) (call env (SetConfiguration h 1)) Pair
     in (r, note_call (DeviceClose h) s6)) Pair)"
  by (simp add: keeps_def on_success_def call_def note_call_def owed_def members_def ledger_step_def Let_def)

lemma keeps_of: "keeps (owed s) s (st, s') \<Longrightarrow> keeps (owed s') s' x \<Longrightarrow> keeps (owed s) s x"
  by (simp add: keeps_def)

lemma call_keeps': "\<forall>r st. ledger_step (c, st) r = 0 \<Longrightarrow> keeps (owed s) s (call env c s)"
  by (metis call_keeps surjective_pairing)

lemma configure_found_keeps: "keeps (owed s) s (configure_found env d s)"
proof -
  have rel: "keeps w m x \<Longrightarrow> keeps w m (let (r, s4) = x in (r, note_call (DeviceRelease h) s4))" for w m x h
    by (simp add: keeps_def ledger_step_def split_def Let_def)
  have neutral: "\<forall>r st. ledger_step (CreateDevicePlugIn h, st) r = 0" "\<forall>r st. ledger_step (QueryDevice h, st) r = 0" for h
    by (simp_all add: ledger_step_def)
  show ?thesis
    unfolding configure_found_def
    apply (rule on_success_keeps [OF call_keeps' [OF neutral(1)]])
    apply (rule if_split [THEN iffD2])
    apply (intro conjI impI)
     apply assumption
    apply (erule keeps_of)
    apply (rule on_success_keeps [OF call_keeps' [OF neutral(2)]])
    apply (rule if_split [THEN iffD2])
    apply (intro conjI impI)
     apply assumption
    apply (erule keeps_of)
    apply (rule rel [OF configure_open_keeps])
    done
qed

lemma configureDevice_keeps: "keeps (owed s) s (configureDevice env s)"
proof -
  obtain st s0 where c: "call env (MatchServices ''IOUSBHostDevice'') s = (st, s0)" by fastforce
  have "owed s0 r = owed s r + of_bool (st = kIOReturnSuccess \<and> r = IteratorObject)" "members s0 = members s" for r
    using owed_call [of env "MatchServices ''IOUSBHostDevice''" s r] members_simps(2) [of env "MatchServices ''IOUSBHostDevice''" s] c
    by (simp_all add: ledger_step_def)
  then have it: "st = kIOReturnSuccess \<Longrightarrow> keeps (owed s) s (x, note_call IteratorRelease s0)"
      "st \<noteq> kIOReturnSuccess \<Longrightarrow> keeps (owed s) s (x, s0)" for x :: IOReturn
    by (simp_all add: keeps_def ledger_step_def)
  show ?thesis
  proof (cases "st = kIOReturnSuccess")
    case True
    show ?thesis
      using True it(1) keeps_of [OF it(1) [OF True] configure_found_keeps]
      by (simp add: configureDevice_def c on_success_def Let_def split: option.split)
  qed (use it in \<open>simp add: configureDevice_def c on_success_def\<close>)
qed

lemma owed_cong:
  assumes "ds_trace s' = ds_trace s" and "members s' = members s"
  shows "owed s' = owed s"
  using assms(1) members_fields [OF assms(2)] by (auto simp: owed_def holds_def fun_eq_iff split: resource.split)

lemma take_interface:
  assumes "\<forall>r. owed s r = w r + of_bool (r = ReferenceTo h)"
  shows "ds_interface s = None \<Longrightarrow> \<not> ds_opened s \<Longrightarrow> owed (s\<lparr>ds_interface := Some h\<rparr>) r = w r"
    and "ds_auxInterface s = None \<Longrightarrow> \<not> ds_auxOpened s \<Longrightarrow> owed (s\<lparr>ds_auxInterface := Some h\<rparr>) r = w r"
  using spec [OF assms, of r] by (auto simp: owed_def holds_def split: resource.splits)

definition interface_found :: "NS6DeviceSession \<Rightarrow> IOReturn \<times> (nat \<times> u64) option \<times> NS6DeviceSession \<Rightarrow> bool" where
  "interface_found s x = (case x of (st, found, s') \<Rightarrow> (\<forall>r. owed s' r = owed s r) \<and> ds_interface s' = map_option fst found \<and>
     members (s'\<lparr>ds_interface := None\<rparr>) = members s \<and> (found = None \<longleftrightarrow> st \<noteq> kIOReturnSuccess))"

lemma interface_found_trans:
  "keeps (owed s) s (st, s1) \<Longrightarrow> interface_found s1 x \<Longrightarrow> interface_found s x"
  by (auto simp: interface_found_def keeps_def)

lemma found_interface:
  assumes "find_interface env 0 None s = (kIOReturnSuccess, Some f, s1)" and "ds_interface s = None" and "\<not> ds_opened s"
  shows "interface_found s (kIOReturnSuccess, Some f, s1\<lparr>ds_interface := Some (fst f)\<rparr>)"
proof -
  note o = find_interface_owed [OF assms(1)]
  note m = members_fields [OF o(2)]
  have "\<forall>r. owed s1 r = owed s r + of_bool (r = ReferenceTo (fst f))" using o(1) by (auto split: prod.splits)
  from take_interface(1) [OF this] have "\<forall>r. owed (s1\<lparr>ds_interface := Some (fst f)\<rparr>) r = owed s r" using m assms by simp
  moreover have "members (s1\<lparr>ds_interface := Some (fst f)\<rparr>\<lparr>ds_interface := None\<rparr>) = members s" using m assms by (simp add: members_def)
  ultimately show ?thesis by (simp add: interface_found_def)
qed

lemma no_interface:
  assumes "find_interface env n d s = (st, None, s1)"
  shows "keeps (owed s) s (st, s1)" and "ds_interface s = None \<Longrightarrow> s1\<lparr>ds_interface := None\<rparr> = s1"
  using find_interface_owed(1,2) [OF assms] members_fields(1) [OF find_interface_owed(2) [OF assms]]
  by (auto simp: keeps_def)

lemma keeps_found: "keeps (owed s) s (x, s1) \<Longrightarrow> st \<noteq> kIOReturnSuccess \<Longrightarrow> ds_interface s = None \<Longrightarrow> interface_found s (st, None, s1)"
  using members_fields(1) [of s1 s] by (auto simp: keeps_def interface_found_def members_def)

lemma retry_interface_found:
  "ds_interface s = None \<Longrightarrow> \<not> ds_opened s \<Longrightarrow> interface_found s (retry_interface env n s)"
proof (induction n arbitrary: s)
  case 0
  then show ?case by (simp add: interface_found_def members_def)
next
  case (Suc n)
  let ?s = "note_call (SleepMilliseconds 100) s"
  have z: "keeps (owed s) s (kIOReturnSuccess, ?s)" by (simp add: keeps_def ledger_step_def)
  obtain st found s1 where f: "find_interface env 0 None ?s = (st, found, s1)" using prod_cases3 by blast
  show ?case
  proof (cases found)
    case None
    note n = no_interface [OF f [unfolded None]]
    have "ds_interface s1 = None" "\<not> ds_opened s1" using n(1) members_fields [of s1 ?s] Suc.prems by (auto simp: keeps_def)
    with interface_found_trans [OF n(1) Suc.IH] keeps_found [OF n(1)] Suc.prems
    have "interface_found ?s (if st \<noteq> kIOReturnSuccess then (st, None, s1) else retry_interface env n s1)" by simp
    from interface_found_trans [OF z this] show ?thesis using f None n(2) Suc.prems by (cases "st = kIOReturnSuccess") simp_all
  next
    case (Some h)
    with f find_interface_owed(3) [OF f] have st: "st = kIOReturnSuccess" by simp
    from interface_found_trans [OF z found_interface [OF f [unfolded Some st]]] Suc.prems f Some st show ?thesis by simp
  qed
qed

lemma open_interface_found:
  assumes "ds_interface s = None" and "\<not> ds_opened s"
  shows "interface_found s (open_interface env s)"
proof -
  obtain st found s1 where f: "find_interface env 0 None s = (st, found, s1)" using prod_cases3 by blast
  show ?thesis
  proof (cases found)
    case None
    note n = no_interface [OF f [unfolded None]]
    obtain st2 s2 where d: "configureDevice env s1 = (st2, s2)" by fastforce
    have k: "keeps (owed s) s (st2, s2)" using keeps_of [OF n(1) configureDevice_keeps] d by metis
    then have "ds_interface s2 = None" "\<not> ds_opened s2" using members_fields [of s2 s] assms by (auto simp: keeps_def)
    with k assms show ?thesis
      using f None n(2) [OF assms(1)] d keeps_found [OF n(1)] keeps_found [OF k]
        interface_found_trans [OF k retry_interface_found]
      by (simp add: open_interface_def)
  next
    case (Some h)
    with f find_interface_owed(3) [OF f] have st: "st = kIOReturnSuccess" by simp
    from found_interface [OF f [unfolded Some st]] assms f Some st show ?thesis by (simp add: open_interface_def)
  qed
qed

lemma scan_pipes_keeps:
  assumes "\<And>p x s. members (classify p x s) = members s" and "\<And>p x s. ds_trace (classify p x s) = ds_trace s"
  shows "keeps (owed s) s (scan_pipes env i classify pipes s)"
proof (induction pipes arbitrary: s)
  case (Cons pipe pipes)
  have "\<forall>r st. ledger_step (GetPipeProperties i pipe, st) r = 0" by (simp add: ledger_step_def)
  note first = call_keeps' [OF this, of s env]
  have "keeps (owed s1) s1 (kIOReturnSuccess, classify p pipe s1)" for p s1
    using owed_cong [OF assms(2,1)] assms(1) by (simp add: keeps_def)
  note step = keeps_of [OF this Cons]
  show ?case unfolding scan_pipes.simps
    by (intro on_success_keeps [OF first]) (erule keeps_of, rule step)
qed (simp add: keeps_def)

lemma endpoint_pipes_keeps:
  assumes "\<And>p x s. members (classify p x s) = members s" and "\<And>p x s. ds_trace (classify p x s) = ds_trace s"
  shows "keeps (owed s) s (endpoint_pipes env i classify s)"
proof -
  have "\<forall>r st. ledger_step (GetNumEndpoints i, st) r = 0" by (simp add: ledger_step_def)
  note first = call_keeps' [OF this, of s env]
  show ?thesis unfolding endpoint_pipes_def
    by (intro on_success_keeps [OF first]) (erule keeps_of, rule scan_pipes_keeps [OF assms])
qed

lemma classify_members [simp]:
  "members (classify_primary p x s) = members s" "ds_trace (classify_primary p x s) = ds_trace s"
  "members (classify_auxiliary p x s) = members s" "ds_trace (classify_auxiliary p x s) = ds_trace s"
  by (simp_all add: classify_primary_def classify_auxiliary_def members_def)

lemma keeps_if: "keeps w m (x, b) \<Longrightarrow> keeps w m (x, a) \<Longrightarrow> keeps w m (x, if c then a else b)"
  by simp

lemma read_firmware_keeps: "keeps (owed s) s (x, read_firmware env i s)"
proof -
  obtain st s1 where c: "call env (ControlRequest i 192 86 0 0 [] 8) s = (st, s1)" by fastforce
  have k: "keeps (owed s) s (st, s1)" by (rule call_keeps [OF c]) (simp add: ledger_step_def)
  have "owed (s1\<lparr>ds_firmwareVersion := v\<rparr>) = owed s1" for v by (rule owed_cong) (simp_all add: members_def)
  then have "keeps (owed s) s (x, s1)" "keeps (owed s) s (x, s1\<lparr>ds_firmwareVersion := v\<rparr>)" for v
    using k by (simp_all add: keeps_def members_def)
  then show ?thesis unfolding read_firmware_def Let_def c prod.case by (rule keeps_if)
qed

subsection \<open>Shape of a session\<close>

definition session_shape :: "NS6DeviceSession \<Rightarrow> bool" where
  "session_shape s \<longleftrightarrow>
     (ds_opened s \<longleftrightarrow> ds_interface s \<noteq> None) \<and> (ds_auxOpened s \<longleftrightarrow> ds_auxInterface s \<noteq> None) \<and>
     (ds_opened s \<longleftrightarrow> ds_asyncEventSource s \<noteq> None) \<and> (ds_opened s \<longleftrightarrow> ds_auxInterface s \<noteq> None) \<and>
     (ds_opened s \<longleftrightarrow> ds_auxAsyncEventSource s \<noteq> None) \<and>
     (ds_eventRunLoop s \<noteq> None \<longrightarrow> ds_opened s) \<and> (ds_auxEventRunLoop s \<noteq> None \<longrightarrow> ds_opened s) \<and>
     (ds_eventClients s = 0 \<longleftrightarrow> ds_eventRunLoop s = None) \<and> (ds_auxEventClients s = 0 \<longleftrightarrow> ds_auxEventRunLoop s = None)"

text \<open>A result that owes what \<open>w\<close> says, is open exactly on success and has the right shape.\<close>

definition settled :: "(resource \<Rightarrow> int) \<Rightarrow> IOReturn \<times> NS6DeviceSession \<Rightarrow> bool" where
  "settled w x \<longleftrightarrow> (\<forall>r. owed (snd x) r = w r) \<and> session_shape (snd x) \<and> (ds_opened (snd x) \<longleftrightarrow> fst x = kIOReturnSuccess) \<and>
     ds_eventRunLoop (snd x) = None \<and> ds_auxEventRunLoop (snd x) = None"

definition closable :: "(resource \<Rightarrow> int) \<Rightarrow> NS6DeviceSession \<Rightarrow> bool" where
  "closable w s \<longleftrightarrow> (\<forall>r. owed s r = w r) \<and> (ds_opened s \<longrightarrow> ds_interface s \<noteq> None) \<and> (ds_auxOpened s \<longrightarrow> ds_auxInterface s \<noteq> None)"

lemma close_settled: "closable w s \<Longrightarrow> st \<noteq> kIOReturnSuccess \<Longrightarrow> settled w (close_with env st s)"
  by (auto simp: closable_def settled_def close_with_def session_shape_def)

lemma keeps_closable: "closable (owed s) s \<Longrightarrow> keeps (owed s) s (st, s') \<Longrightarrow> closable (owed s) s'"
  using members_fields [of s' s] by (auto simp: keeps_def closable_def)

text \<open>A step that keeps the members, with closing on failure.\<close>

lemma on_success_settled:
  assumes "keeps (owed s) s r" and "closable (owed s) s"
    and "\<And>s'. owed s' = owed s \<Longrightarrow> members s' = members s \<Longrightarrow> settled (owed s') (ok s')"
  shows "settled (owed s) (on_success r ok (close_with env))"
proof -
  obtain st s' where r: "r = (st, s')" by fastforce
  then have "owed s' = owed s" "members s' = members s" using assms(1) by (auto simp: keeps_def)
  moreover have "closable (owed s) s'" by (rule keeps_closable [OF assms(2) assms(1) [unfolded r]])
  ultimately show ?thesis
    using assms(3) [of s'] close_settled [of "owed s" s' st env] by (simp add: r on_success_def)
qed

lemma neutral_calls:
  "ledger_step (SetAlternateInterface i a, st) r = 0" "ledger_step (ControlRequest i b c v w d n, st) r = 0"
  by (simp_all add: ledger_step_def)

lemma create_source_owed:
  assumes "create_source env i s = ((st, src), s')"
  shows "owed s' r = owed s r + of_bool (st = kIOReturnSuccess \<and> r = EventSources)" "members s' = members s"
proof -
  have "s' = snd (call env (CreateAsyncEventSource i) s)" "st = fst (call env (CreateAsyncEventSource i) s)"
    using assms by (auto simp: create_source_def split: prod.splits)
  then show "owed s' r = owed s r + of_bool (st = kIOReturnSuccess \<and> r = EventSources)" "members s' = members s"
    by (simp_all add: owed_call ledger_step_def)
qed

text \<open>An interface that has been opened successfully.\<close>

lemma opened_interface:
  assumes "call env (InterfaceOpenSeize h) s = (st, s')"
  shows "owed s' r = owed s r + of_bool (st = kIOReturnSuccess \<and> r = OpenInterface h)" "members s' = members s"
  using assms owed_call [of env "InterfaceOpenSeize h" s r] members_simps(2) [of env "InterfaceOpenSeize h" s]
  by (simp_all add: ledger_step_def)

lemma take_source:
  assumes "\<forall>r. owed s r = w r + of_bool (r = EventSources)"
  shows "ds_asyncEventSource s = None \<Longrightarrow> ds_eventRunLoop s = None \<Longrightarrow> owed (s\<lparr>ds_asyncEventSource := Some src\<rparr>) r = w r"
    and "ds_auxAsyncEventSource s = None \<Longrightarrow> ds_auxEventRunLoop s = None \<Longrightarrow>
      owed (s\<lparr>ds_auxAsyncEventSource := Some src, ds_deviceID := d\<rparr>) r = w r"
  using spec [OF assms, of r] by (auto simp: owed_def holds_def split: resource.splits)

lemma take_open:
  assumes "\<forall>r. owed s r = w r + of_bool (r = OpenInterface h)"
  shows "ds_interface s = Some h \<Longrightarrow> \<not> ds_opened s \<Longrightarrow> owed (s\<lparr>ds_opened := True\<rparr>) r = w r"
    and "ds_auxInterface s = Some h \<Longrightarrow> \<not> ds_auxOpened s \<Longrightarrow> owed (s\<lparr>ds_auxOpened := True\<rparr>) r = w r"
  using spec [OF assms, of r] by (auto simp: owed_def holds_def split: resource.splits)

lemma drop_interface:
  assumes "\<forall>r. owed s r = w r"
  shows "ds_interface s = Some h \<Longrightarrow> \<not> ds_opened s \<Longrightarrow> owed ((note_call (InterfaceRelease h) s)\<lparr>ds_interface := None\<rparr>) r = w r"
    and "ds_auxInterface s = Some h \<Longrightarrow> \<not> ds_auxOpened s \<Longrightarrow> owed ((note_call (InterfaceRelease h) s)\<lparr>ds_auxInterface := None\<rparr>) r = w r"
  using spec [OF assms, of r] by (auto simp: owed_def holds_def note_call_def ledger_step_def split: resource.splits)

text \<open>The members after each stage of opening.\<close>

definition stage_primary :: "NS6DeviceSession \<Rightarrow> bool" where
  "stage_primary s \<longleftrightarrow> ds_opened s \<and> ds_interface s \<noteq> None \<and> ds_asyncEventSource s = None \<and> \<not> ds_auxOpened s \<and>
     ds_auxInterface s = None \<and> ds_auxAsyncEventSource s = None \<and> ds_eventRunLoop s = None \<and> ds_auxEventRunLoop s = None \<and>
     ds_eventClients s = 0 \<and> ds_auxEventClients s = 0"

definition stage_auxiliary :: "NS6DeviceSession \<Rightarrow> bool" where
  "stage_auxiliary s \<longleftrightarrow> ds_opened s \<and> ds_interface s \<noteq> None \<and> ds_asyncEventSource s \<noteq> None \<and> ds_auxOpened s \<and>
     ds_auxInterface s \<noteq> None \<and> ds_auxAsyncEventSource s = None \<and> ds_eventRunLoop s = None \<and> ds_auxEventRunLoop s = None \<and>
     ds_eventClients s = 0 \<and> ds_auxEventClients s = 0"

lemma stage_members:
  "members s' = members s \<Longrightarrow> stage_primary s' = stage_primary s" "members s' = members s \<Longrightarrow> stage_auxiliary s' = stage_auxiliary s"
  by (simp_all add: stage_primary_def stage_auxiliary_def members_def)

lemma stage_closable: "stage_primary s \<or> stage_auxiliary s \<Longrightarrow> closable (owed s) s"
  by (auto simp: stage_primary_def stage_auxiliary_def closable_def)

lemma finish_auxiliary_settled:
  assumes "stage_auxiliary s"
  shows "settled (owed s) (finish_auxiliary env deviceID a s)"
proof -
  obtain st src s1 where s1: "create_source env a s = ((st, src), s1)" by (metis surj_pair)
  note o = create_source_owed [OF s1]
  have m: "stage_auxiliary s1" using stage_members(2) [OF o(2)] assms by simp
  have u: "settled (owed s) (close_with env kIOReturnUnsupported s)" using close_settled [OF stage_closable] assms by simp
  show ?thesis
  proof (cases "st = kIOReturnSuccess")
    case True
    let ?s = "s1\<lparr>ds_auxAsyncEventSource := Some src, ds_deviceID := deviceID\<rparr>"
    have "\<forall>r. owed s1 r = owed s r + of_bool (r = EventSources)" using o(1) True by simp
    from take_source(2) [OF this] have "owed ?s r = owed s r" for r using m by (simp add: stage_auxiliary_def)
    then have "settled (owed s) (kIOReturnSuccess, ?s)" using m by (auto simp: settled_def session_shape_def stage_auxiliary_def)
    with True u show ?thesis unfolding finish_auxiliary_def s1 prod.case by (simp only: if_split) simp
  next
    case False
    then have "closable (owed s) s1" using stage_closable m o(1) by (auto simp: closable_def)
    from close_settled [OF this False, of env] False u show ?thesis unfolding finish_auxiliary_def s1 prod.case by (simp only: if_split) simp
  qed
qed

lemma setup_auxiliary_settled:
  assumes "stage_auxiliary s"
  shows "settled (owed s) (setup_auxiliary env deviceID a s)"
  unfolding setup_auxiliary_def
proof (rule on_success_settled)
  show "keeps (owed s) s (call env (SetAlternateInterface a 1) s)" by (rule call_keeps') (simp add: neutral_calls)
  show "closable (owed s) s" using stage_closable assms by simp
  fix s1 assume "members s1 = members s"
  then have m: "stage_auxiliary s1" using stage_members(2) [of s1 s] assms by simp
  show "settled (owed s1) (on_success (endpoint_pipes env a classify_auxiliary s1) (finish_auxiliary env deviceID a) (close_with env))"
  proof (rule on_success_settled)
    show "keeps (owed s1) s1 (endpoint_pipes env a classify_auxiliary s1)" by (rule endpoint_pipes_keeps) simp_all
    show "closable (owed s1) s1" using stage_closable m by simp
    fix s2 assume "members s2 = members s1"
    then show "settled (owed s2) (finish_auxiliary env deviceID a s2)" using stage_members(2) [of s2 s1] m finish_auxiliary_settled [of s2] by simp
  qed
qed

lemma open_auxiliary_settled:
  assumes "ds_opened s" "ds_interface s \<noteq> None" "ds_asyncEventSource s \<noteq> None" "\<not> ds_auxOpened s" "ds_auxInterface s = None"
    "ds_auxAsyncEventSource s = None" "ds_eventRunLoop s = None" "ds_auxEventRunLoop s = None"
    "ds_eventClients s = 0" "ds_auxEventClients s = 0"
  shows "settled (owed s) (open_auxiliary env deviceID s)"
proof -
  have c: "closable (owed s) s" using assms by (simp add: closable_def)
  obtain st found s1 where f: "find_interface env 1 (Some deviceID) s = (st, found, s1)" using prod_cases3 by blast
  note o = find_interface_owed [OF f]
  note m = members_fields [OF o(2)]
  show ?thesis
  proof (cases found)
    case None
    note n = no_interface [OF f [unfolded None]]
    have "s1\<lparr>ds_auxInterface := None\<rparr> = s1" using m assms by simp
    then show ?thesis
      using f None close_settled [OF keeps_closable [OF c n(1)], of st env] close_settled [OF keeps_closable [OF c n(1)], of kIOReturnNotFound env]
      by (simp add: open_auxiliary_def)
  next
    case (Some fd)
    obtain a d where fd: "fd = (a, d)" by fastforce
    have st: "st = kIOReturnSuccess" using o(3) Some by simp
    let ?s2 = "s1\<lparr>ds_auxInterface := Some a\<rparr>"
    have "\<forall>r. owed s1 r = owed s r + of_bool (r = ReferenceTo a)" using o(1) Some fd by simp
    from take_interface(2) [OF this] have o2: "owed ?s2 r = owed s r" for r using m assms by simp
    obtain st3 s3 where s3: "call env (InterfaceOpenSeize a) ?s2 = (st3, s3)" by fastforce
    note o3 = opened_interface [OF s3]
    note m3 = members_fields [OF o3(2)]
    have go: "open_auxiliary env deviceID s = (if st3 = kIOReturnSuccess then setup_auxiliary env deviceID a (s3\<lparr>ds_auxOpened := True\<rparr>)
        else close_with env st3 ((note_call (InterfaceRelease a) s3)\<lparr>ds_auxInterface := None\<rparr>))"
      using f Some fd st s3 by (simp add: open_auxiliary_def on_success_def)
    show ?thesis
    proof (cases "st3 = kIOReturnSuccess")
      case False
      have "\<forall>r. owed s3 r = owed s r" using o3(1) o2 False by simp
      from drop_interface(2) [OF this] have "closable (owed s) ((note_call (InterfaceRelease a) s3)\<lparr>ds_auxInterface := None\<rparr>)"
        using m3 m assms by (simp add: closable_def)
      from close_settled [OF this False] False show ?thesis by (simp add: go)
    next
      case True
      have "\<forall>r. owed s3 r = owed s r + of_bool (r = OpenInterface a)" using o3(1) o2 True by simp
      from take_open(2) [OF this] have "owed (s3\<lparr>ds_auxOpened := True\<rparr>) = owed s" using m3 m assms by (simp add: fun_eq_iff)
      moreover have "stage_auxiliary (s3\<lparr>ds_auxOpened := True\<rparr>)" using m3 m assms by (simp add: stage_auxiliary_def)
      ultimately show ?thesis using setup_auxiliary_settled [of "s3\<lparr>ds_auxOpened := True\<rparr>"] True by (simp add: go)
    qed
  qed
qed

lemma finish_primary_settled:
  assumes "stage_primary s"
  shows "settled (owed s) (finish_primary env i deviceID s)"
proof -
  obtain st src s1 where s1: "create_source env i s = ((st, src), s1)" by (metis surj_pair)
  note o = create_source_owed [OF s1]
  have m: "stage_primary s1" using stage_members(1) [OF o(2)] assms by simp
  have u: "settled (owed s) (close_with env kIOReturnUnsupported s)" using close_settled [OF stage_closable] assms by simp
  show ?thesis
  proof (cases "st = kIOReturnSuccess")
    case True
    let ?s = "s1\<lparr>ds_asyncEventSource := Some src\<rparr>"
    have "\<forall>r. owed s1 r = owed s r + of_bool (r = EventSources)" using o(1) True by simp
    from take_source(1) [OF this] have "owed ?s = owed s" using m by (simp add: stage_primary_def fun_eq_iff)
    moreover have "settled (owed ?s) (open_auxiliary env deviceID ?s)"
      using m by (intro open_auxiliary_settled) (simp_all add: stage_primary_def)
    ultimately show ?thesis using True u unfolding finish_primary_def s1 prod.case by (simp only: if_split) simp
  next
    case False
    then have "closable (owed s) s1" using stage_closable m o(1) by (auto simp: closable_def)
    from close_settled [OF this False, of env] False u show ?thesis unfolding finish_primary_def s1 prod.case by (simp only: if_split) simp
  qed
qed

lemma open_primary_settled:
  assumes "stage_primary s"
  shows "settled (owed s) (open_primary env i deviceID s)"
  unfolding open_primary_def
proof (rule on_success_settled)
  show "keeps (owed s) s (call env (SetAlternateInterface i 1) s)" by (rule call_keeps') (simp add: neutral_calls)
  show "closable (owed s) s" using stage_closable assms by simp
  fix s1 assume "members s1 = members s"
  then have m: "stage_primary s1" using stage_members(1) [of s1 s] assms by simp
  let ?s = "read_firmware env i s1"
  have k: "owed ?s = owed s1" "members ?s = members s1" using read_firmware_keeps [of s1 "()" env i] by (auto simp: keeps_def)
  have "settled (owed ?s) (on_success (endpoint_pipes env i classify_primary ?s) (finish_primary env i deviceID) (close_with env))"
  proof (rule on_success_settled)
    show "keeps (owed ?s) ?s (endpoint_pipes env i classify_primary ?s)" by (rule endpoint_pipes_keeps) simp_all
    show "closable (owed ?s) ?s" using stage_closable stage_members(1) [OF k(2)] m by simp
    fix s2 assume "members s2 = members ?s"
    then show "settled (owed s2) (finish_primary env i deviceID s2)" using stage_members(1) [of s2 s1] m k finish_primary_settled [of s2] by simp
  qed
  then show "settled (owed s1) (on_success (endpoint_pipes env i classify_primary ?s) (finish_primary env i deviceID) (close_with env))"
    using k by simp
qed

lemma session_open_settled:
  assumes "session_shape s" and "\<not> ds_opened s"
  shows "settled (owed s) (session_open env s)"
proof -
  have e: "ds_interface s = None" "\<not> ds_opened s" using assms by (auto simp: session_shape_def)
  obtain st found s1 where o: "open_interface env s = (st, found, s1)" using prod_cases3 by blast
  have f: "\<forall>r. owed s1 r = owed s r" "ds_interface s1 = map_option fst found" "members (s1\<lparr>ds_interface := None\<rparr>) = members s"
      "found = None \<longleftrightarrow> st \<noteq> kIOReturnSuccess"
    using open_interface_found [OF e, of env] o by (auto simp: interface_found_def)
  note m = members_fields [OF f(3), simplified]
  show ?thesis
  proof (cases found)
    case None
    have "session_shape s1" using assms m f(2) None by (simp add: session_shape_def)
    then show ?thesis using o None f m assms by (auto simp: session_open_def settled_def session_shape_def)
  next
    case (Some fd)
    obtain i d where fd: "fd = (i, d)" by fastforce
    obtain st2 s2 where s2: "call env (InterfaceOpenSeize i) s1 = (st2, s2)" by fastforce
    note o2 = opened_interface [OF s2]
    note m2 = members_fields [OF o2(2)]
    have go: "session_open env s = (if st2 = kIOReturnSuccess then open_primary env i d (s2\<lparr>ds_opened := True\<rparr>)
        else (st2, (note_call (InterfaceRelease i) s2)\<lparr>ds_interface := None\<rparr>))"
      using o Some fd s2 e by (simp add: session_open_def on_success_def)
    show ?thesis
    proof (cases "st2 = kIOReturnSuccess")
      case False
      have "\<forall>r. owed s2 r = owed s r" using o2(1) f(1) False by simp
      from drop_interface(1) [OF this] show ?thesis
        using False m m2 f(2) Some fd assms by (simp add: go settled_def session_shape_def)
    next
      case True
      have "\<forall>r. owed s2 r = owed s r + of_bool (r = OpenInterface i)" using o2(1) f(1) True by simp
      from take_open(1) [OF this] have "owed (s2\<lparr>ds_opened := True\<rparr>) = owed s"
        using m2 m f(2) Some fd e by (simp add: fun_eq_iff)
      moreover have "stage_primary (s2\<lparr>ds_opened := True\<rparr>)"
        using m2 m f(2) Some fd assms by (simp add: stage_primary_def session_shape_def)
      ultimately show ?thesis using open_primary_settled [of "s2\<lparr>ds_opened := True\<rparr>"] True by (simp add: go)
    qed
  qed
qed

subsection \<open>Sequences of operations\<close>

datatype session_op = OpOpen | OpClose | OpConfigure | OpAcquire "nat option" | OpRelease "nat option"
  | OpAcquireAux "nat option" | OpReleaseAux "nat option"

fun session_step :: "usb_env \<Rightarrow> session_op \<Rightarrow> NS6DeviceSession \<Rightarrow> IOReturn \<times> NS6DeviceSession" where
  "session_step env OpOpen s = session_open env s"
| "session_step env OpClose s = session_close env s"
| "session_step env OpConfigure s = configureAudioInputMode env s"
| "session_step env (OpAcquire l) s = acquireEvents l s"
| "session_step env (OpRelease l) s = releaseEvents l s"
| "session_step env (OpAcquireAux l) s = acquireAuxiliaryEvents l s"
| "session_step env (OpReleaseAux l) s = releaseAuxiliaryEvents l s"

definition session_run :: "usb_env \<Rightarrow> session_op list \<Rightarrow> NS6DeviceSession \<Rightarrow> NS6DeviceSession" where
  "session_run env ops s = fold (\<lambda>op s. snd (session_step env op s)) ops s"

text \<open>The invariant of a session after \<open>n\<close> operations; the client counters wrap only after 2 to the 32 of them.\<close>

definition session_inv :: "nat \<Rightarrow> NS6DeviceSession \<Rightarrow> bool" where
  "session_inv n s \<longleftrightarrow> session_shape s \<and> (\<forall>r. owed s r = 0) \<and> unat (ds_eventClients s) \<le> n \<and> unat (ds_auxEventClients s) \<le> n"

lemma session_inv_mono: "session_inv n s \<Longrightarrow> n \<le> m \<Longrightarrow> session_inv m s"
  by (auto simp: session_inv_def)

lemma session_inv_members:
  assumes "keeps (owed s) s (st, s')" and "session_inv n s"
  shows "session_inv n s'"
  using assms by (auto simp: keeps_def session_inv_def session_shape_def members_def)

lemma clients_word:
  fixes c :: u32
  assumes "unat c \<le> n" and "n < 2 ^ 32 - 1"
  shows "unat (c + 1) = unat c + 1" and "c + 1 \<noteq> 0" and "c \<noteq> 0 \<Longrightarrow> unat (c - 1) \<le> n"
proof -
  show *: "unat (c + 1) = unat c + 1" using assms by (simp add: unat_word_ariths)
  show "c + 1 \<noteq> 0"
  proof
    assume "c + 1 = 0"
    with * show False by simp
  qed
  show "unat (c - 1) \<le> n" if "c \<noteq> 0" using unat_minus_one [OF that] assms by simp
qed

lemma acquireEvents_inv:
  assumes "session_inv n s" and "n < 2 ^ 32 - 1"
  shows "session_inv (Suc n) (snd (acquireEvents l s))"
proof (cases "\<exists>rl src. l = Some rl \<and> ds_asyncEventSource s = Some src \<and> (ds_eventClients s = 0 \<or> ds_eventRunLoop s = Some rl)")
  case True
  then obtain rl src where l: "l = Some rl" "ds_asyncEventSource s = Some src" "ds_eventClients s = 0 \<or> ds_eventRunLoop s = Some rl"
    by blast
  note w = clients_word [of "ds_eventClients s" n] assms
  have o: "owed (snd (acquireEvents l s)) r = 0" for r
    using assms(1) l by (auto simp: acquireEvents_def Let_def note_call_def session_inv_def session_shape_def
      owed_def holds_def ledger_step_def split: resource.splits)
  show ?thesis using o l w
    by (auto simp: acquireEvents_def Let_def session_inv_def session_shape_def)
next
  case False
  then have "snd (acquireEvents l s) = s" by (auto simp: acquireEvents_def split: option.splits)
  with assms session_inv_mono show ?thesis by auto
qed

lemma releaseEvents_inv:
  assumes "session_inv n s" and "n < 2 ^ 32 - 1"
  shows "session_inv n (snd (releaseEvents l s))"
proof (cases "ds_eventClients s = 0 \<or> ds_eventRunLoop s \<noteq> l")
  case True
  then show ?thesis using assms by (auto simp: releaseEvents_def)
next
  case False
  then obtain rl src where l: "ds_eventRunLoop s = Some rl" "l = Some rl" "ds_asyncEventSource s = Some src" "ds_eventClients s \<noteq> 0"
    using assms(1) by (auto simp: session_inv_def session_shape_def)
  have w: "unat (ds_eventClients s - 1) \<le> n" using clients_word(3) assms l by (auto simp: session_inv_def)
  have o: "owed (snd (releaseEvents l s)) r = 0" for r
    using assms(1) l by (auto simp: releaseEvents_def Let_def note_call_def session_inv_def session_shape_def
      owed_def holds_def ledger_step_def split: resource.splits)
  show ?thesis using o l w assms(1)
    by (auto simp: releaseEvents_def Let_def session_inv_def session_shape_def)
qed

lemma acquireAuxiliaryEvents_inv:
  assumes "session_inv n s" and "n < 2 ^ 32 - 1"
  shows "session_inv (Suc n) (snd (acquireAuxiliaryEvents l s))"
proof (cases "\<exists>rl src. l = Some rl \<and> ds_auxAsyncEventSource s = Some src \<and> (ds_auxEventClients s = 0 \<or> ds_auxEventRunLoop s = Some rl)")
  case True
  then obtain rl src where l: "l = Some rl" "ds_auxAsyncEventSource s = Some src" "ds_auxEventClients s = 0 \<or> ds_auxEventRunLoop s = Some rl"
    by blast
  note w = clients_word [of "ds_auxEventClients s" n] assms
  have o: "owed (snd (acquireAuxiliaryEvents l s)) r = 0" for r
    using assms(1) l by (auto simp: acquireAuxiliaryEvents_def Let_def note_call_def session_inv_def session_shape_def
      owed_def holds_def ledger_step_def split: resource.splits)
  show ?thesis using o l w
    by (auto simp: acquireAuxiliaryEvents_def Let_def session_inv_def session_shape_def)
next
  case False
  then have "snd (acquireAuxiliaryEvents l s) = s" by (auto simp: acquireAuxiliaryEvents_def split: option.splits)
  with assms session_inv_mono show ?thesis by auto
qed

lemma releaseAuxiliaryEvents_inv:
  assumes "session_inv n s" and "n < 2 ^ 32 - 1"
  shows "session_inv n (snd (releaseAuxiliaryEvents l s))"
proof (cases "ds_auxEventClients s = 0 \<or> ds_auxEventRunLoop s \<noteq> l")
  case True
  then show ?thesis using assms by (auto simp: releaseAuxiliaryEvents_def)
next
  case False
  then obtain rl src where l: "ds_auxEventRunLoop s = Some rl" "l = Some rl" "ds_auxAsyncEventSource s = Some src" "ds_auxEventClients s \<noteq> 0"
    using assms(1) by (auto simp: session_inv_def session_shape_def)
  have w: "unat (ds_auxEventClients s - 1) \<le> n" using clients_word(3) assms l by (auto simp: session_inv_def)
  have o: "owed (snd (releaseAuxiliaryEvents l s)) r = 0" for r
    using assms(1) l by (auto simp: releaseAuxiliaryEvents_def Let_def note_call_def session_inv_def session_shape_def
      owed_def holds_def ledger_step_def split: resource.splits)
  show ?thesis using o l w assms(1)
    by (auto simp: releaseAuxiliaryEvents_def Let_def session_inv_def session_shape_def)
qed

lemma keeps_if_call: "keeps (owed s) s y \<Longrightarrow> keeps (owed s) s (if c then (x, s) else y)"
  by (simp add: keeps_def)

lemma request_keeps: "keeps (owed s) s (call env (ControlRequest i b c v w d n) s)"
  by (rule call_keeps') (simp add: neutral_calls)

lemma select_input_mode_keeps: "keeps (owed s) s (select_input_mode env i s)"
  unfolding select_input_mode_def Let_def
proof (rule on_success_keeps [OF request_keeps], erule keeps_of)
  fix s1 :: NS6DeviceSession and w and m :: u16
  obtain st s2 where c: "call env (ControlRequest i 0x40 0x49 w 0 [] 0) s1 = (st, s2)" by fastforce
  have "owed (s2\<lparr>ds_previousAudioMode := m, ds_audioModeChanged := True\<rparr>) = owed s2" by (rule owed_cong) (simp_all add: members_def)
  with request_keeps [of s1 env i "0x40" "0x49" w 0 "[]" 0] c
  show "keeps (owed s1) s1 (case call env (ControlRequest i 0x40 0x49 w 0 [] 0) s1 of (st, s) \<Rightarrow>
      (st, if st = kIOReturnSuccess \<and> \<not> ds_audioModeChanged s then s\<lparr>ds_previousAudioMode := m, ds_audioModeChanged := True\<rparr> else s))"
    by (simp add: keeps_def members_def)
qed

lemma configure_keeps: "keeps (owed s) s (configureAudioInputMode env s)"
proof (cases "ds_interface s")
  case (Some i)
  show ?thesis
  proof (cases "ds_opened s")
    case True
    show ?thesis
      unfolding configureAudioInputMode_def Some option.case Let_def
      by (subst if_not_P, simp add: True, rule on_success_keeps [OF request_keeps], erule keeps_of,
          rule on_success_keeps, rule keeps_if_call [OF request_keeps], erule keeps_of,
          rule on_success_keeps [OF request_keeps], erule keeps_of,
          rule on_success_keeps [OF request_keeps], erule keeps_of, rule select_input_mode_keeps)
  qed (simp add: configureAudioInputMode_def Some keeps_def)
qed (simp add: configureAudioInputMode_def keeps_def)

lemma session_step_inv:
  assumes "session_inv n s" and "n < 2 ^ 32 - 1"
  shows "session_inv (Suc n) (snd (session_step env op s))"
proof (cases op)
  case OpOpen
  show ?thesis
  proof (cases "ds_opened s")
    case True
    then show ?thesis using assms session_inv_mono [of n s "Suc n"] OpOpen by (simp add: session_open_def)
  next
    case False
    with session_open_settled [of s env] assms(1) OpOpen show ?thesis
      by (auto simp: session_inv_def settled_def session_shape_def)
  qed
next
  case OpClose
  then show ?thesis using assms(1) by (auto simp: session_inv_def session_shape_def)
next
  case OpConfigure
  obtain st s' where c: "configureAudioInputMode env s = (st, s')" by fastforce
  show ?thesis using session_inv_mono [OF session_inv_members [OF configure_keeps [of s env, unfolded c] assms(1)], of "Suc n"] OpConfigure c
    by simp
qed (use assms acquireEvents_inv acquireAuxiliaryEvents_inv session_inv_mono [OF releaseEvents_inv [OF assms], of "Suc n"]
  session_inv_mono [OF releaseAuxiliaryEvents_inv [OF assms], of "Suc n"] in auto)

lemma session_run_inv:
  "session_inv n s \<Longrightarrow> n + length ops < 2 ^ 32 \<Longrightarrow> session_inv (n + length ops) (session_run env ops s)"
proof (induction ops arbitrary: n s)
  case (Cons op ops)
  then have "n < 2 ^ 32 - 1" by simp
  from Cons.IH [OF session_step_inv [OF Cons.prems(1) this]] Cons.prems(2) show ?case by (simp add: session_run_def)
qed (simp add: session_run_def)

lemma session_new_inv: "session_inv 0 (session_new [])"
  by (auto simp: session_inv_def session_new_def session_shape_def owed_def holds_def split: resource.splits)

text \<open>The audio output pipe found on the first interface survives the opening of the second.\<close>

lemma audioOut_note [simp]: "ds_audioOutPipe (note_call c s) = ds_audioOutPipe s" "ds_audioOutPipe (snd (call env c s)) = ds_audioOutPipe s"
  by (simp_all add: note_call_def call_def Let_def)

lemma audioOut_matching: "ds_audioOutPipe (snd (matchingInterface es n d s)) = ds_audioOutPipe s"
  by (induction es n d s rule: matchingInterface.induct) (auto simp: Let_def split: option.split)

lemma audioOut_find: "find_interface env n d s = (st, found, s') \<Longrightarrow> ds_audioOutPipe s' = ds_audioOutPipe s"
proof -
  assume a: "find_interface env n d s = (st, found, s')"
  obtain st1 s1 where c: "call env (MatchServices ''IOUSBHostInterface'') s = (st1, s1)" by fastforce
  then have "ds_audioOutPipe s1 = ds_audioOutPipe s" by (metis audioOut_note(2) snd_conv)
  with a c audioOut_matching [of "e_interfaces env (ds_trace s)" n d s1] show ?thesis
    by (auto simp: find_interface_def split: if_splits prod.splits)
qed

lemma audioOut_call: "call env c s = (st, s') \<Longrightarrow> ds_audioOutPipe s' = ds_audioOutPipe s"
  by (metis audioOut_note(2) snd_conv)

lemma audioOut_scan:
  assumes "\<And>p x s. ds_audioOutPipe (classify p x s) = ds_audioOutPipe s"
  shows "ds_audioOutPipe (snd (scan_pipes env i classify pipes s)) = ds_audioOutPipe s"
proof (induction pipes arbitrary: s)
  case (Cons pipe pipes)
  show ?case unfolding scan_pipes.simps
  proof (rule on_success_rule)
    fix s1 assume "call env (GetPipeProperties i pipe) s = (kIOReturnSuccess, s1)"
    from audioOut_call [OF this]
    show "ds_audioOutPipe (snd (scan_pipes env i classify pipes (classify (e_pipe env (ds_trace s) i pipe) pipe s1))) = ds_audioOutPipe s"
      by (simp only: Cons assms)
  qed (simp add: audioOut_call)
qed simp

lemma close_not_success: "st \<noteq> kIOReturnSuccess \<Longrightarrow> close_with env st s \<noteq> (kIOReturnSuccess, s')"
  by (simp add: close_with_def)

lemma setup_auxiliary_success:
  assumes "setup_auxiliary env d a s = (kIOReturnSuccess, s')"
  shows "ds_feedbackPipe s' \<noteq> 0 \<and> ds_audioInPipe s' \<noteq> 0 \<and> ds_audioOutPipe s' = ds_audioOutPipe s"
proof -
  obtain s1 where s1: "call env (SetAlternateInterface a 1) s = (kIOReturnSuccess, s1)"
      and "on_success (endpoint_pipes env a classify_auxiliary s1) (finish_auxiliary env d a) (close_with env) = (kIOReturnSuccess, s')"
    using assms close_not_success unfolding setup_auxiliary_def by (elim on_success_cases) (auto dest: sym)
  then obtain s2 where s2: "endpoint_pipes env a classify_auxiliary s1 = (kIOReturnSuccess, s2)"
      and f: "finish_auxiliary env d a s2 = (kIOReturnSuccess, s')"
    using close_not_success by (elim on_success_cases) (auto dest: sym)
  have "ds_audioOutPipe s1 = ds_audioOutPipe s" using s1 by (metis audioOut_note(2) snd_conv)
  moreover have "ds_audioOutPipe (snd (endpoint_pipes env a classify_auxiliary s1)) = ds_audioOutPipe s1"
    unfolding endpoint_pipes_def
  proof (rule on_success_rule)
    fix s3 assume c: "call env (GetNumEndpoints a) s1 = (kIOReturnSuccess, s3)"
    have "ds_audioOutPipe (classify_auxiliary p x s) = ds_audioOutPipe s" for p x s by (simp add: classify_auxiliary_def)
    from audioOut_scan [OF this] audioOut_call [OF c]
    show "ds_audioOutPipe (snd (scan_pipes env a classify_auxiliary (map word_of_nat [1..<unat (e_endpoints env (ds_trace s1) a) + 1]) s3)) = ds_audioOutPipe s1"
      by simp
  qed (simp add: audioOut_call)
  moreover have "ds_audioOutPipe (snd (create_source env a s2)) = ds_audioOutPipe s2"
      "ds_feedbackPipe (snd (create_source env a s2)) = ds_feedbackPipe s2" "ds_audioInPipe (snd (create_source env a s2)) = ds_audioInPipe s2"
    by (simp_all add: create_source_def call_def Let_def)
  ultimately show ?thesis using s2 f close_not_success
    by (auto simp: finish_auxiliary_def split: if_splits prod.splits)
qed

lemma open_auxiliary_success:
  assumes "open_auxiliary env d s = (kIOReturnSuccess, s')"
  shows "ds_feedbackPipe s' \<noteq> 0 \<and> ds_audioInPipe s' \<noteq> 0 \<and> ds_audioOutPipe s' = ds_audioOutPipe s"
proof -
  obtain st found s1 where f: "find_interface env 1 (Some d) s = (st, found, s1)" using prod_cases3 by blast
  obtain a dd where fd: "found = Some (a, dd)" "st = kIOReturnSuccess"
    using assms f close_not_success by (cases found) (auto simp: open_auxiliary_def split: if_splits)
  then have "on_success (call env (InterfaceOpenSeize a) (s1\<lparr>ds_auxInterface := Some a\<rparr>))
      (\<lambda>s. setup_auxiliary env d a (s\<lparr>ds_auxOpened := True\<rparr>))
      (\<lambda>st s. close_with env st ((note_call (InterfaceRelease a) s)\<lparr>ds_auxInterface := None\<rparr>)) = (kIOReturnSuccess, s')"
    using assms f by (simp add: open_auxiliary_def)
  then obtain s2 where s2: "call env (InterfaceOpenSeize a) (s1\<lparr>ds_auxInterface := Some a\<rparr>) = (kIOReturnSuccess, s2)"
      and u: "setup_auxiliary env d a (s2\<lparr>ds_auxOpened := True\<rparr>) = (kIOReturnSuccess, s')"
    using close_not_success by (elim on_success_cases) (auto dest: sym)
  have "ds_audioOutPipe s2 = ds_audioOutPipe (s1\<lparr>ds_auxInterface := Some a\<rparr>)" using s2 by (metis audioOut_note(2) snd_conv)
  with setup_auxiliary_success [OF u] audioOut_find [OF f] show ?thesis by simp
qed

lemma session_open_success:
  assumes "session_open env s = (kIOReturnSuccess, s')" and "ds_interface s = None" and "\<not> ds_opened s"
  shows "ds_audioOutPipe s' \<noteq> 0 \<and> ds_feedbackPipe s' \<noteq> 0 \<and> ds_audioInPipe s' \<noteq> 0"
proof -
  obtain st found s1 where o: "open_interface env s = (st, found, s1)" using prod_cases3 by blast
  then have "found = None \<longleftrightarrow> st \<noteq> kIOReturnSuccess"
    using open_interface_found [OF assms(2,3), of env] by (simp add: interface_found_def)
  then obtain i d where fd: "found = Some (i, d)" using assms o by (cases found) (auto simp: session_open_def)
  have "on_success (call env (InterfaceOpenSeize i) s1) (\<lambda>s. open_primary env i d (s\<lparr>ds_opened := True\<rparr>))
      (\<lambda>st s. (st, (note_call (InterfaceRelease i) s)\<lparr>ds_interface := None\<rparr>)) = (kIOReturnSuccess, s')"
    using assms o fd by (simp add: session_open_def)
  then obtain s2 where "open_primary env i d s2 = (kIOReturnSuccess, s')" by (elim on_success_cases) auto
  then obtain s3 where "on_success (endpoint_pipes env i classify_primary (read_firmware env i s3)) (finish_primary env i d) (close_with env)
      = (kIOReturnSuccess, s')"
    using close_not_success unfolding open_primary_def by (elim on_success_cases) (auto dest: sym)
  then obtain s4 where f: "finish_primary env i d s4 = (kIOReturnSuccess, s')"
    using close_not_success by (elim on_success_cases) (auto dest: sym)
  obtain st5 src s5 where s5: "create_source env i s4 = ((st5, src), s5)" by (metis surj_pair)
  have "ds_audioOutPipe s5 = ds_audioOutPipe s4"
    using s5 by (auto simp: create_source_def split: prod.splits dest: audioOut_call)
  moreover have "ds_audioOutPipe s4 \<noteq> 0" "open_auxiliary env d (s5\<lparr>ds_asyncEventSource := Some src\<rparr>) = (kIOReturnSuccess, s')"
    using f s5 close_not_success by (auto simp: finish_primary_def split: if_splits)
  ultimately show ?thesis using open_auxiliary_success by fastforce
qed

subsection \<open>Properties\<close>

text \<open>
  (C1) Nothing is leaked: for every behaviour of the USB stack and every sequence of operations (fewer than the client
  counters can count), closing the session returns every interface reference, every opened interface, every event
  source, every run-loop reference, every attached source, every iterator and every opened device exactly once.
\<close>

theorem session_never_leaks:
  assumes "length ops < 2 ^ 32"
  shows "ledger (ds_trace (snd (session_close env (session_run env ops (session_new []))))) r = 0"
proof -
  let ?s = "session_run env ops (session_new [])"
  have "session_inv (length ops) ?s" using session_run_inv [OF session_new_inv, of ops env] assms by simp
  then have "owed (snd (session_close env ?s)) r = 0" by (simp add: session_inv_def)
  then show ?thesis by (simp add: owed_def)
qed

text \<open>A stack with one NS6 whose two interfaces have all the endpoints.\<close>

definition usb_example :: usb_env where
  "usb_example = \<lparr>e_status = (\<lambda>tr c. kIOReturnSuccess),
     e_interfaces = (\<lambda>tr. map (\<lambda>n. \<lparr>ie_parent = True, ie_vendor = Some (CFNumber 5604), ie_product = Some (CFNumber 121),
        ie_speed = Some (CFNumber 2), ie_device_id = Some 9, ie_handle = Some (10 + n), ie_number = Some (word_of_nat n)\<rparr>) [0, 1]),
     e_devices = (\<lambda>tr. [\<lparr>de_vendor = Some (CFNumber 5604), de_product = Some (CFNumber 121), de_id = Some 9, de_handle = 5,
        de_plugin = True, de_device = True\<rparr>]),
     e_endpoints = (\<lambda>tr i. 2),
     e_pipe = (\<lambda>tr i p. if i = 10 then (if p = 1
          then \<lparr>pp_direction = 0, pp_number = 2, pp_transferType = 1, pp_maxPacketSize = 156, pp_interval = 1\<rparr>
          else \<lparr>pp_direction = 1, pp_number = 3, pp_transferType = 2, pp_maxPacketSize = 512, pp_interval = 0\<rparr>)
        else (if p = 1 then \<lparr>pp_direction = 1, pp_number = 1, pp_transferType = 1, pp_maxPacketSize = 64, pp_interval = 4\<rparr>
          else \<lparr>pp_direction = 1, pp_number = 6, pp_transferType = 2, pp_maxPacketSize = 512, pp_interval = 0\<rparr>)),
     e_data = (\<lambda>tr c. [1]), e_source = (\<lambda>tr. length tr)\<rparr>"

text \<open>Witness for C0: a session that opens, switches the input mode and serves a run loop.\<close>

theorem session_never_leaks_witness:
  "fst (session_step usb_example OpOpen (session_new [])) = kIOReturnSuccess \<and>
   ledger (ds_trace (snd (session_close usb_example (session_run usb_example [OpOpen, OpConfigure, OpAcquire (Some 1)] (session_new [])))))
     EventSources = 0"
proof
  show "fst (session_step usb_example OpOpen (session_new [])) = kIOReturnSuccess" by code_simp
  show "ledger (ds_trace (snd (session_close usb_example (session_run usb_example [OpOpen, OpConfigure, OpAcquire (Some 1)] (session_new [])))))
     EventSources = 0"
    by (rule session_never_leaks) simp
qed

text \<open>
  (C2) Opening is all or nothing, whatever the USB stack answers: on success both interfaces, both event sources and the
  three audio pipes are there; on every failure the session holds nothing and has returned everything it took.
\<close>

theorem session_open_all_or_nothing:
  "case session_open env (session_new []) of (st, s) \<Rightarrow>
     if st = kIOReturnSuccess
     then ds_opened s \<and> ds_interface s \<noteq> None \<and> ds_auxInterface s \<noteq> None \<and> ds_asyncEventSource s \<noteq> None \<and>
          ds_auxAsyncEventSource s \<noteq> None \<and> ds_audioOutPipe s \<noteq> 0 \<and> ds_feedbackPipe s \<noteq> 0 \<and> ds_audioInPipe s \<noteq> 0
     else \<not> ds_opened s \<and> ds_interface s = None \<and> ds_auxInterface s = None \<and> ds_asyncEventSource s = None \<and>
          ds_auxAsyncEventSource s = None \<and> (\<forall>r. ledger (ds_trace s) r = 0)"
proof -
  obtain st s where o: "session_open env (session_new []) = (st, s)" by fastforce
  have n: "session_shape (session_new [])" "owed (session_new []) r = 0" for r using session_new_inv by (auto simp: session_inv_def)
  have "settled (owed (session_new [])) (st, s)" using session_open_settled [OF n(1), of env] o by (simp add: session_new_def)
  then have t: "\<And>r. owed s r = 0" "session_shape s" "ds_opened s \<longleftrightarrow> st = kIOReturnSuccess"
      "ds_eventRunLoop s = None" "ds_auxEventRunLoop s = None"
    using n(2) by (auto simp: settled_def)
  have "holds s r = 0" if "\<not> ds_opened s" for r
    using t(2,4,5) that by (auto simp: session_shape_def holds_def split: resource.splits)
  then have l: "ledger (ds_trace s) r = 0" if "\<not> ds_opened s" for r using t(1) [of r] that by (simp add: owed_def)
  have p: "ds_audioOutPipe s \<noteq> 0 \<and> ds_feedbackPipe s \<noteq> 0 \<and> ds_audioInPipe s \<noteq> 0" if "st = kIOReturnSuccess"
    using session_open_success [of env "session_new []" s] o that by (simp add: session_new_def)
  show ?thesis using t p l by (auto simp: o session_shape_def)
qed

lemma call_eq:
  assumes "call env c s = (st, s')"
  shows "s' = s\<lparr>ds_trace := ds_trace s @ [(c, st)]\<rparr>"
  using assms by (auto simp: call_def Let_def)

text \<open>Closing only adds to the history.\<close>

lemma close_extends:
  "\<exists>rest. ds_trace (close_run_loops s) = ds_trace s @ rest"
  "\<exists>rest. ds_trace (snd (close_auxiliary env st s)) = ds_trace s @ rest"
  "\<exists>rest. ds_trace (snd (close_primary env st s)) = ds_trace s @ rest"
proof -
  show "\<exists>rest. ds_trace (close_run_loops s) = ds_trace s @ rest"
    by (cases "ds_eventRunLoop s"; cases "ds_asyncEventSource s"; cases "ds_auxEventRunLoop s"; cases "ds_auxAsyncEventSource s";
        simp add: close_run_loops_def note_call_def Let_def)
  show "\<exists>rest. ds_trace (snd (close_auxiliary env st s)) = ds_trace s @ rest"
    by (cases "ds_auxInterface s"; cases "ds_auxAsyncEventSource s"; cases "ds_auxOpened s";
        simp add: close_auxiliary_def note_call_def call_def Let_def)
  show "\<exists>rest. ds_trace (snd (close_primary env st s)) = ds_trace s @ rest"
    by (cases "ds_interface s"; cases "ds_asyncEventSource s"; cases "ds_opened s";
        simp add: close_primary_def note_call_def call_def Let_def)
qed

lemma session_close_restores:
  assumes "ds_interface s = Some i" and "ds_opened s" and "ds_audioModeChanged s"
  shows "\<exists>st rest. ds_trace (snd (session_close env s)) =
    ds_trace s @ (ControlRequest i 0x40 0x49 (ds_previousAudioMode s) 0 [] 0, st) # rest"
proof -
  obtain st s1 where c: "call env (ControlRequest i 0x40 0x49 (ds_previousAudioMode s) 0 [] 0) s = (st, s1)" by fastforce
  have m: "close_mode env s = (st, s1\<lparr>ds_audioModeChanged := False\<rparr>)" using assms c by (simp add: close_mode_def)
  show ?thesis
    using close_extends(1) [of "s1\<lparr>ds_audioModeChanged := False\<rparr>"]
      close_extends(2) [of env st "close_run_loops (s1\<lparr>ds_audioModeChanged := False\<rparr>)"]
      close_extends(3) [of env "fst (close_auxiliary env st (close_run_loops (s1\<lparr>ds_audioModeChanged := False\<rparr>)))"
        "snd (close_auxiliary env st (close_run_loops (s1\<lparr>ds_audioModeChanged := False\<rparr>)))"]
    by (auto simp: session_close_parts m Let_def call_eq [OF c])
qed

lemma on_success_D: "on_success r ok Pair = (kIOReturnSuccess, x) \<Longrightarrow> \<exists>s. r = (kIOReturnSuccess, s) \<and> ok s = (kIOReturnSuccess, x)"
  by (elim on_success_cases) auto

lemma call_history: "call env c (s\<lparr>ds_trace := tr\<rparr>) = (st, s') \<Longrightarrow> s' = s\<lparr>ds_trace := tr @ [(c, st)]\<rparr>"
  using call_eq by fastforce

lemma configure_chain:
  assumes "configureAudioInputMode env s = (kIOReturnSuccess, s')" and "ds_interface s = Some i"
  shows "ds_opened s \<and> (\<exists>tr. select_input_mode env i (s\<lparr>ds_trace := tr\<rparr>) = (kIOReturnSuccess, s'))"
proof -
  have o: "ds_opened s" using assms by (cases "ds_opened s") (simp_all add: configureAudioInputMode_def)
  define c0 where "c0 = ControlRequest i 0xc0 86 0 0 [] 8"
  define cap where "cap = buffer_of 8 (e_data env (ds_trace s) c0)"
  from assms(1) have "on_success (call env c0 s) (\<lambda>s. on_success (if cap ! 0 = 0 then (kIOReturnSuccess, s)
          else call env (ControlRequest i 0xc0 86 0 0 [] (min (unat (cap ! 0)) 8)) s) (\<lambda>s.
        on_success (call env (ControlRequest i 0x22 1 0x0100 134 [0x44, 0xac, 0] 3) s) (\<lambda>s.
        on_success (call env (ControlRequest i 0x22 1 0x0100 2 [0x44, 0xac, 0] 3) s) (select_input_mode env i) Pair) Pair) Pair) Pair
      = (kIOReturnSuccess, s')"
    unfolding configureAudioInputMode_def assms(2) option.case Let_def cap_def c0_def by (simp only: o not_True_eq_False if_False)
  then obtain s1 s2 s3 s4 c1 c2 c3 where c: "call env c0 (s\<lparr>ds_trace := ds_trace s\<rparr>) = (kIOReturnSuccess, s1)"
      "(if cap ! 0 = 0 then (kIOReturnSuccess, s1) else call env c1 s1) = (kIOReturnSuccess, s2)"
      "call env c2 s2 = (kIOReturnSuccess, s3)" "call env c3 s3 = (kIOReturnSuccess, s4)" "select_input_mode env i s4 = (kIOReturnSuccess, s')"
    by (elim on_success_D [elim_format] exE conjE) simp
  obtain t1 where t1: "s1 = s\<lparr>ds_trace := t1\<rparr>" using call_history [OF c(1)] by blast
  obtain t2 where t2: "s2 = s\<lparr>ds_trace := t2\<rparr>" using c(2) t1 call_history [of env c1 t1 s] by (cases "cap ! 0 = 0") auto
  obtain t3 where t3: "s3 = s\<lparr>ds_trace := t3\<rparr>" using call_history [OF c(3) [unfolded t2]] by blast
  from call_history [OF c(4) [unfolded t3]] c(5) o show ?thesis by blast
qed

text \<open>What closing needs to restore the mode.\<close>

definition mode_of :: "NS6DeviceSession \<Rightarrow> nat option \<times> bool \<times> bool \<times> u16" where
  "mode_of s = (ds_interface s, ds_opened s, ds_audioModeChanged s, ds_previousAudioMode s)"

lemma call_keeps_mode: "mode_of (snd (call env c s)) = mode_of s"
  by (simp add: mode_of_def call_def Let_def)

lemma on_success_preserves:
  assumes "f (snd r) = x" and "\<And>s. f s = x \<Longrightarrow> f (snd (ok s)) = x"
  shows "f (snd (on_success r ok Pair)) = x"
  using assms by (cases r) (simp add: on_success_def)

lemma select_keeps_mode:
  assumes "ds_audioModeChanged s"
  shows "mode_of (snd (select_input_mode env i s)) = mode_of s"
proof -
  let ?read = "ControlRequest i 0xc0 0x49 0 0 [] 1"
  let ?select = "ControlRequest i 0x40 0x49 ((ucast (buffer_of 1 (e_data env (ds_trace s) ?read) ! 0) AND NOT 0x20) OR 0x30) 0 [] 0"
  obtain st1 s1 where c1: "call env ?read s = (st1, s1)" by fastforce
  obtain st2 s2 where c2: "call env ?select s1 = (st2, s2)" by fastforce
  have m: "mode_of s1 = mode_of s" "mode_of s2 = mode_of s" using call_keeps_mode [of env ?read s] call_keeps_mode [of env ?select s1] c1 c2 by simp_all
  then have "ds_audioModeChanged s2" using assms by (simp add: mode_of_def)
  then show ?thesis unfolding select_input_mode_def Let_def on_success_def c1 prod.case c2 using m by simp
qed

lemma configure_keeps_mode:
  assumes "ds_audioModeChanged s"
  shows "mode_of (snd (configureAudioInputMode env s)) = mode_of s"
proof (cases "ds_interface s = None \<or> \<not> ds_opened s")
  case True
  then show ?thesis by (auto simp: configureAudioInputMode_def split: option.split)
next
  case False
  then obtain i where i: "ds_interface s = Some i" "ds_opened s" by auto
  have c: "mode_of (snd (call env c t)) = mode_of s" if "mode_of t = mode_of s" for c t using that call_keeps_mode by simp
  have sel: "mode_of (snd (select_input_mode env i t)) = mode_of s" if "mode_of t = mode_of s" for t
    using that select_keeps_mode [of t env i] assms by (simp add: mode_of_def)
  have "\<not> ds_opened s \<longleftrightarrow> False" using i(2) by simp
  then show ?thesis
    unfolding configureAudioInputMode_def i(1) option.case Let_def
    by (simp only: if_False) (intro on_success_preserves [where f = mode_of]; simp add: c sel)
qed

lemma mode_of_update:
  "mode_of (note_call c s) = mode_of s" "mode_of (ds_eventRunLoop_update f1 s) = mode_of s" "mode_of (ds_eventClients_update f2 s) = mode_of s"
  "mode_of (ds_auxEventRunLoop_update f3 s) = mode_of s" "mode_of (ds_auxEventClients_update f4 s) = mode_of s"
  by (simp_all add: mode_of_def note_call_def)

lemma events_keep_mode:
  "mode_of (snd (acquireEvents l s)) = mode_of s" "mode_of (snd (releaseEvents l s)) = mode_of s"
  "mode_of (snd (acquireAuxiliaryEvents l s)) = mode_of s" "mode_of (snd (releaseAuxiliaryEvents l s)) = mode_of s"
  unfolding acquireEvents_def releaseEvents_def acquireAuxiliaryEvents_def releaseAuxiliaryEvents_def Let_def
  by (simp_all add: mode_of_update split: option.split)

lemma session_step_keeps_mode:
  assumes "op \<noteq> OpClose" and "ds_opened s" and "ds_audioModeChanged s"
  shows "mode_of (snd (session_step env op s)) = mode_of s"
  using assms configure_keeps_mode [OF assms(3), of env] by (cases op) (simp_all add: session_open_def events_keep_mode)

lemma session_run_keeps_mode:
  assumes "OpClose \<notin> set ops" and "ds_opened s" and "ds_audioModeChanged s"
  shows "mode_of (session_run env ops s) = mode_of s"
  using assms
proof (induction ops arbitrary: s)
  case (Cons op ops)
  have "mode_of (snd (session_step env op s)) = mode_of s" using session_step_keeps_mode [of op s env] Cons.prems by auto
  with Cons show ?case by (simp add: session_run_def mode_of_def)
qed (simp add: session_run_def)

text \<open>
  (C36) The input mode is given back: once the session has switched the device to the input mode, it may be configured again and its event sources
  taken and returned any number of times, with any answers of the USB stack; the first thing closing then does is to write the mode byte that the
  device had reported before the first switch.
\<close>

theorem session_restores_mode:
  assumes "configureAudioInputMode env s = (kIOReturnSuccess, s')" and "ds_interface s = Some i" and "\<not> ds_audioModeChanged s"
    and "OpClose \<notin> set ops"
  shows "\<exists>tr mode. ds_trace s' = tr @ [(ControlRequest i 0xc0 0x49 0 0 [] 1, kIOReturnSuccess),
           (ControlRequest i 0x40 0x49 ((ucast mode AND NOT 0x20) OR 0x30) 0 [] 0, kIOReturnSuccess)] \<and>
         mode = buffer_of 1 (e_data env tr (ControlRequest i 0xc0 0x49 0 0 [] 1)) ! 0 \<and>
         (\<exists>st rest. ds_trace (snd (session_close env (session_run env ops s'))) =
            ds_trace (session_run env ops s') @ (ControlRequest i 0x40 0x49 (ucast mode) 0 [] 0, st) # rest)"
proof -
  define read_mode where "read_mode = ControlRequest i 0xc0 0x49 0 0 [] 1"
  from configure_chain [OF assms(1,2)] obtain tr where o: "ds_opened s"
      and "select_input_mode env i (s\<lparr>ds_trace := tr\<rparr>) = (kIOReturnSuccess, s')" by blast
  moreover define mode where "mode = buffer_of 1 (e_data env tr read_mode) ! 0"
  ultimately obtain s1 s2 where c1: "call env read_mode (s\<lparr>ds_trace := tr\<rparr>) = (kIOReturnSuccess, s1)"
      and c2: "call env (ControlRequest i 0x40 0x49 ((ucast mode AND NOT 0x20) OR 0x30) 0 [] 0) s1 = (kIOReturnSuccess, s2)"
      and s': "s' = (if ds_audioModeChanged s2 then s2 else s2\<lparr>ds_previousAudioMode := ucast mode, ds_audioModeChanged := True\<rparr>)"
    by (auto simp: select_input_mode_def Let_def read_mode_def mode_def dest!: on_success_D split: prod.splits if_splits)
  have s': "s' = s\<lparr>ds_trace := tr @ [(read_mode, kIOReturnSuccess),
           (ControlRequest i 0x40 0x49 ((ucast mode AND NOT 0x20) OR 0x30) 0 [] 0, kIOReturnSuccess)],
         ds_previousAudioMode := ucast mode, ds_audioModeChanged := True\<rparr>"
    unfolding s' call_eq [OF c2] call_eq [OF c1] using assms(3) by simp
  then have "mode_of (session_run env ops s') = (Some i, True, True, ucast mode)"
    using session_run_keeps_mode [OF assms(4), of s' env] o assms(2) by (simp add: mode_of_def)
  then show ?thesis
    using s' session_close_restores [where s = "session_run env ops s'" and i = i and env = env]
    by (intro exI [of _ tr] exI [of _ mode]) (simp add: mode_def read_mode_def mode_of_def)
qed

text \<open>Witness for C0: an open interface of the example device, which reports mode 1 at first and is configured a second time.\<close>

theorem session_restores_mode_witness:
  "let s = (session_new [])\<lparr>ds_interface := Some 10, ds_opened := True\<rparr>;
       s' = snd (configureAudioInputMode usb_example s);
       s'' = session_run usb_example [OpAcquire (Some 1), OpConfigure] s'
   in \<exists>st rest. ds_trace (snd (session_close usb_example s'')) = ds_trace s'' @ (ControlRequest 10 0x40 0x49 1 0 [] 0, st) # rest"
proof -
  define s where "s = (session_new [])\<lparr>ds_interface := Some 10, ds_opened := True\<rparr>"
  define s' where "s' = snd (configureAudioInputMode usb_example s)"
  have "ds_interface s = Some 10 \<and> \<not> ds_audioModeChanged s \<and> fst (configureAudioInputMode usb_example s) = kIOReturnSuccess"
    unfolding s_def by code_simp
  then have "configureAudioInputMode usb_example s = (kIOReturnSuccess, s')" "ds_interface s = Some 10" "\<not> ds_audioModeChanged s"
    by (simp_all add: s'_def prod_eq_iff)
  from session_restores_mode [OF this, of "[OpAcquire (Some 1), OpConfigure]"] show ?thesis
    unfolding Let_def s_def [symmetric] s'_def [symmetric] by (auto simp: usb_example_def buffer_of_def)
qed

text \<open>
  Closing keeps the first error of the two interfaces but not that of the mode write: the status of closing the second
  interface replaces it, so a mode that could not be restored is reported as success.
\<close>

theorem session_close_hides_restore_error:
  assumes "ds_interface s = Some i" and "ds_auxInterface s = Some a" and "ds_auxOpened s"
    and "\<And>tr h. e_status env tr (InterfaceClose h) = kIOReturnSuccess"
  shows "fst (session_close env s) = kIOReturnSuccess"
proof -
  have "fst (close_auxiliary env st s1) = kIOReturnSuccess" if "ds_auxInterface s1 = Some a" "ds_auxOpened s1" for st s1
    using that assms(4) by (simp add: close_auxiliary_def call_def Let_def)
  moreover have "fst (close_primary env kIOReturnSuccess s2) = kIOReturnSuccess" if "ds_interface s2 = Some i" for s2
    using that assms(4) by (simp add: close_primary_def call_def Let_def)
  ultimately show ?thesis
    using assms(1-3) by (simp add: session_close_def Let_def split_def close_auxiliary_fields)
qed

end
