(* ===== verification/NS6_Output.thy ===== *)
theory NS6_Output
  imports NS6_Ring NS6_PacketPolicy NS6_PCM NS6_USB
begin

text \<open>
  The isochronous output of \<^verbatim>\<open>numark-ns6/audio-out\<close>: one packet (\<open>AudioOutPacket\<close>), a transfer of 32 packets
  (\<open>AudioOutTransferBatch\<close>), the eight transfer slots (\<open>AudioOutTransferSlots\<close>), the frame schedules
  (\<open>AudioOutSchedule\<close>, \<open>AudioFeedbackSchedule\<close>) and the worker that keeps the slots in flight (\<open>AudioOutWorker\<close>). The
  USB calls go through the session of \<open>NS6_USB\<close>.
\<close>

subsection \<open>The endpoint\<close>

datatype USBSpeed = SpeedUnknown | SpeedFull | SpeedHigh | SpeedSuper
datatype USBTransferType = Control | Isochronous | Bulk | Interrupt

record NS6AudioOutEndpointDescriptor =
  ep_vendorId :: u16
  ep_productId :: u16
  ep_speed :: USBSpeed
  ep_interfaceNumber :: u8
  ep_alternateSetting :: u8
  ep_endpointAddress :: u8
  ep_transferType :: USBTransferType
  ep_maxPacketSize :: u16
  ep_interval :: u8

definition ns6AudioOutServiceRateHz :: "NS6AudioOutEndpointDescriptor \<Rightarrow> u32" where
  "ns6AudioOutServiceRateHz e =
     (if ep_vendorId e \<noteq> 0x15e4 \<or> ep_productId e \<noteq> 0x0079 \<or> ep_speed e \<noteq> SpeedHigh \<or> ep_interfaceNumber e \<noteq> 0 \<or>
         ep_alternateSetting e \<noteq> 1 \<or> ep_endpointAddress e \<noteq> 2 \<or> ep_transferType e \<noteq> Isochronous \<or>
         ep_maxPacketSize e \<noteq> 156 \<or> ep_interval e \<noteq> 1 then 0 else 8000)"

subsection \<open>Packets\<close>

record AudioOutPacket =
  op_bytes :: "u8 list"
  op_byteCount :: nat
  op_missingFrames :: u32

definition packet_new :: AudioOutPacket where
  "packet_new = \<lparr>op_bytes = replicate 156 0, op_byteCount = 0, op_missingFrames = 0\<rparr>"

definition packet_build :: "AudioOutputRing \<Rightarrow> AudioPacketPolicy \<Rightarrow> AudioOutPacket \<Rightarrow>
    u32 \<times> AudioOutPacket \<times> AudioOutputRing \<times> AudioPacketPolicy" where
  "packet_build ring policy packet =
     (let packet = packet\<lparr>op_bytes := replicate 156 0, op_byteCount := 0, op_missingFrames := 0\<rparr> in
      if r_channels ring \<noteq> 4 then (0, packet, ring, policy) else
      case nextPacketFrames policy of (frames, policy) \<Rightarrow>
      if 13 < frames then (0, packet, ring, policy) else
      let sourceStep = sourceFramesPerOutputFrame policy (ring_availableFrames ring) in
      case ring_readResampled (Some (replicate 52 (Fin 0))) frames sourceStep ring of (available, samples, ring) \<Rightarrow>
      let missing = frames - available;
          ring = (if missing \<noteq> 0 then ring_advanceResampled missing sourceStep ring else ring);
          bytes = fold (\<lambda>sample bytes. overwrite (sample * 3) (pack_sample (the samples ! sample)) bytes)
                    [0..<unat available * 4] (op_bytes packet)
      in (frames, packet\<lparr>op_bytes := bytes, op_byteCount := unat frames * 4 * 3, op_missingFrames := missing\<rparr>, ring, policy))"

subsection \<open>Transfers\<close>

record AudioOutTransferBatch =
  ob_bytes :: "u8 list"
  ob_packetByteCounts :: "u16 list"
  ob_byteCount :: nat
  ob_missingFrames :: u32

definition batch_new :: AudioOutTransferBatch where
  "batch_new = \<lparr>ob_bytes = replicate 4992 0, ob_packetByteCounts = replicate 32 0, ob_byteCount = 0, ob_missingFrames = 0\<rparr>"

fun batch_loop :: "nat list \<Rightarrow> AudioOutPacket \<Rightarrow> AudioOutTransferBatch \<Rightarrow> AudioOutputRing \<Rightarrow> AudioPacketPolicy \<Rightarrow>
    bool \<times> AudioOutTransferBatch \<times> AudioOutputRing \<times> AudioPacketPolicy" where
  "batch_loop [] packet b ring policy = (True, b, ring, policy)"
| "batch_loop (i # is) packet b ring policy =
     (case packet_build ring policy packet of (frames, packet, ring, policy) \<Rightarrow>
        if frames = 0 then (False, b\<lparr>ob_byteCount := 0, ob_packetByteCounts := replicate 32 0\<rparr>, ring, policy)
        else let count = op_byteCount packet in
          batch_loop is packet
            (b\<lparr>ob_missingFrames := ob_missingFrames b + op_missingFrames packet,
               ob_bytes := overwrite (ob_byteCount b) (take count (op_bytes packet)) (ob_bytes b),
               ob_packetByteCounts := (ob_packetByteCounts b)[i := word_of_nat count],
               ob_byteCount := ob_byteCount b + count\<rparr>) ring policy)"

definition batch_build :: "AudioOutputRing \<Rightarrow> AudioPacketPolicy \<Rightarrow> AudioOutTransferBatch \<Rightarrow>
    bool \<times> AudioOutTransferBatch \<times> AudioOutputRing \<times> AudioPacketPolicy" where
  "batch_build ring policy b =
     batch_loop [0..<32] packet_new
       (b\<lparr>ob_bytes := replicate 4992 0, ob_packetByteCounts := replicate 32 0, ob_byteCount := 0, ob_missingFrames := 0\<rparr>)
       ring policy"

definition packetByteCount :: "AudioOutTransferBatch \<Rightarrow> u32 \<Rightarrow> u16" where
  "packetByteCount b packet = (if packet < 32 then ob_packetByteCounts b ! unat packet else 0)"

subsection \<open>Slots\<close>

record AudioOutTransferSlots =
  ts_packets :: "AudioOutTransferBatch list"
  ts_inUse :: "bool list"
  ts_accepting :: bool
  ts_inFlight :: u32

abbreviation (input) kNoSlot :: u32 where "kNoSlot \<equiv> UINT32_MAX"

definition slots_new :: AudioOutTransferSlots where
  "slots_new = \<lparr>ts_packets = replicate 8 batch_new, ts_inUse = replicate 8 False, ts_accepting = True, ts_inFlight = 0\<rparr>"

fun reserve_loop :: "nat list \<Rightarrow> AudioOutputRing \<Rightarrow> AudioPacketPolicy \<Rightarrow> AudioOutTransferSlots \<Rightarrow>
    u32 \<times> AudioOutTransferSlots \<times> AudioOutputRing \<times> AudioPacketPolicy" where
  "reserve_loop [] ring policy t = (kNoSlot, t, ring, policy)"
| "reserve_loop (i # is) ring policy t =
     (if ts_inUse t ! i then reserve_loop is ring policy t
      else let t = t\<lparr>ts_inUse := (ts_inUse t)[i := True]\<rparr> in
        if \<not> ts_accepting t then (kNoSlot, t\<lparr>ts_inUse := (ts_inUse t)[i := False]\<rparr>, ring, policy)
        else case batch_build ring policy (ts_packets t ! i) of (ok, b, ring, policy) \<Rightarrow>
          let t = t\<lparr>ts_packets := (ts_packets t)[i := b]\<rparr> in
          if \<not> ok then (kNoSlot, t\<lparr>ts_inUse := (ts_inUse t)[i := False]\<rparr>, ring, policy)
          else (word_of_nat i, t\<lparr>ts_inFlight := ts_inFlight t + 1\<rparr>, ring, policy))"

definition slots_reserve :: "AudioOutputRing \<Rightarrow> AudioPacketPolicy \<Rightarrow> AudioOutTransferSlots \<Rightarrow>
    u32 \<times> AudioOutTransferSlots \<times> AudioOutputRing \<times> AudioPacketPolicy" where
  "slots_reserve ring policy t =
     (if \<not> ts_accepting t then (kNoSlot, t, ring, policy) else reserve_loop [0..<8] ring policy t)"

definition slots_complete :: "u32 \<Rightarrow> AudioOutTransferSlots \<Rightarrow> bool \<times> AudioOutTransferSlots" where
  "slots_complete slot t =
     (if 8 \<le> slot then (False, t)
      else if \<not> ts_inUse t ! unat slot then (False, t)
      else (True, t\<lparr>ts_inUse := (ts_inUse t)[unat slot := False], ts_inFlight := ts_inFlight t - 1\<rparr>))"

definition stopAccepting :: "AudioOutTransferSlots \<Rightarrow> AudioOutTransferSlots" where
  "stopAccepting t = t\<lparr>ts_accepting := False\<rparr>"

definition slots_packet :: "u32 \<Rightarrow> AudioOutTransferSlots \<Rightarrow> AudioOutTransferBatch option" where
  "slots_packet slot t = (if slot < 8 then Some (ts_packets t ! unat slot) else None)"

subsection \<open>Frame schedules\<close>

record AudioOutSchedule =
  sc_nextFrame :: u64
  sc_skippedIntervals :: u64

definition schedule_begin :: "u64 \<Rightarrow> AudioOutSchedule \<Rightarrow> u64 \<times> AudioOutSchedule" where
  "schedule_begin currentFrame s =
     (if UINT64_MAX - 2 < currentFrame then (0, s) else
      let s = s\<lparr>sc_nextFrame := currentFrame + 2\<rparr> in
      if UINT64_MAX - 4 < sc_nextFrame s then (0, s\<lparr>sc_nextFrame := 0\<rparr>)
      else (sc_nextFrame s, s\<lparr>sc_skippedIntervals := 0, sc_nextFrame := sc_nextFrame s + 4\<rparr>))"

definition schedule_takeNext :: "u64 \<Rightarrow> AudioOutSchedule \<Rightarrow> (u64 \<times> u32) \<times> AudioOutSchedule" where
  "schedule_takeNext currentFrame s =
     (if UINT64_MAX - 2 < currentFrame then ((0, 0), s) else
      let minimum = currentFrame + 2; behind = minimum - sc_nextFrame s;
          count = behind div 4 + of_bool (behind mod 4 \<noteq> 0);
          late = sc_nextFrame s < minimum
      in if late \<and> ucast UINT32_MAX < count then ((0, 0), s)
         else if late \<and> (UINT64_MAX - sc_nextFrame s) div 4 < count then ((0, 0), s)
         else let s = (if late then s\<lparr>sc_nextFrame := sc_nextFrame s + count * 4,
                                       sc_skippedIntervals := sc_skippedIntervals s + count\<rparr> else s);
                  skipped = (if late then ucast count else 0)
              in if UINT64_MAX - 4 < sc_nextFrame s then ((0, 0), s)
                 else ((sc_nextFrame s, skipped), s\<lparr>sc_nextFrame := sc_nextFrame s + 4\<rparr>))"

definition feedback_begin :: "u64 \<Rightarrow> u64 \<Rightarrow> u64 \<times> u64" where
  "feedback_begin currentFrame nextFrame =
     (if UINT64_MAX - 2 < currentFrame then (0, nextFrame)
      else let first = currentFrame + 2 in
        if UINT64_MAX - 4 < first then (0, nextFrame) else (first, first + 4))"

definition feedback_takeNext :: "u64 \<Rightarrow> u64 \<Rightarrow> (u64 \<times> u32) \<times> u64" where
  "feedback_takeNext currentFrame nextFrame =
     (if currentFrame = UINT64_MAX then ((0, 0), nextFrame) else
      let minimum = currentFrame + 1;
          late = nextFrame < minimum;
          skipped = (if late then (minimum - nextFrame - 1) div 4 + 1 else 0)
      in if late \<and> (UINT64_MAX - nextFrame) div 4 < skipped then ((0, 0), nextFrame)
         else let nextFrame = (if late then nextFrame + skipped * 4 else nextFrame)
              in if UINT64_MAX - 4 < nextFrame \<or> ucast UINT32_MAX < skipped then ((0, 0), nextFrame)
                 else ((nextFrame, ucast skipped), nextFrame + 4))"

subsection \<open>The worker\<close>

record isoc_frame =
  fr_status :: IOReturn
  fr_reqCount :: u16
  fr_actCount :: u16

record out_slot =
  os_data :: "u8 list option"
  os_frames :: "isoc_frame list option"

record AudioOutWorker =
  ow_session :: NS6DeviceSession
  ow_ring :: AudioOutputRing
  ow_packetPolicy :: AudioPacketPolicy
  ow_transferSlots :: AudioOutTransferSlots
  ow_slots :: "out_slot list"
  ow_runLoop :: "nat option"
  ow_running :: bool
  ow_sourceAdded :: bool
  ow_initialized :: bool
  ow_submitted :: u64
  ow_completed :: u64
  ow_failures :: u64
  ow_nonSilentSubmitted :: u64
  ow_ringUnderrunFrames :: u64

definition worker_new :: "NS6DeviceSession \<Rightarrow> AudioOutputRing \<Rightarrow> AudioPacketPolicy \<Rightarrow> AudioOutWorker" where
  "worker_new session ring policy =
     \<lparr>ow_session = session, ow_ring = ring, ow_packetPolicy = policy, ow_transferSlots = slots_new,
      ow_slots = replicate 8 \<lparr>os_data = None, os_frames = None\<rparr>, ow_runLoop = None, ow_running = False,
      ow_sourceAdded = False, ow_initialized = False, ow_submitted = 0, ow_completed = 0, ow_failures = 0,
      ow_nonSilentSubmitted = 0, ow_ringUnderrunFrames = 0\<rparr>"

text \<open>A USB call of the worker.\<close>

definition worker_call :: "usb_env \<Rightarrow> usb_call \<Rightarrow> AudioOutWorker \<Rightarrow> IOReturn \<times> AudioOutWorker" where
  "worker_call env c w = (case call env c (ow_session w) of (st, s) \<Rightarrow> (st, w\<lparr>ow_session := s\<rparr>))"

definition worker_note :: "usb_call \<Rightarrow> AudioOutWorker \<Rightarrow> AudioOutWorker" where
  "worker_note c w = w\<lparr>ow_session := note_call c (ow_session w)\<rparr>"

definition destroy_buffer :: "usb_env \<Rightarrow> nat \<Rightarrow> bool \<Rightarrow> nat \<Rightarrow> IOReturn \<times> AudioOutWorker \<Rightarrow> IOReturn \<times> AudioOutWorker" where
  "destroy_buffer env i present k r =
     (case r of (result, w) \<Rightarrow>
        if \<not> present then r
        else case worker_call env (DestroyBuffer i k) w of (released, w) \<Rightarrow>
          (if result = kIOReturnSuccess then released else result, w))"

definition releaseBuffers :: "usb_env \<Rightarrow> AudioOutWorker \<Rightarrow> IOReturn \<times> AudioOutWorker" where
  "releaseBuffers env w =
     (case ds_interface (ow_session w) of None \<Rightarrow> (kIOReturnNotReady, w)
      | Some i \<Rightarrow> fold (\<lambda>k r.
          let slot = ow_slots (snd r) ! k;
              (result, w) = destroy_buffer env i (os_data slot \<noteq> None) (2 * k) r;
              (result, w) = destroy_buffer env i (os_frames slot \<noteq> None) (2 * k + 1) (result, w)
          in (result, w\<lparr>ow_slots := (ow_slots w)[k := \<lparr>os_data = None, os_frames = None\<rparr>]\<rparr>))
        [0..<8] (kIOReturnSuccess, w))"

definition load_slot :: "AudioOutTransferBatch \<Rightarrow> nat \<Rightarrow> AudioOutWorker \<Rightarrow> AudioOutWorker" where
  "load_slot batch k w =
     (let slot = ow_slots w ! k;
          data = map_option (overwrite 0 (take (ob_byteCount batch) (ob_bytes batch))) (os_data slot);
          sounding = list_ex (\<lambda>b. b \<noteq> 0) (take (ob_byteCount batch) (case data of Some d \<Rightarrow> d | None \<Rightarrow> []));
          frames = map_option (\<lambda>_. map (\<lambda>p. \<lparr>fr_status = kIOReturnSuccess, fr_reqCount = packetByteCount batch (word_of_nat p),
                                       fr_actCount = 0\<rparr>) [0..<32]) (os_frames slot)
      in w\<lparr>ow_slots := (ow_slots w)[k := \<lparr>os_data = data, os_frames = frames\<rparr>],
           ow_nonSilentSubmitted := ow_nonSilentSubmitted w + of_bool sounding\<rparr>)"

definition requested_bytes :: "AudioOutTransferBatch \<Rightarrow> nat" where
  "requested_bytes batch = sum_list (map (\<lambda>p. unat (packetByteCount batch (word_of_nat p))) [0..<32])"

definition give_back :: "u32 \<Rightarrow> AudioOutWorker \<Rightarrow> AudioOutWorker" where
  "give_back slotIndex w = w\<lparr>ow_transferSlots := snd (slots_complete slotIndex (ow_transferSlots w))\<rparr>"

definition submitNext :: "usb_env \<Rightarrow> AudioOutWorker \<Rightarrow> IOReturn \<times> AudioOutWorker" where
  "submitNext env w =
     (case ds_interface (ow_session w) of None \<Rightarrow> (kIOReturnNotReady, w) | Some i \<Rightarrow>
      if \<not> ow_running w then (kIOReturnNotReady, w) else
      case slots_reserve (ow_ring w) (ow_packetPolicy w) (ow_transferSlots w) of (slotIndex, t, ring, policy) \<Rightarrow>
      let w = w\<lparr>ow_transferSlots := t, ow_ring := ring, ow_packetPolicy := policy\<rparr>
      in if slotIndex = kNoSlot then (kIOReturnNoResources, w) else
      case slots_packet slotIndex t of None \<Rightarrow> (kIOReturnBadArgument, give_back slotIndex w) | Some batch \<Rightarrow>
      if 4992 < ob_byteCount batch then (kIOReturnBadArgument, give_back slotIndex w) else
      let w = load_slot batch (unat slotIndex) w
      in if requested_bytes batch \<noteq> ob_byteCount batch then (kIOReturnBadArgument, give_back slotIndex w)
         else case worker_call env (IsocTransfer i (ds_audioOutPipe (ow_session w)) (unat slotIndex)) w of (result, w) \<Rightarrow>
           if result \<noteq> kIOReturnSuccess then (result, give_back slotIndex w)
           else (kIOReturnSuccess, w\<lparr>ow_submitted := ow_submitted w + 1\<rparr>))"

text \<open>The status of a completed transfer: that of the call, or of the first frame that failed or fell short.\<close>

definition frame_status :: "isoc_frame list \<Rightarrow> IOReturn \<Rightarrow> IOReturn" where
  "frame_status frames status =
     fold (\<lambda>f status.
       let status = (if status = kIOReturnSuccess \<and> fr_status f \<noteq> kIOReturnSuccess then fr_status f else status)
       in if status = kIOReturnSuccess \<and> fr_actCount f \<noteq> fr_reqCount f then kIOReturnUnderrun else status)
     frames status"

text \<open>
  A completion: the controller has written status and count of every frame of the slot's list, then the callback runs.
\<close>

definition deliver_frames :: "(IOReturn \<times> u16) list \<Rightarrow> isoc_frame list \<Rightarrow> isoc_frame list" where
  "deliver_frames results frames =
     map2 (\<lambda>(st, n) f. f\<lparr>fr_status := st, fr_actCount := n\<rparr>) results frames @ drop (length results) frames"

definition worker_halt :: "AudioOutWorker \<Rightarrow> AudioOutWorker" where
  "worker_halt w = w\<lparr>ow_failures := ow_failures w + 1, ow_running := False, ow_transferSlots := stopAccepting (ow_transferSlots w)\<rparr>"

definition count_completed :: "nat \<Rightarrow> AudioOutWorker \<Rightarrow> AudioOutWorker" where
  "count_completed k w =
     (let missing = (case slots_packet (word_of_nat k) (ow_transferSlots w) of
                       Some batch \<Rightarrow> ucast (ob_missingFrames batch) | None \<Rightarrow> 0)
      in w\<lparr>ow_completed := ow_completed w + 1, ow_ringUnderrunFrames := ow_ringUnderrunFrames w + missing\<rparr>)"

definition didComplete :: "usb_env \<Rightarrow> nat \<Rightarrow> IOReturn \<Rightarrow> AudioOutWorker \<Rightarrow> AudioOutWorker" where
  "didComplete env k status w =
     (let frames = (case os_frames (ow_slots w ! k) of Some f \<Rightarrow> take 32 f | None \<Rightarrow> []);
          status = frame_status frames status;
          w = give_back (word_of_nat k) w
      in if status \<noteq> kIOReturnSuccess then worker_halt w
         else let w = count_completed k w
              in if \<not> ow_running w then w
                 else case submitNext env w of (st, w) \<Rightarrow> if st \<noteq> kIOReturnSuccess then worker_halt w else w)"

record out_completion =
  oc_slot :: nat
  oc_status :: IOReturn
  oc_frames :: "(IOReturn \<times> u16) list"

definition complete_event :: "usb_env \<Rightarrow> out_completion \<Rightarrow> AudioOutWorker \<Rightarrow> AudioOutWorker" where
  "complete_event env c w =
     (let k = oc_slot c; slot = ow_slots w ! k in
      didComplete env k (oc_status c)
        (w\<lparr>ow_slots := (ow_slots w)[k := slot\<lparr>os_frames := map_option (deliver_frames (oc_frames c)) (os_frames slot)\<rparr>]\<rparr>))"

text \<open>
  The drain loop of \<open>stop\<close>: \<open>polls\<close> lists what each pass of the run loop delivers until the deadline; a pass may deliver
  the completion of transfers that are in flight.
\<close>

fun drain :: "usb_env \<Rightarrow> out_completion list list \<Rightarrow> AudioOutWorker \<Rightarrow> AudioOutWorker" where
  "drain env [] w = w"
| "drain env (poll # polls) w =
     (if ts_inFlight (ow_transferSlots w) = 0 then w
      else drain env polls (fold (complete_event env) poll w))"

definition abort_and_drain :: "usb_env \<Rightarrow> out_completion list list \<Rightarrow> AudioOutWorker \<Rightarrow> IOReturn \<times> AudioOutWorker" where
  "abort_and_drain env polls w =
     (case ds_interface (ow_session w) of
        Some i \<Rightarrow> if ts_inFlight (ow_transferSlots w) \<noteq> 0
          then (case worker_call env (AbortPipe i (ds_audioOutPipe (ow_session w))) w of (st, w) \<Rightarrow> (st, drain env polls w))
          else (kIOReturnSuccess, w)
      | None \<Rightarrow> (kIOReturnSuccess, w))"

definition release_source :: "IOReturn \<Rightarrow> AudioOutWorker \<Rightarrow> IOReturn \<times> AudioOutWorker" where
  "release_source result w =
     (if ow_sourceAdded w \<and> ow_runLoop w \<noteq> None
      then (case releaseEvents (ow_runLoop w) (ow_session w) of (st, s) \<Rightarrow>
              (if result = kIOReturnSuccess then st else result, w\<lparr>ow_session := s, ow_sourceAdded := False\<rparr>))
      else (result, w))"

definition worker_stop :: "usb_env \<Rightarrow> out_completion list list \<Rightarrow> AudioOutWorker \<Rightarrow> IOReturn \<times> AudioOutWorker" where
  "worker_stop env polls w =
     (if \<not> ow_initialized w then (kIOReturnSuccess, w) else
      let w = w\<lparr>ow_running := False, ow_transferSlots := stopAccepting (ow_transferSlots w)\<rparr>;
          (result, w) = abort_and_drain env polls w
      in if ds_interface (ow_session w) \<noteq> None \<and> ts_inFlight (ow_transferSlots w) \<noteq> 0 then (kIOReturnTimeout, w)
         else let (result, w) = release_source result w;
                  (st, w) = releaseBuffers env w
              in (if result = kIOReturnSuccess then st else result, w))"

text \<open>Buffer allocation of \<open>start\<close>: the first failed call ends it.\<close>

fun create_buffers :: "usb_env \<Rightarrow> nat \<Rightarrow> nat list \<Rightarrow> AudioOutWorker \<Rightarrow> IOReturn \<times> AudioOutWorker" where
  "create_buffers env i [] w = (kIOReturnSuccess, w)"
| "create_buffers env i (k # ks) w =
     on_success (worker_call env (CreateBuffer i (2 * k)) w) (\<lambda>w.
       on_success (worker_call env (CreateBuffer i (2 * k + 1))
           (w\<lparr>ow_slots := (ow_slots w)[k := (ow_slots w ! k)\<lparr>os_data := Some (replicate 4992 0)\<rparr>]\<rparr>)) (\<lambda>w.
         create_buffers env i ks
           (w\<lparr>ow_slots := (ow_slots w)[k := (ow_slots w ! k)\<lparr>os_frames := Some (replicate 32
               \<lparr>fr_status = kIOReturnSuccess, fr_reqCount = 0, fr_actCount = 0\<rparr>)\<rparr>]\<rparr>)) Pair) Pair"

fun submit_all :: "usb_env \<Rightarrow> nat \<Rightarrow> AudioOutWorker \<Rightarrow> IOReturn \<times> AudioOutWorker" where
  "submit_all env 0 w = (kIOReturnSuccess, w)"
| "submit_all env (Suc n) w = on_success (submitNext env w) (submit_all env n) Pair"

definition worker_start :: "usb_env \<Rightarrow> nat option \<Rightarrow> out_completion list list \<Rightarrow> AudioOutWorker \<Rightarrow> IOReturn \<times> AudioOutWorker" where
  "worker_start env currentLoop polls w =
     (case (ds_interface (ow_session w), currentLoop) of
        (Some i, Some l) \<Rightarrow>
          if ow_initialized w \<or> ds_audioOutPipe (ow_session w) = 0 \<or> ds_asyncEventSource (ow_session w) = None
          then (kIOReturnNotReady, w)
          else let w = worker_note (RunLoopRetain l) (w\<lparr>ow_runLoop := Some l\<rparr>);
                   undo = (\<lambda>st w. (st, (worker_note (RunLoopRelease l) (snd (releaseBuffers env w)))\<lparr>ow_runLoop := None\<rparr>))
               in on_success (create_buffers env i [0..<8] w) (\<lambda>w.
                 case acquireEvents (Some l) (ow_session w) of (st, s) \<Rightarrow>
                 let w = w\<lparr>ow_session := s\<rparr> in
                 if st \<noteq> kIOReturnSuccess then undo st w
                 else on_success (submit_all env 8 (w\<lparr>ow_sourceAdded := True, ow_running := True, ow_initialized := True\<rparr>))
                   (Pair kIOReturnSuccess)
                   (\<lambda>st w. (st, snd (worker_stop env polls (w\<lparr>ow_failures := ow_failures w + 1\<rparr>))))) undo
      | _ \<Rightarrow> (kIOReturnNotReady, w))"

subsection \<open>Packets and transfers are complete\<close>

text \<open>What the producers guarantee: a four-channel ring and a policy of the 8 kHz endpoint.\<close>

definition source_ok :: "AudioOutputRing \<Rightarrow> AudioPacketPolicy \<Rightarrow> bool" where
  "source_ok ring policy \<longleftrightarrow> ring_regular ring \<and> r_channels ring = 4 \<and> policy_inv policy \<and> p_serviceIntervalsPerSecond policy = 8000"

lemma ring_readResampled_frames:
  assumes "ring_regular r" and "r_channels r = 4" and "unat frames * 4 \<le> length dst"
    and "ring_readResampled (Some dst) frames st r = (produced, dst', r')"
  shows "produced \<le> frames \<and> ring_regular r' \<and> r_channels r' = 4"
proof -
  obtain s where s: "sane_step st = Fin s" by (metis sane_step_cases)
  obtain f where f: "r_readFraction r = Fin f"
    using assms(1) by (auto simp: ring_regular_def ring_inv_def frac_ok_def split: flt.splits)
  obtain out p where o: "resample_ref (unat frames) (unat (r_channels r)) (ring_contents r) s f = (out, p)" by fastforce
  from ring_readResampled_ref [OF assms(1) _ s f o assms(4)] assms(2,3) show ?thesis by (auto simp: word_le_nat_alt)
qed

lemma pack_fold_length:
  "n * 3 \<le> length bytes \<Longrightarrow>
   length (fold (\<lambda>sample bytes. overwrite (sample * 3) (pack_sample (f sample)) bytes) [0..<n] bytes) = length bytes"
  by (induction n) (simp_all add: pack_sample_def pack_bytes_def Let_def)

lemma packet_build_spec:
  assumes "source_ok ring policy" and "packet_build ring policy packet = (frames, packet', ring', policy')"
  shows "(frames = 5 \<or> frames = 6) \<and> op_byteCount packet' = unat frames * 12 \<and> length (op_bytes packet') = 156 \<and>
    op_missingFrames packet' \<le> frames \<and> source_ok ring' policy'"
proof -
  obtain n p1 where n: "nextPacketFrames policy = (n, p1)" by fastforce
  have p1: "policy_inv p1" "p_serviceIntervalsPerSecond p1 = 8000" "n = 5 \<or> n = 6"
    using nextPacketFrames_inv [OF _ n] policy_service_same(3) [OF n] assms(1) by (auto simp: source_ok_def)
  define step where "step = sourceFramesPerOutputFrame p1 (ring_availableFrames ring)"
  obtain got samples r1 where r: "ring_readResampled (Some (replicate 52 (Fin 0))) n step ring = (got, samples, r1)"
    using prod_cases3 by blast
  have r1: "got \<le> n" "ring_regular r1" "r_channels r1 = 4"
    using ring_readResampled_frames [OF _ _ _ r] assms(1) p1(3) by (auto simp: source_ok_def)
  have small: "unat n \<le> 6" "\<not> 13 < n" using p1(3) by auto
  then have g: "unat got \<le> 6" using r1(1) by (auto simp: word_le_nat_alt)
  define r2 where "r2 = (if n - got \<noteq> 0 then ring_advanceResampled (n - got) step r1 else r1)"
  have r2: "ring_regular r2" "r_channels r2 = 4"
    using ring_advanceResampled_spec [OF r1(2) refl] r1 by (auto simp: r2_def)
  define bytes where "bytes = fold (\<lambda>sample bytes. overwrite (sample * 3) (pack_sample (the samples ! sample)) bytes)
    [0..<unat got * 4] (replicate 156 0)"
  have le: "n - got \<le> n" using r1(1) by (simp add: word_le_nat_alt unat_sub)
  have len: "length bytes = 156" using pack_fold_length [of "unat got * 4" "replicate 156 0"] g by (simp add: bytes_def)
  have "packet_build ring policy packet =
      (n, packet\<lparr>op_bytes := bytes, op_byteCount := unat n * 4 * 3, op_missingFrames := n - got\<rparr>, r2, p1)"
    using assms(1) unfolding packet_build_def Let_def
    by (simp add: n r small(2) source_ok_def step_def [symmetric] r2_def bytes_def)
  then show ?thesis using assms(2) p1 r2 le len by (auto simp: source_ok_def)
qed

lemma batch_loop_spec:
  assumes "source_ok ring policy" and "n \<le> 32" and "length (ob_bytes b) = 4992" and "length (ob_packetByteCounts b) = 32"
    and "ob_byteCount b = (\<Sum>j<n. unat (ob_packetByteCounts b ! j))"
    and "\<forall>j<n. ob_packetByteCounts b ! j = 60 \<or> ob_packetByteCounts b ! j = 72"
    and "batch_loop [n..<32] packet b ring policy = (ok, b', ring', policy')"
  shows "ok \<and> length (ob_bytes b') = 4992 \<and> length (ob_packetByteCounts b') = 32 \<and>
    ob_byteCount b' = (\<Sum>j<32. unat (ob_packetByteCounts b' ! j)) \<and>
    (\<forall>j<32. ob_packetByteCounts b' ! j = 60 \<or> ob_packetByteCounts b' ! j = 72) \<and> source_ok ring' policy'"
  using assms
proof (induction "32 - n" arbitrary: n packet b ring policy)
  case 0
  then have "n = 32" by simp
  with 0 show ?case by simp
next
  case (Suc m)
  then have n: "n < 32" "[n..<32] = n # [Suc n..<32]" by (simp_all add: upt_conv_Cons)
  obtain frames packet1 ring1 policy1 where p: "packet_build ring policy packet = (frames, packet1, ring1, policy1)"
    by (metis prod_cases4)
  note sp = packet_build_spec [OF Suc.prems(1) p]
  let ?b = "b\<lparr>ob_missingFrames := ob_missingFrames b + op_missingFrames packet1,
    ob_bytes := overwrite (ob_byteCount b) (take (op_byteCount packet1) (op_bytes packet1)) (ob_bytes b),
    ob_packetByteCounts := (ob_packetByteCounts b)[n := word_of_nat (op_byteCount packet1)],
    ob_byteCount := ob_byteCount b + op_byteCount packet1\<rparr>"
  have fr: "frames \<noteq> 0" "op_byteCount packet1 = 60 \<or> op_byteCount packet1 = 72" using sp by auto
  have "(\<Sum>j<n. unat (ob_packetByteCounts b ! j)) \<le> (\<Sum>j<n. 72)" by (rule sum_mono) (use Suc.prems(6) in auto)
  then have room: "ob_byteCount b + op_byteCount packet1 \<le> 4992" using n(1) fr(2) Suc.prems(5) by auto
  have len: "length (take (op_byteCount packet1) (op_bytes packet1)) = op_byteCount packet1" using sp fr by auto
  have go: "batch_loop [Suc n..<32] packet1 ?b ring1 policy1 = (ok, b', ring', policy')"
    using Suc.prems(7) p fr(1) by (simp add: n(2) Let_def)
  show ?case
  proof (rule Suc.hyps(1) [OF _ _ _ _ _ _ _ go])
    show "length (ob_bytes ?b) = 4992" using room len Suc.prems(3) by simp
    have w: "unat (word_of_nat (op_byteCount packet1) :: u16) = op_byteCount packet1" using fr(2) by (auto simp: unat_of_nat)
    show "ob_byteCount ?b = (\<Sum>j<Suc n. unat (ob_packetByteCounts ?b ! j))"
      using Suc.prems(4,5) n(1) w by (simp add: nth_list_update)
    show "\<forall>j<Suc n. ob_packetByteCounts ?b ! j = 60 \<or> ob_packetByteCounts ?b ! j = 72"
      using Suc.prems(4,6) n(1) fr(2) by (auto simp: nth_list_update less_Suc_eq)
  qed (use Suc.hyps(2) Suc.prems(4) n(1) sp in auto)
qed

text \<open>A transfer as the controller needs it: 32 packets of 60 or 72 bytes that add up to its byte count.\<close>

definition batch_ok :: "AudioOutTransferBatch \<Rightarrow> bool" where
  "batch_ok b \<longleftrightarrow> length (ob_bytes b) = 4992 \<and> length (ob_packetByteCounts b) = 32 \<and>
     ob_byteCount b = (\<Sum>j<32. unat (ob_packetByteCounts b ! j)) \<and>
     (\<forall>j<32. ob_packetByteCounts b ! j = 60 \<or> ob_packetByteCounts b ! j = 72)"

lemma batch_build_spec:
  assumes "source_ok ring policy" and "batch_build ring policy b = (ok, b', ring', policy')"
  shows "ok \<and> batch_ok b' \<and> source_ok ring' policy'"
  using batch_loop_spec [OF assms(1) _ _ _ _ _ assms(2) [unfolded batch_build_def]] by (simp add: batch_ok_def)

subsection \<open>Slots\<close>

definition slots_inv :: "AudioOutTransferSlots \<Rightarrow> bool" where
  "slots_inv t \<longleftrightarrow> length (ts_packets t) = 8 \<and> length (ts_inUse t) = 8 \<and>
     unat (ts_inFlight t) = length (filter (\<lambda>x. x) (ts_inUse t)) \<and> (\<forall>k<8. ts_inUse t ! k \<longrightarrow> batch_ok (ts_packets t ! k))"

lemma filter_update:
  "k < length xs \<Longrightarrow> length (filter (\<lambda>x. x) (xs[k := v])) + of_bool (xs ! k) = length (filter (\<lambda>x. x) xs) + of_bool v"
proof (induction xs arbitrary: k)
  case (Cons x xs)
  then show ?case by (cases k) auto
qed simp

lemma slots_complete_inv:
  assumes "slots_inv t" and "k < 8"
  shows "slots_inv (snd (slots_complete (word_of_nat k) t))"
    and "ts_inUse (snd (slots_complete (word_of_nat k) t)) = (ts_inUse t)[k := False]"
    and "ts_accepting (snd (slots_complete (word_of_nat k) t)) = ts_accepting t"
proof -
  have k: "unat (word_of_nat k :: u32) = k" "\<not> 8 \<le> (word_of_nat k :: u32)"
    using assms(2) by (simp_all add: unat_of_nat word_le_nat_alt)
  have l: "length (ts_inUse t) = 8" using assms(1) by (simp add: slots_inv_def)
  have f: "length (filter (\<lambda>x. x) ((ts_inUse t)[k := False])) + of_bool (ts_inUse t ! k) = length (filter (\<lambda>x. x) (ts_inUse t))"
    using filter_update [of k "ts_inUse t" False] assms(2) l by simp
  have same: "\<not> ts_inUse t ! k \<Longrightarrow> (ts_inUse t)[k := False] = ts_inUse t" using assms(2) l by (simp add: list_update_same_conv)
  have w: "unat (c - 1) = unat c - 1" if "0 < unat c" for c :: u32 using that unat_minus_one [of c] by (cases "c = 0") auto
  show "slots_inv (snd (slots_complete (word_of_nat k) t))"
  proof (cases "ts_inUse t ! k")
    case True
    then have "0 < unat (ts_inFlight t)" using assms(1) f by (cases "filter (\<lambda>x. x) (ts_inUse t)") (auto simp: slots_inv_def)
    from w [OF this] True assms k f show ?thesis by (auto simp: slots_complete_def slots_inv_def nth_list_update)
  qed (use assms k in \<open>simp add: slots_complete_def\<close>)
  show "ts_inUse (snd (slots_complete (word_of_nat k) t)) = (ts_inUse t)[k := False]"
    using k same by (simp add: slots_complete_def)
  show "ts_accepting (snd (slots_complete (word_of_nat k) t)) = ts_accepting t" by (simp add: slots_complete_def)
qed

lemma stopAccepting_inv [simp]: "slots_inv (stopAccepting t) = slots_inv t" "ts_inUse (stopAccepting t) = ts_inUse t"
  "ts_inFlight (stopAccepting t) = ts_inFlight t"
  by (simp_all add: stopAccepting_def slots_inv_def)

lemma slots_new_inv: "slots_inv slots_new"
  by (simp add: slots_new_def slots_inv_def)

text \<open>A reservation takes a free slot and fills it, or changes nothing but the packets.\<close>

lemma reserve_loop_spec:
  assumes "slots_inv t" and "source_ok ring policy" and "\<forall>i \<in> set is. i < 8" and "reserve_loop is ring policy t = (slot, t', ring', policy')"
  shows "slots_inv t' \<and> source_ok ring' policy' \<and> ts_accepting t' = ts_accepting t \<and>
    (slot = kNoSlot \<and> ts_inUse t' = ts_inUse t \<or>
     unat slot < 8 \<and> \<not> ts_inUse t ! unat slot \<and> ts_inUse t' = (ts_inUse t)[unat slot := True] \<and> batch_ok (ts_packets t' ! unat slot))"
  using assms
proof (induction "is")
  case (Cons i "is")
  show ?case
  proof (cases "ts_inUse t ! i")
    case True
    with Cons show ?thesis by simp
  next
    case False
    have i: "i < 8" "length (ts_inUse t) = 8" "length (ts_packets t) = 8" using Cons.prems by (simp_all add: slots_inv_def)
    have same: "(ts_inUse t)[i := False] = ts_inUse t" using False i by (simp add: list_update_same_conv)
    have t: "t\<lparr>ts_inUse := ts_inUse t\<rparr> = t" by simp
    obtain ok b r p where b: "batch_build ring policy (ts_packets t ! i) = (ok, b, r, p)" by (metis prod_cases4)
    note bs = batch_build_spec [OF Cons.prems(2) b]
    have w: "unat (word_of_nat i :: u32) = i" using i(1) by (simp add: unat_of_nat)
    have n: "length (filter (\<lambda>x. x) ((ts_inUse t)[i := True])) = Suc (length (filter (\<lambda>x. x) (ts_inUse t)))"
      using filter_update [of i "ts_inUse t" True] False i by simp
    have fl: "unat (ts_inFlight t + 1) = Suc (unat (ts_inFlight t))"
      using Cons.prems(1) length_filter_le [of "\<lambda>x. x" "ts_inUse t"] by (simp add: slots_inv_def unat_word_ariths)
    show ?thesis
    proof (cases "ts_accepting t")
      case False
      with Cons.prems \<open>\<not> ts_inUse t ! i\<close> same show ?thesis by auto
    next
      case True
      with Cons.prems(4) \<open>\<not> ts_inUse t ! i\<close> b bs
      have "slot = word_of_nat i" "t' = t\<lparr>ts_inUse := (ts_inUse t)[i := True], ts_packets := (ts_packets t)[i := b], ts_inFlight := ts_inFlight t + 1\<rparr>"
          "ring' = r" "policy' = p" by (auto simp: Let_def)
      with bs i w n fl Cons.prems(1) False show ?thesis by (auto simp: slots_inv_def nth_list_update)
    qed
  qed
qed auto

lemma slots_reserve_spec:
  assumes "slots_inv t" and "source_ok ring policy" and "slots_reserve ring policy t = (slot, t', ring', policy')"
  shows "slots_inv t' \<and> source_ok ring' policy' \<and> ts_accepting t' = ts_accepting t \<and>
    (slot = kNoSlot \<and> ts_inUse t' = ts_inUse t \<or>
     unat slot < 8 \<and> \<not> ts_inUse t ! unat slot \<and> ts_inUse t' = (ts_inUse t)[unat slot := True] \<and> batch_ok (ts_packets t' ! unat slot))"
  using reserve_loop_spec [OF assms(1,2), of "[0..<8]" slot t' ring' policy'] assms
  by (cases "ts_accepting t") (auto simp: slots_reserve_def)

subsection \<open>Buffers of transfers in flight\<close>

definition has_buffers :: "AudioOutWorker \<Rightarrow> nat \<Rightarrow> bool" where
  "has_buffers w k \<longleftrightarrow> os_data (ow_slots w ! k) \<noteq> None \<and> os_frames (ow_slots w ! k) \<noteq> None"

definition worker_inv :: "AudioOutWorker \<Rightarrow> bool" where
  "worker_inv w \<longleftrightarrow> slots_inv (ow_transferSlots w) \<and> length (ow_slots w) = 8 \<and> source_ok (ow_ring w) (ow_packetPolicy w) \<and>
     (\<forall>k<8. ts_inUse (ow_transferSlots w) ! k \<longrightarrow> has_buffers w k) \<and> (ow_running w \<longrightarrow> (\<forall>k<8. has_buffers w k)) \<and>
     (\<not> ow_initialized w \<longrightarrow> \<not> ow_running w \<and> (\<forall>k<8. \<not> ts_inUse (ow_transferSlots w) ! k))"

lemma worker_inv_session [simp]: "worker_inv (w\<lparr>ow_session := s\<rparr>) = worker_inv w"
  by (simp add: worker_inv_def has_buffers_def)

lemma worker_call_inv: "worker_call env c w = (st, w') \<Longrightarrow> \<exists>s. w' = w\<lparr>ow_session := s\<rparr>"
  by (auto simp: worker_call_def split: prod.splits)

lemma give_back_inv:
  assumes "worker_inv w" and "unat slot < 8"
  shows "worker_inv (give_back slot w)"
proof -
  have i: "slots_inv (ow_transferSlots w)" "length (ts_inUse (ow_transferSlots w)) = 8" using assms(1) by (auto simp: worker_inv_def slots_inv_def)
  show ?thesis using assms slots_complete_inv [OF i(1) assms(2)] i(2)
    by (auto simp: give_back_def worker_inv_def has_buffers_def nth_list_update)
qed

lemma halt_inv:
  "worker_inv w \<Longrightarrow> worker_inv (worker_halt w)" "ow_initialized (worker_halt w) = ow_initialized w" "\<not> ow_running (worker_halt w)"
  "ow_session (worker_halt w) = ow_session w"
  by (auto simp: worker_halt_def worker_inv_def has_buffers_def)

lemma count_completed_inv:
  "worker_inv w \<Longrightarrow> worker_inv (count_completed k w)" "ow_initialized (count_completed k w) = ow_initialized w"
  "ow_running (count_completed k w) = ow_running w" "ow_session (count_completed k w) = ow_session w"
  by (auto simp: count_completed_def worker_inv_def has_buffers_def Let_def)

lemma load_slot_inv:
  assumes "worker_inv w" and "k < 8"
  shows "worker_inv (load_slot batch k w)"
proof -
  have "has_buffers (load_slot batch k w) j = has_buffers w j" if "j < 8" for j
    using assms that by (auto simp: load_slot_def has_buffers_def worker_inv_def nth_list_update Let_def)
  then show ?thesis using assms by (auto simp: worker_inv_def load_slot_def Let_def)
qed

lemma load_slot_same [simp]:
  "ow_session (load_slot batch k w) = ow_session w" "ow_running (load_slot batch k w) = ow_running w"
  "ow_initialized (load_slot batch k w) = ow_initialized w" "ow_session (give_back i w) = ow_session w"
  "ow_running (give_back i w) = ow_running w" "ow_initialized (give_back i w) = ow_initialized w"
  by (simp_all add: load_slot_def give_back_def Let_def)

lemma call_interface: "call env c s = (st, s') \<Longrightarrow> ds_interface s' = ds_interface s"
  by (auto simp: call_def Let_def)

lemma submitNext_inv:
  assumes "worker_inv w" and "submitNext env w = (st, w')"
  shows "worker_inv w' \<and> ow_initialized w' = ow_initialized w \<and> ow_running w' = ow_running w \<and>
    ds_interface (ow_session w') = ds_interface (ow_session w)"
proof (cases "ds_interface (ow_session w) = None \<or> \<not> ow_running w")
  case True
  then have "w' = w" using assms(2) by (auto simp: submitNext_def split: option.splits)
  with assms show ?thesis by simp
next
  case False
  then obtain i where i: "ds_interface (ow_session w) = Some i" and run: "ow_running w" by auto
  obtain slot t ring policy where r: "slots_reserve (ow_ring w) (ow_packetPolicy w) (ow_transferSlots w) = (slot, t, ring, policy)"
    by (metis prod_cases4)
  have inv: "slots_inv (ow_transferSlots w)" "source_ok (ow_ring w) (ow_packetPolicy w)" "length (ow_slots w) = 8" "\<forall>k<8. has_buffers w k" "ow_initialized w"
    using assms(1) run by (auto simp: worker_inv_def)
  note sp = slots_reserve_spec [OF inv(1,2) r]
  define w1 where "w1 = w\<lparr>ow_transferSlots := t, ow_ring := ring, ow_packetPolicy := policy\<rparr>"
  have w1: "worker_inv w1" using sp inv by (auto simp: w1_def worker_inv_def has_buffers_def)
  define w2 where "w2 = load_slot (ts_packets t ! unat slot) (unat slot) w1"
  obtain st3 s3 where c: "call env (IsocTransfer i (ds_audioOutPipe (ow_session w)) (unat slot)) (ow_session w) = (st3, s3)" by fastforce
  have same: "ow_session w2 = ow_session w" "ow_session w1 = ow_session w" "ow_running w2 = ow_running w" "ow_initialized w2 = ow_initialized w"
      "ow_running w1 = ow_running w" "ow_initialized w1 = ow_initialized w"
    by (simp_all add: w2_def w1_def)
  have cases: "w' = w1 \<or> unat slot < 8 \<and> (w' = give_back slot w1 \<or> w' = give_back slot w2 \<or> w' = give_back slot (w2\<lparr>ow_session := s3\<rparr>)
      \<or> w' = w2\<lparr>ow_session := s3, ow_submitted := ow_submitted w2 + 1\<rparr>)"
    using assms(2) i run r sp same c unfolding submitNext_def w1_def [symmetric] w2_def
    by (auto simp: Let_def slots_packet_def worker_call_def word_less_nat_alt w1_def [symmetric] split: if_splits)
  have w2: "unat slot < 8 \<Longrightarrow> worker_inv w2" using load_slot_inv [OF w1] by (simp add: w2_def)
  have sub: "worker_inv (w\<lparr>ow_submitted := n\<rparr>) = worker_inv w" for w n by (simp add: worker_inv_def has_buffers_def)
  show ?thesis using cases w1 w2 same call_interface [OF c]
    by (elim disjE conjE) (auto simp: give_back_inv sub)
qed

lemma didComplete_inv:
  assumes "worker_inv w" and "k < 8"
  shows "worker_inv (didComplete env k status w) \<and> ow_initialized (didComplete env k status w) = ow_initialized w \<and>
    (ow_running (didComplete env k status w) \<longrightarrow> ow_running w) \<and>
    ds_interface (ow_session (didComplete env k status w)) = ds_interface (ow_session w)"
proof -
  define w1 where "w1 = give_back (word_of_nat k) w"
  have "unat (word_of_nat k :: u32) = k" using assms(2) by (simp add: unat_of_nat)
  then have w1: "worker_inv w1" using give_back_inv [OF assms(1)] assms(2) by (simp add: w1_def)
  have same: "ow_session w1 = ow_session w" "ow_running w1 = ow_running w" "ow_initialized w1 = ow_initialized w" by (simp_all add: w1_def)
  obtain st w3 where w3: "submitNext env (count_completed k w1) = (st, w3)" by fastforce
  note n = submitNext_inv [OF count_completed_inv(1) [OF w1] w3]
  show ?thesis unfolding didComplete_def Let_def w1_def [symmetric] w3 prod.case
    using n w1 same by (simp add: count_completed_inv halt_inv)
qed

lemma complete_event_inv:
  assumes "worker_inv w" and "oc_slot c < 8"
  shows "worker_inv (complete_event env c w) \<and> ow_initialized (complete_event env c w) = ow_initialized w \<and>
    (ow_running (complete_event env c w) \<longrightarrow> ow_running w) \<and>
    ds_interface (ow_session (complete_event env c w)) = ds_interface (ow_session w)"
proof -
  let ?slot = "(ow_slots w ! oc_slot c)\<lparr>os_frames := map_option (deliver_frames (oc_frames c)) (os_frames (ow_slots w ! oc_slot c))\<rparr>"
  let ?w = "w\<lparr>ow_slots := (ow_slots w)[oc_slot c := ?slot]\<rparr>"
  have "has_buffers ?w k = has_buffers w k" if "k < 8" for k
    using assms that by (auto simp: worker_inv_def has_buffers_def nth_list_update)
  then have "worker_inv ?w" using assms(1) by (auto simp: worker_inv_def)
  from didComplete_inv [OF this assms(2), of env "oc_status c"] show ?thesis by (simp add: complete_event_def Let_def)
qed

lemma fold_complete_inv:
  assumes "worker_inv w" and "list_all (\<lambda>c. oc_slot c < 8) cs"
  shows "worker_inv (fold (complete_event env) cs w) \<and> ow_initialized (fold (complete_event env) cs w) = ow_initialized w \<and>
    (ow_running (fold (complete_event env) cs w) \<longrightarrow> ow_running w) \<and>
    ds_interface (ow_session (fold (complete_event env) cs w)) = ds_interface (ow_session w)"
  using assms
proof (induction cs arbitrary: w)
  case (Cons c cs)
  from complete_event_inv [of w c env] Cons.prems Cons.IH [of "complete_event env c w"] show ?case by auto
qed simp

lemma drain_inv:
  assumes "worker_inv w" and "list_all (list_all (\<lambda>c. oc_slot c < 8)) polls"
  shows "worker_inv (drain env polls w) \<and> ow_initialized (drain env polls w) = ow_initialized w \<and>
    (ow_running (drain env polls w) \<longrightarrow> ow_running w) \<and>
    ds_interface (ow_session (drain env polls w)) = ds_interface (ow_session w)"
  using assms
proof (induction polls arbitrary: w)
  case (Cons p ps)
  from fold_complete_inv [of w p env] Cons.prems Cons.IH [of "fold (complete_event env) p w"] show ?case by auto
qed simp

text \<open>Releasing the buffers clears every slot, or nothing when the interface is gone.\<close>

lemma destroy_buffer_eq: "\<exists>st s. destroy_buffer env i present k (r, w) = (st, w\<lparr>ow_session := s\<rparr>)"
  by (cases present) (auto simp: destroy_buffer_def worker_call_def split: prod.split intro: exI [of _ "ow_session w"])

lemma releaseBuffers_eq:
  assumes "length (ow_slots w) = 8"
  shows "\<exists>st s. releaseBuffers env w = (st, w\<lparr>ow_session := s,
    ow_slots := (if ds_interface (ow_session w) = None then ow_slots w else replicate 8 \<lparr>os_data = None, os_frames = None\<rparr>)\<rparr>)"
proof (cases "ds_interface (ow_session w)")
  case None
  then show ?thesis by (auto simp: releaseBuffers_def intro: exI [of _ "ow_session w"])
next
  case (Some i)
  define step where "step = (\<lambda>k r. let slot = ow_slots (snd r) ! k;
      (result, w) = destroy_buffer env i (os_data slot \<noteq> None) (2 * k) r;
      (result, w) = destroy_buffer env i (os_frames slot \<noteq> None) (2 * k + 1) (result, w)
    in (result, w\<lparr>ow_slots := (ow_slots w)[k := \<lparr>os_data = None, os_frames = None\<rparr>]\<rparr>))"
  have one: "\<exists>st s. step k (r, w) = (st, w\<lparr>ow_session := s, ow_slots := (ow_slots w)[k := \<lparr>os_data = None, os_frames = None\<rparr>]\<rparr>)" for k r w
  proof -
    obtain st1 s1 where 1: "destroy_buffer env i (os_data (ow_slots w ! k) \<noteq> None) (2 * k) (r, w) = (st1, w\<lparr>ow_session := s1\<rparr>)"
      using destroy_buffer_eq by blast
    obtain st2 s2 where 2: "destroy_buffer env i (os_frames (ow_slots w ! k) \<noteq> None) (2 * k + 1) (st1, w\<lparr>ow_session := s1\<rparr>) =
        (st2, w\<lparr>ow_session := s2\<rparr>)"
      using destroy_buffer_eq [of env i "os_frames (ow_slots w ! k) \<noteq> None" "2 * k + 1" st1 "w\<lparr>ow_session := s1\<rparr>"] by fastforce
    show ?thesis unfolding step_def Let_def snd_conv 1 prod.case 2 by auto
  qed
  have "\<exists>st s. fold step [0..<n] (kIOReturnSuccess, w) = (st, w\<lparr>ow_session := s,
      ow_slots := replicate n \<lparr>os_data = None, os_frames = None\<rparr> @ drop n (ow_slots w)\<rparr>)" if "n \<le> 8" for n
    using that
  proof (induction n)
    case 0
    then show ?case by (auto intro: exI [of _ "ow_session w"])
  next
    case (Suc n)
    then obtain st s where f: "fold step [0..<n] (kIOReturnSuccess, w) = (st, w\<lparr>ow_session := s,
      ow_slots := replicate n \<lparr>os_data = None, os_frames = None\<rparr> @ drop n (ow_slots w)\<rparr>)" by auto
    have d: "drop n (ow_slots w) = ow_slots w ! n # drop (Suc n) (ow_slots w)"
      using assms Suc.prems by (simp add: Cons_nth_drop_Suc)
    have "replicate (Suc n) x @ ys = replicate n x @ x # ys" for x :: out_slot and ys by (simp add: replicate_append_same)
    then show ?case using f one [of n st "w\<lparr>ow_session := s, ow_slots := replicate n \<lparr>os_data = None, os_frames = None\<rparr> @ drop n (ow_slots w)\<rparr>"]
      by (auto simp: d list_update_append)
  qed
  from this [of 8] show ?thesis using Some assms by (simp add: releaseBuffers_def step_def)
qed

lemma releaseBuffers_inv:
  assumes "worker_inv w" and "\<not> ow_running w" and "ts_inFlight (ow_transferSlots w) = 0 \<or> ds_interface (ow_session w) = None"
  shows "worker_inv (snd (releaseBuffers env w)) \<and> ow_initialized (snd (releaseBuffers env w)) = ow_initialized w \<and>
    \<not> ow_running (snd (releaseBuffers env w)) \<and> ow_transferSlots (snd (releaseBuffers env w)) = ow_transferSlots w \<and>
    (ds_interface (ow_session w) \<noteq> None \<longrightarrow>
       ow_slots (snd (releaseBuffers env w)) = replicate 8 \<lparr>os_data = None, os_frames = None\<rparr>)"
proof -
  have l: "length (ow_slots w) = 8" "slots_inv (ow_transferSlots w)" using assms(1) by (auto simp: worker_inv_def)
  obtain st s where r: "releaseBuffers env w = (st, w\<lparr>ow_session := s,
      ow_slots := (if ds_interface (ow_session w) = None then ow_slots w else replicate 8 \<lparr>os_data = None, os_frames = None\<rparr>)\<rparr>)"
    using releaseBuffers_eq [OF l(1)] by blast
  have "\<not> ts_inUse (ow_transferSlots w) ! k" if "ts_inFlight (ow_transferSlots w) = 0" "k < 8" for k
  proof
    assume u: "ts_inUse (ow_transferSlots w) ! k"
    have "length (filter (\<lambda>x. x) (ts_inUse (ow_transferSlots w))) = 0" using l(2) that by (simp add: slots_inv_def)
    with u that l(2) show False by (auto simp: slots_inv_def filter_empty_conv in_set_conv_nth)
  qed
  then show ?thesis using assms r by (auto simp: worker_inv_def has_buffers_def)
qed

text \<open>The events deliver only completions of existing slots.\<close>

abbreviation polls_ok :: "out_completion list list \<Rightarrow> bool" where
  "polls_ok polls \<equiv> list_all (list_all (\<lambda>c. oc_slot c < 8)) polls"

lemma abort_and_drain_inv:
  assumes "worker_inv w" and "polls_ok polls" and "\<not> ow_running w" and "abort_and_drain env polls w = (st, w')"
  shows "worker_inv w' \<and> ow_initialized w' = ow_initialized w \<and> \<not> ow_running w' \<and> ds_interface (ow_session w') = ds_interface (ow_session w)"
proof (cases "ds_interface (ow_session w) = None \<or> ts_inFlight (ow_transferSlots w) = 0")
  case True
  then have "w' = w" using assms(4) by (auto simp: abort_and_drain_def split: option.splits)
  with assms show ?thesis by simp
next
  case False
  then obtain i where i: "ds_interface (ow_session w) = Some i" by auto
  obtain st1 s where c: "call env (AbortPipe i (ds_audioOutPipe (ow_session w))) (ow_session w) = (st1, s)" by fastforce
  have "w' = drain env polls (w\<lparr>ow_session := s\<rparr>)" using assms(4) False i c by (simp add: abort_and_drain_def worker_call_def)
  moreover have "ds_interface s = Some i" using call_interface [OF c] i by simp
  ultimately show ?thesis using drain_inv [of "w\<lparr>ow_session := s\<rparr>" polls env] assms i by auto
qed

lemma release_source_eq: "\<exists>st s b. release_source r w = (st, w\<lparr>ow_session := s, ow_sourceAdded := b\<rparr>) \<and> ds_interface s = ds_interface (ow_session w)"
proof (cases "ow_sourceAdded w \<and> ow_runLoop w \<noteq> None")
  case True
  obtain st s where e: "releaseEvents (ow_runLoop w) (ow_session w) = (st, s)" by fastforce
  have "ds_interface (snd (releaseEvents l x)) = ds_interface x" for l x
    by (auto simp: releaseEvents_def Let_def split: option.split)
  from this [of "ow_runLoop w" "ow_session w"] e True show ?thesis by (auto simp: release_source_def)
next
  case False
  then show ?thesis by (auto simp: release_source_def intro!: exI [of _ "ow_session w"] exI [of _ "ow_sourceAdded w"])
qed

lemma worker_stop_inv:
  assumes "worker_inv w" and "polls_ok polls" and "worker_stop env polls w = (st, w')"
  shows "worker_inv w' \<and> (ow_initialized w \<longrightarrow> \<not> ow_running w') \<and> ow_initialized w' = ow_initialized w \<and>
    (ow_initialized w \<and> st \<noteq> kIOReturnTimeout \<and> ds_interface (ow_session w) \<noteq> None \<longrightarrow>
       ts_inFlight (ow_transferSlots w') = 0 \<and> ow_slots w' = replicate 8 \<lparr>os_data = None, os_frames = None\<rparr>)"
proof (cases "ow_initialized w")
  case False
  then show ?thesis using assms by (simp add: worker_stop_def)
next
  case True
  define w1 where "w1 = w\<lparr>ow_running := False, ow_transferSlots := stopAccepting (ow_transferSlots w)\<rparr>"
  have w1: "worker_inv w1" "\<not> ow_running w1" "ow_initialized w1" "ow_session w1 = ow_session w"
    using assms(1) True by (auto simp: w1_def worker_inv_def has_buffers_def)
  obtain r2 w2 where d: "abort_and_drain env polls w1 = (r2, w2)" by fastforce
  note w2 = abort_and_drain_inv [OF w1(1) assms(2) w1(2) d]
  show ?thesis
  proof (cases "ds_interface (ow_session w2) \<noteq> None \<and> ts_inFlight (ow_transferSlots w2) \<noteq> 0")
    case bad: True
    then have "worker_stop env polls w = (kIOReturnTimeout, w2)"
      using True d by (simp add: worker_stop_def w1_def [symmetric] Let_def)
    then show ?thesis using assms(3) w2 w1 True by simp
  next
    case False
    obtain r3 s3 b3 where r: "release_source r2 w2 = (r3, w2\<lparr>ow_session := s3, ow_sourceAdded := b3\<rparr>)"
        "ds_interface s3 = ds_interface (ow_session w2)" using release_source_eq by blast
    define w3 where "w3 = w2\<lparr>ow_session := s3, ow_sourceAdded := b3\<rparr>"
    have w3: "worker_inv w3" using w2 by (simp add: w3_def worker_inv_def has_buffers_def)
    have "w' = snd (releaseBuffers env w3)" using True False d r assms(3)
      by (auto simp: worker_stop_def w1_def [symmetric] Let_def w3_def split: prod.splits)
    moreover have "\<not> ow_running w3" "ts_inFlight (ow_transferSlots w3) = 0 \<or> ds_interface (ow_session w3) = None"
        "ow_initialized w3" "ow_transferSlots w3 = ow_transferSlots w2" "ds_interface (ow_session w3) = ds_interface (ow_session w)"
      using w2 False r(2) w1 by (auto simp: w3_def)
    ultimately show ?thesis using releaseBuffers_inv [OF w3, of env] True by auto
  qed
qed

lemma create_buffers_inv:
  assumes "worker_inv w" and "\<not> ow_initialized w" and "create_buffers env i [n..<8] w = (st, w')" and "\<forall>k<n. has_buffers w k"
  shows "worker_inv w' \<and> \<not> ow_initialized w' \<and> (st = kIOReturnSuccess \<longrightarrow> (\<forall>k<8. has_buffers w' k))"
  using assms
proof (induction "8 - n" arbitrary: n w)
  case 0
  then show ?case by simp
next
  case (Suc m)
  then have n: "n < 8" "[n..<8] = n # [Suc n..<8]" by (simp_all add: upt_conv_Cons)
  have len: "length (ow_slots w) = 8" using Suc.prems by (simp add: worker_inv_def)
  have keep: "worker_inv (v\<lparr>ow_session := s, ow_slots := xs\<rparr>)" if "worker_inv v" "\<not> ow_initialized v" "length xs = 8" for v xs s
    using that by (auto simp: worker_inv_def)
  obtain st1 s1 where c1: "call env (CreateBuffer i (2 * n)) (ow_session w) = (st1, s1)" by fastforce
  define w1 where "w1 = w\<lparr>ow_session := s1, ow_slots := (ow_slots w)[n := (ow_slots w ! n)\<lparr>os_data := Some (replicate 4992 0)\<rparr>]\<rparr>"
  obtain st2 s2 where c2: "call env (CreateBuffer i (2 * n + 1)) s1 = (st2, s2)" by fastforce
  define w2 where "w2 = w1\<lparr>ow_session := s2, ow_slots := (ow_slots w1)[n := (ow_slots w1 ! n)\<lparr>os_frames := Some (replicate 32
     \<lparr>fr_status = kIOReturnSuccess, fr_reqCount = 0, fr_actCount = 0\<rparr>)\<rparr>]\<rparr>"
  have len1: "length (ow_slots w1) = 8" using len by (simp add: w1_def)
  have i1: "worker_inv w1" "\<not> ow_initialized w1" using keep [of w] Suc.prems len by (simp_all add: w1_def)
  have i2: "worker_inv w2" "\<not> ow_initialized w2" using keep [OF i1] i1 len1 by (simp_all add: w2_def)
  have b: "\<forall>k<Suc n. has_buffers w2 k"
    using Suc.prems(4) n len by (auto simp: has_buffers_def w2_def w1_def nth_list_update less_Suc_eq)
  have e: "create_buffers env i [n..<8] w = (if st1 \<noteq> kIOReturnSuccess then (st1, w\<lparr>ow_session := s1\<rparr>)
      else if st2 \<noteq> kIOReturnSuccess then (st2, w1\<lparr>ow_session := s2\<rparr>) else create_buffers env i [Suc n..<8] w2)"
    unfolding n(2) by (simp add: on_success_def worker_call_def c1 c2 [simplified] w1_def w2_def)
  have "8 - Suc n = m" using Suc.hyps(2) by simp
  from Suc.hyps(1) [OF this [symmetric] i2] Suc.prems e b i1 i2 show ?case by (auto split: if_splits)
qed

lemma submit_all_inv:
  assumes "worker_inv w" and "submit_all env n w = (st, w')"
  shows "worker_inv w' \<and> ow_initialized w' = ow_initialized w"
  using assms
proof (induction n arbitrary: w)
  case (Suc n)
  obtain st1 w1 where n: "submitNext env w = (st1, w1)" by fastforce
  from submitNext_inv [OF Suc.prems(1) n] Suc.IH [of w1] Suc.prems(2) n show ?case
    by (auto simp: on_success_def split: if_splits)
qed simp

lemma ow_init_session: "ow_initialized (w\<lparr>ow_session := s\<rparr>) = ow_initialized w"
  by simp

lemma worker_start_inv:
  assumes "worker_inv w" and "polls_ok polls"
  shows "worker_inv (snd (worker_start env l polls w))"
proof (cases "\<exists>i rl. ds_interface (ow_session w) = Some i \<and> l = Some rl \<and> \<not> ow_initialized w \<and> ds_audioOutPipe (ow_session w) \<noteq> 0 \<and>
    ds_asyncEventSource (ow_session w) \<noteq> None")
  case False
  then have "snd (worker_start env l polls w) = w" by (auto simp: worker_start_def split: option.splits)
  with assms show ?thesis by simp
next
  case True
  then obtain i rl src where g: "ds_interface (ow_session w) = Some i" "l = Some rl" "\<not> ow_initialized w"
      "ds_audioOutPipe (ow_session w) \<noteq> 0" "ds_asyncEventSource (ow_session w) = Some src" by blast
  define w1 where "w1 = worker_note (RunLoopRetain rl) (w\<lparr>ow_runLoop := Some rl\<rparr>)"
  define undo where "undo = (\<lambda>st w. (st :: IOReturn, (worker_note (RunLoopRelease rl) (snd (releaseBuffers env w)))\<lparr>ow_runLoop := None\<rparr>))"
  have w1: "worker_inv w1" "\<not> ow_initialized w1" using assms(1) g(3) by (auto simp: w1_def worker_note_def worker_inv_def has_buffers_def)
  have undo: "worker_inv (snd (undo st v))" if "worker_inv v" "\<not> ow_initialized v" for st v
  proof -
    have f: "\<not> ow_running v" "\<forall>k<8. \<not> ts_inUse (ow_transferSlots v) ! k" "slots_inv (ow_transferSlots v)"
      using that by (auto simp: worker_inv_def)
    then have "length (filter (\<lambda>x. x) (ts_inUse (ow_transferSlots v))) = 0"
      by (auto simp: slots_inv_def filter_empty_conv in_set_conv_nth)
    with f(3) have "ts_inFlight (ow_transferSlots v) = 0" by (simp add: slots_inv_def unat_eq_zero)
    from releaseBuffers_inv [OF that(1) f(1), of env] this show ?thesis
      by (auto simp: undo_def worker_note_def worker_inv_def has_buffers_def)
  qed
  obtain st2 w2 where c: "create_buffers env i [0..<8] w1 = (st2, w2)" by fastforce
  note w2 = create_buffers_inv [OF w1 c, simplified]
  obtain st3 s3 where a: "acquireEvents (Some rl) (ow_session w2) = (st3, s3)" by fastforce
  define w4 where "w4 = w2\<lparr>ow_session := s3, ow_sourceAdded := True, ow_running := True, ow_initialized := True\<rparr>"
  obtain st5 w5 where s: "submit_all env 8 w4 = (st5, w5)" by fastforce
  have e: "snd (worker_start env l polls w) =
      (if st2 \<noteq> kIOReturnSuccess then snd (undo st2 w2)
       else if st3 \<noteq> kIOReturnSuccess then snd (undo st3 (w2\<lparr>ow_session := s3\<rparr>))
       else if st5 = kIOReturnSuccess then w5 else snd (worker_stop env polls (w5\<lparr>ow_failures := ow_failures w5 + 1\<rparr>)))"
    using g unfolding worker_start_def undo_def
    by (simp add: Let_def w1_def [symmetric] on_success_def c a w4_def [symmetric] s)
  have w5: "worker_inv w5" if "st2 = kIOReturnSuccess"
    using submit_all_inv [OF _ s] w2 that by (auto simp: w4_def worker_inv_def has_buffers_def)
  show ?thesis
  proof (cases "st2 = kIOReturnSuccess")
    case True
    have "worker_inv (w5\<lparr>ow_failures := ow_failures w5 + 1\<rparr>)" using w5 [OF True] by (simp add: worker_inv_def has_buffers_def)
    from worker_stop_inv [OF this assms(2) surjective_pairing, of env]
    have "worker_inv (snd (worker_stop env polls (w5\<lparr>ow_failures := ow_failures w5 + 1\<rparr>)))" by simp
    with undo [of "w2\<lparr>ow_session := s3\<rparr>" st3] w2 w5 [OF True] True show ?thesis by (simp add: e)
  qed (use undo w2 in \<open>simp add: e\<close>)
qed

text \<open>
  The life of a worker: it is created, started, its transfers complete in any order, it is stopped, the ring and the policy
  move under the other threads and the session may be closed or reopened at any time.
\<close>

inductive worker_reach :: "usb_env \<Rightarrow> AudioOutWorker \<Rightarrow> bool" for env where
  new: "source_ok ring policy \<Longrightarrow> worker_reach env (worker_new session ring policy)"
| start: "worker_reach env w \<Longrightarrow> polls_ok polls \<Longrightarrow> worker_reach env (snd (worker_start env l polls w))"
| completion: "worker_reach env w \<Longrightarrow> oc_slot c < 8 \<Longrightarrow> worker_reach env (complete_event env c w)"
| stop: "worker_reach env w \<Longrightarrow> polls_ok polls \<Longrightarrow> worker_reach env (snd (worker_stop env polls w))"
| source: "worker_reach env w \<Longrightarrow> source_ok ring policy \<Longrightarrow> worker_reach env (w\<lparr>ow_ring := ring, ow_packetPolicy := policy\<rparr>)"
| session: "worker_reach env w \<Longrightarrow> worker_reach env (w\<lparr>ow_session := s\<rparr>)"

lemma worker_reach_inv: "worker_reach env w \<Longrightarrow> worker_inv w"
proof (induction rule: worker_reach.induct)
  case (new ring policy session)
  then show ?case using slots_new_inv by (auto simp: worker_new_def worker_inv_def slots_new_def)
next
  case (start w polls l)
  then show ?case using worker_start_inv by blast
next
  case (completion w c)
  then show ?case using complete_event_inv by blast
next
  case (stop w polls)
  then show ?case using worker_stop_inv [OF stop(3,2) surjective_pairing, of env] by blast
next
  case (source w ring policy)
  then show ?case by (simp add: worker_inv_def has_buffers_def)
qed simp

subsection \<open>Every buffer is handed back\<close>

text \<open>The buffers of \<open>slots\<close>, by number, and those a history has handed back.\<close>

definition held :: "out_slot list \<Rightarrow> nat list \<Rightarrow> nat list" where
  "held slots ks = concat (map (\<lambda>k. (if os_data (slots ! k) \<noteq> None then [2 * k] else []) @
     (if os_frames (slots ! k) \<noteq> None then [2 * k + 1] else [])) ks)"

definition destroyed :: "usb_trace \<Rightarrow> (nat \<times> nat) list" where
  "destroyed tr = concat (map (\<lambda>(c, st). case c of DestroyBuffer i n \<Rightarrow> [(i, n)] | _ \<Rightarrow> []) tr)"

abbreviation worker_destroyed :: "AudioOutWorker \<Rightarrow> (nat \<times> nat) list" where
  "worker_destroyed w \<equiv> destroyed (ds_trace (ow_session w))"

lemma destroyed_append [simp]: "destroyed (tr @ tr') = destroyed tr @ destroyed tr'"
  by (simp add: destroyed_def)

lemma destroy_buffer_destroyed:
  assumes "destroy_buffer env i present k (r, w) = (st, w')"
  shows "worker_destroyed w' = worker_destroyed w @ (if present then [(i, k)] else []) \<and> ow_slots w' = ow_slots w"
  using assms by (auto simp: destroy_buffer_def worker_call_def call_def Let_def destroyed_def split: if_splits)

lemma releaseBuffers_destroyed:
  assumes "ds_interface (ow_session w) = Some i" and "length (ow_slots w) = 8"
  shows "worker_destroyed (snd (releaseBuffers env w)) = worker_destroyed w @ map (Pair i) (held (ow_slots w) [0..<8])"
proof -
  define step where "step = (\<lambda>k r. let slot = ow_slots (snd r) ! k;
      (result, w) = destroy_buffer env i (os_data slot \<noteq> None) (2 * k) r;
      (result, w) = destroy_buffer env i (os_frames slot \<noteq> None) (2 * k + 1) (result, w)
    in (result, w\<lparr>ow_slots := (ow_slots w)[k := \<lparr>os_data = None, os_frames = None\<rparr>]\<rparr>))"
  have one: "worker_destroyed (snd (step k r)) = worker_destroyed (snd r) @ map (Pair i) (held (ow_slots (snd r)) [k]) \<and>
      ow_slots (snd (step k r)) = (ow_slots (snd r))[k := \<lparr>os_data = None, os_frames = None\<rparr>]" for k r
  proof -
    obtain st w1 where r: "r = (st, w1)" by fastforce
    obtain st2 w2 where 1: "destroy_buffer env i (os_data (ow_slots w1 ! k) \<noteq> None) (2 * k) (st, w1) = (st2, w2)" by fastforce
    obtain st3 w3 where 2: "destroy_buffer env i (os_frames (ow_slots w1 ! k) \<noteq> None) (2 * k + 1) (st2, w2) = (st3, w3)" by fastforce
    show ?thesis using destroy_buffer_destroyed [OF 1] destroy_buffer_destroyed [OF 2] unfolding r step_def Let_def snd_conv 1 prod.case 2
      by (simp add: held_def)
  qed
  have "worker_destroyed (snd (fold step [0..<n] (kIOReturnSuccess, w))) = worker_destroyed w @ map (Pair i) (held (ow_slots w) [0..<n]) \<and>
      (\<forall>k. n \<le> k \<longrightarrow> ow_slots (snd (fold step [0..<n] (kIOReturnSuccess, w))) ! k = ow_slots w ! k)" for n
  proof (induction n)
    case (Suc n)
    then show ?case using one [of n "fold step [0..<n] (kIOReturnSuccess, w)"] by (auto simp: held_def)
  qed (simp add: held_def)
  then show ?thesis using assms by (simp add: releaseBuffers_def step_def)
qed

lemma held_cong:
  assumes "\<And>k. k \<in> set ks \<Longrightarrow> (os_data (a ! k) = None) = (os_data (b ! k) = None) \<and> (os_frames (a ! k) = None) = (os_frames (b ! k) = None)"
  shows "held a ks = held b ks"
  using assms by (induction ks) (simp_all add: held_def del: not_None_eq)

text \<open>A completion that finds the worker stopped makes no call and leaves the buffers.\<close>

lemma complete_stopped_buffers:
  assumes "\<not> ow_running w" and "length (ow_slots w) = 8" and "oc_slot c < 8"
  shows "ow_session (complete_event env c w) = ow_session w \<and> held (ow_slots (complete_event env c w)) [0..<8] = held (ow_slots w) [0..<8]"
proof -
  have "ow_slots (complete_event env c w) =
      (ow_slots w)[oc_slot c := (ow_slots w ! oc_slot c)\<lparr>os_frames := map_option (deliver_frames (oc_frames c)) (os_frames (ow_slots w ! oc_slot c))\<rparr>]"
    "ow_session (complete_event env c w) = ow_session w"
    using assms by (simp_all add: complete_event_def didComplete_def give_back_def worker_halt_def count_completed_def Let_def)
  then show ?thesis using assms(2,3) by (auto intro!: held_cong simp: nth_list_update split: if_splits)
qed

lemma fold_complete_buffers:
  assumes "worker_inv w" and "\<not> ow_running w" and "list_all (\<lambda>c. oc_slot c < 8) cs"
  shows "ow_session (fold (complete_event env) cs w) = ow_session w \<and> held (ow_slots (fold (complete_event env) cs w)) [0..<8] = held (ow_slots w) [0..<8]"
  using assms
proof (induction cs arbitrary: w)
  case (Cons c cs)
  have "length (ow_slots w) = 8" using Cons.prems(1) by (simp add: worker_inv_def)
  then show ?case using Cons complete_event_inv [of w c env] complete_stopped_buffers [of w c env] by auto
qed simp

lemma drain_buffers:
  assumes "worker_inv w" and "\<not> ow_running w" and "polls_ok polls"
  shows "ow_session (drain env polls w) = ow_session w \<and> held (ow_slots (drain env polls w)) [0..<8] = held (ow_slots w) [0..<8]"
  using assms
proof (induction polls arbitrary: w)
  case (Cons p ps)
  then show ?case using fold_complete_inv [of w p env] fold_complete_buffers [of w p env] by auto
qed simp

lemma release_source_destroyed: "worker_destroyed (snd (release_source r w)) = worker_destroyed w"
proof -
  have "destroyed (ds_trace (snd (releaseEvents l s))) = destroyed (ds_trace s)" for l s
    by (simp add: releaseEvents_def note_call_def destroyed_def Let_def split: option.split)
  then show ?thesis by (simp add: release_source_def case_prod_unfold)
qed

subsection \<open>Draining\<close>

lemma complete_stopped:
  assumes "worker_inv w" and "\<not> ow_running w" and "oc_slot c < 8"
  shows "ts_inUse (ow_transferSlots (complete_event env c w)) = (ts_inUse (ow_transferSlots w))[oc_slot c := False]"
proof -
  have "slots_inv (ow_transferSlots w)" using assms(1) by (simp add: worker_inv_def)
  from slots_complete_inv(2) [OF this assms(3)] assms(2) show ?thesis
    by (auto simp: complete_event_def didComplete_def give_back_def worker_halt_def count_completed_def Let_def)
qed

lemma fold_complete_stopped:
  assumes "worker_inv w" and "\<not> ow_running w" and "list_all (\<lambda>c. oc_slot c < 8) cs" and "k < 8"
  shows "ts_inUse (ow_transferSlots (fold (complete_event env) cs w)) ! k \<longleftrightarrow>
    ts_inUse (ow_transferSlots w) ! k \<and> k \<notin> oc_slot ` set cs"
  using assms
proof (induction cs arbitrary: w)
  case (Cons c cs)
  let ?w = "complete_event env c w"
  have i: "worker_inv ?w" "\<not> ow_running ?w" using complete_event_inv [of w c env] Cons.prems by auto
  have l: "length (ts_inUse (ow_transferSlots w)) = 8" using Cons.prems(1) by (simp add: worker_inv_def slots_inv_def)
  from Cons.IH [OF i] Cons.prems complete_stopped [OF Cons.prems(1,2), of c env] l show ?case by (auto simp: nth_list_update)
qed simp

lemma no_slot_in_use:
  assumes "slots_inv t"
  shows "ts_inFlight t = 0 \<longleftrightarrow> (\<forall>k<8. \<not> ts_inUse t ! k)"
proof -
  have "ts_inFlight t = 0 \<longleftrightarrow> length (filter (\<lambda>x. x) (ts_inUse t)) = 0"
    using assms by (simp add: slots_inv_def unat_eq_zero flip: unat_0_iff)
  also have "\<dots> \<longleftrightarrow> (\<forall>k<8. \<not> ts_inUse t ! k)"
    using assms by (auto simp: slots_inv_def filter_empty_conv in_set_conv_nth)
  finally show ?thesis .
qed

lemma drain_stopped:
  assumes "worker_inv w" and "\<not> ow_running w" and "polls_ok polls"
    and "\<forall>k<8. ts_inUse (ow_transferSlots w) ! k \<longrightarrow> k \<in> oc_slot ` set (concat polls)"
  shows "ts_inFlight (ow_transferSlots (drain env polls w)) = 0"
  using assms
proof (induction polls arbitrary: w)
  case Nil
  then show ?case using no_slot_in_use [of "ow_transferSlots w"] by (auto simp: worker_inv_def)
next
  case (Cons p ps)
  let ?w = "fold (complete_event env) p w"
  have i: "worker_inv ?w" "\<not> ow_running ?w" using fold_complete_inv [of w p env] Cons.prems by auto
  have "\<forall>k<8. ts_inUse (ow_transferSlots ?w) ! k \<longrightarrow> k \<in> oc_slot ` set (concat ps)"
    using Cons.prems fold_complete_stopped [OF Cons.prems(1,2), of p] by (auto simp: image_Un)
  with Cons.IH [OF i] Cons.prems(3) show ?case by simp
qed

lemma worker_stop_drained:
  assumes "worker_inv w" and "polls_ok polls" and "ow_initialized w" and "ds_interface (ow_session w) \<noteq> None"
    and "\<forall>k<8. ts_inUse (ow_transferSlots w) ! k \<longrightarrow> k \<in> oc_slot ` set (concat polls)"
  shows "ts_inFlight (ow_transferSlots (snd (worker_stop env polls w))) = 0 \<and>
    ow_slots (snd (worker_stop env polls w)) = replicate 8 \<lparr>os_data = None, os_frames = None\<rparr> \<and>
    worker_destroyed (snd (worker_stop env polls w)) =
      worker_destroyed w @ map (Pair (the (ds_interface (ow_session w)))) (held (ow_slots w) [0..<8])"
proof -
  define w1 where "w1 = w\<lparr>ow_running := False, ow_transferSlots := stopAccepting (ow_transferSlots w)\<rparr>"
  have w1: "worker_inv w1" "\<not> ow_running w1" "ow_session w1 = ow_session w"
    using assms(1) by (auto simp: w1_def worker_inv_def has_buffers_def)
  obtain r2 w2 where d: "abort_and_drain env polls w1 = (r2, w2)" by fastforce
  note w2 = abort_and_drain_inv [OF w1(1) assms(2) w1(2) d]
  obtain i where i: "ds_interface (ow_session w) = Some i" using assms(4) by auto
  have z: "ts_inFlight (ow_transferSlots w2) = 0 \<and> worker_destroyed w2 = worker_destroyed w \<and> held (ow_slots w2) [0..<8] = held (ow_slots w) [0..<8]"
  proof (cases "ts_inFlight (ow_transferSlots w1) = 0")
    case False
    obtain st s where c: "call env (AbortPipe i (ds_audioOutPipe (ow_session w1))) (ow_session w1) = (st, s)" by fastforce
    then have "w2 = drain env polls (w1\<lparr>ow_session := s\<rparr>)"
      using d i w1 False by (simp add: abort_and_drain_def worker_call_def)
    moreover have "destroyed (ds_trace s) = worker_destroyed w" using call_eq [OF c] w1(3) by (simp add: destroyed_def)
    ultimately show ?thesis
      using drain_stopped [of "w1\<lparr>ow_session := s\<rparr>" polls env] drain_buffers [of "w1\<lparr>ow_session := s\<rparr>" polls env] w1 assms(2,5) by (simp add: w1_def)
  qed (use d i w1 in \<open>auto simp: abort_and_drain_def w1_def\<close>)
  obtain r3 s3 b3 where r: "release_source r2 w2 = (r3, w2\<lparr>ow_session := s3, ow_sourceAdded := b3\<rparr>)"
      "ds_interface s3 = ds_interface (ow_session w2)" using release_source_eq by blast
  have w3: "worker_inv (w2\<lparr>ow_session := s3, ow_sourceAdded := b3\<rparr>)" using w2 by (simp add: worker_inv_def has_buffers_def)
  have "snd (worker_stop env polls w) = snd (releaseBuffers env (w2\<lparr>ow_session := s3, ow_sourceAdded := b3\<rparr>))"
    using assms(3) z d r by (simp add: worker_stop_def w1_def [symmetric] Let_def split_def)
  moreover have "worker_destroyed (w2\<lparr>ow_session := s3, ow_sourceAdded := b3\<rparr>) = worker_destroyed w" using release_source_destroyed [of r2 w2] r(1) z by simp
  ultimately show ?thesis
    using releaseBuffers_inv [OF w3, of env] releaseBuffers_destroyed [of "w2\<lparr>ow_session := s3, ow_sourceAdded := b3\<rparr>" i env] w2 w3 z r(2) w1(3) i
    by (auto simp: worker_inv_def)
qed

subsection \<open>Scheduling\<close>

lemma unat_max_minus: "unat (UINT64_MAX - x) = 2 ^ 64 - 1 - unat x" for x :: u64
  using unat_sub [of x "UINT64_MAX"] by (simp add: unsigned_minus_1_eq_mask mask_eq_exp_minus_1)

lemma schedule_words:
  fixes nx current behind count :: u64
  assumes "\<not> UINT64_MAX - 2 < current" and "nx < current + 2"
    and behind: "behind = current + 2 - nx" and count: "count = behind div 4 + of_bool (behind mod 4 \<noteq> 0)"
    and "\<not> (UINT64_MAX - nx) div 4 < count"
  shows "unat (nx + count * 4) = unat nx + 4 * unat count" and "unat current + 2 \<le> unat nx + 4 * unat count"
    and "unat nx + 4 * unat count < unat current + 6" and "0 < unat count"
proof -
  have l: "unat current < 2 ^ 64" "unat nx < 2 ^ 64" using u64_less by blast+
  have "unat current \<le> 2 ^ 64 - 3" using assms(1) unat_max_minus [of 2] by (simp add: word_less_nat_alt)
  then have c: "unat (current + 2) = unat current + 2" by (simp add: unat_word_ariths)
  have B: "unat behind = unat current + 2 - unat nx" "unat nx < unat current + 2"
    using assms(2) c unat_sub [of nx "current + 2"] by (simp_all add: behind word_less_nat_alt word_le_nat_alt)
  have "unat (behind div 4) = unat behind div 4" "unat (behind mod 4) = unat behind mod 4" by (simp_all add: unat_div unat_mod)
  then have K: "unat count = unat behind div 4 + (if unat behind mod 4 = 0 then 0 else 1)"
    using u64_less [of behind] by (auto simp: count unat_word_ariths word_unat_eq_iff)
  have "unat count \<le> (2 ^ 64 - 1 - unat nx) div 4"
    using assms(5) by (simp add: word_less_nat_alt unat_div unat_max_minus not_less)
  then have "4 * unat count \<le> 2 ^ 64 - 1 - unat nx" by linarith
  then have F: "unat nx + 4 * unat count < 2 ^ 64" using l(2) by linarith
  then have "unat (count * 4) = 4 * unat count" by (simp add: unat_word_ariths)
  then show "unat (nx + count * 4) = unat nx + 4 * unat count" using F by (simp add: unat_word_ariths)
  define q r where "q = unat behind div 4" and "r = unat behind mod 4"
  have R: "unat behind = 4 * q + r" "r < 4" "unat count = q + (if r = 0 then 0 else 1)" by (simp_all add: q_def r_def K)
  show "unat current + 2 \<le> unat nx + 4 * unat count" "unat nx + 4 * unat count < unat current + 6"
    using B R by (cases "r = 0"; simp)+
  show "0 < unat count" using B R by (cases "r = 0") auto
qed

lemma u32_of_u64: "\<not> ucast UINT32_MAX < (x :: u64) \<Longrightarrow> unat (ucast x :: u32) = unat x"
proof -
  assume "\<not> ucast UINT32_MAX < x"
  then have "unat x < 2 ^ 32"
    by (simp add: word_less_nat_alt unsigned_ucast_eq unsigned_minus_1_eq_mask mask_eq_exp_minus_1 take_bit_eq_mod)
  then show ?thesis by (simp add: unsigned_ucast_eq take_bit_eq_mod)
qed

subsection \<open>Properties\<close>

text \<open>
  (C25) Every transfer is complete: from a regular four-channel ring and a policy of the 8 kHz endpoint, a batch always builds,
  its 32 packets have 60 or 72 bytes each, the counts the controller is given add up to the bytes of the batch, and the
  batch fits its buffer.
\<close>

theorem batch_complete:
  assumes "source_ok ring policy" and "batch_build ring policy b = (ok, b', ring', policy')"
  shows "ok \<and> requested_bytes b' = ob_byteCount b' \<and> ob_byteCount b' \<le> length (ob_bytes b') \<and>
    (\<forall>k<32. packetByteCount b' (word_of_nat k) \<in> {60, 72}) \<and> source_ok ring' policy'"
proof -
  have b: "ok" "batch_ok b'" "source_ok ring' policy'" using batch_build_spec [OF assms] by auto
  have p: "packetByteCount b' (word_of_nat k) = ob_packetByteCounts b' ! k" if "k < 32" for k
    using that by (simp add: packetByteCount_def word_less_nat_alt unat_of_nat)
  have "requested_bytes b' = (\<Sum>k<32. unat (packetByteCount b' (word_of_nat k)))"
    unfolding requested_bytes_def by (simp add: sum_list_sum_nth atLeast0LessThan)
  also have "\<dots> = ob_byteCount b'" using b(2) p by (simp add: batch_ok_def)
  finally have r: "requested_bytes b' = ob_byteCount b'" .
  have "(\<Sum>k<32. unat (ob_packetByteCounts b' ! k)) \<le> (\<Sum>k<(32::nat). 72)" using b(2) by (intro sum_mono) (auto simp: batch_ok_def)
  then show ?thesis using b r p by (auto simp: batch_ok_def)
qed

lemma source_example: "\<exists>ring policy. source_ok ring policy"
proof -
  obtain p where "policy_reach 44100 8000 p" using policy_example by blast
  then have p: "policy_inv p \<and> p_serviceIntervalsPerSecond p = 8000" by (rule policy_reach_inv)
  define r where "r = \<lparr>r_capacityFrames = 1, r_channels = 4, r_samples = [Fin 0, Fin 0, Fin 0, Fin 0],
    r_writeFrame = 0, r_readFrame = 0, r_readFraction = Fin 0\<rparr>"
  have "rnd f64 0 = 0" by (rule rnd_exact) (auto simp: repr_def f64_def)
  then have "ring_regular r" by (simp add: r_def ring_regular_def ring_inv_def ring_used_def frac_ok_def)
  with p show ?thesis by (intro exI [of _ r] exI [of _ p]) (simp add: source_ok_def r_def)
qed

text \<open>Witness for C0: an empty ring.\<close>

theorem batch_complete_witness:
  "\<exists>ring policy b' ring' policy'. source_ok ring policy \<and> batch_build ring policy batch_new = (True, b', ring', policy') \<and>
     requested_bytes b' = ob_byteCount b'"
proof -
  obtain ring policy where s: "source_ok ring policy" using source_example by blast
  obtain ok b' ring' policy' where b: "batch_build ring policy batch_new = (ok, b', ring', policy')" by (metis prod_cases4)
  from batch_complete [OF s b] s b show ?thesis by (metis (full_types))
qed

text \<open>
  (C3) No transfer in flight loses its buffers: in every reachable state of a worker (whatever the USB stack answers, in
  whatever order transfers complete, with stops, drain timeouts and sessions closed under it) the count of transfers in
  flight is the number of slots in use, and each of them still has its data buffer, its frame list and a complete batch.
\<close>

theorem worker_buffers_live:
  assumes "worker_reach env w"
  shows "unat (ts_inFlight (ow_transferSlots w)) = card {k. k < 8 \<and> ts_inUse (ow_transferSlots w) ! k} \<and>
    (\<forall>k<8. ts_inUse (ow_transferSlots w) ! k \<longrightarrow>
       os_data (ow_slots w ! k) \<noteq> None \<and> os_frames (ow_slots w ! k) \<noteq> None \<and> batch_ok (ts_packets (ow_transferSlots w) ! k))"
proof -
  have i: "worker_inv w" using worker_reach_inv [OF assms] .
  have "length (filter (\<lambda>x. x) xs) = card {k. k < length xs \<and> xs ! k}" for xs by (rule length_filter_conv_card)
  then show ?thesis using i by (auto simp: worker_inv_def slots_inv_def has_buffers_def)
qed

lemma worker_start_initialized:
  assumes "ds_interface (ow_session w) = Some i" and "ds_audioOutPipe (ow_session w) \<noteq> 0"
    and "ds_asyncEventSource (ow_session w) = Some src" and "ds_eventClients (ow_session w) = 0" and "\<not> ow_initialized w"
    and "worker_inv w" and "\<And>tr c. e_status env tr c = kIOReturnSuccess"
  shows "ow_initialized (snd (worker_start env (Some rl) [] w))"
proof -
  have create: "create_buffers env i ks w = (kIOReturnSuccess, snd (create_buffers env i ks w)) \<and>
      members (ow_session (snd (create_buffers env i ks w))) = members (ow_session w)" for ks w
  proof (induction ks arbitrary: w)
    case (Cons k ks)
    then show ?case using assms(7) by (simp add: on_success_def worker_call_def call_def Let_def members_def)
  qed simp
  let ?w = "worker_note (RunLoopRetain rl) (w\<lparr>ow_runLoop := Some rl\<rparr>)"
  define w2 where "w2 = snd (create_buffers env i [0..<8] ?w)"
  have w2: "create_buffers env i [0..<8] ?w = (kIOReturnSuccess, w2)" using create [of "[0..<8]" ?w] by (simp add: w2_def)
  have "members (ow_session w2) = members (ow_session w)" using create [of "[0..<8]" ?w] by (simp add: w2_def worker_note_def)
  note m = members_fields [OF this]
  obtain s3 where a: "acquireEvents (Some rl) (ow_session w2) = (kIOReturnSuccess, s3)"
    using m assms by (simp add: acquireEvents_def Let_def)
  let ?w4 = "w2\<lparr>ow_session := s3, ow_sourceAdded := True, ow_running := True, ow_initialized := True\<rparr>"
  obtain st5 w5 where s: "submit_all env 8 ?w4 = (st5, w5)" by fastforce
  have n: "worker_inv ?w" "\<not> ow_initialized ?w" using assms(5,6) by (auto simp: worker_note_def worker_inv_def has_buffers_def)
  from create_buffers_inv [OF n w2] have "worker_inv ?w4" by (auto simp: worker_inv_def has_buffers_def)
  from submit_all_inv [OF this s] have w5: "worker_inv w5" "ow_initialized w5" by auto
  then have i: "worker_inv (w5\<lparr>ow_failures := n\<rparr>)" for n by (simp add: worker_inv_def has_buffers_def)
  have "snd (worker_start env (Some rl) [] w) =
      (if st5 = kIOReturnSuccess then w5 else snd (worker_stop env [] (w5\<lparr>ow_failures := ow_failures w5 + 1\<rparr>)))"
    using assms by (simp add: worker_start_def Let_def on_success_def w2 a s)
  with w5 worker_stop_inv [OF i _ surjective_pairing, of "[]" env "ow_failures w5 + 1"] show ?thesis by simp
qed

definition session_example :: NS6DeviceSession where
  "session_example = (session_new [])\<lparr>ds_interface := Some 10, ds_opened := True, ds_audioOutPipe := 1, ds_asyncEventSource := Some 3\<rparr>"

lemma started_example: "\<exists>w. worker_reach usb_example w \<and> ow_initialized w \<and> ds_interface (ow_session w) = Some 10"
proof -
  obtain ring policy where so: "source_ok ring policy" using source_example by blast
  let ?fresh = "worker_new session_example ring policy"
  let ?started = "snd (worker_start usb_example (Some 1) [] ?fresh)"
  have r0: "worker_reach usb_example ?fresh" using worker_reach.new [OF so] .
  have "worker_reach usb_example (?started\<lparr>ow_session := session_example\<rparr>)" by (intro worker_reach.session worker_reach.start r0) simp
  moreover have "ow_initialized ?started"
    using worker_reach_inv [OF r0]
    by (intro worker_start_initialized [where i = 10 and src = 3]) (simp_all add: worker_new_def session_example_def session_new_def usb_example_def)
  ultimately show ?thesis by (intro exI [of _ "?started\<lparr>ow_session := session_example\<rparr>"]) (simp add: session_example_def)
qed

text \<open>Witness for C0: a worker that has been started on the example device.\<close>

theorem worker_buffers_live_witness:
  "\<exists>w. worker_reach usb_example w \<and> ow_initialized w \<and>
     unat (ts_inFlight (ow_transferSlots w)) = card {k. k < 8 \<and> ts_inUse (ow_transferSlots w) ! k}"
  using started_example worker_buffers_live by blast

text \<open>
  (C5) Stopping drains: when the run loop delivers the completion of every transfer in flight before the deadline, with any
  status, stopping an initialised worker ends with nothing in flight and no buffer held, and the USB stack has been told to destroy
  exactly the buffers the worker held, each once and on its interface.
\<close>

theorem worker_stop_drains:
  assumes "worker_reach env w" and "ow_initialized w" and "ds_interface (ow_session w) = Some i" and "polls_ok polls"
    and "\<forall>k<8. ts_inUse (ow_transferSlots w) ! k \<longrightarrow> k \<in> oc_slot ` set (concat polls)"
  shows "ts_inFlight (ow_transferSlots (snd (worker_stop env polls w))) = 0 \<and>
    (\<forall>k<8. os_data (ow_slots (snd (worker_stop env polls w)) ! k) = None \<and> os_frames (ow_slots (snd (worker_stop env polls w)) ! k) = None) \<and>
    worker_destroyed (snd (worker_stop env polls w)) = worker_destroyed w @ map (Pair i) (held (ow_slots w) [0..<8])"
  using worker_stop_drained [OF worker_reach_inv [OF assms(1)] assms(4,2) _ assms(5), of env] assms(3) by simp

text \<open>Witness for C0: a worker started on the example device, with all eight transfers aborted and all sixteen buffers handed back.\<close>

theorem worker_stop_drains_witness:
  "\<exists>w polls. worker_reach usb_example w \<and> ow_initialized w \<and> ts_inFlight (ow_transferSlots (snd (worker_stop usb_example polls w))) = 0 \<and>
     worker_destroyed (snd (worker_stop usb_example polls w)) = worker_destroyed w @ map (Pair 10) (held (ow_slots w) [0..<8])"
proof -
  let ?polls = "[map (\<lambda>k. \<lparr>oc_slot = k, oc_status = kIOReturnNotResponding, oc_frames = []\<rparr>) [0..<8]]"
  obtain w where w: "worker_reach usb_example w" "ow_initialized w" "ds_interface (ow_session w) = Some 10" using started_example by blast
  then show ?thesis
    using worker_stop_drains [OF w, of ?polls] by (intro exI [of _ w] exI [of _ ?polls]) (auto simp: list_all_iff image_iff)
qed

text \<open>
  (C38) The output schedule never queues a transfer in the past and never skips more than it must: a transfer starts at least
  two frames ahead, on the grid of four-frame batches that \<open>begin\<close> laid out, at the first grid point that is far
  enough ahead, the number of skipped batches is reported exactly, and the next transfer follows without a gap.
\<close>

theorem schedule_next_exact:
  assumes "schedule_takeNext current s = ((start, skipped), s')" and "start \<noteq> 0"
  shows "unat start = unat (sc_nextFrame s) + 4 * unat skipped \<and> unat current + 2 \<le> unat start \<and>
    (skipped \<noteq> 0 \<longrightarrow> unat start < unat current + 6) \<and> unat (sc_nextFrame s') = unat start + 4 \<and>
    sc_skippedIntervals s' = sc_skippedIntervals s + ucast skipped"
proof -
  define behind where "behind = current + 2 - sc_nextFrame s"
  define count where "count = behind div 4 + of_bool (behind mod 4 \<noteq> 0)"
  have ok: "\<not> UINT64_MAX - 2 < current" using assms by (auto simp: schedule_takeNext_def split: if_splits)
  have c: "unat (current + 2) = unat current + 2"
    using ok unat_max_minus [of 2] by (simp add: word_less_nat_alt unat_word_ariths)
  have four: "unat (x + 4) = unat x + 4" if "\<not> UINT64_MAX - 4 < x" for x :: u64
    using that unat_max_minus [of 4] by (simp add: word_less_nat_alt unat_word_ariths)
  show ?thesis
  proof (cases "sc_nextFrame s < current + 2")
    case True
    have r: "\<not> ucast UINT32_MAX < count" "\<not> (UINT64_MAX - sc_nextFrame s) div 4 < count" "\<not> UINT64_MAX - 4 < sc_nextFrame s + count * 4"
        "start = sc_nextFrame s + count * 4" "skipped = ucast count" "sc_nextFrame s' = sc_nextFrame s + count * 4 + 4"
        "sc_skippedIntervals s' = sc_skippedIntervals s + count"
      using assms ok True by (auto simp: schedule_takeNext_def Let_def behind_def [symmetric] count_def [symmetric] split: if_splits)
    note w = schedule_words [OF ok True behind_def count_def r(2)]
    have u: "unat skipped = unat count" using u32_of_u64 [OF r(1)] r(5) by simp
    then have "(ucast skipped :: u64) = count" by (simp add: word_unat_eq_iff unat_ucast_up)
    then show ?thesis using w r u four [OF r(3)] by simp
  next
    case False
    have r: "\<not> UINT64_MAX - 4 < sc_nextFrame s" "start = sc_nextFrame s" "skipped = 0" "sc_nextFrame s' = sc_nextFrame s + 4"
        "sc_skippedIntervals s' = sc_skippedIntervals s"
      using assms ok False by (auto simp: schedule_takeNext_def Let_def split: if_splits)
    then show ?thesis using False c four [OF r(1)] by (simp add: word_less_nat_alt)
  qed
qed

text \<open>Witness for C0: a schedule that has fallen seven frames behind.\<close>

theorem schedule_next_exact_witness:
  "let s = \<lparr>sc_nextFrame = 10, sc_skippedIntervals = 0\<rparr>; ((start, skipped), s') = schedule_takeNext 15 s
   in start \<noteq> 0 \<and> unat start = unat (sc_nextFrame s) + 4 * unat skipped \<and> unat skipped = 2"
proof -
  let ?s = "\<lparr>sc_nextFrame = 10, sc_skippedIntervals = 0\<rparr>"
  have r: "schedule_takeNext 15 ?s = ((18, 2), \<lparr>sc_nextFrame = 22, sc_skippedIntervals = 2\<rparr>)"
    by (simp add: schedule_takeNext_def) (simp add: word_less_nat_alt unsigned_ucast_eq unsigned_minus_1_eq_mask mask_eq_exp_minus_1 take_bit_eq_mod)
  show ?thesis using schedule_next_exact [OF r] r by simp
qed

end
