(* ===== verification/NS6_Input.thy ===== *)
theory NS6_Input
  imports NS6_Output
begin

text \<open>
  What comes from the device and what CoreAudio hands over: the feedback reports (\<open>AudioFeedbackParser\<close>,
  \<open>AudioFeedbackReader\<close>), the capture engine and its reader (\<open>AudioInputEngine\<close>, \<open>AudioInputReader\<close>) and the output
  engine (\<open>AudioOutputEngine\<close>) of the \<^verbatim>\<open>numark-ns6\<close> driver.
\<close>

subsection \<open>Feedback reports\<close>

datatype AudioFeedbackKind = Valid | ShortPacket | UnexpectedLength | OutOfRange | TransferError

record AudioFeedbackObservation =
  fo_kind :: AudioFeedbackKind
  fo_raw :: "u8 list"
  fo_byteCount :: u16
  fo_framesPerMillisecond :: u8

text \<open>The bytes are those at the pointer; \<open>byteCount\<close> is what the controller reported.\<close>

definition feedback_parse :: "bool \<Rightarrow> bool \<Rightarrow> u8 list option \<Rightarrow> nat \<Rightarrow> AudioFeedbackObservation" where
  "feedback_parse transferOk frameOk bytes byteCount =
     (let result = \<lparr>fo_kind = TransferError, fo_raw = [0, 0, 0], fo_byteCount = word_of_nat (min byteCount 65535),
                     fo_framesPerMillisecond = 0\<rparr>;
          result = (case bytes of Some b \<Rightarrow> result\<lparr>fo_raw := overwrite 0 (take (min byteCount 3) b) (fo_raw result)\<rparr> | None \<Rightarrow> result)
      in case bytes of None \<Rightarrow> result\<lparr>fo_kind := TransferError\<rparr> | Some b \<Rightarrow>
         if \<not> transferOk \<or> \<not> frameOk then result\<lparr>fo_kind := TransferError\<rparr>
         else if byteCount < 3 then result\<lparr>fo_kind := ShortPacket\<rparr>
         else if byteCount \<noteq> 3 then result\<lparr>fo_kind := UnexpectedLength\<rparr>
         else if b ! 0 < 42 \<or> 46 < b ! 0 then result\<lparr>fo_kind := OutOfRange\<rparr>
         else result\<lparr>fo_kind := Valid, fo_framesPerMillisecond := b ! 0\<rparr>)"

record feedback_slot =
  fs_data :: "u8 list option"
  fs_frames :: "isoc_frame list option"
  fs_inFlight :: bool

text \<open>
  \<open>fr_session\<close> and \<open>fr_sink\<close> say whether the pointers are set; \<open>fr_device\<close> is the session the former points to and
  \<open>fr_published\<close> lists what the sink has been given.
\<close>

record AudioFeedbackReader =
  fr_device :: NS6DeviceSession
  fr_session :: bool
  fr_sink :: bool
  fr_published :: "AudioFeedbackObservation list"
  fr_slots :: "feedback_slot list"
  fr_runLoop :: "nat option"
  fr_running :: bool
  fr_sourceAdded :: bool
  fr_initialized :: bool
  fr_packets :: u64
  fr_valid :: u64
  fr_shortPackets :: u64
  fr_unexpectedLengths :: u64
  fr_outOfRange :: u64
  fr_transferErrors :: u64

definition feedback_new :: "NS6DeviceSession \<Rightarrow> AudioFeedbackReader" where
  "feedback_new session = \<lparr>fr_device = session, fr_session = False, fr_sink = False, fr_published = [],
     fr_slots = replicate 2 \<lparr>fs_data = None, fs_frames = None, fs_inFlight = False\<rparr>, fr_runLoop = None, fr_running = False,
     fr_sourceAdded = False, fr_initialized = False, fr_packets = 0, fr_valid = 0, fr_shortPackets = 0,
     fr_unexpectedLengths = 0, fr_outOfRange = 0, fr_transferErrors = 0\<rparr>"

definition feedback_inFlightCount :: "AudioFeedbackReader \<Rightarrow> u32" where
  "feedback_inFlightCount r = sum_list (map (\<lambda>s. if fs_inFlight s then 1 else 0) (fr_slots r))"

definition feedback_submit :: "usb_env \<Rightarrow> nat \<Rightarrow> AudioFeedbackReader \<Rightarrow> IOReturn \<times> AudioFeedbackReader" where
  "feedback_submit env k r =
     (let slot = fr_slots r ! k in
      if \<not> fr_running r \<or> \<not> fr_session r \<or> fs_inFlight slot then (kIOReturnNotReady, r) else
      case ds_auxInterface (fr_device r) of None \<Rightarrow> (kIOReturnNoDevice, r) | Some i \<Rightarrow>
      let frames = map_option (\<lambda>_. replicate 4 \<lparr>fr_status = kIOReturnSuccess, fr_reqCount = 64, fr_actCount = 0\<rparr>) (fs_frames slot)
      in case call env (IsocTransfer i (ds_feedbackPipe (fr_device r)) k) (fr_device r) of (result, s) \<Rightarrow>
        (result, r\<lparr>fr_device := s,
                   fr_slots := (fr_slots r)[k := slot\<lparr>fs_frames := frames, fs_inFlight := result = kIOReturnSuccess\<rparr>]\<rparr>))"

definition count_observation :: "AudioFeedbackObservation \<Rightarrow> AudioFeedbackReader \<Rightarrow> AudioFeedbackReader" where
  "count_observation observation r =
     (let r = r\<lparr>fr_packets := fr_packets r + 1\<rparr>;
          r = (case fo_kind observation of
                 Valid \<Rightarrow> r\<lparr>fr_valid := fr_valid r + 1\<rparr>
               | ShortPacket \<Rightarrow> r\<lparr>fr_shortPackets := fr_shortPackets r + 1\<rparr>
               | UnexpectedLength \<Rightarrow> r\<lparr>fr_unexpectedLengths := fr_unexpectedLengths r + 1\<rparr>
               | OutOfRange \<Rightarrow> r\<lparr>fr_outOfRange := fr_outOfRange r + 1\<rparr>
               | TransferError \<Rightarrow> r\<lparr>fr_transferErrors := fr_transferErrors r + 1\<rparr>)
      in if fr_sink r then r\<lparr>fr_published := fr_published r @ [observation]\<rparr> else r)"

text \<open>
  A completion: the controller has filled the data buffer and the frame list of slot \<open>k\<close>, then the callback runs.
\<close>

definition feedback_didComplete :: "usb_env \<Rightarrow> nat \<Rightarrow> IOReturn \<Rightarrow> AudioFeedbackReader \<Rightarrow> AudioFeedbackReader" where
  "feedback_didComplete env k status r =
     (let slot = fr_slots r ! k;
          r = fold (\<lambda>i r.
                let frame = the (fs_frames slot) ! i
                in count_observation (feedback_parse (status = kIOReturnSuccess) (fr_status frame = kIOReturnSuccess)
                     (map_option (drop (i * 64)) (fs_data slot)) (unat (fr_actCount frame))) r) [0..<4] r;
          r = r\<lparr>fr_slots := (fr_slots r)[k := (fr_slots r ! k)\<lparr>fs_inFlight := False\<rparr>]\<rparr>
      in if status = kIOReturnNoDevice then r\<lparr>fr_running := False\<rparr>
         else if \<not> fr_running r then r
         else case feedback_submit env k r of (st, r) \<Rightarrow>
           if st = kIOReturnSuccess then r else r\<lparr>fr_transferErrors := fr_transferErrors r + 1, fr_running := False\<rparr>)"

record feedback_completion =
  fc_slot :: nat
  fc_status :: IOReturn
  fc_data :: "u8 list"
  fc_frames :: "(IOReturn \<times> u16) list"

definition feedback_event :: "usb_env \<Rightarrow> feedback_completion \<Rightarrow> AudioFeedbackReader \<Rightarrow> AudioFeedbackReader" where
  "feedback_event env c r =
     (let k = fc_slot c; slot = fr_slots r ! k in
      feedback_didComplete env k (fc_status c)
        (r\<lparr>fr_slots := (fr_slots r)[k := slot\<lparr>fs_data := map_option (overwrite 0 (fc_data c)) (fs_data slot),
           fs_frames := map_option (deliver_frames (fc_frames c)) (fs_frames slot)\<rparr>]\<rparr>))"

fun feedback_drain :: "usb_env \<Rightarrow> feedback_completion list list \<Rightarrow> AudioFeedbackReader \<Rightarrow> AudioFeedbackReader" where
  "feedback_drain env [] r = r"
| "feedback_drain env (poll # polls) r =
     (if feedback_inFlightCount r = 0 then r else feedback_drain env polls (fold (feedback_event env) poll r))"

definition feedback_releaseBuffers :: "usb_env \<Rightarrow> AudioFeedbackReader \<Rightarrow> IOReturn \<times> AudioFeedbackReader" where
  "feedback_releaseBuffers env r =
     (if \<not> fr_session r then (kIOReturnNotReady, r) else
      case ds_auxInterface (fr_device r) of None \<Rightarrow> (kIOReturnNotReady, r) | Some i \<Rightarrow>
      let destroy = (\<lambda>present k (result, s). if \<not> present then (result, s)
             else case call env (DestroyBuffer i k) s of (st, s) \<Rightarrow> (if result = kIOReturnSuccess then st else result, s));
          (result, s) = fold (\<lambda>k x. destroy (fs_frames (fr_slots r ! k) \<noteq> None) (2 * k + 1)
                               (destroy (fs_data (fr_slots r ! k) \<noteq> None) (2 * k) x)) [0..<2] (kIOReturnSuccess, fr_device r)
      in (result, r\<lparr>fr_device := s,
                    fr_slots := map (\<lambda>slot. slot\<lparr>fs_data := None, fs_frames := None\<rparr>) (fr_slots r)\<rparr>))"

definition feedback_abort :: "usb_env \<Rightarrow> feedback_completion list list \<Rightarrow> AudioFeedbackReader \<Rightarrow> IOReturn \<times> AudioFeedbackReader" where
  "feedback_abort env polls r =
     (case ds_auxInterface (fr_device r) of
        Some i \<Rightarrow> if feedback_inFlightCount r \<noteq> 0
          then (case call env (AbortPipe i (ds_feedbackPipe (fr_device r))) (fr_device r) of (st, s) \<Rightarrow>
                  (st, feedback_drain env polls (r\<lparr>fr_device := s\<rparr>)))
          else (kIOReturnSuccess, r)
      | None \<Rightarrow> (kIOReturnSuccess, r))"

definition feedback_stop :: "usb_env \<Rightarrow> feedback_completion list list \<Rightarrow> AudioFeedbackReader \<Rightarrow> IOReturn \<times> AudioFeedbackReader" where
  "feedback_stop env polls r =
     (if \<not> fr_initialized r \<or> \<not> fr_session r then (kIOReturnSuccess, r) else
      let (result, r) = feedback_abort env polls (r\<lparr>fr_running := False\<rparr>)
      in if ds_auxInterface (fr_device r) \<noteq> None \<and> feedback_inFlightCount r \<noteq> 0 then (kIOReturnTimeout, r)
         else let (result, r) = (if fr_sourceAdded r \<and> fr_runLoop r \<noteq> None
                then (case releaseAuxiliaryEvents (fr_runLoop r) (fr_device r) of (st, s) \<Rightarrow>
                        (if result = kIOReturnSuccess then st else result, r\<lparr>fr_device := s, fr_sourceAdded := False\<rparr>))
                else (result, r));
                (st, r) = feedback_releaseBuffers env r
              in (if result = kIOReturnSuccess then st else result, r\<lparr>fr_sink := False, fr_session := False\<rparr>))"

fun feedback_create :: "usb_env \<Rightarrow> nat \<Rightarrow> nat list \<Rightarrow> AudioFeedbackReader \<Rightarrow> IOReturn \<times> AudioFeedbackReader" where
  "feedback_create env i [] r = (kIOReturnSuccess, r)"
| "feedback_create env i (k # ks) r =
     (case call env (CreateBuffer i (2 * k)) (fr_device r) of (st, s) \<Rightarrow>
      let r = r\<lparr>fr_device := s\<rparr> in
      if st \<noteq> kIOReturnSuccess then (st, r) else
      let r = r\<lparr>fr_slots := (fr_slots r)[k := (fr_slots r ! k)\<lparr>fs_data := Some (replicate 256 0)\<rparr>]\<rparr> in
      case call env (CreateBuffer i (2 * k + 1)) s of (st, s) \<Rightarrow>
      let r = r\<lparr>fr_device := s\<rparr> in
      if st \<noteq> kIOReturnSuccess then (st, r) else
      feedback_create env i ks (r\<lparr>fr_slots := (fr_slots r)[k := (fr_slots r ! k)\<lparr>fs_frames :=
         Some (replicate 4 \<lparr>fr_status = kIOReturnSuccess, fr_reqCount = 0, fr_actCount = 0\<rparr>)\<rparr>]\<rparr>))"

fun feedback_submit_all :: "usb_env \<Rightarrow> nat list \<Rightarrow> AudioFeedbackReader \<Rightarrow> IOReturn \<times> AudioFeedbackReader" where
  "feedback_submit_all env [] r = (kIOReturnSuccess, r)"
| "feedback_submit_all env (k # ks) r = on_success (feedback_submit env k r) (feedback_submit_all env ks) Pair"

definition feedback_start :: "usb_env \<Rightarrow> nat option \<Rightarrow> feedback_completion list list \<Rightarrow> NS6DeviceSession \<Rightarrow> AudioFeedbackReader \<Rightarrow>
    IOReturn \<times> AudioFeedbackReader" where
  "feedback_start env currentLoop polls session r =
     (case ds_auxInterface session of None \<Rightarrow> (kIOReturnNotReady, r) | Some i \<Rightarrow>
      if fr_initialized r \<or> ds_feedbackPipe session = 0 \<or> ds_auxAsyncEventSource session = None then (kIOReturnNotReady, r) else
      let r = r\<lparr>fr_device := session, fr_session := True, fr_sink := True, fr_runLoop := currentLoop\<rparr> in
      case currentLoop of None \<Rightarrow> (kIOReturnNotReady, r) | Some l \<Rightarrow>
      let r = r\<lparr>fr_device := note_call (RunLoopRetain l) session\<rparr>;
          undo = (\<lambda>st r. let r = snd (feedback_releaseBuffers env r)
                          in (st, r\<lparr>fr_device := note_call (RunLoopRelease l) (fr_device r), fr_runLoop := None,
                                    fr_session := False, fr_sink := False\<rparr>))
      in on_success (feedback_create env i [0..<2] r) (\<lambda>r.
           case acquireAuxiliaryEvents (Some l) (fr_device r) of (st, s) \<Rightarrow>
           let r = r\<lparr>fr_device := s\<rparr> in
           if st \<noteq> kIOReturnSuccess then undo st r
           else on_success (feedback_submit_all env [0..<2] (r\<lparr>fr_sourceAdded := True, fr_running := True, fr_initialized := True\<rparr>))
             (Pair kIOReturnSuccess)
             (\<lambda>st r. (st, snd (feedback_stop env polls (r\<lparr>fr_transferErrors := fr_transferErrors r + 1\<rparr>))))) undo)"

subsection \<open>The engines\<close>

record AudioOutputEngine =
  oe_ring :: AudioOutputRing
  oe_droppedMixFrames :: u64
  oe_mixCalls :: u64
  oe_mixFrames :: u64
  oe_lastMixTick :: u64
  oe_maxMixGapTicks :: u64

definition AudioOutputEngine_new :: "u32 \<Rightarrow> AudioOutputEngine option" where
  "AudioOutputEngine_new ringCapacityFrames =
     map_option (\<lambda>ring. \<lparr>oe_ring = ring, oe_droppedMixFrames = 0, oe_mixCalls = 0, oe_mixFrames = 0, oe_lastMixTick = 0,
       oe_maxMixGapTicks = 0\<rparr>) (AudioOutputRing_new ringCapacityFrames 4)"

definition writeMix :: "u64 \<Rightarrow> flt list option \<Rightarrow> u32 \<Rightarrow> AudioOutputEngine \<Rightarrow> u32 \<times> AudioOutputEngine" where
  "writeMix tick interleaved frames e =
     (let previous = oe_lastMixTick e; gap = tick - previous;
          e = e\<lparr>oe_lastMixTick := tick,
                oe_maxMixGapTicks := (if previous \<noteq> 0 \<and> oe_maxMixGapTicks e < gap then gap else oe_maxMixGapTicks e),
                oe_mixCalls := oe_mixCalls e + 1, oe_mixFrames := oe_mixFrames e + ucast frames\<rparr>
      in case ring_write interleaved frames (oe_ring e) of (written, ring) \<Rightarrow>
        (written, e\<lparr>oe_ring := ring, oe_droppedMixFrames := oe_droppedMixFrames e + ucast (frames - written)\<rparr>))"

definition takeMaxMixGapTicks :: "AudioOutputEngine \<Rightarrow> u64 \<times> AudioOutputEngine" where
  "takeMaxMixGapTicks e = (oe_maxMixGapTicks e, e\<lparr>oe_maxMixGapTicks := 0\<rparr>)"

record AudioInputEngine =
  ae_ring :: AudioOutputRing
  ae_decoded :: "flt list"
  ae_maxTransferFrames :: u32
  ae_targetFrames :: u32
  ae_primed :: bool
  ae_lastDecoded :: "flt \<times> flt"
  ae_hasLastDecoded :: bool
  ae_anomalousBlock :: "u8 list"
  ae_anomalousBytes :: nat
  ae_anomalousPrevious :: "flt \<times> flt"
  ae_anomalyCaptured :: bool
  ae_anomalySaved :: bool
  ae_droppedCaptureFrames :: u64
  ae_starvationFrames :: u64
  ae_malformedBlocks :: u64
  ae_decodedNonZeroSamples :: u64
  ae_unexpectedUSBBytes :: u64
  ae_largeSampleJumps :: u64

definition AudioInputEngine_new :: "u32 \<Rightarrow> u32 \<Rightarrow> AudioInputEngine option" where
  "AudioInputEngine_new ringCapacityFrames maxTransferFrames =
     (case AudioOutputRing_new ringCapacityFrames 2 of None \<Rightarrow> None | Some ring \<Rightarrow>
      if maxTransferFrames = 0 then None
      else Some \<lparr>ae_ring = ring, ae_decoded = replicate (unat maxTransferFrames * 2) (Fin 0), ae_maxTransferFrames = maxTransferFrames,
        ae_targetFrames = (if 4096 \<le> ringCapacityFrames then 2048 else 0), ae_primed = False, ae_lastDecoded = (Fin 0, Fin 0),
        ae_hasLastDecoded = False, ae_anomalousBlock = replicate (unat maxTransferFrames * 64) 0, ae_anomalousBytes = 0,
        ae_anomalousPrevious = (Fin 0, Fin 0), ae_anomalyCaptured = False, ae_anomalySaved = False,
        ae_droppedCaptureFrames = 0, ae_starvationFrames = 0, ae_malformedBlocks = 0, ae_decodedNonZeroSamples = 0,
        ae_unexpectedUSBBytes = 0, ae_largeSampleJumps = 0\<rparr>)"

text \<open>One pass over the decoded frames: peak, number of jumps above one half, last frame, whether there was one.\<close>

definition scan_frame :: "flt list \<Rightarrow> nat \<Rightarrow> flt \<times> u64 \<times> (flt \<times> flt) \<times> bool \<Rightarrow> flt \<times> u64 \<times> (flt \<times> flt) \<times> bool" where
  "scan_frame decoded frame = (\<lambda>(maxAbs, jumps, (l, r), has).
     let left = decoded ! (frame * 2); right = decoded ! (frame * 2 + 1)
     in (fmax (fmax maxAbs (fabs left)) (fabs right),
         jumps + of_bool (has \<and> (fless (slit (1/2)) (fabs (fsub f32 left l)) \<or> fless (slit (1/2)) (fabs (fsub f32 right r)))),
         (left, right), True))"

definition keep_anomaly :: "u8 list \<Rightarrow> nat \<Rightarrow> flt \<times> flt \<Rightarrow> u64 \<Rightarrow> flt \<Rightarrow> AudioInputEngine \<Rightarrow> AudioInputEngine" where
  "keep_anomaly block bytes previous largeJumps maxAbs e =
     (if 4 \<le> largeJumps \<and> fless (slit (3/4)) maxAbs \<and> \<not> ae_anomalySaved e \<and> \<not> ae_anomalyCaptured e
      then e\<lparr>ae_anomalousBlock := overwrite 0 (take bytes block) (ae_anomalousBlock e), ae_anomalousBytes := bytes,
             ae_anomalousPrevious := previous, ae_anomalyCaptured := True\<rparr>
      else e)"

definition publishUSBBlock :: "u8 list option \<Rightarrow> nat \<Rightarrow> AudioInputEngine \<Rightarrow> u32 \<times> AudioInputEngine" where
  "publishUSBBlock block bytes e =
     (case AudioInputDecoder_decode block bytes (Some (ae_decoded e)) (unat (ae_maxTransferFrames e)) of (frames, decoded) \<Rightarrow>
      if frames = 0 then (0, e\<lparr>ae_malformedBlocks := ae_malformedBlocks e + 1\<rparr>) else
      let e = e\<lparr>ae_decoded := the decoded\<rparr>; src = the block; previous = ae_lastDecoded e;
          unexpectedBytes = fold (\<lambda>i n. n + of_bool (src ! i AND 0xfe \<noteq> 0)) [0..<bytes] (0 :: u64)
      in case fold (scan_frame (ae_decoded e)) [0..<frames] (Fin 0, 0, ae_lastDecoded e, ae_hasLastDecoded e) of
        (maxAbs, largeJumps, lastDecoded, has) \<Rightarrow>
      let e = e\<lparr>ae_unexpectedUSBBytes := ae_unexpectedUSBBytes e + unexpectedBytes, ae_lastDecoded := lastDecoded,
                ae_hasLastDecoded := has, ae_largeSampleJumps := ae_largeSampleJumps e + largeJumps\<rparr>;
          e = keep_anomaly src bytes previous largeJumps maxAbs e;
          nonZeroSamples = fold (\<lambda>i n. n + of_bool (fneq (ae_decoded e ! i) (Fin 0))) [0..<frames * 2] (0 :: u64);
          frameCount = word_of_nat frames
      in case ring_write (Some (ae_decoded e)) frameCount (ae_ring e) of (written, ring) \<Rightarrow>
        (written, e\<lparr>ae_decodedNonZeroSamples := ae_decodedNonZeroSamples e + nonZeroSamples, ae_ring := ring,
                    ae_droppedCaptureFrames := ae_droppedCaptureFrames e + ucast (frameCount - written)\<rparr>))"

definition takeAnomalousBlock :: "AudioInputEngine \<Rightarrow> (u8 list \<times> nat \<times> flt \<times> flt) option \<times> AudioInputEngine" where
  "takeAnomalousBlock e =
     (if \<not> ae_anomalyCaptured e then (None, e)
      else (Some (ae_anomalousBlock e, ae_anomalousBytes e, ae_anomalousPrevious e),
            e\<lparr>ae_anomalyCaptured := False, ae_anomalySaved := True\<rparr>))"

definition input_step :: "AudioInputEngine \<Rightarrow> u32 \<Rightarrow> flt" where
  "input_step e queued =
     (if ae_targetFrames e = 0 then dlit 1
      else fclamp (fadd f64 (dlit 1) (fmul f64 (fsub f64 (double_of_nat (unat queued)) (double_of_nat (unat (ae_targetFrames e))))
                                        (dlit (1/1000000)))) (dlit (998/1000)) (dlit (1002/1000)))"

definition readInput :: "flt list option \<Rightarrow> u32 \<Rightarrow> AudioInputEngine \<Rightarrow> u32 \<times> flt list option \<times> AudioInputEngine" where
  "readInput interleaved frames e =
     (case interleaved of None \<Rightarrow> (0, None, e) | Some dst \<Rightarrow>
      if frames = 0 then (0, interleaved, e) else
      let queued = ring_availableFrames (ae_ring e);
          waiting = ae_targetFrames e \<noteq> 0 \<and> \<not> ae_primed e \<and> queued < ae_targetFrames e
      in if waiting then (0, Some (overwrite 0 (replicate (unat frames * 2) (Fin 0)) dst), e) else
      let e = (if ae_targetFrames e \<noteq> 0 then e\<lparr>ae_primed := True\<rparr> else e)
      in case (if ae_targetFrames e = 0 then ring_read interleaved frames (ae_ring e)
               else ring_readResampled interleaved frames (input_step e queued) (ae_ring e)) of (got, out, ring) \<Rightarrow>
      let missing = frames - got
      in (got, map_option (overwrite (unat got * 2) (replicate (unat missing * 2) (Fin 0))) out,
          e\<lparr>ae_ring := ring, ae_starvationFrames := ae_starvationFrames e + ucast missing\<rparr>))"

subsection \<open>The capture reader\<close>

record in_slot =
  is_data :: "u8 list option"
  is_inFlight :: bool
  is_completed :: bool
  is_status :: IOReturn
  is_bytes :: u32
  is_sequence :: u64
  is_submittedAt :: u64
  is_completedAgeMicros :: u64

record AudioInputReader =
  ir_device :: NS6DeviceSession
  ir_session :: bool
  ir_engine :: AudioInputEngine
  ir_slots :: "in_slot list"
  ir_runLoop :: "nat option"
  ir_running :: bool
  ir_eventsAcquired :: bool
  ir_nextSubmitSequence :: u64
  ir_nextProcessSequence :: u64
  ir_completedTransfers :: u64
  ir_transportErrors :: u64
  ir_lastError :: IOReturn
  ir_readsOver50ms :: u64
  ir_maxReadMicros :: u64

definition in_slot_new :: in_slot where
  "in_slot_new = \<lparr>is_data = None, is_inFlight = False, is_completed = False, is_status = kIOReturnSuccess, is_bytes = 0,
     is_sequence = 0, is_submittedAt = 0, is_completedAgeMicros = 0\<rparr>"

definition reader_new :: "NS6DeviceSession \<Rightarrow> AudioInputEngine \<Rightarrow> AudioInputReader" where
  "reader_new session engine = \<lparr>ir_device = session, ir_session = False, ir_engine = engine, ir_slots = replicate 8 in_slot_new,
     ir_runLoop = None, ir_running = False, ir_eventsAcquired = False, ir_nextSubmitSequence = 0, ir_nextProcessSequence = 0,
     ir_completedTransfers = 0, ir_transportErrors = 0, ir_lastError = kIOReturnSuccess, ir_readsOver50ms = 0, ir_maxReadMicros = 0\<rparr>"

definition reader_inFlightCount :: "AudioInputReader \<Rightarrow> u32" where
  "reader_inFlightCount r = sum_list (map (\<lambda>s. if is_inFlight s then 1 else 0) (ir_slots r))"

text \<open>The steady clock reads \<open>clock\<close> of the history of calls.\<close>

definition reader_submit :: "usb_env \<Rightarrow> (usb_trace \<Rightarrow> u64) \<Rightarrow> nat \<Rightarrow> AudioInputReader \<Rightarrow> IOReturn \<times> AudioInputReader" where
  "reader_submit env clock k r =
     (let slot = ir_slots r ! k in
      if \<not> ir_running r \<or> \<not> ir_session r \<or> is_inFlight slot \<or> is_completed slot then (kIOReturnNotReady, r) else
      case ds_auxInterface (ir_device r) of None \<Rightarrow> (kIOReturnNoDevice, r) | Some i \<Rightarrow>
      let slot = slot\<lparr>is_sequence := ir_nextSubmitSequence r, is_submittedAt := clock (ds_trace (ir_device r))\<rparr>
      in case call env (PipeTransfer i (ds_audioInPipe (ir_device r)) k) (ir_device r) of (result, s) \<Rightarrow>
        (result, r\<lparr>ir_device := s, ir_slots := (ir_slots r)[k := slot\<lparr>is_inFlight := result = kIOReturnSuccess\<rparr>],
                   ir_nextSubmitSequence := ir_nextSubmitSequence r + of_bool (result = kIOReturnSuccess)\<rparr>))"

text \<open>One completed transfer, in turn: publish or record the error, free the slot and submit it again.\<close>

definition clear_stall :: "usb_env \<Rightarrow> AudioInputReader \<Rightarrow> AudioInputReader" where
  "clear_stall env r =
     (case ds_auxInterface (ir_device r) of None \<Rightarrow> r\<lparr>ir_running := False\<rparr>
      | Some i \<Rightarrow> (case call env (ClearPipeStall i (ds_audioInPipe (ir_device r))) (ir_device r) of (st, s) \<Rightarrow>
          r\<lparr>ir_device := s, ir_running := (ir_running r \<and> st = kIOReturnSuccess)\<rparr>))"

definition consume_slot :: "usb_env \<Rightarrow> in_slot \<Rightarrow> AudioInputReader \<Rightarrow> AudioInputReader" where
  "consume_slot env slot r =
     (if is_status slot = kIOReturnSuccess
      then r\<lparr>ir_completedTransfers := ir_completedTransfers r + 1,
             ir_engine := (if ir_session r then snd (publishUSBBlock (is_data slot) (unat (is_bytes slot)) (ir_engine r))
                           else ir_engine r)\<rparr>
      else let r = r\<lparr>ir_transportErrors := ir_transportErrors r + 1, ir_lastError := is_status slot,
                     ir_running := (ir_running r \<and> is_status slot \<noteq> kIOReturnNoDevice)\<rparr>
           in if is_status slot = kIOUSBPipeStalled \<and> ir_session r then clear_stall env r else r)"

definition process_slot :: "usb_env \<Rightarrow> (usb_trace \<Rightarrow> u64) \<Rightarrow> nat \<Rightarrow> AudioInputReader \<Rightarrow> AudioInputReader" where
  "process_slot env clock k r =
     (let r = consume_slot env (ir_slots r ! k) r;
          r = r\<lparr>ir_slots := (ir_slots r)[k := (ir_slots r ! k)\<lparr>is_completed := False\<rparr>],
                ir_nextProcessSequence := ir_nextProcessSequence r + 1\<rparr>
      in if \<not> ir_running r then r
         else case reader_submit env clock k r of (st, r) \<Rightarrow>
           if st = kIOReturnSuccess then r
           else r\<lparr>ir_transportErrors := ir_transportErrors r + 1, ir_lastError := st, ir_running := False\<rparr>)"

definition next_completed :: "AudioInputReader \<Rightarrow> nat option" where
  "next_completed r =
     find (\<lambda>k. is_completed (ir_slots r ! k) \<and> is_sequence (ir_slots r ! k) = ir_nextProcessSequence r) [0..<length (ir_slots r)]"

lemma next_completed_Some:
  assumes "next_completed r = Some k"
  shows "k < length (ir_slots r)" "is_completed (ir_slots r ! k)" "is_sequence (ir_slots r ! k) = ir_nextProcessSequence r"
  using assms unfolding next_completed_def by (auto simp: find_Some_iff)

lemma next_completed_None:
  assumes "next_completed r = None" "k < length (ir_slots r)" "is_completed (ir_slots r ! k)"
  shows "is_sequence (ir_slots r ! k) \<noteq> ir_nextProcessSequence r"
  using assms unfolding next_completed_def by (auto simp: find_None_iff)

lemma consume_slot_slots [simp]: "ir_slots (consume_slot env slot r) = ir_slots r"
  by (simp add: consume_slot_def clear_stall_def Let_def split: option.split prod.split)

lemma reader_submit_completed:
  "map is_completed (ir_slots (snd (reader_submit env clock k r))) = map is_completed (ir_slots r)"
  by (cases "k < length (ir_slots r)")
    (auto simp: reader_submit_def Let_def map_update list_eq_iff_nth_eq nth_list_update split: option.split prod.split)

lemma process_slot_completed:
  "map is_completed (ir_slots (process_slot env clock k r)) = (map is_completed (ir_slots r))[k := False]"
proof -
  let ?r = "consume_slot env (ir_slots r ! k) r"
  let ?freed = "?r\<lparr>ir_slots := (ir_slots r)[k := (ir_slots r ! k)\<lparr>is_completed := False\<rparr>],
                ir_nextProcessSequence := ir_nextProcessSequence ?r + 1\<rparr>"
  have "map is_completed (ir_slots ?freed) = (map is_completed (ir_slots r))[k := False]" by (simp add: map_update)
  with reader_submit_completed [of env clock k ?freed] show ?thesis
    by (simp add: process_slot_def Let_def case_prod_beta)
qed

function drainCompletions :: "usb_env \<Rightarrow> (usb_trace \<Rightarrow> u64) \<Rightarrow> AudioInputReader \<Rightarrow> AudioInputReader" where
  "drainCompletions env clock r =
     (case next_completed r of None \<Rightarrow> r | Some k \<Rightarrow> drainCompletions env clock (process_slot env clock k r))"
  by pat_completeness auto

termination
proof (relation "measure (\<lambda>(env, clock, r). length (filter (\<lambda>x. x) (map is_completed (ir_slots r))))", goal_cases)
  case (2 env clock r k)
  note k = next_completed_Some [OF 2]
  then show ?case
    using filter_update [of k "map is_completed (ir_slots r)" False] by (simp add: process_slot_completed del: length_filter_map)
qed simp

declare drainCompletions.simps [simp del]

record read_completion =
  rc_slot :: nat
  rc_status :: IOReturn
  rc_data :: "u8 list"
  rc_bytes :: u32

definition reader_didComplete :: "usb_env \<Rightarrow> (usb_trace \<Rightarrow> u64) \<Rightarrow> nat \<Rightarrow> IOReturn \<Rightarrow> u32 \<Rightarrow> AudioInputReader \<Rightarrow> AudioInputReader" where
  "reader_didComplete env clock k status bytes r =
     (let slot = ir_slots r ! k; micros = clock (ds_trace (ir_device r)) - is_submittedAt slot;
          r = r\<lparr>ir_readsOver50ms := ir_readsOver50ms r + of_bool (50000 < micros),
                ir_maxReadMicros := max (ir_maxReadMicros r) micros,
                ir_slots := (ir_slots r)[k := slot\<lparr>is_completedAgeMicros := micros, is_inFlight := False, is_completed := True,
                  is_status := status, is_bytes := bytes\<rparr>]\<rparr>
      in drainCompletions env clock r)"

text \<open>The controller fills the buffer of the slot, then the callback runs.\<close>

definition reader_event :: "usb_env \<Rightarrow> (usb_trace \<Rightarrow> u64) \<Rightarrow> read_completion \<Rightarrow> AudioInputReader \<Rightarrow> AudioInputReader" where
  "reader_event env clock c r =
     (let k = rc_slot c; slot = ir_slots r ! k in
      reader_didComplete env clock k (rc_status c) (rc_bytes c)
        (r\<lparr>ir_slots := (ir_slots r)[k := slot\<lparr>is_data := map_option (overwrite 0 (rc_data c)) (is_data slot)\<rparr>]\<rparr>))"

fun reader_drain :: "usb_env \<Rightarrow> (usb_trace \<Rightarrow> u64) \<Rightarrow> read_completion list list \<Rightarrow> AudioInputReader \<Rightarrow> AudioInputReader" where
  "reader_drain env clock [] r = r"
| "reader_drain env clock (poll # polls) r =
     (if reader_inFlightCount r = 0 then r else reader_drain env clock polls (fold (reader_event env clock) poll r))"

definition reader_releaseBuffers :: "AudioInputReader \<Rightarrow> IOReturn \<times> AudioInputReader" where
  "reader_releaseBuffers r = (kIOReturnSuccess, r\<lparr>ir_slots := map (is_data_update (\<lambda>_. None)) (ir_slots r)\<rparr>)"

text \<open>The first part of \<^verbatim>\<open>stop\<close>: no more submissions, and the transfers in flight are aborted.\<close>

definition reader_halt :: "usb_env \<Rightarrow> AudioInputReader \<Rightarrow> IOReturn \<times> AudioInputReader" where
  "reader_halt env r =
     (let r = r\<lparr>ir_running := False\<rparr> in
      case ds_auxInterface (ir_device r) of None \<Rightarrow> (kIOReturnSuccess, r) | Some i \<Rightarrow>
      if reader_inFlightCount r \<noteq> 0
      then (case call env (AbortPipe i (ds_audioInPipe (ir_device r))) (ir_device r) of (st, s) \<Rightarrow> (st, r\<lparr>ir_device := s\<rparr>))
      else (kIOReturnSuccess, r))"

definition reader_release_events :: "AudioInputReader \<Rightarrow> IOReturn \<times> AudioInputReader" where
  "reader_release_events r =
     (if ir_eventsAcquired r
      then (case releaseAuxiliaryEvents (ir_runLoop r) (ir_device r) of (st, s) \<Rightarrow> (st, r\<lparr>ir_device := s, ir_eventsAcquired := False\<rparr>))
      else (kIOReturnSuccess, r))"

definition reader_detach :: "AudioInputReader \<Rightarrow> AudioInputReader" where
  "reader_detach r =
     (let r = snd (reader_releaseBuffers r)
      in r\<lparr>ir_session := False, ir_runLoop := None,
           ir_device := (case ir_runLoop r of None \<Rightarrow> ir_device r | Some l \<Rightarrow> note_call (RunLoopRelease l) (ir_device r))\<rparr>)"

definition reader_stop :: "usb_env \<Rightarrow> (usb_trace \<Rightarrow> u64) \<Rightarrow> read_completion list list \<Rightarrow> AudioInputReader \<Rightarrow> IOReturn \<times> AudioInputReader" where
  "reader_stop env clock polls r =
     (if \<not> ir_session r then (kIOReturnSuccess, r) else
      let (result, r) = reader_halt env r;
          r = (if ds_auxInterface (ir_device r) \<noteq> None then reader_drain env clock polls r else r)
      in if ds_auxInterface (ir_device r) \<noteq> None \<and> reader_inFlightCount r \<noteq> 0 then (kIOReturnTimeout, r)
         else let (st, r) = reader_release_events (r\<lparr>ir_slots := map (is_completed_update (\<lambda>_. False)) (ir_slots r)\<rparr>)
              in (if result = kIOReturnSuccess then st else result, reader_detach r))"

fun reader_submit_all :: "usb_env \<Rightarrow> (usb_trace \<Rightarrow> u64) \<Rightarrow> nat list \<Rightarrow> AudioInputReader \<Rightarrow> IOReturn \<times> AudioInputReader" where
  "reader_submit_all env clock [] r = (kIOReturnSuccess, r)"
| "reader_submit_all env clock (k # ks) r = on_success (reader_submit env clock k r) (reader_submit_all env clock ks) Pair"

text \<open>
  \<open>memory k\<close> says whether the allocation of the buffer of slot \<open>k\<close> succeeds and what the fresh memory holds.
\<close>

definition reader_start :: "usb_env \<Rightarrow> (usb_trace \<Rightarrow> u64) \<Rightarrow> (nat \<Rightarrow> u8 list option) \<Rightarrow> nat option \<Rightarrow> read_completion list list \<Rightarrow>
    NS6DeviceSession \<Rightarrow> AudioInputEngine \<Rightarrow> AudioInputReader \<Rightarrow> IOReturn \<times> AudioInputReader" where
  "reader_start env clock memory currentLoop polls session engine r =
     (case ds_auxInterface session of None \<Rightarrow> (kIOReturnNotReady, r) | Some i \<Rightarrow>
      if ir_running r \<or> reader_inFlightCount r \<noteq> 0 \<or> ds_audioInPipe session = 0 \<or> ds_auxAsyncEventSource session = None
      then (kIOReturnNotReady, r) else
      let r = r\<lparr>ir_device := session, ir_engine := engine, ir_session := True, ir_runLoop := currentLoop\<rparr> in
      case currentLoop of None \<Rightarrow> (kIOReturnNotReady, r\<lparr>ir_session := False\<rparr>) | Some l \<Rightarrow>
      let r = r\<lparr>ir_device := note_call (RunLoopRetain l) session, ir_nextSubmitSequence := 0, ir_nextProcessSequence := 0,
                ir_slots := map (\<lambda>(k, slot). slot\<lparr>is_data := memory k\<rparr>) (enumerate 0 (ir_slots r))\<rparr>
      in if None \<in> is_data ` set (ir_slots r) then (kIOReturnNoMemory, reader_detach r) else
      case acquireAuxiliaryEvents (Some l) (ir_device r) of (st, s) \<Rightarrow>
      let r = r\<lparr>ir_device := s\<rparr> in
      if st \<noteq> kIOReturnSuccess then (st, reader_detach r) else
      case call env (ClearPipeStall i (ds_audioInPipe session)) (ir_device r) of (st, s) \<Rightarrow>
      let r = r\<lparr>ir_device := s, ir_eventsAcquired := True\<rparr> in
      if st \<noteq> kIOReturnSuccess then (st, reader_detach (snd (reader_release_events r)))
      else on_success (reader_submit_all env clock [0..<8] (r\<lparr>ir_running := True\<rparr>)) (Pair kIOReturnSuccess)
        (\<lambda>st r. (st, snd (reader_stop env clock polls (r\<lparr>ir_transportErrors := ir_transportErrors r + 1, ir_lastError := st\<rparr>)))))"

subsection \<open>Blocks reach the engine in the order of submission\<close>

text \<open>
  What a capture session has received: for each sequence number, the status, the buffer and the byte count its
  transfer completed with. \<open>capturing\<close> follows a session from a successful start through completions, in
  any order, and through the halt that begins a stop.
\<close>

type_synonym arrivals = "nat \<Rightarrow> (IOReturn \<times> u8 list option \<times> u32) option"

definition arrive :: "read_completion \<Rightarrow> AudioInputReader \<Rightarrow> arrivals \<Rightarrow> arrivals" where
  "arrive c r a =
     (let slot = ir_slots r ! rc_slot c
      in a(unat (is_sequence slot) \<mapsto> (rc_status c, map_option (overwrite 0 (rc_data c)) (is_data slot), rc_bytes c)))"

inductive capturing :: "usb_env \<Rightarrow> (usb_trace \<Rightarrow> u64) \<Rightarrow> AudioInputEngine \<Rightarrow> nat \<Rightarrow> AudioInputReader \<Rightarrow> arrivals \<Rightarrow> bool"
  for env clock engine where
  started: "length (ir_slots r0) = 8 \<Longrightarrow> (\<forall>slot \<in> set (ir_slots r0). \<not> is_completed slot) \<Longrightarrow>
    reader_start env clock memory loop polls session engine r0 = (kIOReturnSuccess, r) \<Longrightarrow> capturing env clock engine 0 r Map.empty"
| completed: "capturing env clock engine n r a \<Longrightarrow> rc_slot c < 8 \<Longrightarrow> is_inFlight (ir_slots r ! rc_slot c) \<Longrightarrow>
    capturing env clock engine (Suc n) (reader_event env clock c r) (arrive c r a)"
| halted: "capturing env clock engine n r a \<Longrightarrow> capturing env clock engine n (snd (reader_halt env r)) a"

definition deliver_block :: "(IOReturn \<times> u8 list option \<times> u32) option \<Rightarrow> AudioInputEngine \<Rightarrow> AudioInputEngine" where
  "deliver_block arrival e =
     (case arrival of None \<Rightarrow> e
      | Some (status, data, bytes) \<Rightarrow> if status = kIOReturnSuccess then snd (publishUSBBlock data (unat bytes) e) else e)"

definition busy :: "in_slot \<Rightarrow> bool" where
  "busy slot \<longleftrightarrow> is_inFlight slot \<or> is_completed slot"

definition seq_of :: "AudioInputReader \<Rightarrow> nat \<Rightarrow> nat" where
  "seq_of r k = unat (is_sequence (ir_slots r ! k))"

text \<open>
  The busy slots carry exactly the sequence numbers between the next one to process and the next one to submit;
  a completed slot holds what arrived for its number.
\<close>

definition window_ok :: "AudioInputReader \<Rightarrow> bool" where
  "window_ok r \<longleftrightarrow> length (ir_slots r) = 8 \<and> unat (ir_nextProcessSequence r) \<le> unat (ir_nextSubmitSequence r) \<and>
     (\<forall>k<8. \<not> (is_inFlight (ir_slots r ! k) \<and> is_completed (ir_slots r ! k))) \<and>
     bij_betw (seq_of r) {k. k < 8 \<and> busy (ir_slots r ! k)} {unat (ir_nextProcessSequence r)..<unat (ir_nextSubmitSequence r)}"

definition reading_inv :: "AudioInputEngine \<Rightarrow> nat \<Rightarrow> AudioInputReader \<Rightarrow> arrivals \<Rightarrow> bool" where
  "reading_inv engine n r a \<longleftrightarrow> ir_session r \<and> window_ok r \<and>
     unat (ir_nextProcessSequence r) + card {k. k < 8 \<and> is_completed (ir_slots r ! k)} = n \<and>
     (\<forall>k<8. is_completed (ir_slots r ! k) \<longrightarrow>
        a (seq_of r k) = Some (is_status (ir_slots r ! k), is_data (ir_slots r ! k), is_bytes (ir_slots r ! k))) \<and>
     ir_engine r = fold (\<lambda>n. deliver_block (a n)) [0..<unat (ir_nextProcessSequence r)] engine"

lemma consume_slot_fields:
  "ir_nextProcessSequence (consume_slot env slot r) = ir_nextProcessSequence r"
  "ir_nextSubmitSequence (consume_slot env slot r) = ir_nextSubmitSequence r"
  "ir_session (consume_slot env slot r) = ir_session r"
  "ir_session r \<Longrightarrow> ir_engine (consume_slot env slot r) = deliver_block (Some (is_status slot, is_data slot, is_bytes slot)) (ir_engine r)"
  by (simp_all add: consume_slot_def clear_stall_def deliver_block_def Let_def split: option.split prod.split)

lemma reader_submit_cases:
  assumes "reader_submit env clock k r = (st, r')"
  obtains (failed) s seq t where "st \<noteq> kIOReturnSuccess" "r' = r \<or> \<not> busy (ir_slots r ! k) \<and>
      r' = r\<lparr>ir_device := s, ir_slots := (ir_slots r)[k := (ir_slots r ! k)\<lparr>is_sequence := seq, is_submittedAt := t, is_inFlight := False\<rparr>]\<rparr>"
  | (ok) s t where "st = kIOReturnSuccess" "\<not> busy (ir_slots r ! k)"
      "r' = r\<lparr>ir_device := s, ir_slots := (ir_slots r)[k := (ir_slots r ! k)\<lparr>is_sequence := ir_nextSubmitSequence r, is_submittedAt := t,
         is_inFlight := True\<rparr>], ir_nextSubmitSequence := ir_nextSubmitSequence r + 1\<rparr>"
proof (cases "ir_running r \<and> ir_session r \<and> \<not> busy (ir_slots r ! k)")
  case False
  then show thesis using assms failed by (auto simp: reader_submit_def busy_def Let_def)
next
  case True
  show thesis
  proof (cases "ds_auxInterface (ir_device r)")
    case None
    then show thesis using assms True failed by (auto simp: reader_submit_def busy_def Let_def)
  next
    case (Some i)
    obtain st' s where "call env (PipeTransfer i (ds_audioInPipe (ir_device r)) k) (ir_device r) = (st', s)" by fastforce
    with assms True Some have "st = st'" "r' = r\<lparr>ir_device := s, ir_slots := (ir_slots r)[k := (ir_slots r ! k)\<lparr>
        is_sequence := ir_nextSubmitSequence r, is_submittedAt := clock (ds_trace (ir_device r)), is_inFlight := st' = kIOReturnSuccess\<rparr>],
        ir_nextSubmitSequence := ir_nextSubmitSequence r + of_bool (st' = kIOReturnSuccess)\<rparr>"
      by (auto simp: reader_submit_def busy_def Let_def)
    then show thesis using True failed ok by (cases "st' = kIOReturnSuccess") auto
  qed
qed

lemma bij_same: "bij_betw f A B \<Longrightarrow> \<forall>x \<in> A. g x = f x \<Longrightarrow> bij_betw g A B"
  using bij_betw_cong [of A g f B] by simp

lemma window_take:
  assumes "bij_betw f K {p..<s}" and "k \<in> K" and "f k = p"
  shows "p < s" "bij_betw f (K - {k}) {Suc p..<s}"
proof -
  have "p \<in> {p..<s}" using assms by (auto simp: bij_betw_def)
  then show "p < s" by simp
  have "f ` (K - {k}) = {p..<s} - {p}" using assms by (auto simp: bij_betw_def inj_on_image_set_diff [of f K])
  moreover have "{p..<s} - {p} = {Suc p..<s}" by auto
  ultimately show "bij_betw f (K - {k}) {Suc p..<s}" using assms(1) by (auto simp: bij_betw_def intro: inj_on_subset)
qed

lemma window_put:
  assumes "bij_betw f K {p..<s}" and "p \<le> s" and "k \<notin> K" and "\<forall>i \<in> K. g i = f i" and "g k = s"
  shows "bij_betw g (insert k K) {p..<Suc s}"
proof -
  have "bij_betw g K {p..<s}" by (rule bij_same [OF assms(1,4)])
  then have "bij_betw g (K \<union> {k}) ({p..<s} \<union> {s})"
    using assms(3,5) by (intro bij_betw_combine) (auto simp: bij_betw_def)
  moreover have "{p..<s} \<union> {s} = {p..<Suc s}" using assms(2) by auto
  ultimately show ?thesis by simp
qed

lemma window_card:
  assumes "window_ok r"
  shows "unat (ir_nextSubmitSequence r) = unat (ir_nextProcessSequence r) + card {k. k < 8 \<and> busy (ir_slots r ! k)}"
  using assms bij_betw_same_card by (fastforce simp: window_ok_def)

lemma card_busy:
  fixes P :: "nat \<Rightarrow> bool"
  shows "card {k. k < 8 \<and> P k} \<le> 8" "i < 8 \<Longrightarrow> \<not> P i \<Longrightarrow> card {k. k < 8 \<and> P k} < 8"
proof -
  show "card {k. k < 8 \<and> P k} \<le> 8" using card_mono [of "{0..<8}" "{k. k < 8 \<and> P k}"] by (auto simp: subset_iff)
  show "card {k. k < 8 \<and> P k} < 8" if "i < 8" "\<not> P i"
    using psubset_card_mono [of "{0..<8}" "{k. k < 8 \<and> P k}"] that by (auto simp: psubset_eq subset_iff set_eq_iff)
qed

text \<open>The first half of a turn of the loop: the slot is consumed and freed.\<close>

definition free_slot :: "usb_env \<Rightarrow> nat \<Rightarrow> AudioInputReader \<Rightarrow> AudioInputReader" where
  "free_slot env k r =
     (consume_slot env (ir_slots r ! k) r)\<lparr>ir_slots := (ir_slots r)[k := (ir_slots r ! k)\<lparr>is_completed := False\<rparr>],
        ir_nextProcessSequence := ir_nextProcessSequence r + 1\<rparr>"

lemma process_slot_free:
  "process_slot env clock k r = (let r = free_slot env k r in
     if \<not> ir_running r then r else case reader_submit env clock k r of (st, r) \<Rightarrow>
       if st = kIOReturnSuccess then r
       else r\<lparr>ir_transportErrors := ir_transportErrors r + 1, ir_lastError := st, ir_running := False\<rparr>)"
  by (simp add: process_slot_def free_slot_def Let_def consume_slot_fields)

lemma free_slot_inv:
  assumes "reading_inv engine n r a" and "next_completed r = Some k"
  shows "reading_inv engine n (free_slot env k r) a" and "\<not> busy (ir_slots (free_slot env k r) ! k)" and "k < 8"
proof -
  note inv = assms(1) [unfolded reading_inv_def]
  have l: "length (ir_slots r) = 8" using inv by (simp add: window_ok_def)
  note k = next_completed_Some [OF assms(2), unfolded l]
  show "k < 8" by (fact k(1))
  let ?K = "{i. i < 8 \<and> busy (ir_slots r ! i)}" and ?p = "unat (ir_nextProcessSequence r)" and ?s = "unat (ir_nextSubmitSequence r)"
  have fl: "\<not> is_inFlight (ir_slots r ! k)" using inv k by (auto simp: window_ok_def)
  have bij: "bij_betw (seq_of r) ?K {?p..<?s}" using inv by (simp add: window_ok_def)
  have "k \<in> ?K" "seq_of r k = ?p" using k by (auto simp: busy_def seq_of_def)
  note take = window_take [OF bij this]
  have p: "unat (ir_nextProcessSequence r + 1) = Suc ?p"
    using take(1) unsigned_less [where 'a = nat, of "ir_nextSubmitSequence r"] by (simp add: unat_word_ariths)
  let ?r = "free_slot env k r"
  have at: "ir_slots ?r ! i = (if i = k then (ir_slots r ! k)\<lparr>is_completed := False\<rparr> else ir_slots r ! i)" if "i < 8" for i
    using that l by (simp add: free_slot_def nth_list_update)
  show "\<not> busy (ir_slots ?r ! k)" using at [OF k(1)] fl by (simp add: busy_def)
  have K: "{i. i < 8 \<and> busy (ir_slots ?r ! i)} = ?K - {k}" using fl at by (auto simp: busy_def split: if_splits)
  have seq: "seq_of ?r i = seq_of r i" if "i < 8" for i using that at by (simp add: seq_of_def)
  have "bij_betw (seq_of ?r) (?K - {k}) {Suc ?p..<?s}" using seq by (intro bij_same [OF take(2)]) simp
  moreover have "\<forall>i<8. \<not> (is_inFlight (ir_slots ?r ! i) \<and> is_completed (ir_slots ?r ! i))"
    using inv at by (simp add: window_ok_def)
  ultimately have w: "window_ok ?r"
    using take(1) l unfolding window_ok_def K by (simp add: free_slot_def consume_slot_fields p)
  have C: "{i. i < 8 \<and> is_completed (ir_slots r ! i)} = insert k {i. i < 8 \<and> is_completed (ir_slots ?r ! i)}"
    and k': "k \<notin> {i. i < 8 \<and> is_completed (ir_slots ?r ! i)}"
    using k at by (auto split: if_splits)
  have c: "unat (ir_nextProcessSequence ?r) + card {i. i < 8 \<and> is_completed (ir_slots ?r ! i)} = n"
    using inv p unfolding C by (subst (asm) card_insert_disjoint) (use k' in \<open>auto simp: free_slot_def\<close>)
  have e: "ir_engine ?r = deliver_block (a ?p) (ir_engine r)"
    using inv k by (auto simp: free_slot_def consume_slot_fields seq_of_def)
  show "reading_inv engine n ?r a"
    unfolding reading_inv_def using inv w c e p at seq by (simp add: free_slot_def consume_slot_fields)
qed

lemma submit_inv:
  assumes "reading_inv engine n r a" and "k < 8" and "reader_submit env clock k r = (st, r')" and "n + 8 < 2 ^ 64"
  shows "reading_inv engine n r' a"
  using assms(3)
proof (cases rule: reader_submit_cases)
  case (failed s seq t)
  note inv = assms(1) [unfolded reading_inv_def window_ok_def]
  show ?thesis
  proof (cases "r' = r")
    case False
    then have nb: "\<not> busy (ir_slots r ! k)" and r': "r' = r\<lparr>ir_device := s, ir_slots :=
        (ir_slots r)[k := (ir_slots r ! k)\<lparr>is_sequence := seq, is_submittedAt := t, is_inFlight := False\<rparr>]\<rparr>"
      using failed by auto
    have nth: "ir_slots r' ! i = (if i = k then (ir_slots r ! k)\<lparr>is_sequence := seq, is_submittedAt := t, is_inFlight := False\<rparr>
        else ir_slots r ! i)" if "i < 8" for i using that inv by (simp add: r' nth_list_update)
    have at: "is_inFlight (ir_slots r' ! i) = is_inFlight (ir_slots r ! i)" "is_completed (ir_slots r' ! i) = is_completed (ir_slots r ! i)"
      "busy (ir_slots r' ! i) = busy (ir_slots r ! i)" "busy (ir_slots r ! i) \<Longrightarrow> ir_slots r' ! i = ir_slots r ! i" if "i < 8" for i
      using nth [OF that] nb by (auto simp: busy_def)
    have sq: "seq_of r' i = seq_of r i" if "i < 8" "busy (ir_slots r ! i)" for i using at(4) that by (simp add: seq_of_def)
    have eq: "{k. k < 8 \<and> busy (ir_slots r' ! k)} = {k. k < 8 \<and> busy (ir_slots r ! k)}"
      "{k. k < 8 \<and> is_completed (ir_slots r' ! k)} = {k. k < 8 \<and> is_completed (ir_slots r ! k)}" using at by auto
    have "bij_betw (seq_of r') {k. k < 8 \<and> busy (ir_slots r ! k)} {unat (ir_nextProcessSequence r)..<unat (ir_nextSubmitSequence r)}"
      using sq inv by (auto intro: bij_same)
    moreover have "ir_slots r' ! i = ir_slots r ! i" "seq_of r' i = seq_of r i" if "i < 8" "is_completed (ir_slots r' ! i)" for i
      using at sq that by (simp_all add: busy_def)
    ultimately show ?thesis
      using inv at(1,2) unfolding reading_inv_def window_ok_def eq by (auto simp: r')
  qed (use assms in simp)
next
  case (ok s t)
  note inv = assms(1) [unfolded reading_inv_def]
  let ?K = "{k. k < 8 \<and> busy (ir_slots r ! k)}" and ?p = "unat (ir_nextProcessSequence r)" and ?s = "unat (ir_nextSubmitSequence r)"
  have l: "length (ir_slots r) = 8" "?p \<le> ?s" and bij: "bij_betw (seq_of r) ?K {?p..<?s}" using inv by (simp_all add: window_ok_def)
  have "?s \<le> n + 7" using window_card [of r] inv card_busy(2) [of k "\<lambda>k. busy (ir_slots r ! k)"] assms(2) ok(2) by auto
  then have s: "unat (ir_nextSubmitSequence r + 1) = Suc ?s" using assms(4) by (simp add: unat_word_ariths)
  have at: "ir_slots r' ! i = (if i = k then (ir_slots r ! k)\<lparr>is_sequence := ir_nextSubmitSequence r, is_submittedAt := t,
      is_inFlight := True\<rparr> else ir_slots r ! i)" if "i < 8" for i using that l by (simp add: ok(3) nth_list_update)
  have sq: "seq_of r' k = ?s" "\<forall>i \<in> ?K. seq_of r' i = seq_of r i" using at ok(2) assms(2) by (auto simp: seq_of_def)
  have K: "{k. k < 8 \<and> busy (ir_slots r' ! k)} = insert k ?K" using at assms(2) by (auto simp: busy_def)
  have bij': "bij_betw (seq_of r') (insert k ?K) {?p..<Suc ?s}"
    by (rule window_put [OF bij l(2) _ sq(2,1)]) (use ok(2) in simp)
  have c: "is_completed (ir_slots r' ! i) = is_completed (ir_slots r ! i)" "is_completed (ir_slots r ! i) \<Longrightarrow> i \<noteq> k" if "i < 8" for i
    using at that ok(2) by (auto simp: busy_def)
  have C: "{k. k < 8 \<and> is_completed (ir_slots r' ! k)} = {k. k < 8 \<and> is_completed (ir_slots r ! k)}" using c by auto
  have "\<forall>i<8. \<not> (is_inFlight (ir_slots r' ! i) \<and> is_completed (ir_slots r' ! i))"
    using at ok(2) inv by (auto simp: window_ok_def busy_def)
  then have "window_ok r'"
    unfolding window_ok_def K using bij' l by (simp add: ok(3) s)
  moreover have "seq_of r' i = seq_of r i" "ir_slots r' ! i = ir_slots r ! i" if "i < 8" "is_completed (ir_slots r ! i)" for i
    using at c that by (auto simp: seq_of_def)
  ultimately show ?thesis unfolding reading_inv_def C using inv c by (simp add: ok(3))
qed

lemma reading_inv_flags [simp]:
  "reading_inv engine n (ir_transportErrors_update f r) a = reading_inv engine n r a"
  "reading_inv engine n (ir_lastError_update g r) a = reading_inv engine n r a"
  "reading_inv engine n (ir_running_update h r) a = reading_inv engine n r a"
  "reading_inv engine n (ir_device_update d r) a = reading_inv engine n r a"
  "reading_inv engine n (ir_readsOver50ms_update f r) a = reading_inv engine n r a"
  "reading_inv engine n (ir_maxReadMicros_update f r) a = reading_inv engine n r a"
  by (simp_all add: reading_inv_def window_ok_def seq_of_def [abs_def])

lemma process_slot_inv:
  assumes "reading_inv engine n r a" and "next_completed r = Some k" and "n + 8 < 2 ^ 64"
  shows "reading_inv engine n (process_slot env clock k r) a"
  using free_slot_inv(1) [OF assms(1,2), of env] free_slot_inv(3) [OF assms(1,2)] submit_inv [where k = k and env = env and clock = clock and r = "free_slot env k r" and engine = engine and n = n and a = a] assms(3)
  by (auto simp: process_slot_free Let_def split: prod.split)

lemma drainCompletions_inv:
  "reading_inv engine n r a \<Longrightarrow> n + 8 < 2 ^ 64 \<Longrightarrow>
   reading_inv engine n (drainCompletions env clock r) a \<and> next_completed (drainCompletions env clock r) = None"
proof (induction env clock r rule: drainCompletions.induct)
  case (1 env clock r)
  show ?case
  proof (cases "next_completed r")
    case (Some k)
    then show ?thesis using 1 process_slot_inv [OF 1(2) Some 1(3)] by (subst (1 2) drainCompletions.simps) simp
  qed (use 1 in \<open>simp add: drainCompletions.simps\<close>)
qed

text \<open>A completion adds what arrived, whatever the slot, and the loop leaves nothing that could be delivered.\<close>

lemma completed_inv:
  assumes "reading_inv engine n r a" and "k < 8" and fl: "is_inFlight (ir_slots r ! k)"
    and r': "r' = r\<lparr>ir_slots := (ir_slots r)[k := (ir_slots r ! k)\<lparr>is_data := data, is_completedAgeMicros := t, is_inFlight := False,
      is_completed := True, is_status := st, is_bytes := b\<rparr>]\<rparr>"
  shows "reading_inv engine (Suc n) r' (a(seq_of r k \<mapsto> (st, data, b)))"
proof -
  note inv = assms(1) [unfolded reading_inv_def window_ok_def]
  let ?K = "{k. k < 8 \<and> busy (ir_slots r ! k)}" and ?p = "unat (ir_nextProcessSequence r)"
  have at: "ir_slots r' ! i = (if i = k then (ir_slots r ! k)\<lparr>is_data := data, is_completedAgeMicros := t, is_inFlight := False,
      is_completed := True, is_status := st, is_bytes := b\<rparr> else ir_slots r ! i)" if "i < 8" for i
    using that inv by (simp add: r' nth_list_update)
  have sq: "seq_of r' i = seq_of r i" if "i < 8" for i using at that by (simp add: seq_of_def)
  have K: "{k. k < 8 \<and> busy (ir_slots r' ! k)} = ?K" using at fl by (auto simp: busy_def split: if_splits)
  have nc: "\<not> is_completed (ir_slots r ! k)" using inv assms(2) fl by auto
  have "{i. i < 8 \<and> is_completed (ir_slots r' ! i)} = insert k {i. i < 8 \<and> is_completed (ir_slots r ! i)}"
    using at assms(2) by (auto split: if_splits)
  then have C: "card {i. i < 8 \<and> is_completed (ir_slots r' ! i)} = Suc (card {i. i < 8 \<and> is_completed (ir_slots r ! i)})"
    using nc by simp
  have bij: "bij_betw (seq_of r) ?K {?p..<unat (ir_nextSubmitSequence r)}" using inv by simp
  have "bij_betw (seq_of r') ?K {?p..<unat (ir_nextSubmitSequence r)}" by (rule bij_same [OF bij]) (simp add: sq)
  moreover have "\<forall>i<8. \<not> (is_inFlight (ir_slots r' ! i) \<and> is_completed (ir_slots r' ! i))" using inv at by simp
  ultimately have w: "window_ok r'" unfolding window_ok_def K using inv by (simp add: r')
  have kK: "k \<in> ?K" using assms(2) fl by (simp add: busy_def)
  then have "seq_of r k \<in> {?p..<unat (ir_nextSubmitSequence r)}" using bij by (auto simp: bij_betw_def)
  then have e: "fold (\<lambda>n. deliver_block ((a(seq_of r k \<mapsto> (st, data, b))) n)) [0..<?p] engine =
      fold (\<lambda>n. deliver_block (a n)) [0..<?p] engine" by (intro fold_cong) auto
  have other: "seq_of r i \<noteq> seq_of r k" if "i < 8" "i \<noteq> k" "is_completed (ir_slots r ! i)" for i
    using bij that kK by (auto simp: bij_betw_def inj_on_def busy_def)
  have "a' (seq_of r' i) = Some (is_status (ir_slots r' ! i), is_data (ir_slots r' ! i), is_bytes (ir_slots r' ! i))"
    if "i < 8" "is_completed (ir_slots r' ! i)" "a' = a(seq_of r k \<mapsto> (st, data, b))" for i a'
    using inv that other [OF that(1)] at sq by (cases "i = k") auto
  then show ?thesis unfolding reading_inv_def using inv w C e by (simp add: r')
qed

lemma event_inv:
  assumes "reading_inv engine n r a" and "rc_slot c < 8" and "is_inFlight (ir_slots r ! rc_slot c)" and "Suc n + 8 < 2 ^ 64"
  shows "reading_inv engine (Suc n) (reader_event env clock c r) (arrive c r a) \<and> next_completed (reader_event env clock c r) = None"
proof -
  let ?k = "rc_slot c" and ?t = "clock (ds_trace (ir_device r)) - is_submittedAt (ir_slots r ! rc_slot c)"
  let ?data = "map_option (overwrite 0 (rc_data c)) (is_data (ir_slots r ! ?k))"
  have l: "?k < length (ir_slots r)" using assms(1,2) by (simp add: reading_inv_def window_ok_def)
  have "reading_inv engine (Suc n) (r\<lparr>ir_slots := (ir_slots r)[?k := (ir_slots r ! ?k)\<lparr>is_data := ?data, is_completedAgeMicros := ?t,
      is_inFlight := False, is_completed := True, is_status := rc_status c, is_bytes := rc_bytes c\<rparr>]\<rparr>) (arrive c r a)"
    using completed_inv [OF assms(1-3) refl, where data = ?data and t = ?t and st = "rc_status c" and b = "rc_bytes c"] by (simp add: arrive_def Let_def seq_of_def)
  then have "reading_inv engine (Suc n) (r\<lparr>ir_readsOver50ms := ir_readsOver50ms r + of_bool (50000 < ?t),
      ir_maxReadMicros := max (ir_maxReadMicros r) ?t,
      ir_slots := (ir_slots r)[?k := (ir_slots r ! ?k)\<lparr>is_data := ?data, is_completedAgeMicros := ?t,
      is_inFlight := False, is_completed := True, is_status := rc_status c, is_bytes := rc_bytes c\<rparr>]\<rparr>) (arrive c r a)"
    by (simp add: reading_inv_def window_ok_def seq_of_def [abs_def])
  from drainCompletions_inv [OF this assms(4), of env clock] l show ?thesis
    by (simp add: reader_event_def reader_didComplete_def Let_def)
qed

lemma reads_submit_all_inv:
  "reading_inv engine n r a \<Longrightarrow> n + 8 < 2 ^ 64 \<Longrightarrow> \<forall>k \<in> set ks. k < 8 \<Longrightarrow> reader_submit_all env clock ks r = (st, r') \<Longrightarrow>
   reading_inv engine n r' a \<and> map is_completed (ir_slots r') = map is_completed (ir_slots r)"
proof (induction ks arbitrary: r)
  case (Cons k ks)
  obtain st1 r1 where sub: "reader_submit env clock k r = (st1, r1)" by fastforce
  have 1: "reading_inv engine n r1 a" using submit_inv [OF Cons.prems(1) _ sub Cons.prems(2)] Cons.prems(3) by simp
  have "map is_completed (ir_slots r1) = map is_completed (ir_slots r)" using reader_submit_completed [of env clock k r] sub by simp
  then show ?case using Cons.IH [OF 1 Cons.prems(2)] Cons.prems(3,4) 1 sub by (auto simp: on_success_def split: if_splits)
qed simp

lemma no_completed: "True \<notin> set (map is_completed (ir_slots r)) \<Longrightarrow> next_completed r = None"
  using nth_mem [of _ "ir_slots r"] by (auto simp: next_completed_def find_None_iff)

lemma inFlightCount_zero:
  assumes "reader_inFlightCount r = 0" and "length (ir_slots r) = 8" and "k < 8"
  shows "\<not> is_inFlight (ir_slots r ! k)"
proof -
  have "sum_list (map (\<lambda>s. if is_inFlight s then 1 else 0) xs) = (word_of_nat (length (filter is_inFlight xs)) :: u32)" for xs :: "in_slot list"
    by (induction xs) simp_all
  then have "word_of_nat (length (filter is_inFlight (ir_slots r))) = reader_inFlightCount r" by (simp only: reader_inFlightCount_def)
  moreover have lt: "length (filter is_inFlight (ir_slots r)) < 2 ^ 32"
    using length_filter_le [of is_inFlight "ir_slots r"] assms(2) by simp
  ultimately have "unat (0 :: u32) = length (filter is_inFlight (ir_slots r)) mod 2 ^ 32"
    using assms(1) unat_of_nat [where 'a = 32, of "length (filter is_inFlight (ir_slots r))"] by simp
  with lt have "filter is_inFlight (ir_slots r) = []" by simp
  then show ?thesis using assms(2,3) by (simp add: filter_empty_conv)
qed

lemma start_inv:
  assumes "length (ir_slots r0) = 8" and "\<forall>slot \<in> set (ir_slots r0). \<not> is_completed slot"
    and "reader_start env clock memory loop polls session engine r0 = (kIOReturnSuccess, r)"
  shows "reading_inv engine 0 r Map.empty \<and> next_completed r = None"
proof -
  obtain r1 where sub: "reader_submit_all env clock [0..<8] r1 = (kIOReturnSuccess, r)"
    and r1: "ir_session r1" "ir_engine r1 = engine" "ir_nextSubmitSequence r1 = 0" "ir_nextProcessSequence r1 = 0"
      "ir_slots r1 = map (\<lambda>(k, slot). slot\<lparr>is_data := memory k\<rparr>) (enumerate 0 (ir_slots r0))" "reader_inFlightCount r0 = 0"
    using assms(3) unfolding reader_start_def
    by (auto simp: Let_def on_success_def split: if_splits option.splits prod.splits)
  have at: "ir_slots r1 ! k = (ir_slots r0 ! k)\<lparr>is_data := memory k\<rparr>" if "k < 8" for k
    using that assms(1) by (simp add: r1 nth_enumerate_eq)
  have idle: "\<not> is_completed (ir_slots r1 ! k)" "\<not> busy (ir_slots r1 ! k)" if "k < 8" for k
    using that assms(1,2) inFlightCount_zero [OF r1(6) assms(1)] at [OF that] by (simp_all add: busy_def)
  have "{k. k < 8 \<and> busy (ir_slots r1 ! k)} = {}" "{k. k < 8 \<and> is_completed (ir_slots r1 ! k)} = {}" using idle by auto
  note none = this
  have l: "length (ir_slots r1) = 8" by (simp add: r1 assms(1))
  then have inv: "reading_inv engine 0 r1 Map.empty"
    unfolding reading_inv_def window_ok_def none using idle by (simp add: r1(1-4) bij_betw_def)
  have "True \<notin> set (map is_completed (ir_slots r1))" using idle l by (auto simp: in_set_conv_nth)
  then show ?thesis using reads_submit_all_inv [OF inv _ _ sub] no_completed [of r] by simp
qed

lemma capturing_inv:
  "capturing env clock engine n r a \<Longrightarrow> n + 8 < 2 ^ 64 \<Longrightarrow> reading_inv engine n r a \<and> next_completed r = None"
proof (induction rule: capturing.induct)
  case (started r0 memory loop polls session r)
  show ?case by (rule start_inv [OF started(1-3)])
next
  case (completed n r a c)
  then show ?case using event_inv [of engine n r a c env clock] by simp
next
  case (halted n r a)
  then show ?case by (simp add: reader_halt_def next_completed_def Let_def split: option.split prod.split)
qed

text \<open>
  (C7) Capture blocks are published in the order their transfers were submitted, whatever the order of completion, and
  none is lost: after \<open>n\<close> completions the engine is the initial one after the arrivals with sequence numbers below
  the next one to process, in increasing order; and once nothing is in flight, every submitted transfer has been
  processed.
\<close>

theorem capture_in_order:
  assumes "capturing env clock engine n r a" and "n + 8 < 2 ^ 64"
  shows "ir_engine r = fold (\<lambda>i. deliver_block (a i)) [0..<unat (ir_nextProcessSequence r)] engine \<and>
    (reader_inFlightCount r = 0 \<longrightarrow> ir_nextProcessSequence r = ir_nextSubmitSequence r \<and> unat (ir_nextProcessSequence r) = n)"
proof (intro conjI [rotated] impI)
  note inv = capturing_inv [OF assms]
  then show "ir_engine r = fold (\<lambda>i. deliver_block (a i)) [0..<unat (ir_nextProcessSequence r)] engine" by (simp add: reading_inv_def)
  assume idle: "reader_inFlightCount r = 0"
  have w: "window_ok r" and l: "length (ir_slots r) = 8" using inv by (simp_all add: reading_inv_def window_ok_def)
  note none = inFlightCount_zero [OF idle l]
  have eq: "ir_nextProcessSequence r = ir_nextSubmitSequence r"
  proof (rule ccontr)
    assume "ir_nextProcessSequence r \<noteq> ir_nextSubmitSequence r"
    then have "unat (ir_nextProcessSequence r) \<in> {unat (ir_nextProcessSequence r)..<unat (ir_nextSubmitSequence r)}"
      using w by (auto simp: window_ok_def word_unat_eq_iff)
    then have "unat (ir_nextProcessSequence r) \<in> seq_of r ` {k. k < 8 \<and> busy (ir_slots r ! k)}"
      using w unfolding window_ok_def bij_betw_def by simp
    then obtain k where "k < 8" "busy (ir_slots r ! k)" "seq_of r k = unat (ir_nextProcessSequence r)" by auto
    then show False using next_completed_None [of r k] inv none [of k] l by (simp add: busy_def seq_of_def word_unat_eq_iff)
  qed
  have "{k. k < 8 \<and> busy (ir_slots r ! k)} = {}" using w eq by (simp add: window_ok_def bij_betw_def)
  then have "{k. k < 8 \<and> is_completed (ir_slots r ! k)} = {}" by (auto simp: busy_def)
  then have "card {k. k < 8 \<and> is_completed (ir_slots r ! k)} = 0" by (simp only: card.empty)
  then have "unat (ir_nextProcessSequence r) = n" using inv unfolding reading_inv_def by linarith
  with eq show "ir_nextProcessSequence r = ir_nextSubmitSequence r" "unat (ir_nextProcessSequence r) = n" by simp_all
qed

lemma AudioOutputRing_new_code [code]:
  "AudioOutputRing_new c ch =
    (if c \<noteq> 0 \<and> c < 0x80000000 \<and> ch \<noteq> 0
     then Some \<lparr>r_capacityFrames = c, r_channels = ch, r_samples = replicate (unat c * unat ch) (Fin 0),
                r_writeFrame = 0, r_readFrame = 0, r_readFraction = Fin 0\<rparr> else None)"
  by (simp add: AudioOutputRing_new_eq unat_gt_0 word_less_nat_alt)

text \<open>Eight reads in flight; the second completes first, then the first.\<close>

definition capture_session :: NS6DeviceSession where
  "capture_session = (session_new [])\<lparr>ds_auxInterface := Some 11, ds_auxOpened := True, ds_audioInPipe := 2,
     ds_auxAsyncEventSource := Some 3\<rparr>"

definition capture_started :: "IOReturn \<times> AudioInputReader" where
  "capture_started =
     (let engine = the (AudioInputEngine_new 4 1)
      in reader_start usb_example (\<lambda>_. 0) (\<lambda>k. Some []) (Some 1) [] capture_session engine (reader_new capture_session engine))"

definition capture_events :: "read_completion list" where
  "capture_events = map (\<lambda>k. \<lparr>rc_slot = k, rc_status = kIOReturnSuccess, rc_data = [], rc_bytes = 0\<rparr>) [1, 0]"

text \<open>Witness for C0.\<close>

theorem capture_in_order_witness:
  "\<exists>r a. capturing usb_example (\<lambda>_. 0) (the (AudioInputEngine_new 4 1)) 2 r a \<and> ir_nextProcessSequence r = 2 \<and>
     ir_engine r = deliver_block (a 1) (deliver_block (a 0) (the (AudioInputEngine_new 4 1)))"
proof -
  let ?e = "the (AudioInputEngine_new 4 1)" and ?go = "reader_event usb_example (\<lambda>_. 0)"
  let ?r0 = "snd capture_started" and ?c1 = "capture_events ! 0" and ?c2 = "capture_events ! 1"
  let ?r2 = "?go ?c2 (?go ?c1 ?r0)" and ?a = "arrive ?c2 (?go ?c1 ?r0) (arrive ?c1 ?r0 Map.empty)"
  have run: "fst capture_started = kIOReturnSuccess \<and> is_inFlight (ir_slots ?r0 ! 1) \<and> is_inFlight (ir_slots (?go ?c1 ?r0) ! 0) \<and>
      ir_nextProcessSequence ?r2 = 2 \<and> rc_slot ?c1 = 1 \<and> rc_slot ?c2 = 0" by code_simp
  then have "capture_started = (kIOReturnSuccess, ?r0)" by (metis prod.collapse)
  then have "capturing usb_example (\<lambda>_. 0) ?e 0 ?r0 Map.empty"
    unfolding capture_started_def Let_def by (intro capturing.started) (auto simp: reader_new_def in_slot_new_def)
  then have "capturing usb_example (\<lambda>_. 0) ?e (Suc (Suc 0)) ?r2 ?a" using run by (intro capturing.completed) simp_all
  then have cap: "capturing usb_example (\<lambda>_. 0) ?e 2 ?r2 ?a" by (simp add: numeral_2_eq_2)
  have "ir_engine ?r2 = fold (\<lambda>i. deliver_block (?a i)) [0..<unat (ir_nextProcessSequence ?r2)] ?e"
    by (rule capture_in_order [OF cap, THEN conjunct1]) simp
  also have "unat (ir_nextProcessSequence ?r2) = 2" using run by simp
  finally have "ir_engine ?r2 = deliver_block (?a 1) (deliver_block (?a 0) ?e)" by (simp add: numeral_2_eq_2)
  with cap run show ?thesis by blast
qed

end
