(* ===== verification/NS6_Clients.thy ===== *)
theory NS6_Clients
  imports NS6_Float
begin

text \<open>
  Who uses the device: the client registry of the device service, the start accounting of the two HAL plug-ins, the
  ownership flag, the session gate that keeps callbacks of an old session out, and the small decision functions of
  the driver (connection, keepalive, transport and buffer policies, firmware version).
\<close>

subsection \<open>The registry of device clients\<close>

text \<open>The first index whose element satisfies the condition of a search loop.\<close>

definition find_slot :: "('a \<Rightarrow> bool) \<Rightarrow> 'a list \<Rightarrow> nat option" where
  "find_slot P xs = find (\<lambda>i. P (xs ! i)) [0..<length xs]"

record NS6DeviceClientLease =
  client_id :: u64
  process_id :: int
  audio_active :: bool

definition lease_zero :: NS6DeviceClientLease where
  "lease_zero = \<lparr>client_id = 0, process_id = 0, audio_active = False\<rparr>"

type_synonym NS6DeviceClientRegistry = "NS6DeviceClientLease list"

definition registry_zero :: NS6DeviceClientRegistry where
  "registry_zero = replicate 8 lease_zero"

definition ns6_device_client_registry_attach ::
    "NS6DeviceClientRegistry option \<Rightarrow> u64 \<Rightarrow> int \<Rightarrow> bool \<times> NS6DeviceClientRegistry option" where
  "ns6_device_client_registry_attach registry cid pid =
     (case registry of None \<Rightarrow> (False, None) | Some r \<Rightarrow>
      if cid = 0 then (False, registry) else
      case find_slot (\<lambda>c. client_id c = cid) r of
        Some i \<Rightarrow> (True, Some (r[i := (r ! i)\<lparr>process_id := pid\<rparr>]))
      | None \<Rightarrow> (case find_slot (\<lambda>c. client_id c = 0) r of
          Some i \<Rightarrow> (True, Some (r[i := (r ! i)\<lparr>client_id := cid, process_id := pid, audio_active := False\<rparr>]))
        | None \<Rightarrow> (False, registry)))"

definition ns6_device_client_registry_set_audio_active ::
    "NS6DeviceClientRegistry option \<Rightarrow> u64 \<Rightarrow> bool \<Rightarrow> bool \<times> NS6DeviceClientRegistry option" where
  "ns6_device_client_registry_set_audio_active registry cid active =
     (case registry of None \<Rightarrow> (False, None) | Some r \<Rightarrow>
      if cid = 0 then (False, registry) else
      case find_slot (\<lambda>c. client_id c = cid) r of
        Some i \<Rightarrow> (True, Some (r[i := (r ! i)\<lparr>audio_active := active\<rparr>]))
      | None \<Rightarrow> (False, registry))"

definition ns6_device_client_registry_contains :: "NS6DeviceClientRegistry option \<Rightarrow> u64 \<Rightarrow> bool" where
  "ns6_device_client_registry_contains registry cid =
     (case registry of None \<Rightarrow> False | Some r \<Rightarrow> cid \<noteq> 0 \<and> find_slot (\<lambda>c. client_id c = cid) r \<noteq> None)"

definition ns6_device_client_registry_detach ::
    "NS6DeviceClientRegistry option \<Rightarrow> u64 \<Rightarrow> bool \<times> NS6DeviceClientRegistry option" where
  "ns6_device_client_registry_detach registry cid =
     (case registry of None \<Rightarrow> (False, None) | Some r \<Rightarrow>
      if cid = 0 then (False, registry) else
      case find_slot (\<lambda>c. client_id c = cid) r of
        Some i \<Rightarrow> (True, Some (r[i := lease_zero]))
      | None \<Rightarrow> (False, registry))"

definition ns6_device_client_registry_detach_process ::
    "NS6DeviceClientRegistry option \<Rightarrow> int \<Rightarrow> nat \<times> NS6DeviceClientRegistry option" where
  "ns6_device_client_registry_detach_process registry pid =
     (case registry of None \<Rightarrow> (0, None) | Some r \<Rightarrow>
      if pid \<le> 0 then (0, registry)
      else let gone = (\<lambda>c. client_id c \<noteq> 0 \<and> process_id c = pid)
           in (length (filter gone r), Some (map (\<lambda>c. if gone c then lease_zero else c) r)))"

definition ns6_device_client_registry_any_audio_active :: "NS6DeviceClientRegistry option \<Rightarrow> bool" where
  "ns6_device_client_registry_any_audio_active registry =
     (case registry of None \<Rightarrow> False | Some r \<Rightarrow> list_ex (\<lambda>c. client_id c \<noteq> 0 \<and> audio_active c) r)"

subsection \<open>Start accounting\<close>

definition ns6_io_client_needs_service_activation :: "u32 \<Rightarrow> bool" where
  "ns6_io_client_needs_service_activation active_starts \<longleftrightarrow> active_starts = 0"

text \<open>The counters are passed by pointer; the functions return their new values.\<close>

definition ns6_io_client_account_start :: "u32 \<Rightarrow> u32 \<Rightarrow> u32 \<times> u32" where
  "ns6_io_client_account_start client_starts active_starts = (client_starts + 1, active_starts + 1)"

definition ns6_io_client_account_untracked_start :: "u32 option \<Rightarrow> u32 option \<Rightarrow> u32 option \<times> u32 option" where
  "ns6_io_client_account_untracked_start untracked_starts active_starts =
     (case (untracked_starts, active_starts) of (Some u, Some a) \<Rightarrow> (Some (u + 1), Some (a + 1))
      | _ \<Rightarrow> (untracked_starts, active_starts))"

definition ns6_io_client_account_remove :: "u32 option \<Rightarrow> u32 option \<Rightarrow> u32 \<times> u32 option \<times> u32 option" where
  "ns6_io_client_account_remove client_starts active_starts =
     (case (client_starts, active_starts) of
        (Some removed, Some a) \<Rightarrow> (removed, Some 0, Some (if removed \<le> a then a - removed else 0))
      | _ \<Rightarrow> (0, client_starts, active_starts))"

definition ns6_io_client_account_stop ::
    "u32 option \<Rightarrow> u32 option \<Rightarrow> u32 option \<Rightarrow> bool \<times> u32 option \<times> u32 option \<times> u32 option" where
  "ns6_io_client_account_stop client_starts untracked_starts active_starts =
     (case active_starts of None \<Rightarrow> (False, client_starts, untracked_starts, active_starts) | Some a \<Rightarrow>
      if a = 0 then (False, client_starts, untracked_starts, active_starts)
      else if client_starts \<noteq> None \<and> the client_starts \<noteq> 0
        then (True, Some (the client_starts - 1), untracked_starts, Some (a - 1))
      else if untracked_starts \<noteq> None \<and> the untracked_starts \<noteq> 0
        then (True, client_starts, Some (the untracked_starts - 1), Some (a - 1))
      else (False, client_starts, untracked_starts, active_starts))"

record lifecycle_client =
  lc_id :: u32
  lc_starts :: u32

record AudioClientLifecycle =
  cl_clients :: "lifecycle_client list"
  cl_activeStarts :: u64

definition AudioClientLifecycle_new :: AudioClientLifecycle where
  "AudioClientLifecycle_new = \<lparr>cl_clients = replicate 64 \<lparr>lc_id = 0, lc_starts = 0\<rparr>, cl_activeStarts = 0\<rparr>"

text \<open>The loop of \<^verbatim>\<open>start\<close> returns at the client's slot; otherwise it has found the first free one.\<close>

definition lifecycle_start :: "u32 \<Rightarrow> AudioClientLifecycle \<Rightarrow> bool \<times> AudioClientLifecycle" where
  "lifecycle_start clientID l =
     (case find_slot (\<lambda>c. lc_starts c \<noteq> 0 \<and> lc_id c = clientID) (cl_clients l) of
        Some i \<Rightarrow> if lc_starts (cl_clients l ! i) = UINT32_MAX then (False, l)
          else (True, l\<lparr>cl_clients := (cl_clients l)[i := (cl_clients l ! i)\<lparr>lc_starts := lc_starts (cl_clients l ! i) + 1\<rparr>],
                        cl_activeStarts := cl_activeStarts l + 1\<rparr>)
      | None \<Rightarrow> (case find_slot (\<lambda>c. lc_starts c = 0) (cl_clients l) of
          None \<Rightarrow> (False, l)
        | Some i \<Rightarrow> (True, l\<lparr>cl_clients := (cl_clients l)[i := \<lparr>lc_id = clientID, lc_starts = 1\<rparr>],
                             cl_activeStarts := cl_activeStarts l + 1\<rparr>)))"

definition lifecycle_stop :: "u32 \<Rightarrow> AudioClientLifecycle \<Rightarrow> bool \<times> AudioClientLifecycle" where
  "lifecycle_stop clientID l =
     (case find_slot (\<lambda>c. lc_starts c \<noteq> 0 \<and> lc_id c = clientID) (cl_clients l) of
        None \<Rightarrow> (False, l)
      | Some i \<Rightarrow> let starts = lc_starts (cl_clients l ! i) - 1
          in (True, l\<lparr>cl_clients := (cl_clients l)[i := \<lparr>lc_id = (if starts = 0 then 0 else lc_id (cl_clients l ! i)), lc_starts = starts\<rparr>],
                      cl_activeStarts := cl_activeStarts l - 1\<rparr>))"

definition lifecycle_removeClient :: "u32 \<Rightarrow> AudioClientLifecycle \<Rightarrow> bool \<times> AudioClientLifecycle" where
  "lifecycle_removeClient clientID l =
     (case find_slot (\<lambda>c. lc_starts c \<noteq> 0 \<and> lc_id c = clientID) (cl_clients l) of
        None \<Rightarrow> (False, l)
      | Some i \<Rightarrow> (True, l\<lparr>cl_clients := (cl_clients l)[i := \<lparr>lc_id = 0, lc_starts = 0\<rparr>],
                           cl_activeStarts := cl_activeStarts l - ucast (lc_starts (cl_clients l ! i))\<rparr>))"

datatype AudioIOTransition = Rejected | FirstClientStarted | AdditionalClientStarted | ClientStoppedStillActive
  | LastClientStopped | ClientNotActive

definition startIO :: "u32 \<Rightarrow> AudioClientLifecycle \<Rightarrow> AudioIOTransition \<times> AudioClientLifecycle" where
  "startIO clientID l =
     (case lifecycle_start clientID l of (ok, l') \<Rightarrow>
       (if \<not> ok then Rejected else if cl_activeStarts l = 0 then FirstClientStarted else AdditionalClientStarted, l'))"

definition stopIO :: "u32 \<Rightarrow> AudioClientLifecycle \<Rightarrow> AudioIOTransition \<times> AudioClientLifecycle" where
  "stopIO clientID l =
     (case lifecycle_stop clientID l of (ok, l') \<Rightarrow>
       (if \<not> ok then ClientNotActive else if cl_activeStarts l' = 0 then LastClientStopped else ClientStoppedStillActive, l'))"

definition removeIO :: "u32 \<Rightarrow> AudioClientLifecycle \<Rightarrow> AudioIOTransition \<times> AudioClientLifecycle" where
  "removeIO clientID l =
     (case lifecycle_removeClient clientID l of (ok, l') \<Rightarrow>
       (if \<not> ok then ClientNotActive else if cl_activeStarts l' = 0 then LastClientStopped else ClientStoppedStillActive, l'))"

subsection \<open>Decisions\<close>

datatype AudioKeepaliveAction = KeepaliveNone | KeepaliveStart | KeepaliveStop

definition audioKeepaliveAction :: "u32 \<Rightarrow> u32 \<Rightarrow> bool \<Rightarrow> AudioKeepaliveAction" where
  "audioKeepaliveAction activeDevice discoveredDevice sameUSBGeneration =
     (if activeDevice \<noteq> 0 \<and> activeDevice \<noteq> discoveredDevice then KeepaliveStop
      else if activeDevice \<noteq> 0 \<and> \<not> sameUSBGeneration then KeepaliveStop
      else if activeDevice = 0 \<and> discoveredDevice \<noteq> 0 then KeepaliveStart
      else KeepaliveNone)"

definition ns6_connection_should_defer_disconnect :: "bool \<Rightarrow> u32 \<Rightarrow> bool" where
  "ns6_connection_should_defer_disconnect physically_connected active_clients \<longleftrightarrow> \<not> physically_connected \<and> 0 < active_clients"

definition ns6_feedback_read_should_submit :: "bool \<Rightarrow> bool \<Rightarrow> bool" where
  "ns6_feedback_read_should_submit running in_flight \<longleftrightarrow> running \<and> \<not> in_flight"

definition ns6_audio_startup_prefill_frames :: "u32 \<Rightarrow> u32 \<Rightarrow> u32 \<Rightarrow> u32" where
  "ns6_audio_startup_prefill_frames configured_frames minimum_frames queue_target_frames =
     (let threshold = configured_frames;
          threshold = (if threshold < minimum_frames then minimum_frames else threshold)
      in if threshold < queue_target_frames then queue_target_frames else threshold)"

datatype NS6AudioTransportAction = NS6_AUDIO_TRANSPORT_KEEP | NS6_AUDIO_TRANSPORT_START

definition ns6_audio_transport_action :: "bool \<Rightarrow> u32 \<Rightarrow> NS6AudioTransportAction" where
  "ns6_audio_transport_action transport_open active_clients =
     (if active_clients \<noteq> 0 \<and> \<not> transport_open then NS6_AUDIO_TRANSPORT_START else NS6_AUDIO_TRANSPORT_KEEP)"

text \<open>The build flag \<^verbatim>\<open>NS6_KEEP_WAVEFORM_DRAIN_IDLE\<close> defaults to 0.\<close>

definition ns6_bulk_in_reads_should_run :: "bool \<Rightarrow> bool \<Rightarrow> bool \<Rightarrow> bool" where
  "ns6_bulk_in_reads_should_run keep_waveform_drain_idle midi_session_active capture_requested \<longleftrightarrow>
     keep_waveform_drain_idle \<or> \<not> midi_session_active \<or> capture_requested"

definition ns6_is_waveform_endpoint :: "u8 \<Rightarrow> u8 \<Rightarrow> u8 \<Rightarrow> bool" where
  "ns6_is_waveform_endpoint direction number type \<longleftrightarrow> direction = 1 \<and> number = 6 \<and> type = 2"

definition ns6_should_run_waveform_drain :: "bool \<Rightarrow> bool \<Rightarrow> bool" where
  "ns6_should_run_waveform_drain midi_session_active capture_requested \<longleftrightarrow> \<not> midi_session_active \<or> capture_requested"

definition ns6_buffer_frame_size_request_valid :: "u32 \<Rightarrow> u32 \<Rightarrow> u32 \<Rightarrow> bool" where
  "ns6_buffer_frame_size_request_valid frames minimum maximum \<longleftrightarrow>
     frames \<noteq> 0 \<and> minimum \<noteq> 0 \<and> minimum \<le> maximum \<and> minimum \<le> frames \<and> frames \<le> maximum"

definition ns6_feedback_elapsed_ms :: "u64 \<Rightarrow> u64 \<Rightarrow> u64 option \<Rightarrow> bool \<times> u64 option" where
  "ns6_feedback_elapsed_ms now_ms since_ms elapsed_ms =
     (if since_ms = 0 \<or> elapsed_ms = None \<or> now_ms < since_ms then (False, elapsed_ms) else (True, Some (now_ms - since_ms)))"

definition ns6_audio_recovery_underrun_gain :: "u32 \<Rightarrow> u32 \<Rightarrow> flt" where
  "ns6_audio_recovery_underrun_gain frame_index missing_frames =
     (if missing_frames = 0 \<or> missing_frames \<le> frame_index then Fin 0
      else fdiv f64 (double_of_nat (unat (missing_frames - frame_index - 1))) (double_of_nat (unat missing_frames)))"

text \<open>\<^verbatim>\<open>snprintf\<close> writes at most the buffer less one character; the longest version has fifteen.\<close>

fun decimal :: "nat \<Rightarrow> string" where
  "decimal n = (if n < 10 then [char_of (48 + n)] else decimal (n div 10) @ [char_of (48 + n mod 10)])"

definition ns6_firmware_version_decode :: "u8 list option \<Rightarrow> nat \<Rightarrow> string option \<Rightarrow> bool \<times> string option" where
  "ns6_firmware_version_decode response len output =
     (let output = map_option (\<lambda>_. []) output in
      case (response, output) of (Some r, Some _) \<Rightarrow>
        if len < 3 \<or> 8 < len \<or> r ! 0 \<noteq> 0x31 \<or> r ! 1 = 0 \<or> 99 < r ! 2 then (False, output)
        else let text = decimal (unat (r ! 1)) @ ''.'' @ decimal (unat (r ! 2 div 10)) @ ''.'' @ decimal (unat (r ! 2 mod 10)) @ '' (K1)''
             in if 32 \<le> length text then (False, Some []) else (True, Some text)
      | _ \<Rightarrow> (False, output))"

definition ns6_device_peer_uid_authorized :: "u32 \<Rightarrow> u32 \<Rightarrow> bool" where
  "ns6_device_peer_uid_authorized peer_uid coreaudiod_uid \<longleftrightarrow>
     peer_uid = 0 \<or> (coreaudiod_uid \<noteq> - 1 \<and> peer_uid = coreaudiod_uid)"

subsection \<open>Slot tables\<close>

text \<open>
  The registry and the start accounting are both arrays of slots that hold at most one entry per key. \<open>slot_lookup\<close> is
  the finite map such an array represents and \<open>slots_ok\<close> the condition that no key occurs twice.
\<close>

definition slot_lookup :: "('s \<Rightarrow> bool) \<Rightarrow> ('s \<Rightarrow> 'k) \<Rightarrow> 's list \<Rightarrow> 'k \<Rightarrow> 's option" where
  "slot_lookup used key xs k = map_option (\<lambda>i. xs ! i) (find_slot (\<lambda>s. used s \<and> key s = k) xs)"

definition slots_ok :: "('s \<Rightarrow> bool) \<Rightarrow> ('s \<Rightarrow> 'k) \<Rightarrow> 's list \<Rightarrow> bool" where
  "slots_ok used key xs \<longleftrightarrow>
     (\<forall>i < length xs. \<forall>j < length xs. used (xs ! i) \<longrightarrow> used (xs ! j) \<longrightarrow> key (xs ! i) = key (xs ! j) \<longrightarrow> i = j)"

lemma find_slot_Some: "find_slot P xs = Some i \<Longrightarrow> i < length xs \<and> P (xs ! i)"
  by (auto simp: find_slot_def find_Some_iff)

lemma find_slot_None: "find_slot P xs = None \<longleftrightarrow> (\<forall>i < length xs. \<not> P (xs ! i))"
  by (auto simp: find_slot_def find_None_iff)

locale slot_table =
  fixes used :: "'s \<Rightarrow> bool" and key :: "'s \<Rightarrow> 'k" and free :: 's
  assumes free_unused: "\<not> used free"
begin

lemma lookup_iff:
  assumes "slots_ok used key xs"
  shows "slot_lookup used key xs k = Some s \<longleftrightarrow> (\<exists>i < length xs. xs ! i = s \<and> used s \<and> key s = k)"
proof (cases "find_slot (\<lambda>s. used s \<and> key s = k) xs")
  case None
  then have "slot_lookup used key xs k = None" by (simp add: slot_lookup_def)
  with None show ?thesis by (auto simp: find_slot_None)
next
  case (Some i)
  note found = find_slot_Some [OF Some]
  then have "j = i" if "j < length xs" "used (xs ! j)" "key (xs ! j) = k" for j
    using assms that unfolding slots_ok_def by blast
  then show ?thesis using Some found by (auto simp: slot_lookup_def)
qed

lemma lookup_None_iff: "slot_lookup used key xs k = None \<longleftrightarrow> find_slot (\<lambda>s. used s \<and> key s = k) xs = None"
  by (simp add: slot_lookup_def)

lemma lookup_eqI:
  assumes "slots_ok used key xs" and "slots_ok used key ys"
    and "\<And>k s. (\<exists>i < length ys. ys ! i = s \<and> used s \<and> key s = k) \<longleftrightarrow> m k = Some s"
  shows "slot_lookup used key ys = m"
proof
  fix k
  show "slot_lookup used key ys k = m k"
    using lookup_iff [OF assms(2), of k] assms(3) [of _ k] by (cases "m k"; cases "slot_lookup used key ys k") auto
qed

lemma store:
  assumes "slots_ok used key xs" and "i < length xs" and "used s" and "key s = k"
    and "\<forall>j < length xs. used (xs ! j) \<longrightarrow> key (xs ! j) = k \<longrightarrow> j = i" and "used (xs ! i) \<longrightarrow> key (xs ! i) = k"
  shows "slots_ok used key (xs[i := s])" and "slot_lookup used key (xs[i := s]) = (slot_lookup used key xs)(k \<mapsto> s)"
proof -
  have at: "xs[i := s] ! j = (if j = i then s else xs ! j)" if "j < length xs" for j using that by simp
  have one: "a = b" if "a < length xs" "b < length xs" "used (xs[i := s] ! a)" "used (xs[i := s] ! b)"
      "key (xs[i := s] ! a) = key (xs[i := s] ! b)" for a b
    using that assms(1,4,5) unfolding slots_ok_def at [OF that(1)] at [OF that(2)] by (metis (full_types))
  then show ok: "slots_ok used key (xs[i := s])" unfolding slots_ok_def by simp
  have "(\<exists>j < length xs. xs[i := s] ! j = t \<and> used t \<and> key t = l) \<longleftrightarrow> ((slot_lookup used key xs)(k \<mapsto> s)) l = Some t" for l t
  proof (cases "l = k")
    case True
    have "t = s" if "j < length xs" "xs[i := s] ! j = t" "used t" "key t = k" for j
      using that assms(5) at [OF that(1)] by (metis (full_types))
    moreover have "xs[i := s] ! i = s" using assms(2) by simp
    ultimately show ?thesis using True assms(2-4) by (simp only: fun_upd_same option.inject) metis
  next
    case False
    have "xs[i := s] ! j = t \<and> used t \<and> key t = l \<longleftrightarrow> xs ! j = t \<and> used t \<and> key t = l" if "j < length xs" for j
      using False assms(4,6) at [OF that] by (metis (full_types))
    then show ?thesis using False lookup_iff [OF assms(1)] by (simp cong: conj_cong)
  qed
  with ok show "slot_lookup used key (xs[i := s]) = (slot_lookup used key xs)(k \<mapsto> s)"
    by (intro lookup_eqI [OF assms(1)]) simp_all
qed

lemma update:
  assumes "slots_ok used key xs" and "find_slot (\<lambda>s. used s \<and> key s = k) xs = Some i" and "used s" and "key s = k"
  shows "slots_ok used key (xs[i := s])" and "slot_lookup used key (xs[i := s]) = (slot_lookup used key xs)(k \<mapsto> s)"
proof -
  note i = find_slot_Some [OF assms(2)]
  then have "\<forall>j < length xs. used (xs ! j) \<longrightarrow> key (xs ! j) = k \<longrightarrow> j = i"
    using assms(1) unfolding slots_ok_def by blast
  with i store [OF assms(1) _ assms(3,4), of i]
  show "slots_ok used key (xs[i := s])" and "slot_lookup used key (xs[i := s]) = (slot_lookup used key xs)(k \<mapsto> s)" by auto
qed

lemma add:
  assumes "slots_ok used key xs" and "slot_lookup used key xs k = None" and "find_slot (\<lambda>s. \<not> used s) xs = Some i"
    and "used s" and "key s = k"
  shows "slots_ok used key (xs[i := s])" and "slot_lookup used key (xs[i := s]) = (slot_lookup used key xs)(k \<mapsto> s)"
proof -
  note i = find_slot_Some [OF assms(3)]
  have "\<forall>j < length xs. used (xs ! j) \<longrightarrow> key (xs ! j) = k \<longrightarrow> j = i"
    using assms(2) by (auto simp: lookup_None_iff find_slot_None)
  with i store [OF assms(1) _ assms(4,5), of i]
  show "slots_ok used key (xs[i := s])" and "slot_lookup used key (xs[i := s]) = (slot_lookup used key xs)(k \<mapsto> s)" by auto
qed

lemma clear_where:
  assumes "slots_ok used key xs" and ys_def: "ys = map (\<lambda>s. if used s \<and> Q s then free else s) xs"
  shows "slots_ok used key ys"
    and "slot_lookup used key ys = (\<lambda>k. case slot_lookup used key xs k of None \<Rightarrow> None | Some s \<Rightarrow> if Q s then None else Some s)"
proof -
  show ok: "slots_ok used key ys"
    using assms free_unused unfolding slots_ok_def ys_def by (auto split: if_splits)
  have "(\<exists>i < length ys. ys ! i = s \<and> used s \<and> key s = k) \<longleftrightarrow> (\<exists>i < length xs. xs ! i = s \<and> used s \<and> key s = k) \<and> \<not> Q s" for k s
    using free_unused unfolding ys_def by (auto split: if_splits)
  moreover have "(case m of None \<Rightarrow> None | Some s \<Rightarrow> if Q s then None else Some s) = Some t \<longleftrightarrow> m = Some t \<and> \<not> Q t" for m t
    by (auto split: option.splits)
  ultimately show "slot_lookup used key ys = (\<lambda>k. case slot_lookup used key xs k of None \<Rightarrow> None | Some s \<Rightarrow> if Q s then None else Some s)"
    by (intro lookup_eqI [OF assms(1) ok]) (simp add: lookup_iff [OF assms(1)])
qed

lemma clear:
  assumes "slots_ok used key xs" and "find_slot (\<lambda>s. used s \<and> key s = k) xs = Some i" and "\<not> used s"
  shows "slots_ok used key (xs[i := s])" and "slot_lookup used key (xs[i := s]) = (slot_lookup used key xs)(k := None)"
proof -
  note i = find_slot_Some [OF assms(2)]
  show ok: "slots_ok used key (xs[i := s])"
    using assms(1,3) i unfolding slots_ok_def by (auto simp: nth_list_update)
  have un: "j = i" if "j < length xs" "used (xs ! j)" "key (xs ! j) = k" for j
    using that i assms(1) unfolding slots_ok_def by blast
  have at: "xs[i := s] ! j = t \<and> used t \<and> key t = l \<longleftrightarrow> l \<noteq> k \<and> xs ! j = t \<and> used t \<and> key t = l" if "j < length xs" for j l t
    using i assms(3) un [OF that] that by (cases "j = i") auto
  have "(\<exists>j < length (xs[i := s]). xs[i := s] ! j = t \<and> used t \<and> key t = l) \<longleftrightarrow>
      l \<noteq> k \<and> (\<exists>j < length xs. xs ! j = t \<and> used t \<and> key t = l)" for l t
    using at by auto
  then show "slot_lookup used key (xs[i := s]) = (slot_lookup used key xs)(k := None)"
    using lookup_iff [OF assms(1)] by (intro lookup_eqI [OF assms(1) ok]) auto
qed

lemma dom_lookup: "slots_ok used key xs \<Longrightarrow> dom (slot_lookup used key xs) = key ` {s \<in> set xs. used s}"
  using lookup_iff by (fastforce simp: dom_def in_set_conv_nth)

lemma card_dom:
  assumes "slots_ok used key xs"
  shows "card (dom (slot_lookup used key xs)) = length (filter used xs)"
proof -
  have "distinct (map key (filter used xs))"
    using assms
  proof (induction xs)
    case (Cons x xs)
    have "slots_ok used key xs" using Cons.prems unfolding slots_ok_def by fastforce
    moreover have "key y \<noteq> key x" if "used x" "y \<in> set xs" "used y" for y
      using that Cons.prems unfolding slots_ok_def by (fastforce simp: in_set_conv_nth)
    ultimately show ?case using Cons.IH by fastforce
  qed simp
  from distinct_card [OF this] show ?thesis by (simp add: dom_lookup [OF assms])
qed

lemma full_iff:
  assumes "slots_ok used key xs"
  shows "find_slot (\<lambda>s. \<not> used s) xs = None \<longleftrightarrow> \<not> card (dom (slot_lookup used key xs)) < length xs"
proof -
  have "length (filter used xs) < length xs \<longleftrightarrow> (\<exists>i < length xs. \<not> used (xs ! i))"
    by (metis in_set_conv_nth length_filter_less filter_True order_less_irrefl)
  then show ?thesis using card_dom [OF assms] by (auto simp: find_slot_None)
qed

end

subsection \<open>The registry is a bounded map of leases\<close>

datatype registry_op = Attach u64 int | SetActive u64 bool | Detach u64 | DetachProcess int

text \<open>An operation on the array; a truth value is returned as 0 or 1.\<close>

fun registry_step :: "registry_op \<Rightarrow> NS6DeviceClientRegistry \<Rightarrow> nat \<times> NS6DeviceClientRegistry" where
  "registry_step (Attach k p) r = (case ns6_device_client_registry_attach (Some r) k p of (ok, r') \<Rightarrow> (of_bool ok, the r'))"
| "registry_step (SetActive k a) r = (case ns6_device_client_registry_set_audio_active (Some r) k a of (ok, r') \<Rightarrow> (of_bool ok, the r'))"
| "registry_step (Detach k) r = (case ns6_device_client_registry_detach (Some r) k of (ok, r') \<Rightarrow> (of_bool ok, the r'))"
| "registry_step (DetachProcess p) r = (case ns6_device_client_registry_detach_process (Some r) p of (n, r') \<Rightarrow> (n, the r'))"

text \<open>The same operation on a map from client identifiers to process and activity, with at most eight entries.\<close>

type_synonym leases = "u64 \<Rightarrow> (int \<times> bool) option"

fun lease_step :: "registry_op \<Rightarrow> leases \<Rightarrow> nat \<times> leases" where
  "lease_step (Attach k p) m =
     (case m k of Some (_, a) \<Rightarrow> (1, m(k \<mapsto> (p, a)))
      | None \<Rightarrow> if k \<noteq> 0 \<and> card (dom m) < 8 then (1, m(k \<mapsto> (p, False))) else (0, m))"
| "lease_step (SetActive k a) m = (case m k of Some (p, _) \<Rightarrow> (1, m(k \<mapsto> (p, a))) | None \<Rightarrow> (0, m))"
| "lease_step (Detach k) m = (of_bool (k \<in> dom m), m(k := None))"
| "lease_step (DetachProcess p) m =
     (if p \<le> 0 then (0, m)
      else (card {k. \<exists>a. m k = Some (p, a)}, \<lambda>k. case m k of Some (q, a) \<Rightarrow> if q = p then None else Some (q, a) | None \<Rightarrow> None))"

abbreviation leased :: "NS6DeviceClientLease \<Rightarrow> bool" where
  "leased c \<equiv> client_id c \<noteq> 0"

definition registry_abs :: "NS6DeviceClientRegistry \<Rightarrow> leases" where
  "registry_abs r k = map_option (\<lambda>c. (process_id c, audio_active c)) (slot_lookup leased client_id r k)"

definition registry_inv :: "NS6DeviceClientRegistry \<Rightarrow> bool" where
  "registry_inv r \<longleftrightarrow> length r = 8 \<and> slots_ok leased client_id r"

interpretation reg: slot_table leased client_id lease_zero
  by unfold_locales (simp add: lease_zero_def)

lemma registry_find: "k \<noteq> 0 \<Longrightarrow> find_slot (\<lambda>c. client_id c = k) r = find_slot (\<lambda>c. leased c \<and> client_id c = k) r"
  by (rule arg_cong [where f = "\<lambda>P. find_slot P r"]) auto

lemma registry_abs_0 [simp]: "registry_abs r 0 = None"
proof -
  have "find_slot (\<lambda>c. leased c \<and> client_id c = 0) r = None" by (simp add: find_slot_None)
  then show ?thesis by (simp add: registry_abs_def slot_lookup_def)
qed

lemma registry_found:
  assumes "k \<noteq> 0" and "find_slot (\<lambda>c. client_id c = k) r = Some i"
  shows "registry_abs r k = Some (process_id (r ! i), audio_active (r ! i))" and "client_id (r ! i) = k"
  using assms find_slot_Some [OF assms(2)] by (simp_all add: registry_abs_def slot_lookup_def registry_find)

lemma registry_missing: "k \<noteq> 0 \<Longrightarrow> find_slot (\<lambda>c. client_id c = k) r = None \<longleftrightarrow> registry_abs r k = None"
  by (simp add: registry_abs_def slot_lookup_def registry_find)

lemma registry_abs_upd:
  "slot_lookup leased client_id r' = (slot_lookup leased client_id r)(k := v) \<Longrightarrow>
   registry_abs r' = (registry_abs r)(k := map_option (\<lambda>c. (process_id c, audio_active c)) v)"
  by (rule ext) (simp add: registry_abs_def)

lemma dom_registry_abs: "dom (registry_abs r) = dom (slot_lookup leased client_id r)"
  by (auto simp: registry_abs_def)

lemma attach_refines:
  assumes "registry_inv r"
  shows "registry_inv (snd (registry_step (Attach k p) r)) \<and>
    lease_step (Attach k p) (registry_abs r) = (fst (registry_step (Attach k p) r), registry_abs (snd (registry_step (Attach k p) r)))"
proof (cases "k = 0")
  case False
  have ok: "slots_ok leased client_id r" "length r = 8" using assms by (simp_all add: registry_inv_def)
  show ?thesis
  proof (cases "find_slot (\<lambda>c. client_id c = k) r")
    case (Some i)
    note f = registry_found [OF False Some] and u = reg.update [OF ok(1) Some [unfolded registry_find [OF False]]]
    show ?thesis using f False ok u [of "(r ! i)\<lparr>process_id := p\<rparr>"]
      by (simp add: ns6_device_client_registry_attach_def Some registry_inv_def registry_abs_upd)
  next
    case None
    note miss = None [unfolded registry_missing [OF False]]
    show ?thesis
    proof (cases "find_slot (\<lambda>c. client_id c = 0) r")
      case None2: None
      then show ?thesis using reg.full_iff [OF ok(1)] miss None assms ok(2) False
        by (simp add: ns6_device_client_registry_attach_def dom_registry_abs)
    next
      case (Some i)
      have "slot_lookup leased client_id r k = None" using miss by (simp add: registry_abs_def)
      note a = reg.add [OF ok(1) this, of i]
      show ?thesis using reg.full_iff [OF ok(1)] Some miss None ok False a [of "(r ! i)\<lparr>client_id := k, process_id := p, audio_active := False\<rparr>"]
        by (simp add: ns6_device_client_registry_attach_def dom_registry_abs registry_inv_def registry_abs_upd)
    qed
  qed
qed (use assms in \<open>simp add: ns6_device_client_registry_attach_def\<close>)

lemma set_active_refines:
  assumes "registry_inv r"
  shows "registry_inv (snd (registry_step (SetActive k a) r)) \<and>
    lease_step (SetActive k a) (registry_abs r) = (fst (registry_step (SetActive k a) r), registry_abs (snd (registry_step (SetActive k a) r)))"
proof (cases "k = 0 \<or> find_slot (\<lambda>c. client_id c = k) r = None")
  case True
  then show ?thesis using assms registry_missing [of k r] by (auto simp: ns6_device_client_registry_set_audio_active_def)
next
  case False
  then obtain i where k: "k \<noteq> 0" and Some: "find_slot (\<lambda>c. client_id c = k) r = Some i" by auto
  have ok: "slots_ok leased client_id r" "length r = 8" using assms by (simp_all add: registry_inv_def)
  note f = registry_found [OF k Some] and u = reg.update [OF ok(1) Some [unfolded registry_find [OF k]]]
  show ?thesis using f k ok u [of "(r ! i)\<lparr>audio_active := a\<rparr>"]
    by (simp add: ns6_device_client_registry_set_audio_active_def Some registry_inv_def registry_abs_upd)
qed

lemma detach_refines:
  assumes "registry_inv r"
  shows "registry_inv (snd (registry_step (Detach k) r)) \<and>
    lease_step (Detach k) (registry_abs r) = (fst (registry_step (Detach k) r), registry_abs (snd (registry_step (Detach k) r)))"
proof (cases "k = 0 \<or> find_slot (\<lambda>c. client_id c = k) r = None")
  case True
  then have "registry_abs r k = None" using registry_missing [of k r] by (cases "k = 0") auto
  with True assms show ?thesis by (auto simp: ns6_device_client_registry_detach_def)
next
  case False
  then obtain i where k: "k \<noteq> 0" and Some: "find_slot (\<lambda>c. client_id c = k) r = Some i" by auto
  have ok: "slots_ok leased client_id r" "length r = 8" using assms by (simp_all add: registry_inv_def)
  note c = reg.clear [OF ok(1) Some [unfolded registry_find [OF k]] reg.free_unused]
  show ?thesis using registry_found [OF k Some] k ok c
    by (auto simp: ns6_device_client_registry_detach_def Some registry_inv_def registry_abs_upd)
qed

lemma detach_process_refines:
  assumes "registry_inv r"
  shows "registry_inv (snd (registry_step (DetachProcess p) r)) \<and>
    lease_step (DetachProcess p) (registry_abs r) =
      (fst (registry_step (DetachProcess p) r), registry_abs (snd (registry_step (DetachProcess p) r)))"
proof (cases "p \<le> 0")
  case False
  let ?gone = "\<lambda>c. process_id c = p" and ?r = "map (\<lambda>c. if leased c \<and> process_id c = p then lease_zero else c) r"
  have ok: "slots_ok leased client_id r" "length r = 8" using assms by (simp_all add: registry_inv_def)
  note c = reg.clear_where [OF ok(1) refl, of ?gone]
  have new: "registry_abs ?r = (\<lambda>k. case registry_abs r k of Some (q, a) \<Rightarrow> if q = p then None else Some (q, a) | None \<Rightarrow> None)"
    unfolding registry_abs_def c(2) by (auto split: option.splits)
  have "slots_ok (\<lambda>c. leased c \<and> ?gone c) client_id r" using ok(1) unfolding slots_ok_def by blast
  moreover have "{k. \<exists>a. registry_abs r k = Some (p, a)} = client_id ` {c \<in> set r. leased c \<and> ?gone c}"
    using reg.lookup_iff [OF ok(1)] by (fastforce simp: registry_abs_def in_set_conv_nth)
  ultimately have "card {k. \<exists>a. registry_abs r k = Some (p, a)} = length (filter (\<lambda>c. leased c \<and> ?gone c) r)"
    using slot_table.card_dom [of "\<lambda>c. leased c \<and> ?gone c" lease_zero client_id r]
      slot_table.dom_lookup [of "\<lambda>c. leased c \<and> ?gone c" lease_zero client_id r]
    by (simp add: slot_table_def lease_zero_def)
  with False new c(1) ok show ?thesis
    by (simp add: ns6_device_client_registry_detach_process_def Let_def registry_inv_def)
qed (use assms in \<open>simp add: ns6_device_client_registry_detach_process_def\<close>)

lemma registry_step_refines:
  "registry_inv r \<Longrightarrow> registry_step op r = (n, r') \<Longrightarrow> registry_inv r' \<and> lease_step op (registry_abs r) = (n, registry_abs r')"
  using attach_refines set_active_refines detach_refines detach_process_refines by (cases op) (metis fst_conv snd_conv)+

interpretation reg_sim: simulation registry_step lease_step registry_abs "\<lambda>_. registry_inv" "\<lambda>_. True"
  by unfold_locales (simp_all add: registry_step_refines)

lemma registry_zero_inv: "registry_inv registry_zero" "registry_abs registry_zero = Map.empty"
proof -
  have "find_slot (\<lambda>c. leased c \<and> client_id c = k) registry_zero = None" for k
    by (simp add: find_slot_None registry_zero_def lease_zero_def)
  then show "registry_abs registry_zero = Map.empty" by (auto simp: registry_abs_def slot_lookup_def)
  show "registry_inv registry_zero" by (simp add: registry_inv_def registry_zero_def slots_ok_def lease_zero_def)
qed

text \<open>
  (C28) Whatever sequence of attach, activity, detach and process-exit requests the service handles, the registry array
  behaves as a map from client identifiers to their process and activity that never holds more than eight clients:
  the same results, the same contents, and the two queries answer from that map.
\<close>

theorem registry_refines:
  "case run_ops registry_step ops registry_zero of (results, r) \<Rightarrow>
     run_ops lease_step ops Map.empty = (results, registry_abs r) \<and> card (dom (registry_abs r)) \<le> 8 \<and>
     (\<forall>k. ns6_device_client_registry_contains (Some r) k \<longleftrightarrow> k \<in> dom (registry_abs r)) \<and>
     (ns6_device_client_registry_any_audio_active (Some r) \<longleftrightarrow> (\<exists>k p. registry_abs r k = Some (p, True)))"
proof -
  obtain ns r where run: "run_ops registry_step ops registry_zero = (ns, r)" by fastforce
  note inv = reg_sim.run_ok [OF registry_zero_inv(1) TrueI run, unfolded registry_zero_inv(2)]
  then have ok: "slots_ok leased client_id r" "length r = 8" by (simp_all add: registry_inv_def)
  have "card (dom (registry_abs r)) \<le> 8"
    using reg.card_dom [OF ok(1)] length_filter_le [of leased r] ok(2) by (simp add: dom_registry_abs)
  moreover have "ns6_device_client_registry_contains (Some r) k \<longleftrightarrow> k \<in> dom (registry_abs r)" for k
    using registry_missing [of k r] by (cases "k = 0") (auto simp: ns6_device_client_registry_contains_def)
  moreover have "ns6_device_client_registry_any_audio_active (Some r) \<longleftrightarrow> (\<exists>k p. registry_abs r k = Some (p, True))"
    using reg.lookup_iff [OF ok(1)]
    by (fastforce simp: ns6_device_client_registry_any_audio_active_def list_ex_iff registry_abs_def in_set_conv_nth)
  ultimately show ?thesis using inv run by simp
qed

subsection \<open>Start accounting counts the starts of each client\<close>

datatype io_request = StartIO u32 | StopIO u32 | RemoveClient u32

fun lifecycle_step :: "io_request \<Rightarrow> AudioClientLifecycle \<Rightarrow> AudioIOTransition \<times> AudioClientLifecycle" where
  "lifecycle_step (StartIO c) = startIO c"
| "lifecycle_step (StopIO c) = stopIO c"
| "lifecycle_step (RemoveClient c) = removeIO c"

text \<open>The same requests on the number of outstanding starts of every client.\<close>

definition idle :: "(u32 \<Rightarrow> nat) \<Rightarrow> bool" where
  "idle m \<longleftrightarrow> (\<forall>c. m c = 0)"

definition released :: "(u32 \<Rightarrow> nat) \<Rightarrow> AudioIOTransition \<times> (u32 \<Rightarrow> nat)" where
  "released m = (if idle m then LastClientStopped else ClientStoppedStillActive, m)"

fun starts_step :: "io_request \<Rightarrow> (u32 \<Rightarrow> nat) \<Rightarrow> AudioIOTransition \<times> (u32 \<Rightarrow> nat)" where
  "starts_step (StartIO c) m =
     (if m c = 2 ^ 32 - 1 \<or> m c = 0 \<and> 64 \<le> card {d. m d \<noteq> 0} then (Rejected, m)
      else (if idle m then FirstClientStarted else AdditionalClientStarted, m(c := m c + 1)))"
| "starts_step (StopIO c) m = (if m c = 0 then (ClientNotActive, m) else released (m(c := m c - 1)))"
| "starts_step (RemoveClient c) m = (if m c = 0 then (ClientNotActive, m) else released (m(c := 0)))"

text \<open>What the driver does with the transitions: the transport is started once and stopped once, in turn.\<close>

fun transport_state :: "bool \<Rightarrow> AudioIOTransition list \<Rightarrow> bool option" where
  "transport_state running [] = Some running"
| "transport_state running (t # ts) =
     (case t of
        FirstClientStarted \<Rightarrow> if running then None else transport_state True ts
      | LastClientStopped \<Rightarrow> if running then transport_state False ts else None
      | AdditionalClientStarted \<Rightarrow> if running then transport_state running ts else None
      | ClientStoppedStillActive \<Rightarrow> if running then transport_state running ts else None
      | _ \<Rightarrow> transport_state running ts)"

abbreviation started :: "lifecycle_client \<Rightarrow> bool" where
  "started c \<equiv> lc_starts c \<noteq> 0"

definition total_starts :: "lifecycle_client list \<Rightarrow> nat" where
  "total_starts cs = sum_list (map (\<lambda>c. unat (lc_starts c)) cs)"

definition lifecycle_abs :: "AudioClientLifecycle \<Rightarrow> u32 \<Rightarrow> nat" where
  "lifecycle_abs l c = (case slot_lookup started lc_id (cl_clients l) c of None \<Rightarrow> 0 | Some s \<Rightarrow> unat (lc_starts s))"

definition lifecycle_inv :: "AudioClientLifecycle \<Rightarrow> bool" where
  "lifecycle_inv l \<longleftrightarrow> length (cl_clients l) = 64 \<and> slots_ok started lc_id (cl_clients l) \<and>
     unat (cl_activeStarts l) = total_starts (cl_clients l)"

interpretation cli: slot_table started lc_id "\<lparr>lc_id = 0, lc_starts = 0\<rparr>"
  by unfold_locales simp

lemma total_starts_update:
  "i < length cs \<Longrightarrow> total_starts (cs[i := c]) + unat (lc_starts (cs ! i)) = total_starts cs + unat (lc_starts c)"
proof (induction cs arbitrary: i)
  case (Cons d cs)
  then show ?case by (cases i) (auto simp: total_starts_def)
qed simp

lemma total_starts_le: "total_starts cs \<le> length cs * (2 ^ 32 - 1)"
proof (induction cs)
  case (Cons c cs)
  then show ?case using u32_less [of "lc_starts c"] by (simp add: total_starts_def)
qed (simp add: total_starts_def)

lemma lifecycle_abs_0: "lifecycle_abs l k = 0 \<longleftrightarrow> slot_lookup started lc_id (cl_clients l) k = None"
proof (cases "find_slot (\<lambda>c. started c \<and> lc_id c = k) (cl_clients l)")
  case (Some i)
  then show ?thesis using find_slot_Some [OF Some] by (simp add: lifecycle_abs_def slot_lookup_def unat_eq_0)
qed (simp add: lifecycle_abs_def slot_lookup_def)

lemma lifecycle_idle:
  assumes "lifecycle_inv l"
  shows "cl_activeStarts l = 0 \<longleftrightarrow> idle (lifecycle_abs l)"
proof -
  have ok: "slots_ok started lc_id (cl_clients l)" and t: "unat (cl_activeStarts l) = total_starts (cl_clients l)"
    using assms by (simp_all add: lifecycle_inv_def)
  have "cl_activeStarts l = 0 \<longleftrightarrow> (\<forall>c \<in> set (cl_clients l). \<not> started c)"
    using t by (auto simp: total_starts_def unat_eq_0 simp flip: unat_eq_0)
  also have "\<dots> \<longleftrightarrow> (\<forall>k. slot_lookup started lc_id (cl_clients l) k = None)"
    using cli.dom_lookup [OF ok] by (auto simp: dom_def)
  also have "\<dots> \<longleftrightarrow> idle (lifecycle_abs l)"
    by (simp add: idle_def lifecycle_abs_0)
  finally show ?thesis .
qed

lemma lifecycle_support: "{d. 0 < lifecycle_abs l d} = dom (slot_lookup started lc_id (cl_clients l))"
  using lifecycle_abs_0 [of l] by (auto simp: neq0_conv [symmetric] simp del: neq0_conv)

lemma lifecycle_abs_upd:
  "slot_lookup started lc_id (cl_clients l') = (slot_lookup started lc_id (cl_clients l))(k := v) \<Longrightarrow>
   lifecycle_abs l' = (lifecycle_abs l)(k := case v of None \<Rightarrow> 0 | Some s \<Rightarrow> unat (lc_starts s))"
  by (rule ext) (simp add: lifecycle_abs_def)

lemma lifecycle_found:
  assumes "find_slot (\<lambda>c. started c \<and> lc_id c = k) (cl_clients l) = Some i"
  shows "lifecycle_abs l k = unat (lc_starts (cl_clients l ! i))" "i < length (cl_clients l)" "started (cl_clients l ! i)" "lc_id (cl_clients l ! i) = k"
  using find_slot_Some [OF assms] assms by (simp_all add: lifecycle_abs_def slot_lookup_def)

lemma lifecycle_missing: "find_slot (\<lambda>c. started c \<and> lc_id c = k) (cl_clients l) = None \<longleftrightarrow> lifecycle_abs l k = 0"
  by (simp add: lifecycle_abs_0 cli.lookup_None_iff)

text \<open>The counter follows the slots: a slot whose count changes by \<open>d\<close> changes the counter by \<open>d\<close>.\<close>

lemma active_add:
  assumes "lifecycle_inv l" and "i < 64" and "unat (lc_starts c) = unat (lc_starts (cl_clients l ! i)) + 1"
  shows "unat (cl_activeStarts l + 1) = total_starts ((cl_clients l)[i := c])"
proof -
  have l: "length (cl_clients l) = 64" "unat (cl_activeStarts l) = total_starts (cl_clients l)" using assms(1) by (simp_all add: lifecycle_inv_def)
  have "total_starts (cl_clients l) \<le> 64 * (2 ^ 32 - 1)" using total_starts_le [of "cl_clients l"] l by simp
  then have "unat (cl_activeStarts l + 1) = total_starts (cl_clients l) + 1" using l by (simp add: unat_word_ariths)
  with total_starts_update [of i "cl_clients l" c] assms(2,3) l show ?thesis by simp
qed

lemma active_sub:
  assumes "lifecycle_inv l" and "i < 64" and "unat (lc_starts c) + unat d = unat (lc_starts (cl_clients l ! i))"
  shows "unat (cl_activeStarts l - d) = total_starts ((cl_clients l)[i := c])"
proof -
  have l: "length (cl_clients l) = 64" "unat (cl_activeStarts l) = total_starts (cl_clients l)" using assms(1) by (simp_all add: lifecycle_inv_def)
  have u: "total_starts ((cl_clients l)[i := c]) + unat d = unat (cl_activeStarts l)"
    using total_starts_update [of i "cl_clients l" c] assms(2,3) l by simp
  then have "unat (cl_activeStarts l - d) = unat (cl_activeStarts l) - unat d" by (intro unat_sub) (simp add: word_le_nat_alt)
  with u show ?thesis by simp
qed

lemma start_refines:
  assumes inv: "lifecycle_inv l"
  shows "lifecycle_inv (snd (startIO k l)) \<and> starts_step (StartIO k) (lifecycle_abs l) = (fst (startIO k l), lifecycle_abs (snd (startIO k l)))"
proof -
  have ok: "slots_ok started lc_id (cl_clients l)" and l: "length (cl_clients l) = 64" using inv by (simp_all add: lifecycle_inv_def)
  show ?thesis
  proof (cases "find_slot (\<lambda>c. started c \<and> lc_id c = k) (cl_clients l)")
    case (Some i)
    let ?c = "cl_clients l ! i" and ?n = "lc_starts (cl_clients l ! i) + 1"
    note f = lifecycle_found [OF Some]
    have full: "lc_starts ?c = UINT32_MAX \<longleftrightarrow> lifecycle_abs l k = 2 ^ 32 - 1"
      unfolding f(1) by (auto simp: word_unat_eq_iff unsigned_minus_1_eq_mask mask_eq_exp_minus_1)
    show ?thesis
    proof (cases "lc_starts ?c = UINT32_MAX")
      case True
      then show ?thesis using inv full Some by (simp add: startIO_def lifecycle_start_def)
    next
      case False
      have n: "unat ?n = unat (lc_starts ?c) + 1"
        using False full f(1) u32_less [of "lc_starts ?c"] by (simp add: unat_word_ariths)
      then have n0: "?n \<noteq> 0" by (metis unat_0 Suc_eq_plus1 nat.distinct(1))
      note u = cli.update [OF ok Some, of "?c\<lparr>lc_starts := ?n\<rparr>"]
      have m: "lifecycle_abs l k \<noteq> 0" using f by (simp add: unat_eq_0)
      show ?thesis using u n0 f m False full Some n active_add [OF inv, of i "?c\<lparr>lc_starts := ?n\<rparr>"] l lifecycle_idle [OF inv]
        by (simp add: startIO_def lifecycle_start_def lifecycle_inv_def lifecycle_abs_upd)
    qed
  next
    case None
    note miss = None [unfolded lifecycle_missing]
    show ?thesis
    proof (cases "find_slot (\<lambda>c. \<not> started c) (cl_clients l)")
      case None2: None
      then show ?thesis using cli.full_iff [OF ok] miss None inv l
        by (simp add: startIO_def lifecycle_start_def lifecycle_support)
    next
      case (Some i)
      note i = find_slot_Some [OF Some]
      have "slot_lookup started lc_id (cl_clients l) k = None" using miss by (simp add: lifecycle_abs_0)
      note a = cli.add [OF ok this Some, of "\<lparr>lc_id = k, lc_starts = 1\<rparr>"]
      show ?thesis
        using cli.full_iff [OF ok] i Some miss None l a active_add [OF inv, of i "\<lparr>lc_id = k, lc_starts = 1\<rparr>"] lifecycle_idle [OF inv]
        by (simp add: startIO_def lifecycle_start_def lifecycle_inv_def lifecycle_abs_upd lifecycle_support)
    qed
  qed
qed

text \<open>Stopping and removing write back a slot with fewer starts, or an empty one.\<close>

lemma give_up_starts:
  assumes inv: "lifecycle_inv l" and "find_slot (\<lambda>c. started c \<and> lc_id c = k) (cl_clients l) = Some i"
    and "unat (lc_starts c) + unat d = unat (lc_starts (cl_clients l ! i))" and "started c \<longrightarrow> lc_id c = k"
    and l': "l' = l\<lparr>cl_clients := (cl_clients l)[i := c], cl_activeStarts := cl_activeStarts l - d\<rparr>"
  shows "lifecycle_inv l'" and "lifecycle_abs l' = (lifecycle_abs l)(k := unat (lc_starts c))"
proof -
  have ok: "slots_ok started lc_id (cl_clients l)" and len: "length (cl_clients l) = 64" using inv by (simp_all add: lifecycle_inv_def)
  have t: "unat (cl_activeStarts l - d) = total_starts ((cl_clients l)[i := c])"
    using active_sub [OF inv _ assms(3)] lifecycle_found(2) [OF assms(2)] len by simp
  show "lifecycle_inv l'"
    using cli.update(1) [OF ok assms(2), of c] cli.clear(1) [OF ok assms(2), of c] assms(4) t len by (auto simp: lifecycle_inv_def l')
  show "lifecycle_abs l' = (lifecycle_abs l)(k := unat (lc_starts c))"
    using lifecycle_abs_upd [of l' l k "Some c"] lifecycle_abs_upd [of l' l k None]
      cli.update(2) [OF ok assms(2), of c] cli.clear(2) [OF ok assms(2), of c] assms(4) by (cases "started c") (simp_all add: l')
qed

lemma stop_refines:
  assumes inv: "lifecycle_inv l"
  shows "lifecycle_inv (snd (stopIO k l)) \<and> starts_step (StopIO k) (lifecycle_abs l) = (fst (stopIO k l), lifecycle_abs (snd (stopIO k l)))"
proof (cases "find_slot (\<lambda>c. started c \<and> lc_id c = k) (cl_clients l)")
  case None
  then show ?thesis using inv None [unfolded lifecycle_missing] by (simp add: stopIO_def lifecycle_stop_def)
next
  case (Some i)
  note f = lifecycle_found [OF Some]
  let ?s = "lc_starts (cl_clients l ! i) - 1"
  let ?c = "\<lparr>lc_id = (if ?s = 0 then 0 else lc_id (cl_clients l ! i)), lc_starts = ?s\<rparr>"
  let ?l = "l\<lparr>cl_clients := (cl_clients l)[i := ?c], cl_activeStarts := cl_activeStarts l - 1\<rparr>"
  have s: "unat ?s = unat (lc_starts (cl_clients l ! i)) - 1" "0 < unat (lc_starts (cl_clients l ! i))"
    using f(3) unat_minus_one [of "lc_starts (cl_clients l ! i)"] by (simp_all add: unat_gt_0)
  note g = give_up_starts [OF inv Some, of ?c 1 ?l]
  show ?thesis using g s f Some lifecycle_idle [of ?l]
    by (simp add: stopIO_def lifecycle_stop_def Let_def released_def)
qed

lemma remove_refines:
  assumes inv: "lifecycle_inv l"
  shows "lifecycle_inv (snd (removeIO k l)) \<and> starts_step (RemoveClient k) (lifecycle_abs l) = (fst (removeIO k l), lifecycle_abs (snd (removeIO k l)))"
proof (cases "find_slot (\<lambda>c. started c \<and> lc_id c = k) (cl_clients l)")
  case None
  then show ?thesis using inv None [unfolded lifecycle_missing] by (simp add: removeIO_def lifecycle_removeClient_def)
next
  case (Some i)
  note f = lifecycle_found [OF Some]
  let ?n = "ucast (lc_starts (cl_clients l ! i)) :: u64"
  let ?l = "l\<lparr>cl_clients := (cl_clients l)[i := \<lparr>lc_id = 0, lc_starts = 0\<rparr>], cl_activeStarts := cl_activeStarts l - ?n\<rparr>"
  have "unat ?n = unat (lc_starts (cl_clients l ! i))" by (rule unat_ucast_up) simp
  then show ?thesis using give_up_starts [OF inv Some, of "\<lparr>lc_id = 0, lc_starts = 0\<rparr>" ?n ?l] f Some lifecycle_idle [of ?l]
    by (simp add: removeIO_def lifecycle_removeClient_def released_def unat_eq_0)
qed

lemma lifecycle_step_refines:
  assumes "lifecycle_inv l" and "lifecycle_step q l = (t, l')"
  shows "lifecycle_inv l' \<and> starts_step q (lifecycle_abs l) = (t, lifecycle_abs l')"
proof (cases q)
  case (StartIO c)
  then show ?thesis using start_refines [OF assms(1), of c] assms(2) by (simp del: starts_step.simps)
next
  case (StopIO c)
  then show ?thesis using stop_refines [OF assms(1), of c] assms(2) by (simp del: starts_step.simps)
next
  case (RemoveClient c)
  then show ?thesis using remove_refines [OF assms(1), of c] assms(2) by (simp del: starts_step.simps)
qed

lemma idle_simps: "\<not> idle (m(c := Suc n))" "0 < m c \<Longrightarrow> \<not> idle m"
  by (auto simp: idle_def)

lemma starts_step_transport:
  "starts_step q m = (t, m') \<Longrightarrow> transport_state (\<not> idle m) (t # ts) = transport_state (\<not> idle m') ts"
  by (cases q) (auto simp: released_def idle_simps split: if_splits)

interpretation life_sim: simulation lifecycle_step starts_step lifecycle_abs "\<lambda>_. lifecycle_inv" "\<lambda>_. True"
  by unfold_locales (simp_all add: lifecycle_step_refines)

lemma starts_run_transport:
  "run_ops starts_step qs m = (ts, m') \<Longrightarrow> transport_state (\<not> idle m) ts = Some (\<not> idle m')"
proof (induction qs arbitrary: m ts m')
  case (Cons q qs)
  obtain t m1 where s: "starts_step q m = (t, m1)" by fastforce
  obtain us m2 where v: "run_ops starts_step qs m1 = (us, m2)" by fastforce
  have "ts = t # us" "m' = m2" using Cons.prems s v by simp_all
  then show ?case using starts_step_transport [OF s, of us] Cons.IH [OF v] by (simp del: transport_state.simps)
qed simp

lemma lifecycle_new_inv: "lifecycle_inv AudioClientLifecycle_new" "lifecycle_abs AudioClientLifecycle_new = (\<lambda>_. 0)"
proof -
  have "find_slot (\<lambda>c. started c \<and> lc_id c = k) (cl_clients AudioClientLifecycle_new) = None" for k
    by (simp add: find_slot_None AudioClientLifecycle_new_def)
  then show "lifecycle_abs AudioClientLifecycle_new = (\<lambda>_. 0)" by (auto simp: lifecycle_abs_def slot_lookup_def)
  show "lifecycle_inv AudioClientLifecycle_new"
    by (simp add: lifecycle_inv_def AudioClientLifecycle_new_def slots_ok_def total_starts_def)
qed

text \<open>
  (C30) For every sequence of start, stop and client-removal requests, the device reports the transitions of a plain count
  of outstanding starts per client (64 clients at most), and the transport is started and stopped strictly in turn:
  it runs exactly while some client has a start outstanding, so it is neither started twice nor left running.
\<close>

theorem lifecycle_refines:
  "case run_ops lifecycle_step requests AudioClientLifecycle_new of (transitions, l) \<Rightarrow>
     run_ops starts_step requests (\<lambda>_. 0) = (transitions, lifecycle_abs l) \<and>
     transport_state False transitions = Some (cl_activeStarts l \<noteq> 0) \<and>
     (cl_activeStarts l = 0 \<longleftrightarrow> idle (lifecycle_abs l))"
proof -
  obtain ts l where run: "run_ops lifecycle_step requests AudioClientLifecycle_new = (ts, l)" by fastforce
  note inv = life_sim.run_ok [OF lifecycle_new_inv(1) TrueI run, unfolded lifecycle_new_inv(2)]
  then show ?thesis using run lifecycle_idle [of l] starts_run_transport [of requests "\<lambda>_. 0" ts] by (simp add: idle_def)
qed

subsection \<open>Device owner and session gate\<close>

text \<open>The owner flag; the compare-and-exchange is one atomic step.\<close>

definition ns6_device_owner_init :: "bool option \<Rightarrow> bool option" where
  "ns6_device_owner_init claimed = map_option (\<lambda>_. False) claimed"

definition ns6_device_owner_claim :: "bool option \<Rightarrow> bool \<times> bool option" where
  "ns6_device_owner_claim claimed = (case claimed of None \<Rightarrow> (False, None) | Some c \<Rightarrow> (\<not> c, Some True))"

definition ns6_device_owner_release :: "bool option \<Rightarrow> bool option" where
  "ns6_device_owner_release claimed = map_option (\<lambda>_. False) claimed"

definition ns6_device_owner_is_claimed :: "bool option \<Rightarrow> bool" where
  "ns6_device_owner_is_claimed claimed \<longleftrightarrow> claimed = Some True"

record session_gate =
  sg_active_id :: u64
  sg_callbacks_in_flight :: u32

definition ns6_device_session_init :: "session_gate option \<Rightarrow> session_gate option" where
  "ns6_device_session_init session = map_option (\<lambda>_. \<lparr>sg_active_id = 0, sg_callbacks_in_flight = 0\<rparr>) session"

definition ns6_device_session_is_current :: "session_gate option \<Rightarrow> u64 \<Rightarrow> bool" where
  "ns6_device_session_is_current session sid = (case session of None \<Rightarrow> False | Some s \<Rightarrow> sid \<noteq> 0 \<and> sg_active_id s = sid)"

text \<open>
  The two sides of the gate run concurrently, so each is a sequence of atomic steps. A callback thread is idle, has
  incremented the counter (\<open>Entering\<close>), is inside the callback, or is about to take its increment back. The
  service, the only caller of \<^verbatim>\<open>ns6_device_session_begin\<close>, has closed the gate and counts its attempts
  (\<open>Waiting\<close>), or has read zero callbacks and is about to store the new identifier (\<open>Opening\<close>).
\<close>

datatype callback_state = Outside | Entering u64 | Inside u64 | Leaving

datatype begin_state = NotBeginning | Waiting u64 u64 nat | Opening u64

record gate_state =
  gs_session :: session_gate
  gs_callback :: "nat \<Rightarrow> callback_state"
  gs_begin :: begin_state

definition count_callback :: "(u32 \<Rightarrow> u32) \<Rightarrow> gate_state \<Rightarrow> gate_state" where
  "count_callback f s = s\<lparr>gs_session := (gs_session s)\<lparr>sg_callbacks_in_flight := f (sg_callbacks_in_flight (gs_session s))\<rparr>\<rparr>"

definition at_callback :: "nat \<Rightarrow> callback_state \<Rightarrow> gate_state \<Rightarrow> gate_state" where
  "at_callback t c s = s\<lparr>gs_callback := (gs_callback s)(t := c)\<rparr>"

definition store_active :: "u64 \<Rightarrow> begin_state \<Rightarrow> gate_state \<Rightarrow> gate_state" where
  "store_active sid b s = s\<lparr>gs_session := (gs_session s)\<lparr>sg_active_id := sid\<rparr>, gs_begin := b\<rparr>"

inductive gate_step :: "nat \<Rightarrow> gate_state \<Rightarrow> gate_state \<Rightarrow> bool" for threads where
  io_add: "t < threads \<Longrightarrow> gs_callback s t = Outside \<Longrightarrow> sid \<noteq> 0 \<Longrightarrow>
    gate_step threads s (at_callback t (Entering sid) (count_callback (\<lambda>n. n + 1) s))"
| io_current: "gs_callback s t = Entering sid \<Longrightarrow> ns6_device_session_is_current (Some (gs_session s)) sid \<Longrightarrow>
    gate_step threads s (at_callback t (Inside sid) s)"
| io_stale: "gs_callback s t = Entering sid \<Longrightarrow> \<not> ns6_device_session_is_current (Some (gs_session s)) sid \<Longrightarrow>
    gate_step threads s (at_callback t Leaving s)"
| io_undo: "gs_callback s t = Leaving \<Longrightarrow> gate_step threads s (at_callback t Outside (count_callback (\<lambda>n. n - 1) s))"
| io_end: "gs_callback s t = Inside sid \<Longrightarrow> gate_step threads s (at_callback t Outside (count_callback (\<lambda>n. n - 1) s))"
| begin_close: "gs_begin s = NotBeginning \<Longrightarrow> sid \<noteq> 0 \<Longrightarrow>
    gate_step threads s (store_active 0 (Waiting sid (sg_active_id (gs_session s)) 0) s)"
| begin_busy: "gs_begin s = Waiting sid previous n \<Longrightarrow> n < 100000 \<Longrightarrow> sg_callbacks_in_flight (gs_session s) \<noteq> 0 \<Longrightarrow>
    gate_step threads s (s\<lparr>gs_begin := Waiting sid previous (Suc n)\<rparr>)"
| begin_clear: "gs_begin s = Waiting sid previous n \<Longrightarrow> n < 100000 \<Longrightarrow> sg_callbacks_in_flight (gs_session s) = 0 \<Longrightarrow>
    gate_step threads s (s\<lparr>gs_begin := Opening sid\<rparr>)"
| begin_open: "gs_begin s = Opening sid \<Longrightarrow> gate_step threads s (store_active sid NotBeginning s)"
| begin_fail: "gs_begin s = Waiting sid previous n \<Longrightarrow> n = 100000 \<Longrightarrow> gate_step threads s (store_active previous NotBeginning s)"

definition gate_init :: gate_state where
  "gate_init = \<lparr>gs_session = the (ns6_device_session_init (Some \<lparr>sg_active_id = 0, sg_callbacks_in_flight = 0\<rparr>)),
     gs_callback = (\<lambda>_. Outside), gs_begin = NotBeginning\<rparr>"

text \<open>The counter counts the threads that have entered; those inside belong to the session the gate last admitted.\<close>

definition admitted :: "gate_state \<Rightarrow> u64 option" where
  "admitted s = (case gs_begin s of NotBeginning \<Rightarrow> Some (sg_active_id (gs_session s)) | Waiting _ previous _ \<Rightarrow> Some previous
     | Opening _ \<Rightarrow> None)"

definition entered :: "gate_state \<Rightarrow> nat set" where
  "entered s = {t. gs_callback s t \<noteq> Outside}"

definition gate_inv :: "nat \<Rightarrow> gate_state \<Rightarrow> bool" where
  "gate_inv threads s \<longleftrightarrow>
     entered s \<subseteq> {..<threads} \<and> unat (sg_callbacks_in_flight (gs_session s)) = card (entered s) \<and>
     (\<forall>t sid. gs_callback s t = Inside sid \<longrightarrow> admitted s = Some sid) \<and>
     (gs_begin s \<noteq> NotBeginning \<longrightarrow> sg_active_id (gs_session s) = 0)"

lemma gate_fields [simp]:
  "gs_callback (at_callback t c s) = (gs_callback s)(t := c)" "gs_session (at_callback t c s) = gs_session s" "gs_begin (at_callback t c s) = gs_begin s"
  "gs_callback (count_callback f s) = gs_callback s" "gs_begin (count_callback f s) = gs_begin s"
  "sg_active_id (gs_session (count_callback f s)) = sg_active_id (gs_session s)"
  "sg_callbacks_in_flight (gs_session (count_callback f s)) = f (sg_callbacks_in_flight (gs_session s))"
  "gs_callback (store_active sid b s) = gs_callback s" "gs_begin (store_active sid b s) = b"
  "sg_active_id (gs_session (store_active sid b s)) = sid"
  "sg_callbacks_in_flight (gs_session (store_active sid b s)) = sg_callbacks_in_flight (gs_session s)"
  by (simp_all add: at_callback_def count_callback_def store_active_def)

lemma admitted_callback [simp]: "admitted (at_callback t c s) = admitted s" "admitted (count_callback f s) = admitted s"
  by (simp_all add: admitted_def split: begin_state.split)

lemma entered_callback [simp]:
  "entered (at_callback t c s) = (if c = Outside then entered s - {t} else insert t (entered s))"
  "entered (count_callback f s) = entered s" "entered (store_active sid b s) = entered s" "entered (gs_begin_update g s) = entered s"
  by (auto simp: entered_def)

text \<open>A counter that is incremented on the way in and decremented on the way out counts the threads that are in.\<close>

lemma counter_enter:
  fixes n :: u32 and E :: "nat set"
  assumes "unat n = card E" and "E \<subseteq> {..<threads}" and "threads < 2 ^ 32" and "t < threads" and "t \<notin> E"
  shows "unat (n + 1) = card (insert t E)"
proof -
  have "card E < threads" using psubset_card_mono [of "{..<threads}" E] assms(2,4,5) by auto
  then have "unat (n + 1) = Suc (card E)" using assms(1,3) by (simp add: unat_word_ariths)
  then show ?thesis using finite_subset [OF assms(2)] assms(5) by simp
qed

lemma counter_exit:
  fixes n :: u32 and E :: "nat set"
  assumes "unat n = card E" and "E \<subseteq> {..<threads}" and "t \<in> E"
  shows "unat (n - 1) = card (E - {t})"
proof -
  note fin = finite_subset [OF assms(2) finite_lessThan]
  have "0 < card E" using fin assms(3) by (auto simp: card_gt_0_iff)
  with assms(1) have "unat (n - 1) = card E - 1" using unat_minus_one [of n] by (cases "n = 0") auto
  then show ?thesis using fin assms(3) by simp
qed

lemma gate_enter_inv:
  assumes inv: "gate_inv threads s" and "threads < 2 ^ 32" and "t < threads" and "gs_callback s t = Outside"
  shows "gate_inv threads (at_callback t (Entering sid) (count_callback (\<lambda>n. n + 1) s))"
proof -
  have "t \<notin> entered s" using assms(4) by (simp add: entered_def)
  then show ?thesis using inv assms(2,3) counter_enter [of _ "entered s" threads t] unfolding gate_inv_def by simp
qed

lemma gate_exit_inv:
  assumes inv: "gate_inv threads s" and "gs_callback s t \<noteq> Outside"
  shows "gate_inv threads (at_callback t Outside (count_callback (\<lambda>n. n - 1) s))"
proof -
  have "t \<in> entered s" using assms(2) by (simp add: entered_def)
  then show ?thesis using inv counter_exit [of _ "entered s" threads t] unfolding gate_inv_def by (auto simp: subset_iff)
qed

lemma gate_step_inv:
  assumes "gate_step threads s s'" and "gate_inv threads s" and "threads < 2 ^ 32"
  shows "gate_inv threads s'"
  using assms(1)
proof cases
  case (io_add t sid)
  then show ?thesis using gate_enter_inv [OF assms(2,3)] by simp
next
  case (io_undo t)
  then show ?thesis using gate_exit_inv [OF assms(2)] by simp
next
  case (io_end t sid)
  then show ?thesis using gate_exit_inv [OF assms(2)] by simp
next
  case (io_current t sid)
  then have sid: "sid \<noteq> 0" "sg_active_id (gs_session s) = sid" by (simp_all add: ns6_device_session_is_current_def)
  then have "admitted s = Some sid" using assms(2) by (auto simp: gate_inv_def admitted_def)
  moreover have "insert t (entered s) = entered s" using io_current by (auto simp: entered_def)
  ultimately show ?thesis using assms(2) unfolding io_current(1) gate_inv_def by simp
next
  case (io_stale t sid)
  have "insert t (entered s) = entered s" using io_stale by (auto simp: entered_def)
  then show ?thesis using assms(2) unfolding io_stale(1) gate_inv_def by simp
next
  case (begin_clear sid previous n)
  then have "entered s = {}"
    using assms(2) finite_subset [of "entered s" "{..<threads}"] by (simp add: gate_inv_def)
  then have "\<And>t. gs_callback s t = Outside" by (auto simp: entered_def)
  then show ?thesis using assms(2) begin_clear by (simp add: gate_inv_def admitted_def)
qed (use assms(2) in \<open>auto simp: gate_inv_def admitted_def split: begin_state.splits\<close>)

lemma gate_reach_inv: "(gate_step threads)\<^sup>*\<^sup>* gate_init s \<Longrightarrow> threads < 2 ^ 32 \<Longrightarrow> gate_inv threads s"
proof (induction rule: rtranclp_induct)
  case base
  then show ?case by (simp add: gate_inv_def gate_init_def ns6_device_session_init_def entered_def)
next
  case (step s s')
  then show ?case using gate_step_inv by blast
qed



end
