(* ===== verification/NS6_Midi.thy ===== *)
theory NS6_Midi
  imports NS6_USB
begin

text \<open>
  The MIDI side of the USB driver: the parser of input reports, the encoder of MIDI events, the output packet, the parser
  of the handshake reply, the output writer, the datagram forwarder and the input reader.
\<close>

subsection \<open>Parser of input reports\<close>

text \<open>A message in progress; \<open>mp_used\<close> bytes of \<open>mp_expected\<close> have arrived.\<close>

record MIDIInputParser =
  mp_message :: "u8 list"
  mp_used :: nat
  mp_expected :: nat

definition midi_parser_new :: MIDIInputParser where
  "midi_parser_new = \<lparr>mp_message = [0, 0, 0], mp_used = 0, mp_expected = 0\<rparr>"

definition midi_size :: "u8 \<Rightarrow> nat" where
  "midi_size status = (if 0xc0 \<le> status \<and> status \<le> 0xdf then 2 else 3)"

text \<open>One turn of the loop: the byte and what has been written to the output so far.\<close>

definition feed_byte :: "u8 \<Rightarrow> MIDIInputParser \<times> u8 list \<Rightarrow> MIDIInputParser \<times> u8 list" where
  "feed_byte byte = (\<lambda>(p, out).
     if byte = 0xfd then (p, out)
     else if byte AND 0x80 \<noteq> 0 then
       (let p = p\<lparr>mp_used := 0, mp_expected := 0\<rparr>
        in if 0x80 \<le> byte \<and> byte \<le> 0xef
           then (p\<lparr>mp_message := (mp_message p)[0 := byte], mp_used := 1, mp_expected := midi_size byte\<rparr>, out)
           else (p, out))
     else if mp_expected p = 0 \<or> 3 \<le> mp_used p then (p, out)
     else let p = p\<lparr>mp_message := (mp_message p)[mp_used p := byte], mp_used := mp_used p + 1\<rparr>
          in if mp_used p = mp_expected p
             then (p\<lparr>mp_used := 0, mp_expected := 0\<rparr>, out @ take (mp_expected p) (mp_message p))
             else (p, out))"

text \<open>The result is what is written to the output buffer, whose pointer may be null.\<close>

definition feedReport :: "u8 list option \<Rightarrow> nat \<Rightarrow> bool \<Rightarrow> MIDIInputParser \<Rightarrow> MIDIInputParser \<times> u8 list" where
  "feedReport report len output p =
     (case report of None \<Rightarrow> (p, []) | Some bytes \<Rightarrow>
      if \<not> output then (p, [])
      else if len \<noteq> 42 then (p\<lparr>mp_used := 0, mp_expected := 0\<rparr>, [])
      else fold feed_byte (take 41 bytes) (p, []))"

subsection \<open>Encoder of MIDI events\<close>

definition event_word :: "u8 \<Rightarrow> u8 \<Rightarrow> u8 \<Rightarrow> u32" where
  "event_word status data1 data2 =
     (push_bit 28 0x2 OR push_bit 16 (ucast status) OR push_bit 8 (ucast data1)) OR ucast data2"

text \<open>\<open>rest\<close> is the input from the position \<open>consumed\<close> on.\<close>

function encode_loop :: "u8 list \<Rightarrow> nat \<Rightarrow> u32 list \<Rightarrow> nat \<Rightarrow> nat \<times> u32 list" where
  "encode_loop rest count words capacity =
     (if rest = [] then (count, words) else
      let status = rest ! 0; size = midi_size status in
      if status < 0x80 \<or> 0xef < status then (0, words)
      else if length rest < size \<or> count = capacity then (0, words)
      else let data1 = rest ! 1; data2 = (if size = 3 then rest ! 2 else 0)
           in if data1 AND 0x80 \<noteq> 0 \<or> data2 AND 0x80 \<noteq> 0 then (0, words)
              else encode_loop (drop size rest) (Suc count) (words[count := event_word status data1 data2]) capacity)"
  by pat_completeness auto

termination
  by (relation "measure (\<lambda>(rest, _). length rest)") (auto simp: midi_size_def)

declare encode_loop.simps [simp del]

definition midi_encode :: "u8 list option \<Rightarrow> nat \<Rightarrow> u32 list option \<Rightarrow> nat \<Rightarrow> nat \<times> u32 list option" where
  "midi_encode bytes len words capacity =
     (case (bytes, words) of
        (Some b, Some w) \<Rightarrow> (case encode_loop (take len b) 0 w capacity of (n, w) \<Rightarrow> (n, Some w))
      | _ \<Rightarrow> (0, words))"

subsection \<open>Output packet and handshake reply\<close>

definition buildPacket :: "u8 list option \<Rightarrow> nat \<Rightarrow> u8 list option \<Rightarrow> bool \<times> u8 list option" where
  "buildPacket message len packet =
     (case (message, packet) of
        (Some m, Some p) \<Rightarrow>
          if len = 0 \<or> 42 \<le> len then (False, packet)
          else let p = overwrite 0 (replicate 42 0xfd) p;
                   p = overwrite 0 (take len m) p
               in (True, Some (p[41 := 0]))
      | _ \<Rightarrow> (False, packet))"

definition reply_prefix :: "u8 list" where
  "reply_prefix = [0xf0, 0x00, 0x01, 0x3f, 0x00, 0x79, 0x51]"

fun reply_scan :: "u8 list \<Rightarrow> nat \<Rightarrow> bool \<times> nat" where
  "reply_scan [] matched = (False, matched)"
| "reply_scan (byte # bytes) matched =
     (if byte = 0xfd then reply_scan bytes matched
      else if byte = reply_prefix ! matched
        then (if Suc matched = length reply_prefix then (True, 0) else reply_scan bytes (Suc matched))
      else reply_scan bytes (if byte = reply_prefix ! 0 then 1 else 0))"

definition handshake_consume :: "u8 list option \<Rightarrow> nat \<Rightarrow> nat \<Rightarrow> bool \<times> nat" where
  "handshake_consume bytes len matched =
     (case bytes of None \<Rightarrow> (False, matched) | Some b \<Rightarrow> reply_scan (take len b) matched)"

subsection \<open>Output writer\<close>

text \<open>
  \<open>mw_device\<close> is the session the writer points to while \<open>mw_session\<close> holds; \<open>mw_sent\<close> and \<open>mw_failures\<close> are the
  counters of the worker thread.
\<close>

record MIDIOutputWriter =
  mw_device :: NS6DeviceSession
  mw_session :: bool
  mw_socket :: "nat option"
  mw_running :: bool
  mw_worker :: bool
  mw_sent :: u64
  mw_failures :: u64

text \<open>The socket the system gives, whether binding it and creating the thread succeed.\<close>

definition writer_start :: "nat option \<Rightarrow> bool \<Rightarrow> bool \<Rightarrow> NS6DeviceSession \<Rightarrow> MIDIOutputWriter \<Rightarrow> IOReturn \<times> MIDIOutputWriter" where
  "writer_start sock bound spawned session w =
     (if mw_worker w \<or> ds_interface session = None \<or> ds_midiOutPipe session = 0 then (kIOReturnNotReady, w) else
      let w = w\<lparr>mw_socket := sock\<rparr> in
      if sock = None then (kIOReturnNoResources, w)
      else if \<not> bound then (kIOReturnExclusiveAccess, w\<lparr>mw_socket := None\<rparr>)
      else let w = w\<lparr>mw_device := session, mw_session := True, mw_running := True\<rparr>
           in if spawned then (kIOReturnSuccess, w\<lparr>mw_worker := True, mw_sent := 0, mw_failures := 0\<rparr>)
              else (kIOReturnNoResources, w\<lparr>mw_running := False, mw_session := False, mw_socket := None\<rparr>))"

definition writer_stop :: "MIDIOutputWriter \<Rightarrow> MIDIOutputWriter" where
  "writer_stop w = w\<lparr>mw_running := False, mw_worker := False, mw_socket := None, mw_session := False\<rparr>"

fun write_attempts :: "usb_env \<Rightarrow> nat \<Rightarrow> u8 list \<Rightarrow> nat \<Rightarrow> IOReturn \<Rightarrow> NS6DeviceSession \<Rightarrow> IOReturn \<times> NS6DeviceSession" where
  "write_attempts env i packet 0 result s = (result, s)"
| "write_attempts env i packet (Suc attempts) result s =
     (case call env (WritePipe i (ds_midiOutPipe s) packet) s of (result, s) \<Rightarrow>
      if result = kIOReturnSuccess then (result, s)
      else if result \<noteq> kIOUSBPipeStalled \<and> result \<noteq> kIOReturnNotResponding \<and> result \<noteq> kIOReturnTimeout then (result, s)
      else case call env (ClearPipeStall i (ds_midiOutPipe s)) s of (cleared, s) \<Rightarrow>
        if cleared \<noteq> kIOReturnSuccess then (result, s)
        else write_attempts env i packet attempts result (note_call (SleepMilliseconds 1) s))"

definition writer_send :: "usb_env \<Rightarrow> nat \<Rightarrow> u8 list \<Rightarrow> MIDIOutputWriter \<Rightarrow> MIDIOutputWriter" where
  "writer_send env i packet w =
     (case write_attempts env i packet 3 kIOReturnNotReady (mw_device w) of (result, s) \<Rightarrow>
        if result = kIOReturnSuccess then w\<lparr>mw_device := s, mw_sent := mw_sent w + 1\<rparr>
        else w\<lparr>mw_device := s, mw_failures := mw_failures w + 1\<rparr>)"

text \<open>One datagram of the worker's loop; \<open>None\<close> is a failed receive.\<close>

definition writer_receive :: "usb_env \<Rightarrow> u8 list option \<Rightarrow> MIDIOutputWriter \<Rightarrow> MIDIOutputWriter" where
  "writer_receive env received w =
     (let failed = w\<lparr>mw_failures := mw_failures w + 1\<rparr>; message = the received in
      if received = None \<or> length message = 0 \<or> 41 < length message then failed else
      case buildPacket (Some (message @ replicate (128 - length message) 0)) (length message) (Some (replicate 42 0)) of (ok, packet) \<Rightarrow>
      if \<not> ok then failed else
      case ds_interface (mw_device w) of None \<Rightarrow> failed | Some i \<Rightarrow> writer_send env i (the packet) w)"

definition writer_run :: "usb_env \<Rightarrow> u8 list option list \<Rightarrow> MIDIOutputWriter \<Rightarrow> MIDIOutputWriter" where
  "writer_run env datagrams w = fold (\<lambda>d w. if mw_running w then writer_receive env d w else w) datagrams w"

subsection \<open>Datagram forwarder\<close>

record LocalMIDIForwarder =
  lf_socket :: "nat option"
  lf_firstSendLogged :: bool
  lf_sentDatagrams :: u64
  lf_sentBytes :: u64
  lf_sendFailures :: u64

definition forwarder_start :: "nat option \<Rightarrow> LocalMIDIForwarder \<Rightarrow> bool \<times> LocalMIDIForwarder" where
  "forwarder_start sock f = (if lf_socket f \<noteq> None then (True, f) else (sock \<noteq> None, f\<lparr>lf_socket := sock\<rparr>))"

definition forwarder_stop :: "LocalMIDIForwarder \<Rightarrow> LocalMIDIForwarder" where
  "forwarder_stop f = f\<lparr>lf_socket := None, lf_firstSendLogged := False\<rparr>"

text \<open>\<open>sent\<close> is the number of bytes the system call reports.\<close>

definition forwarder_publish :: "int \<Rightarrow> u8 list option \<Rightarrow> nat \<Rightarrow> LocalMIDIForwarder \<Rightarrow> LocalMIDIForwarder" where
  "forwarder_publish sent bytes len f =
     (if lf_socket f \<noteq> None \<and> bytes \<noteq> None \<and> 0 < len \<and> len \<le> 128
      then (if sent = int len
            then f\<lparr>lf_sentDatagrams := lf_sentDatagrams f + 1, lf_sentBytes := lf_sentBytes f + word_of_nat len, lf_firstSendLogged := True\<rparr>
            else f\<lparr>lf_sendFailures := lf_sendFailures f + 1, lf_firstSendLogged := True\<rparr>)
      else f)"

subsection \<open>Input reader\<close>

record midi_slot =
  ms_data :: "u8 list"
  ms_inFlight :: bool
  ms_completed :: bool
  ms_status :: IOReturn
  ms_bytes :: u32
  ms_sequence :: u64

text \<open>\<open>mr_published\<close> lists what the sink has been given while \<open>mr_session\<close> (session and sink pointers) holds.\<close>

record MIDIInputReader =
  mr_device :: NS6DeviceSession
  mr_session :: bool
  mr_published :: "u8 list list"
  mr_slots :: "midi_slot list"
  mr_parser :: MIDIInputParser
  mr_runLoop :: "nat option"
  mr_running :: bool
  mr_eventsAcquired :: bool
  mr_firstMIDIMessageLogged :: bool
  mr_nextSubmitSequence :: u64
  mr_nextProcessSequence :: u64
  mr_reports :: u64
  mr_publishedBatches :: u64
  mr_transferErrors :: u64
  mr_nonzeroTerminators :: u64
  mr_lastError :: IOReturn

definition midi_reader_new :: "NS6DeviceSession \<Rightarrow> MIDIInputReader" where
  "midi_reader_new session = \<lparr>mr_device = session, mr_session = False, mr_published = [],
     mr_slots = replicate 4 \<lparr>ms_data = replicate 42 0, ms_inFlight = False, ms_completed = False, ms_status = kIOReturnSuccess,
       ms_bytes = 0, ms_sequence = 0\<rparr>,
     mr_parser = midi_parser_new, mr_runLoop = None, mr_running = False, mr_eventsAcquired = False, mr_firstMIDIMessageLogged = False,
     mr_nextSubmitSequence = 0, mr_nextProcessSequence = 0, mr_reports = 0, mr_publishedBatches = 0, mr_transferErrors = 0,
     mr_nonzeroTerminators = 0, mr_lastError = kIOReturnSuccess\<rparr>"

definition midi_inFlightCount :: "MIDIInputReader \<Rightarrow> u32" where
  "midi_inFlightCount r = sum_list (map (\<lambda>s. if ms_inFlight s then 1 else 0) (mr_slots r))"

definition midi_submit :: "usb_env \<Rightarrow> nat \<Rightarrow> MIDIInputReader \<Rightarrow> IOReturn \<times> MIDIInputReader" where
  "midi_submit env k r =
     (let slot = mr_slots r ! k in
      if \<not> mr_running r \<or> \<not> mr_session r \<or> ms_inFlight slot \<or> ms_completed slot then (kIOReturnNotReady, r) else
      case ds_interface (mr_device r) of None \<Rightarrow> (kIOReturnNoDevice, r) | Some i \<Rightarrow>
      case call env (PipeTransfer i (ds_midiInPipe (mr_device r)) k) (mr_device r) of (result, s) \<Rightarrow>
        (result, r\<lparr>mr_device := s,
           mr_slots := (mr_slots r)[k := slot\<lparr>ms_sequence := mr_nextSubmitSequence r, ms_inFlight := result = kIOReturnSuccess\<rparr>],
           mr_nextSubmitSequence := mr_nextSubmitSequence r + of_bool (result = kIOReturnSuccess)\<rparr>))"

definition midi_consume :: "midi_slot \<Rightarrow> MIDIInputReader \<Rightarrow> MIDIInputReader" where
  "midi_consume slot r =
     (if ms_status slot = kIOReturnSuccess \<and> ms_bytes slot = 42
      then (case feedReport (Some (ms_data slot)) (unat (ms_bytes slot)) True (mr_parser r) of (parser, messages) \<Rightarrow>
        let r = r\<lparr>mr_reports := mr_reports r + 1, mr_parser := parser,
                  mr_nonzeroTerminators := mr_nonzeroTerminators r + of_bool (ms_data slot ! 41 \<noteq> 0)\<rparr>
        in if length messages \<noteq> 0 \<and> mr_session r
           then r\<lparr>mr_publishedBatches := mr_publishedBatches r + 1, mr_firstMIDIMessageLogged := True,
                  mr_published := mr_published r @ [messages]\<rparr>
           else r)
      else r\<lparr>mr_transferErrors := mr_transferErrors r + 1,
             mr_lastError := (if ms_status slot = kIOReturnSuccess then kIOReturnUnderrun else ms_status slot),
             mr_running := False\<rparr>)"

definition midi_process :: "usb_env \<Rightarrow> nat \<Rightarrow> MIDIInputReader \<Rightarrow> MIDIInputReader" where
  "midi_process env k r =
     (let r = midi_consume (mr_slots r ! k) r;
          r = r\<lparr>mr_slots := (mr_slots r)[k := (mr_slots r ! k)\<lparr>ms_completed := False\<rparr>],
                mr_nextProcessSequence := mr_nextProcessSequence r + 1\<rparr>
      in if \<not> mr_running r then r
         else case midi_submit env k r of (result, r) \<Rightarrow>
           if result = kIOReturnSuccess then r
           else r\<lparr>mr_transferErrors := mr_transferErrors r + 1, mr_lastError := result, mr_running := False\<rparr>)"

definition midi_next_completed :: "MIDIInputReader \<Rightarrow> nat option" where
  "midi_next_completed r =
     find (\<lambda>k. ms_completed (mr_slots r ! k) \<and> ms_sequence (mr_slots r ! k) = mr_nextProcessSequence r) [0..<length (mr_slots r)]"

lemma midi_process_completed:
  "map ms_completed (mr_slots (midi_process env k r)) = (map ms_completed (mr_slots r))[k := False]"
proof -
  have consume: "mr_slots (midi_consume s q) = mr_slots q" for s q
    by (simp add: midi_consume_def Let_def split: prod.split)
  have submit: "map ms_completed (mr_slots (snd (midi_submit env k q))) = map ms_completed (mr_slots q)" for q
    by (cases "k < length (mr_slots q)")
      (auto simp: midi_submit_def Let_def map_update list_eq_iff_nth_eq nth_list_update split: option.split prod.split)
  show ?thesis by (simp add: midi_process_def Let_def case_prod_beta submit consume map_update)
qed

lemma completed_shrinks:
  "k < length bs \<Longrightarrow> bs ! k \<Longrightarrow> length (filter (\<lambda>b. b) (bs[k := False])) < length (filter (\<lambda>b. b) bs)"
proof (induction bs arbitrary: k)
  case (Cons b bs)
  then show ?case by (cases k) auto
qed simp

function midi_drainCompletions :: "usb_env \<Rightarrow> MIDIInputReader \<Rightarrow> MIDIInputReader" where
  "midi_drainCompletions env r =
     (case midi_next_completed r of None \<Rightarrow> r | Some k \<Rightarrow> midi_drainCompletions env (midi_process env k r))"
  by pat_completeness auto

termination
proof (relation "measure (\<lambda>(env, r). length (filter (\<lambda>b. b) (map ms_completed (mr_slots r))))", goal_cases)
  case (2 env r k)
  then have "k < length (mr_slots r)" "ms_completed (mr_slots r ! k)" by (auto simp: midi_next_completed_def find_Some_iff)
  then show ?case using completed_shrinks [of k "map ms_completed (mr_slots r)"] by (simp add: midi_process_completed del: length_filter_map)
qed simp

declare midi_drainCompletions.simps [simp del]

record midi_completion =
  mc_slot :: nat
  mc_status :: IOReturn
  mc_data :: "u8 list"
  mc_bytes :: u32

definition midi_didComplete :: "usb_env \<Rightarrow> nat \<Rightarrow> IOReturn \<Rightarrow> u32 \<Rightarrow> MIDIInputReader \<Rightarrow> MIDIInputReader" where
  "midi_didComplete env k status bytes r =
     midi_drainCompletions env (r\<lparr>mr_slots := (mr_slots r)[k := (mr_slots r ! k)\<lparr>ms_inFlight := False, ms_completed := True,
        ms_status := status, ms_bytes := bytes\<rparr>]\<rparr>)"

text \<open>The controller fills the buffer of the slot, then the callback runs.\<close>

definition midi_event :: "usb_env \<Rightarrow> midi_completion \<Rightarrow> MIDIInputReader \<Rightarrow> MIDIInputReader" where
  "midi_event env c r =
     midi_didComplete env (mc_slot c) (mc_status c) (mc_bytes c)
       (r\<lparr>mr_slots := (mr_slots r)[mc_slot c := (mr_slots r ! mc_slot c)\<lparr>ms_data := overwrite 0 (mc_data c) (ms_data (mr_slots r ! mc_slot c))\<rparr>]\<rparr>)"

fun midi_drain :: "usb_env \<Rightarrow> midi_completion list list \<Rightarrow> MIDIInputReader \<Rightarrow> MIDIInputReader" where
  "midi_drain env [] r = r"
| "midi_drain env (poll # polls) r =
     (if midi_inFlightCount r = 0 then r else midi_drain env polls (fold (midi_event env) poll r))"

definition midi_abort :: "usb_env \<Rightarrow> midi_completion list list \<Rightarrow> MIDIInputReader \<Rightarrow> IOReturn \<times> MIDIInputReader" where
  "midi_abort env polls r =
     (case ds_interface (mr_device r) of None \<Rightarrow> (kIOReturnSuccess, r) | Some i \<Rightarrow>
      if midi_inFlightCount r \<noteq> 0
      then (case call env (AbortPipe i (ds_midiInPipe (mr_device r))) (mr_device r) of (st, s) \<Rightarrow>
              (st, midi_drain env polls (r\<lparr>mr_device := s\<rparr>)))
      else (kIOReturnSuccess, r))"

text \<open>The pointers are cleared and the run loop is released.\<close>

definition midi_detach :: "MIDIInputReader \<Rightarrow> MIDIInputReader" where
  "midi_detach r = r\<lparr>mr_session := False, mr_runLoop := None,
     mr_device := (case mr_runLoop r of None \<Rightarrow> mr_device r | Some l \<Rightarrow> note_call (RunLoopRelease l) (mr_device r))\<rparr>"

definition midi_release_events :: "MIDIInputReader \<Rightarrow> IOReturn \<times> MIDIInputReader" where
  "midi_release_events r =
     (if mr_eventsAcquired r
      then (case releaseEvents (mr_runLoop r) (mr_device r) of (st, s) \<Rightarrow> (st, r\<lparr>mr_device := s, mr_eventsAcquired := False\<rparr>))
      else (kIOReturnSuccess, r))"

definition midi_stop :: "usb_env \<Rightarrow> midi_completion list list \<Rightarrow> MIDIInputReader \<Rightarrow> IOReturn \<times> MIDIInputReader" where
  "midi_stop env polls r =
     (if \<not> mr_session r then (kIOReturnSuccess, r) else
      let (result, r) = midi_abort env polls (r\<lparr>mr_running := False\<rparr>)
      in if ds_interface (mr_device r) \<noteq> None \<and> midi_inFlightCount r \<noteq> 0 then (kIOReturnTimeout, r)
         else let (st, r) = midi_release_events (r\<lparr>mr_slots := map (ms_completed_update (\<lambda>_. False)) (mr_slots r)\<rparr>)
              in (if result = kIOReturnSuccess then st else result, midi_detach r))"

fun midi_submit_all :: "usb_env \<Rightarrow> nat list \<Rightarrow> MIDIInputReader \<Rightarrow> IOReturn \<times> MIDIInputReader" where
  "midi_submit_all env [] r = (kIOReturnSuccess, r)"
| "midi_submit_all env (k # ks) r = on_success (midi_submit env k r) (midi_submit_all env ks) Pair"

definition midi_start :: "usb_env \<Rightarrow> nat option \<Rightarrow> midi_completion list list \<Rightarrow> NS6DeviceSession \<Rightarrow> MIDIInputReader \<Rightarrow>
    IOReturn \<times> MIDIInputReader" where
  "midi_start env currentLoop polls session r =
     (case ds_interface session of None \<Rightarrow> (kIOReturnNotReady, r) | Some i \<Rightarrow>
      if mr_running r \<or> midi_inFlightCount r \<noteq> 0 \<or> ds_midiInPipe session = 0 \<or> ds_asyncEventSource session = None
      then (kIOReturnNotReady, r) else
      let r = r\<lparr>mr_device := session, mr_session := True, mr_runLoop := currentLoop\<rparr> in
      case currentLoop of None \<Rightarrow> (kIOReturnNotReady, r\<lparr>mr_session := False\<rparr>) | Some l \<Rightarrow>
      let r = r\<lparr>mr_device := note_call (RunLoopRetain l) session, mr_parser := midi_parser_new, mr_nextSubmitSequence := 0,
                mr_nextProcessSequence := 0, mr_reports := 0, mr_publishedBatches := 0, mr_transferErrors := 0,
                mr_nonzeroTerminators := 0, mr_lastError := kIOReturnSuccess, mr_firstMIDIMessageLogged := False\<rparr>
      in case acquireEvents (Some l) (mr_device r) of (st, s) \<Rightarrow>
      let r = r\<lparr>mr_device := s\<rparr> in
      if st \<noteq> kIOReturnSuccess then (st, midi_detach r) else
      case call env (ClearPipeStall i (ds_midiInPipe session)) (mr_device r) of (st, s) \<Rightarrow>
      let r = r\<lparr>mr_device := s, mr_eventsAcquired := True\<rparr> in
      if st \<noteq> kIOReturnSuccess then (st, midi_detach (snd (midi_release_events r)))
      else on_success (midi_submit_all env [0..<4] (r\<lparr>mr_running := True\<rparr>)) (Pair kIOReturnSuccess)
        (\<lambda>st r. (st, snd (midi_stop env polls (r\<lparr>mr_transferErrors := mr_transferErrors r + 1, mr_lastError := st\<rparr>)))))"

definition midi_needsRecovery :: "MIDIInputReader \<Rightarrow> bool" where
  "midi_needsRecovery r \<longleftrightarrow> mr_session r \<and> \<not> mr_running r"

subsection \<open>Channel messages\<close>

text \<open>A complete MIDI 1.0 channel message: a status byte and its one or two data bytes.\<close>

definition channel_message :: "u8 list \<Rightarrow> bool" where
  "channel_message m \<longleftrightarrow> m \<noteq> [] \<and> 0x80 \<le> m ! 0 \<and> m ! 0 \<le> 0xef \<and> length m = midi_size (m ! 0) \<and> list_all (\<lambda>b. b < 0x80) (tl m)"

lemma top_bit: "b AND 0x80 = 0 \<longleftrightarrow> b < 0x80" for b :: u8
proof -
  have "b AND 2 ^ 7 = 0 \<longleftrightarrow> \<not> bit b 7" by (rule and_exp_eq_0_iff_not_bit)
  also have "\<dots> \<longleftrightarrow> even (unat b div 2 ^ 7)" using bit_unsigned_iff [where 'a = nat, of b 7] by (simp add: bit_iff_odd)
  also have "\<dots> \<longleftrightarrow> unat b < 2 ^ 7"
  proof -
    have "unat b < 2 ^ 8" using unsigned_less [where 'a = nat, of b] by simp
    then have "unat b div 2 ^ 7 \<in> {0, 1}" by auto
    then show ?thesis by (auto simp: div_eq_0_iff)
  qed
  finally show ?thesis by (simp add: word_less_nat_alt)
qed

lemma channel_message_cases:
  assumes "channel_message m"
  obtains (two) s d where "m = [s, d]" "midi_size s = 2" "0x80 \<le> s" "s \<le> 0xef" "d < 0x80"
  | (three) s d e where "m = [s, d, e]" "midi_size s = 3" "0x80 \<le> s" "s \<le> 0xef" "d < 0x80" "e < 0x80"
proof -
  obtain s ds where m: "m = s # ds" using assms by (cases m) (auto simp: channel_message_def)
  have n: "Suc (length ds) = midi_size s" "midi_size s = 2 \<or> midi_size s = 3"
    using assms by (auto simp: channel_message_def m midi_size_def)
  from assms n show thesis
    using two three by (auto simp: channel_message_def m length_Suc_conv numeral_2_eq_2 numeral_3_eq_3)
qed

definition parser_ok :: "MIDIInputParser \<Rightarrow> bool" where
  "parser_ok p \<longleftrightarrow> length (mp_message p) = 3 \<and>
     (mp_expected p = 0 \<and> mp_used p = 0 \<or>
      0 < mp_used p \<and> mp_used p < mp_expected p \<and> 0x80 \<le> mp_message p ! 0 \<and> mp_message p ! 0 \<le> 0xef \<and>
      mp_expected p = midi_size (mp_message p ! 0) \<and> (\<forall>i. 0 < i \<and> i < mp_used p \<longrightarrow> mp_message p ! i < 0x80))"

lemma parser_busy:
  assumes "parser_ok p" and "mp_expected p \<noteq> 0"
  obtains s x y where "mp_message p = [s, x, y]" "0x80 \<le> s" "s \<le> 0xef" "mp_expected p = midi_size s"
    "mp_used p = 1 \<and> (midi_size s = 2 \<or> midi_size s = 3) \<or> mp_used p = 2 \<and> midi_size s = 3 \<and> x < 0x80"
proof -
  have "length (mp_message p) = 3" using assms(1) by (simp add: parser_ok_def)
  then obtain s x y where m: "mp_message p = [s, x, y]" by (auto simp: length_Suc_conv numeral_3_eq_3)
  have ok: "0 < mp_used p" "mp_used p < midi_size s" "mp_expected p = midi_size s" "0x80 \<le> s" "s \<le> 0xef"
    "\<And>i. 0 < i \<Longrightarrow> i < mp_used p \<Longrightarrow> [s, x, y] ! i < 0x80"
    using assms by (auto simp: parser_ok_def m)
  have "midi_size s = 2 \<or> midi_size s = 3" by (simp add: midi_size_def)
  with ok(1,2) have "mp_used p = 1 \<and> (midi_size s = 2 \<or> midi_size s = 3) \<or> mp_used p = 2 \<and> midi_size s = 3" by auto
  with ok(3-5) ok(6) [of 1] m show thesis by (intro that [of s x y]) auto
qed

text \<open>A byte completes a message or not; a complete one is a channel message, and never more is written than has arrived.\<close>

lemma feed_byte_status:
  "\<not> b < 0x80 \<Longrightarrow> feed_byte b (p, out) =
    (if b = 0xfd then p else if b \<le> 0xef then p\<lparr>mp_message := (mp_message p)[0 := b], mp_used := 1, mp_expected := midi_size b\<rparr>
     else p\<lparr>mp_used := 0, mp_expected := 0\<rparr>, out)"
  using top_bit [of b] by (simp add: feed_byte_def Let_def not_less)

lemma feed_byte_data:
  "b < 0x80 \<Longrightarrow> feed_byte b (p, out) =
    (if mp_expected p = 0 \<or> 3 \<le> mp_used p then (p, out)
     else if Suc (mp_used p) = mp_expected p
     then (p\<lparr>mp_message := (mp_message p)[mp_used p := b], mp_used := 0, mp_expected := 0\<rparr>, out @ take (mp_expected p) ((mp_message p)[mp_used p := b]))
     else (p\<lparr>mp_message := (mp_message p)[mp_used p := b], mp_used := Suc (mp_used p)\<rparr>, out))"
proof -
  assume b: "b < 0x80"
  then have "b \<noteq> 0xfd" by auto
  with b show ?thesis using top_bit [of b] by (simp add: feed_byte_def Let_def)
qed

lemma feed_byte_ok:
  assumes "parser_ok p" and fed: "feed_byte b (p, out) = (p', out')"
  shows "parser_ok p' \<and> (\<exists>ms. out' = out @ concat ms \<and> list_all channel_message ms) \<and>
    length out' + mp_used p' \<le> length out + mp_used p + 1"
proof -
  have quiet: ?thesis if "parser_ok p'" "out' = out" "mp_used p' \<le> mp_used p + 1"
    using that by (auto intro: exI [of _ "[]"])
  have len: "length (mp_message p) = 3" using assms(1) by (simp add: parser_ok_def)
  show ?thesis
  proof (cases "b < 0x80")
    case False
    have size: "1 < midi_size b" by (simp add: midi_size_def)
    let ?reset = "p\<lparr>mp_used := 0, mp_expected := 0\<rparr>" and ?first = "p\<lparr>mp_message := (mp_message p)[0 := b], mp_used := 1, mp_expected := midi_size b\<rparr>"
    have reset: "parser_ok ?reset" using len by (simp add: parser_ok_def)
    have first: "parser_ok ?first" if "b \<le> 0xef" using that False len size by (simp add: parser_ok_def not_less)
    have "p' = p \<or> p' = ?reset \<or> b \<le> 0xef \<and> p' = ?first" and out: "out' = out"
      using fed unfolding feed_byte_status [OF False] by (simp_all split: if_splits)
    then have "parser_ok p'" and "mp_used p' \<le> mp_used p + 1" using assms(1) reset first by (elim disjE; simp)+
    then show ?thesis using quiet out by simp
  next
    case data: True
    show ?thesis
    proof (cases "mp_expected p = 0 \<or> 3 \<le> mp_used p")
      case True
      then show ?thesis using quiet fed assms(1) unfolding feed_byte_data [OF data] by simp
    next
      case False
      then have "mp_expected p \<noteq> 0" by simp
      from assms(1) this obtain s x y where m: "mp_message p = [s, x, y]" "0x80 \<le> s" "s \<le> 0xef" "mp_expected p = midi_size s"
        and u: "mp_used p = 1 \<and> (midi_size s = 2 \<or> midi_size s = 3) \<or> mp_used p = 2 \<and> midi_size s = 3 \<and> x < 0x80"
        by (rule parser_busy) (rule that)
      from u consider (wait) "mp_used p = 1" "midi_size s = 3" | (two) "mp_used p = 1" "midi_size s = 2" | (three) "mp_used p = 2" "midi_size s = 3" "x < 0x80"
        by blast
      then show ?thesis
      proof cases
        case wait
        then have eq: "p' = p\<lparr>mp_message := [s, b, y], mp_used := 2\<rparr>" "out' = out"
          using fed m unfolding feed_byte_data [OF data] by auto
        have "parser_ok p'" using eq m wait data by (auto simp: parser_ok_def less_2_cases_iff)
        then show ?thesis using quiet eq wait by simp
      next
        case two
        then have eq: "p' = p\<lparr>mp_message := [s, b, y], mp_used := 0, mp_expected := 0\<rparr>" "out' = out @ [s, b]"
          using fed m unfolding feed_byte_data [OF data] by (auto simp: numeral_2_eq_2)
        then show ?thesis using m two data by (auto simp: parser_ok_def channel_message_def intro!: exI [of _ "[[s, b]]"])
      next
        case three
        then have eq: "p' = p\<lparr>mp_message := [s, x, b], mp_used := 0, mp_expected := 0\<rparr>" "out' = out @ [s, x, b]"
          using fed m unfolding feed_byte_data [OF data] by (auto simp: numeral_3_eq_3 numeral_2_eq_2)
        then show ?thesis using m three data by (auto simp: parser_ok_def channel_message_def intro!: exI [of _ "[[s, x, b]]"])
      qed
    qed
  qed
qed

lemma feed_bytes_ok:
  "parser_ok p \<Longrightarrow> fold feed_byte bs (p, out) = (p', out') \<Longrightarrow>
   parser_ok p' \<and> (\<exists>ms. out' = out @ concat ms \<and> list_all channel_message ms) \<and>
   length out' + mp_used p' \<le> length out + mp_used p + length bs"
proof (induction bs arbitrary: p out)
  case Nil
  then show ?case by (auto intro: exI [of _ "[]"])
next
  case (Cons b bs)
  obtain p1 out1 where 1: "feed_byte b (p, out) = (p1, out1)" by fastforce
  note step = feed_byte_ok [OF Cons.prems(1) 1]
  have "fold feed_byte bs (p1, out1) = (p', out')" using Cons.prems(2) 1 by simp
  note rest = Cons.IH [OF conjunct1 [OF step] this]
  obtain ms where ms: "out1 = out @ concat ms" "list_all channel_message ms" using step by blast
  obtain ns where ns: "out' = out1 @ concat ns" "list_all channel_message ns" using rest by blast
  have "out' = out @ concat (ms @ ns) \<and> list_all channel_message (ms @ ns)" using ms ns by simp
  then show ?case using step rest by (auto simp del: concat_append)
qed

lemma feedReport_ok:
  assumes "parser_ok p" and "feedReport report len output p = (p', out)"
  shows "parser_ok p' \<and> (\<exists>ms. out = concat ms \<and> list_all channel_message ms) \<and> length out + mp_used p' \<le> mp_used p + 41"
proof -
  have "parser_ok (p\<lparr>mp_used := 0, mp_expected := 0\<rparr>)" using assms(1) by (simp add: parser_ok_def)
  then show ?thesis
    using assms feed_bytes_ok [OF assms(1), of "take 41 (the report)" "[]" p' out]
    by (auto simp: feedReport_def split: option.splits if_splits intro: exI [of _ "[]"])
qed

fun feed_reports :: "(u8 list option \<times> nat) list \<Rightarrow> MIDIInputParser \<Rightarrow> MIDIInputParser" where
  "feed_reports [] p = p"
| "feed_reports ((report, len) # reports) p = feed_reports reports (fst (feedReport report len True p))"

lemma feed_reports_ok: "parser_ok p \<Longrightarrow> parser_ok (feed_reports reports p)"
  by (induction reports p rule: feed_reports.induct) (auto dest: feedReport_ok [OF _ prod.collapse [symmetric]])

lemma parser_new_ok: "parser_ok midi_parser_new"
  by (simp add: parser_ok_def midi_parser_new_def)

text \<open>
  (C32) After any sequence of reports, what the parser writes for the next report, well formed or not, is a sequence of
  complete channel messages and fits the output buffer of 43 bytes.
\<close>

theorem midi_output_well_formed:
  "case feedReport report len True (feed_reports reports midi_parser_new) of (p, out) \<Rightarrow>
     length out \<le> 43 \<and> (\<exists>messages. out = concat messages \<and> list_all channel_message messages)"
proof -
  have ok: "parser_ok (feed_reports reports midi_parser_new)" by (rule feed_reports_ok [OF parser_new_ok])
  then have "mp_used (feed_reports reports midi_parser_new) \<le> 2" by (auto simp: parser_ok_def midi_size_def split: if_splits)
  then show ?thesis using feedReport_ok [OF ok, of report len True] by (auto split: prod.splits)
qed

subsection \<open>Packets and events carry messages unchanged\<close>

lemma status_not_data: "0x80 \<le> s \<Longrightarrow> \<not> s < 0x80" "s \<le> 0xef \<Longrightarrow> s \<noteq> 0xfd" for s :: u8
  by auto

lemma feed_message:
  assumes "channel_message m" and "length (mp_message p) = 3"
  shows "\<exists>p'. fold feed_byte m (p, out) = (p', out @ m) \<and> length (mp_message p') = 3 \<and> mp_used p' = 0 \<and> mp_expected p' = 0"
proof -
  obtain a b c where m: "mp_message p = [a, b, c]" using assms(2) by (auto simp: length_Suc_conv numeral_3_eq_3)
  from assms(1) show ?thesis
  proof (cases rule: channel_message_cases)
    case (two s d)
    then show ?thesis using m status_not_data [of s] by (simp add: feed_byte_status feed_byte_data numeral_2_eq_2)
  next
    case (three s d e)
    then show ?thesis using m status_not_data [of s] by (simp add: feed_byte_status feed_byte_data numeral_3_eq_3 numeral_2_eq_2)
  qed
qed

lemma feed_messages:
  "list_all channel_message ms \<Longrightarrow> length (mp_message p) = 3 \<Longrightarrow>
   \<exists>p'. fold feed_byte (concat ms) (p, out) = (p', out @ concat ms) \<and> length (mp_message p') = 3 \<and>
     (ms \<noteq> [] \<longrightarrow> mp_used p' = 0 \<and> mp_expected p' = 0)"
proof (induction ms arbitrary: p out)
  case (Cons m ms)
  obtain q where q: "fold feed_byte m (p, out) = (q, out @ m)" "length (mp_message q) = 3" "mp_used q = 0" "mp_expected q = 0"
    using feed_message [of m p out] Cons.prems by auto
  show ?case
  proof (cases "ms = []")
    case True
    then show ?thesis using q by simp
  next
    case False
    then show ?thesis using Cons.IH [of q "out @ m"] Cons.prems q by simp
  qed
qed simp

lemma feed_padding: "(feed_byte 0xfd ^^ n) x = x"
  by (induction n) (auto simp: feed_byte_def split: prod.split)

lemma packet_payload:
  assumes "0 < len" and "len < 42" and "length m \<ge> len" and "length buf = 42"
  shows "\<exists>packet. buildPacket (Some m) len (Some buf) = (True, Some packet) \<and> length packet = 42 \<and>
    take 41 packet = take len m @ replicate (41 - len) 0xfd \<and> packet ! 41 = 0"
proof -
  let ?packet = "(overwrite 0 (take len m) (overwrite 0 (replicate 42 0xfd) buf))[41 := 0 :: u8]"
  have "overwrite 0 (replicate 42 0xfd) buf = replicate 42 0xfd" using assms(4) by (simp add: overwrite_def)
  then have p: "?packet = (take len m @ replicate (42 - len) 0xfd)[41 := 0]"
    using assms by (simp add: overwrite_def min_absorb2)
  have "take 41 ?packet = take len m @ replicate (41 - len) 0xfd" unfolding p using assms by (cases "len = 41") (simp_all add: min_absorb2)
  moreover have "length ?packet = 42" unfolding p using assms by (simp add: min_absorb2)
  moreover from this have "?packet ! 41 = 0" by simp
  ultimately show ?thesis using assms(1,2) by (simp add: buildPacket_def Let_def)
qed

definition message_word :: "u8 list \<Rightarrow> u32" where
  "message_word m = event_word (m ! 0) (m ! 1) (if length m = 3 then m ! 2 else 0)"

text \<open>Status and data bytes can be read back from the word.\<close>

lemma event_word_fields:
  "ucast (drop_bit 16 (event_word s d e)) = s" "ucast (drop_bit 8 (event_word s d e)) = d" "ucast (event_word s d e) = e"
  "drop_bit 28 (event_word s d e) = 2"
proof -
  define c :: u32 where "c = push_bit 28 2"
  have "c = 2 ^ 29" by (simp add: c_def)
  then have c: "bit c n \<longleftrightarrow> n = 29" for n by (auto simp only: bit_exp_iff possible_bit_word) simp
  show "ucast (drop_bit 16 (event_word s d e)) = s" "ucast (drop_bit 8 (event_word s d e)) = d" "ucast (event_word s d e) = e"
    "drop_bit 28 (event_word s d e) = 2"
    unfolding event_word_def c_def [symmetric] by (rule bit_word_eqI; auto simp: bit_simps c dest: bit_imp_le_length)+
qed

lemma encode_messages:
  "list_all channel_message ms \<Longrightarrow> count + length ms \<le> capacity \<Longrightarrow> count + length ms \<le> length words \<Longrightarrow>
   encode_loop (concat ms) count words capacity = (count + length ms, overwrite count (map message_word ms) words)"
proof (induction ms arbitrary: count words)
  case Nil
  then show ?case by (simp add: encode_loop.simps)
next
  case (Cons m ms)
  have IH: "encode_loop (concat ms) (Suc count) (words[count := w]) capacity = (Suc count + length ms, overwrite (Suc count) (map message_word ms) (words[count := w]))" for w
    using Cons by simp
  have put: "overwrite (Suc count) ys (words[count := w]) = overwrite count (w # ys) words" if "length ys = length ms" for w ys
    using that Cons.prems(3) by (simp add: overwrite_def take_Suc_conv_app_nth upd_conv_take_nth_drop take_update_swap add.commute)
  have "channel_message m" using Cons.prems by simp
  then show ?case
  proof (cases rule: channel_message_cases)
    case (two s d)
    then show ?thesis using IH put Cons.prems(2,3) status_not_data [of s] top_bit [of d]
      by (subst encode_loop.simps) (simp add: Let_def message_word_def not_less)
  next
    case (three s d e)
    then show ?thesis using IH put Cons.prems(2,3) status_not_data [of s] top_bit [of d] top_bit [of e]
      by (subst encode_loop.simps) (simp add: Let_def message_word_def not_less)
  qed
qed

text \<open>
  (C16) Channel messages survive the trip through an output packet and back: packed together (41 bytes at most) and fed to the
  parser as a report, in whatever state the parser was, they come out unchanged, and the event encoder turns them
  into one word each, from which status and data can be read back.
\<close>

theorem midi_roundtrip:
  assumes "list_all channel_message ms" and "ms \<noteq> []" and "length (concat ms) \<le> 41" and "length buf = 42" and "length (mp_message p) = 3"
    and "length ms \<le> capacity" and "length ms \<le> length words"
  shows "\<exists>packet p'. buildPacket (Some (concat ms)) (length (concat ms)) (Some buf) = (True, Some packet) \<and>
    feedReport (Some packet) 42 True p = (p', concat ms) \<and> mp_used p' = 0 \<and>
    midi_encode (Some (concat ms)) (length (concat ms)) (Some words) capacity =
      (length ms, Some (overwrite 0 (map message_word ms) words)) \<and>
    list_all (\<lambda>m. ucast (drop_bit 16 (message_word m)) = m ! 0 \<and> ucast (drop_bit 8 (message_word m)) = m ! 1) ms"
proof -
  let ?b = "concat ms"
  obtain m where "m \<in> set ms" "m \<noteq> []" using assms(1,2) by (cases ms) (auto simp: channel_message_def)
  then have "0 < length ?b" by (simp add: length_greater_0_conv) blast
  then obtain packet where packet: "buildPacket (Some ?b) (length ?b) (Some buf) = (True, Some packet)" "take 41 packet = ?b @ replicate (41 - length ?b) 0xfd"
    using packet_payload [of "length ?b" ?b buf] assms(3,4) by auto
  obtain p' where "fold feed_byte ?b (p, []) = (p', ?b)" "mp_used p' = 0" using feed_messages [OF assms(1,5), of "[]"] assms(2) by auto
  then have "feedReport (Some packet) 42 True p = (p', ?b) \<and> mp_used p' = 0" using packet(2) by (simp add: feedReport_def feed_padding)
  moreover have "midi_encode (Some ?b) (length ?b) (Some words) capacity = (length ms, Some (overwrite 0 (map message_word ms) words))"
    using encode_messages [OF assms(1), of 0 capacity words] assms(6,7) by (simp add: midi_encode_def)
  moreover have "list_all (\<lambda>m. ucast (drop_bit 16 (message_word m)) = m ! 0 \<and> ucast (drop_bit 8 (message_word m)) = m ! 1) ms"
    by (simp add: list_all_iff message_word_def event_word_fields)
  ultimately show ?thesis using packet(1) by blast
qed

text \<open>Witness for C0.\<close>

theorem midi_roundtrip_witness:
  "\<exists>packet p'. buildPacket (Some [0x90, 60, 100, 0xc1, 5]) 5 (Some (replicate 42 0)) = (True, Some packet) \<and>
    feedReport (Some packet) 42 True midi_parser_new = (p', [0x90, 60, 100, 0xc1, 5]) \<and>
    midi_encode (Some [0x90, 60, 100, 0xc1, 5]) 5 (Some [0, 0]) 2 = (2, Some [0x20903c64, 0x20c10500])"
proof -
  let ?ms = "[[0x90, 60, 100], [0xc1, 5]] :: u8 list list"
  have len: "length (concat ?ms) = 5" "concat ?ms = [0x90, 60, 100, 0xc1, 5]" "length ?ms = 2" by simp_all
  have ms: "list_all channel_message ?ms" by (simp add: channel_message_def midi_size_def)
  have words: "overwrite 0 (map message_word ?ms) [0, 0] = [0x20903c64, 0x20c10500]"
    by (simp add: overwrite_def message_word_def event_word_def)
  show ?thesis
    using midi_roundtrip [OF ms, of "replicate 42 0" midi_parser_new 2 "[0, 0]", unfolded words, unfolded len(1), unfolded len(2,3)]
    by (auto simp: midi_parser_new_def)
qed

subsection \<open>The handshake reply is found wherever it is\<close>

definition contains_reply :: "u8 list \<Rightarrow> bool" where
  "contains_reply xs \<longleftrightarrow> (\<exists>before after. xs = before @ reply_prefix @ after)"

text \<open>The successive reports of a read, until one completes the reply.\<close>

fun reply_seen :: "u8 list list \<Rightarrow> nat \<Rightarrow> bool" where
  "reply_seen [] matched = False"
| "reply_seen (r # rs) matched =
     (case handshake_consume (Some r) (length r) matched of (found, matched) \<Rightarrow> found \<or> reply_seen rs matched)"

lemma contains_append: "contains_reply xs \<Longrightarrow> contains_reply (ys @ xs)"
  unfolding contains_reply_def by (metis append.assoc)

lemma contains_complete: "contains_reply (reply_prefix @ cs)"
  unfolding contains_reply_def by (rule exI [of _ "[]"]) simp

lemma prefix_status:
  assumes "i < 7" and "reply_prefix ! i = 0xf0"
  shows "i = 0"
proof -
  have "i \<in> {0, 1, 2, 3, 4, 5, 6}" using assms(1) by auto
  with assms(2) show ?thesis by (auto simp: reply_prefix_def)
qed

lemma contains_mismatch:
  assumes "m < 7" and "b \<noteq> reply_prefix ! m"
  shows "contains_reply (take m reply_prefix @ b # cs) \<longleftrightarrow> contains_reply (take (if b = 0xf0 then 1 else 0) reply_prefix @ cs)"
proof
  let ?xs = "take m reply_prefix @ b # cs"
  have len: "length reply_prefix = 7" and head: "reply_prefix ! 0 = 0xf0" "take 1 reply_prefix = [0xf0]" by (simp_all add: reply_prefix_def)
  have l: "length (take m reply_prefix) = m" using len assms(1) by simp
  assume "contains_reply ?xs"
  then obtain before after where xs: "?xs = before @ reply_prefix @ after" by (auto simp: contains_reply_def)
  have at: "?xs ! (length before + j) = reply_prefix ! j" if "j < 7" for j unfolding xs using that len by (simp add: nth_append)
  consider "length before < m" | "length before = m" | "m < length before" by linarith
  then show "contains_reply (take (if b = 0xf0 then 1 else 0) reply_prefix @ cs)"
  proof cases
    case 1
    then have "reply_prefix ! length before = 0xf0" using at [of 0] head len assms(1) by (simp add: nth_append)
    then have "length before = 0" using 1 assms(1) by (intro prefix_status) simp_all
    then have "b = reply_prefix ! m" using at [OF assms(1)] l by (simp add: nth_append)
    with assms(2) show ?thesis by simp
  next
    case 2
    then have "b = 0xf0" using at [of 0] head l by (simp add: nth_append)
    moreover have "b # cs = reply_prefix @ after" using 2 xs l by (metis append_eq_append_conv)
    ultimately show ?thesis using head contains_complete [of after] by simp
  next
    case 3
    have "cs = drop (Suc m) ?xs" using l by simp
    also have "\<dots> = drop (Suc m) before @ reply_prefix @ after" unfolding xs using 3 by simp
    finally have "contains_reply cs" unfolding contains_reply_def by blast
    then show ?thesis by (rule contains_append)
  qed
next
  assume c: "contains_reply (take (if b = 0xf0 then 1 else 0) reply_prefix @ cs)"
  have "take 1 reply_prefix = [0xf0]" by (simp add: reply_prefix_def)
  then have "contains_reply (b # cs)" using c contains_append [of cs "[b]"] by (auto split: if_splits)
  then show "contains_reply (take m reply_prefix @ b # cs)" by (rule contains_append)
qed

lemma contains_short: "m < 7 \<Longrightarrow> \<not> contains_reply (take m reply_prefix)"
proof
  assume m: "m < 7" and "contains_reply (take m reply_prefix)"
  then obtain before after where "take m reply_prefix = before @ reply_prefix @ after" by (auto simp: contains_reply_def)
  from arg_cong [OF this, of length] m show False by (simp add: reply_prefix_def)
qed

lemma reply_scan_spec:
  assumes "m < 7" and "reply_scan bs m = (found, m')"
  shows "m' < 7 \<and> (if found then contains_reply (take m reply_prefix @ filter (\<lambda>b. b \<noteq> 0xfd) bs @ cs)
    else contains_reply (take m reply_prefix @ filter (\<lambda>b. b \<noteq> 0xfd) bs @ cs) = contains_reply (take m' reply_prefix @ cs))"
  using assms
proof (induction bs arbitrary: m)
  case (Cons b bs)
  have len: "length reply_prefix = 7" by (simp add: reply_prefix_def)
  consider (pad) "b = 0xfd" | (last) "b \<noteq> 0xfd" "b = reply_prefix ! m" "Suc m = 7" | (match) "b \<noteq> 0xfd" "b = reply_prefix ! m" "Suc m < 7"
    | (other) "b \<noteq> 0xfd" "b \<noteq> reply_prefix ! m" using Cons.prems(1) by linarith
  then show ?case
  proof cases
    case pad
    then show ?thesis using Cons by simp
  next
    case last
    then have "take m reply_prefix @ [b] = reply_prefix" using len by (simp flip: take_Suc_conv_app_nth)
    then have "contains_reply (take m reply_prefix @ b # xs)" for xs
      using contains_complete [of xs] by (metis append.assoc append_Cons append_Nil)
    then show ?thesis using Cons.prems(2) last len by auto
  next
    case match
    then have "take (Suc m) reply_prefix = take m reply_prefix @ [b]" using len by (simp add: take_Suc_conv_app_nth)
    then have "take (Suc m) reply_prefix @ xs = take m reply_prefix @ b # xs" for xs by simp
    then show ?thesis using Cons.IH [of "Suc m"] Cons.prems(2) match len by auto
  next
    case other
    define k where "k = (if b = 0xf0 then 1 else (0 :: nat))"
    have "reply_prefix ! 0 = 0xf0" by (simp add: reply_prefix_def)
    then have scan: "reply_scan bs k = (found, m')" using Cons.prems(2) other by (simp add: k_def)
    have "k < 7" by (simp add: k_def)
    from Cons.IH [OF this scan] contains_mismatch [OF Cons.prems(1) other(2), of "filter (\<lambda>b. b \<noteq> 0xfd) bs @ cs"] other(1)
    show ?thesis by (simp add: k_def [symmetric])
  qed
qed simp

text \<open>
  (C17) However the controller splits and pads its answer over reports, the handshake parser reports the reply exactly when the
  bytes received so far, padding removed, contain the seven bytes of the reply in sequence.
\<close>

theorem handshake_detects:
  "reply_seen reports 0 \<longleftrightarrow> (\<exists>before after. filter (\<lambda>b. b \<noteq> 0xfd) (concat reports) = before @ reply_prefix @ after)"
proof -
  have "reply_seen rs m \<longleftrightarrow> contains_reply (take m reply_prefix @ filter (\<lambda>b. b \<noteq> 0xfd) (concat rs))" if "m < 7" for rs m
    using that
  proof (induction rs arbitrary: m)
    case Nil
    then show ?case by (simp add: contains_short)
  next
    case (Cons r rs)
    obtain found m' where scan: "reply_scan r m = (found, m')" by fastforce
    from reply_scan_spec [OF Cons.prems scan, of "filter (\<lambda>b. b \<noteq> 0xfd) (concat rs)"] Cons.IH [of m'] scan show ?case
      by (auto simp: handshake_consume_def split: if_splits)
  qed
  from this [of 0] have "reply_seen reports 0 \<longleftrightarrow> contains_reply (filter (\<lambda>b. b \<noteq> 0xfd) (concat reports))" by simp
  then show ?thesis by (simp add: contains_reply_def)
qed

subsection \<open>Every datagram is sent or counted as a failure\<close>

definition writes :: "(IOReturn \<Rightarrow> bool) \<Rightarrow> usb_trace \<Rightarrow> nat" where
  "writes Q tr = length (filter (\<lambda>(c, st). (case c of WritePipe _ _ _ \<Rightarrow> True | _ \<Rightarrow> False) \<and> Q st) tr)"

lemma writes_append [simp]: "writes Q (tr @ tr') = writes Q tr + writes Q tr'" "writes Q [] = 0"
  "writes Q ((c, st) # tr) = of_bool ((case c of WritePipe _ _ _ \<Rightarrow> True | _ \<Rightarrow> False) \<and> Q st) + writes Q tr"
  by (simp_all add: writes_def)

lemma write_attempts_spec:
  "write_attempts env i packet n result s = (st, s') \<Longrightarrow> result \<noteq> kIOReturnSuccess \<Longrightarrow>
   writes (\<lambda>_. True) (ds_trace s') \<le> writes (\<lambda>_. True) (ds_trace s) + n \<and>
   writes (\<lambda>st. st = kIOReturnSuccess) (ds_trace s') = writes (\<lambda>st. st = kIOReturnSuccess) (ds_trace s) + of_bool (st = kIOReturnSuccess)"
proof (induction n arbitrary: result s)
  case (Suc n)
  obtain r1 s1 where 1: "call env (WritePipe i (ds_midiOutPipe s) packet) s = (r1, s1)" by fastforce
  obtain r2 s2 where 2: "call env (ClearPipeStall i (ds_midiOutPipe s1)) s1 = (r2, s2)" by fastforce
  have t: "ds_trace s1 = ds_trace s @ [(WritePipe i (ds_midiOutPipe s) packet, r1)]" "ds_trace s2 = ds_trace s1 @ [(ClearPipeStall i (ds_midiOutPipe s1), r2)]"
    using 1 2 by (auto simp: call_def Let_def)
  show ?case
  proof (cases "(r1 = kIOUSBPipeStalled \<or> r1 = kIOReturnNotResponding \<or> r1 = kIOReturnTimeout) \<and> r2 = kIOReturnSuccess")
    case True
    then have "write_attempts env i packet n r1 (note_call (SleepMilliseconds 1) s2) = (st, s')" using Suc.prems(1) 1 2 by auto
    from Suc.IH [OF this] True show ?thesis by (auto simp: t note_call_def)
  next
    case False
    then have "(st, s') = (r1, s1) \<or> (st, s') = (r1, s2) \<and> r1 \<noteq> kIOReturnSuccess" using Suc.prems(1) 1 2 by (auto split: if_splits)
    then show ?thesis by (auto simp: t)
  qed
qed simp

lemma writer_receive_spec:
  assumes "w' = writer_receive env d w"
  shows "mw_running w' = mw_running w \<and>
    (\<exists>sent failed. sent + failed = 1 \<and> mw_sent w' = mw_sent w + of_nat sent \<and> mw_failures w' = mw_failures w + of_nat failed \<and>
      writes (\<lambda>st. st = kIOReturnSuccess) (ds_trace (mw_device w')) = writes (\<lambda>st. st = kIOReturnSuccess) (ds_trace (mw_device w)) + sent \<and>
      writes (\<lambda>_. True) (ds_trace (mw_device w')) \<le> writes (\<lambda>_. True) (ds_trace (mw_device w)) + 3)"
proof (cases "w' = w\<lparr>mw_failures := mw_failures w + 1\<rparr>")
  case True
  then show ?thesis by (auto intro!: exI [of _ 0] exI [of _ 1])
next
  case False
  then obtain packet i where w1: "w' = writer_send env i packet w"
    using assms unfolding writer_receive_def Let_def
    by (cases "ds_interface (mw_device w)") (auto split: if_splits prod.splits simp del: One_nat_def)
  obtain st s where a: "write_attempts env i packet 3 kIOReturnNotReady (mw_device w) = (st, s)" by fastforce
  then have w': "w' = (if st = kIOReturnSuccess then w\<lparr>mw_device := s, mw_sent := mw_sent w + 1\<rparr>
      else w\<lparr>mw_device := s, mw_failures := mw_failures w + 1\<rparr>)" by (simp add: w1 writer_send_def)
  show ?thesis using write_attempts_spec [OF a] w'
    by (intro conjI exI [of _ "of_bool (st = kIOReturnSuccess)"] exI [of _ "of_bool (st \<noteq> kIOReturnSuccess)"]) simp_all
qed

text \<open>
  (C33) The output writer loses no datagram silently: of \<open>n\<close> datagrams received, some are sent and the others are counted as
  failures, the successful USB writes are exactly those sent, and no datagram costs more than three writes.
\<close>

theorem writer_accounts:
  assumes "mw_running w" and "w' = writer_run env datagrams w"
  shows "\<exists>sent failed. sent + failed = length datagrams \<and> mw_sent w' = mw_sent w + of_nat sent \<and> mw_failures w' = mw_failures w + of_nat failed \<and>
    writes (\<lambda>st. st = kIOReturnSuccess) (ds_trace (mw_device w')) = writes (\<lambda>st. st = kIOReturnSuccess) (ds_trace (mw_device w)) + sent \<and>
    writes (\<lambda>_. True) (ds_trace (mw_device w')) \<le> writes (\<lambda>_. True) (ds_trace (mw_device w)) + 3 * length datagrams"
  using assms
proof (induction datagrams arbitrary: w)
  case (Cons d ds)
  obtain w1 where w1: "w1 = writer_receive env d w" by blast
  obtain s1 f1 where 1: "mw_running w1" "s1 + f1 = 1" "mw_sent w1 = mw_sent w + of_nat s1" "mw_failures w1 = mw_failures w + of_nat f1"
      "writes (\<lambda>st. st = kIOReturnSuccess) (ds_trace (mw_device w1)) = writes (\<lambda>st. st = kIOReturnSuccess) (ds_trace (mw_device w)) + s1"
      "writes (\<lambda>_. True) (ds_trace (mw_device w1)) \<le> writes (\<lambda>_. True) (ds_trace (mw_device w)) + 3"
    using writer_receive_spec [OF w1] Cons.prems(1) by auto
  have "w' = writer_run env ds w1" using Cons.prems w1 by (simp add: writer_run_def)
  from Cons.IH [OF 1(1) this] obtain s f where "s + f = length ds" "mw_sent w' = mw_sent w1 + of_nat s" "mw_failures w' = mw_failures w1 + of_nat f"
      "writes (\<lambda>st. st = kIOReturnSuccess) (ds_trace (mw_device w')) = writes (\<lambda>st. st = kIOReturnSuccess) (ds_trace (mw_device w1)) + s"
      "writes (\<lambda>_. True) (ds_trace (mw_device w')) \<le> writes (\<lambda>_. True) (ds_trace (mw_device w1)) + 3 * length ds" by auto
  with 1 show ?case by (intro exI [of _ "s1 + s"] exI [of _ "f1 + f"]) simp
qed (simp add: writer_run_def)

definition writer_example :: MIDIOutputWriter where
  "writer_example = \<lparr>mw_device = (session_new [])\<lparr>ds_interface := Some 10, ds_midiOutPipe := 4\<rparr>, mw_session = True, mw_socket = Some 7,
     mw_running = True, mw_worker = True, mw_sent = 0, mw_failures = 0\<rparr>"

text \<open>Witness for C0: one message, one failed receive.\<close>

theorem writer_accounts_witness:
  "\<exists>sent failed. sent + failed = 2 \<and> mw_sent (writer_run usb_example [Some [0x90, 60, 100], None] writer_example) = of_nat sent \<and>
    mw_failures (writer_run usb_example [Some [0x90, 60, 100], None] writer_example) = of_nat failed"
  using writer_accounts [of writer_example _ usb_example "[Some [0x90, 60, 100], None]", OF _ refl]
  by (auto simp: writer_example_def numeral_2_eq_2)

end
