(* ===== verification/NS6_Activation.thy ===== *)
theory NS6_Activation
  imports NS6_Midi
begin

text \<open>
  The activation of the controller: four reads listen for the reply while the host identifies itself and enables the jog
  wheels, then the session is reopened and the wake message is sent.
\<close>

subsection \<open>Messages and reads\<close>

definition kHostIdentify :: "u8 list" where
  "kHostIdentify = [0xf0, 0x00, 0x01, 0x3f, 0x7f, 0x79, 0x50, 0x00, 0x10, 0x04, 0x01, 0x00, 0x00, 0x00, 0x04, 0x04, 0x0e, 0x0f,
     0x00, 0x00, 0x0e, 0x05, 0x0f, 0x04, 0x0c, 0x06, 0x0b, 0x0f, 0x0d, 0x0c, 0xf7]"

definition kJogEnable :: "u8 list" where
  "kJogEnable = [0xb1, 0x3b, 0x01, 0xb2, 0x3b, 0x01, 0xb3, 0x3b, 0x01, 0xb4, 0x3b, 0x01]"

definition kWake :: "u8 list" where
  "kWake = [0xf0, 0x00, 0x01, 0x3f, 0x7f, 0x79, 0x60, 0x00, 0x01, 0x49, 0x01, 0x00, 0x00, 0x00, 0x00, 0xf7]"

record InputRead =
  rd_data :: "u8 list"
  rd_running :: bool
  rd_inFlight :: bool

definition reads_new :: "InputRead list" where
  "reads_new = replicate 4 \<lparr>rd_data = replicate 42 0, rd_running = False, rd_inFlight = False\<rparr>"

text \<open>The local variables of the activation: the session, the reads, the reply parser and its flag.\<close>

record activation =
  ac_session :: NS6DeviceSession
  ac_reads :: "InputRead list"
  ac_matched :: nat
  ac_replySeen :: bool

definition ac_call :: "usb_env \<Rightarrow> usb_call \<Rightarrow> activation \<Rightarrow> IOReturn \<times> activation" where
  "ac_call env c a = (case call env c (ac_session a) of (st, s) \<Rightarrow> (st, a\<lparr>ac_session := s\<rparr>))"

definition read_submit :: "usb_env \<Rightarrow> nat \<Rightarrow> nat \<Rightarrow> activation \<Rightarrow> IOReturn \<times> activation" where
  "read_submit env i k a =
     (let rd = ac_reads a ! k in
      if \<not> rd_running rd \<or> rd_inFlight rd then (kIOReturnNotReady, a)
      else case ac_call env (PipeTransfer i (ds_midiInPipe (ac_session a)) k) a of (result, a) \<Rightarrow>
        (result, a\<lparr>ac_reads := (ac_reads a)[k := rd\<lparr>rd_inFlight := result = kIOReturnSuccess\<rparr>]\<rparr>))"

text \<open>The callback of a read, after the controller has filled its buffer.\<close>

definition read_completed :: "usb_env \<Rightarrow> nat \<Rightarrow> midi_completion \<Rightarrow> activation \<Rightarrow> activation" where
  "read_completed env i c a =
     (let k = mc_slot c; rd = ac_reads a ! k; data = overwrite 0 (mc_data c) (rd_data rd);
          a = a\<lparr>ac_reads := (ac_reads a)[k := rd\<lparr>rd_data := data, rd_inFlight := False\<rparr>]\<rparr>;
          len = min (unat (mc_bytes c)) (length data)
      in if mc_status c \<noteq> kIOReturnSuccess then a
         else case handshake_consume (Some data) len (ac_matched a) of (found, matched) \<Rightarrow>
           let a = a\<lparr>ac_matched := matched, ac_replySeen := (ac_replySeen a \<or> found)\<rparr>
           in if rd_running rd then snd (read_submit env i k a) else a)"

definition deliver_reads :: "usb_env \<Rightarrow> nat \<Rightarrow> midi_completion list \<Rightarrow> activation \<Rightarrow> activation" where
  "deliver_reads env i cs a = fold (read_completed env i) cs a"

definition reads_in_flight :: "activation \<Rightarrow> bool" where
  "reads_in_flight a = list_ex rd_inFlight (ac_reads a)"

text \<open>The loops that run the run loop until nothing is in flight or the deadline has passed; \<open>polls\<close> is what each turn delivers.\<close>

fun drain_reads :: "usb_env \<Rightarrow> nat \<Rightarrow> midi_completion list list \<Rightarrow> activation \<Rightarrow> activation" where
  "drain_reads env i [] a = a"
| "drain_reads env i (poll # polls) a = (if reads_in_flight a then drain_reads env i polls (deliver_reads env i poll a) else a)"

definition halt_reads :: "activation \<Rightarrow> activation" where
  "halt_reads a = a\<lparr>ac_reads := map (rd_running_update (\<lambda>_. False)) (ac_reads a)\<rparr>"

definition sendMessage :: "usb_env \<Rightarrow> u8 list \<Rightarrow> activation \<Rightarrow> IOReturn \<times> activation" where
  "sendMessage env message a =
     (case ds_interface (ac_session a) of None \<Rightarrow> (kIOReturnNotReady, a) | Some i \<Rightarrow>
      let pipe = ds_midiOutPipe (ac_session a) in
      if pipe = 0 then (kIOReturnNotReady, a) else
      case buildPacket (Some message) (length message) (Some (replicate 42 0)) of (ok, packet) \<Rightarrow>
      if \<not> ok then (kIOReturnBadArgument, a) else
      case ac_call env (WritePipe i pipe (the packet)) a of (result, a) \<Rightarrow>
      let a = (if result \<noteq> kIOReturnSuccess then snd (ac_call env (GetPipeStatus i pipe) a) else a);
          a = (if result = kIOUSBPipeStalled then snd (ac_call env (ClearPipeStall i pipe) a) else a)
      in (result, a))"

text \<open>
  The writer thread. Completions run on the run loop of the other thread; those that arrive before the first write, between
  the two writes and after the second are \<open>before\<close>, \<open>between\<close> and \<open>after\<close>.
\<close>

definition sendSequence :: "usb_env \<Rightarrow> nat \<Rightarrow> midi_completion list \<Rightarrow> midi_completion list \<Rightarrow> midi_completion list \<Rightarrow> activation \<Rightarrow>
    IOReturn \<times> activation" where
  "sendSequence env i before between after a =
     (case sendMessage env kHostIdentify (deliver_reads env i before a) of (identify, a) \<Rightarrow>
      case sendMessage env kJogEnable (deliver_reads env i between a) of (jog, a) \<Rightarrow>
        (if identify \<noteq> kIOReturnSuccess then identify else jog, deliver_reads env i after a))"

definition stopReads :: "usb_env \<Rightarrow> nat \<Rightarrow> nat option \<Rightarrow> midi_completion list list \<Rightarrow> activation \<Rightarrow> IOReturn \<times> activation" where
  "stopReads env i runLoop polls a =
     (case ac_call env (AbortPipe i (ds_midiInPipe (ac_session a))) (halt_reads a) of (abortResult, a) \<Rightarrow>
      let a = drain_reads env i polls a
      in if reads_in_flight a then (kIOReturnTimeout, a)
         else case releaseEvents runLoop (ac_session a) of (eventResult, s) \<Rightarrow>
           (if abortResult \<noteq> kIOReturnSuccess then abortResult else eventResult, a\<lparr>ac_session := s\<rparr>))"

text \<open>\<open>reads\<close> that have been started; a failed submission stops all of them.\<close>

fun startReads :: "usb_env \<Rightarrow> nat \<Rightarrow> nat list \<Rightarrow> activation \<Rightarrow> IOReturn \<times> activation" where
  "startReads env i [] a = (kIOReturnSuccess, a)"
| "startReads env i (k # ks) a =
     on_success (read_submit env i k (a\<lparr>ac_reads := (ac_reads a)[k := (ac_reads a ! k)\<lparr>rd_running := True\<rparr>]\<rparr>)) (startReads env i ks)
       (\<lambda>st a. (st, snd (ac_call env (AbortPipe i (ds_midiInPipe (ac_session a))) (halt_reads a))))"

definition wakeDeadline :: "int \<Rightarrow> int \<Rightarrow> int" where
  "wakeDeadline started jogCompleted =
     (let protocolDeadline = started + 796000000; postWriteDeadline = jogCompleted + 1000000
      in max protocolDeadline postWriteDeadline)"

subsection \<open>Activation\<close>

definition ac_release :: "nat option \<Rightarrow> IOReturn \<Rightarrow> activation \<Rightarrow> IOReturn \<times> activation" where
  "ac_release runLoop st a = (st, a\<lparr>ac_session := snd (releaseEvents runLoop (ac_session a))\<rparr>)"

definition ac_acquire :: "nat option \<Rightarrow> activation \<Rightarrow> IOReturn \<times> activation" where
  "ac_acquire runLoop a = (case acquireEvents runLoop (ac_session a) of (st, s) \<Rightarrow> (st, a\<lparr>ac_session := s\<rparr>))"

text \<open>Both pipes are cleared; a failure gives the events back.\<close>

definition clear_pipes :: "usb_env \<Rightarrow> nat \<Rightarrow> nat option \<Rightarrow> activation \<Rightarrow> IOReturn \<times> activation" where
  "clear_pipes env i runLoop a =
     on_success (ac_call env (ClearPipeStall i (ds_midiInPipe (ac_session a))) a)
       (\<lambda>a. on_success (ac_call env (ClearPipeStall i (ds_midiOutPipe (ac_session a))) a) (Pair kIOReturnSuccess) (ac_release runLoop))
       (ac_release runLoop)"

definition not_ready :: "NS6DeviceSession \<Rightarrow> bool" where
  "not_ready s \<longleftrightarrow> ds_interface s = None \<or> ds_midiInPipe s = 0 \<or> ds_midiOutPipe s = 0"

text \<open>The loop that waits for the reply: until it is seen or the deadline has passed.\<close>

fun await_reply :: "usb_env \<Rightarrow> nat \<Rightarrow> midi_completion list list \<Rightarrow> activation \<Rightarrow> activation" where
  "await_reply env i [] a = a"
| "await_reply env i (poll # polls) a = (if ac_replySeen a then a else await_reply env i polls (deliver_reads env i poll a))"

definition activation_new :: "NS6DeviceSession \<Rightarrow> activation" where
  "activation_new s = \<lparr>ac_session = s, ac_reads = reads_new, ac_matched = 0, ac_replySeen = False\<rparr>"

definition probe_identify :: "usb_env \<Rightarrow> nat \<Rightarrow> midi_completion list list \<Rightarrow> activation \<Rightarrow> IOReturn \<times> bool \<times> activation" where
  "probe_identify env i waits a =
     (case startReads env i [0..<4] a of (st, a) \<Rightarrow>
      if st = kIOReturnSuccess
      then (case sendMessage env kHostIdentify a of (st, a) \<Rightarrow>
              let a = (if st = kIOReturnSuccess then await_reply env i waits a else a) in (st, ac_replySeen a, a))
      else (st, False, snd (ac_call env (AbortPipe i (ds_midiInPipe (ac_session a))) (halt_reads a))))"

definition probeHostIdentify :: "usb_env \<Rightarrow> nat option \<Rightarrow> midi_completion list list \<Rightarrow> midi_completion list list \<Rightarrow> NS6DeviceSession \<Rightarrow>
    IOReturn \<times> bool \<times> activation" where
  "probeHostIdentify env runLoop waits polls session =
     (let a = activation_new session in
      case ds_interface session of None \<Rightarrow> (kIOReturnNotReady, False, a) | Some i \<Rightarrow>
      if not_ready session then (kIOReturnNotReady, False, a) else
      case on_success (ac_acquire runLoop a) (clear_pipes env i runLoop) Pair of (st, a) \<Rightarrow>
      if st \<noteq> kIOReturnSuccess then (st, False, a) else
      case probe_identify env i waits a of (result, seen, a) \<Rightarrow>
      case stopReads env i runLoop polls a of (stopResult, a) \<Rightarrow>
        (if result = kIOReturnSuccess then stopResult else result, seen, a))"

text \<open>
  What the surroundings do during an activation: whether each of the two threads could be created, the completions around
  the writes, those of the draining loops, and the callback that runs before the session is reopened.
\<close>

record activation_world =
  aw_spawned :: "bool \<times> bool"
  aw_sequence :: "midi_completion list \<times> midi_completion list \<times> midi_completion list"
  aw_wake :: "midi_completion list \<times> midi_completion list"
  aw_start_polls :: "midi_completion list list"
  aw_stop_polls :: "midi_completion list list"
  aw_restart_polls :: "midi_completion list list"
  aw_final_polls :: "midi_completion list list"
  aw_before :: "(NS6DeviceSession \<Rightarrow> IOReturn \<times> NS6DeviceSession) option"

text \<open>The first half, up to the point where the session is closed.\<close>

definition activate_start_failed :: "usb_env \<Rightarrow> nat \<Rightarrow> nat option \<Rightarrow> midi_completion list list \<Rightarrow> IOReturn \<Rightarrow> activation \<Rightarrow> IOReturn \<times> activation" where
  "activate_start_failed env i runLoop polls st a =
     (case ac_call env (AbortPipe i (ds_midiInPipe (ac_session a))) (halt_reads a) of (_, a) \<Rightarrow>
      let a = drain_reads env i polls a
      in if reads_in_flight a then (kIOReturnTimeout, a) else ac_release runLoop st a)"

definition activate_identify :: "usb_env \<Rightarrow> nat \<Rightarrow> nat option \<Rightarrow> activation_world \<Rightarrow> activation \<Rightarrow> IOReturn \<times> activation" where
  "activate_identify env i runLoop aw a =
     (if \<not> fst (aw_spawned aw) then (kIOReturnNoMemory, snd (stopReads env i runLoop (aw_stop_polls aw) a)) else
      case aw_sequence aw of (before, between, after) \<Rightarrow>
      case sendSequence env i before between after a of (result, a) \<Rightarrow>
      case stopReads env i runLoop (aw_stop_polls aw) a of (stopResult, a) \<Rightarrow>
        (if result \<noteq> kIOReturnSuccess then result else stopResult, a))"

definition activate_prepare :: "usb_env \<Rightarrow> nat \<Rightarrow> nat option \<Rightarrow> activation_world \<Rightarrow> activation \<Rightarrow> IOReturn \<times> activation" where
  "activate_prepare env i runLoop aw a =
     on_success (ac_acquire runLoop a) (\<lambda>a.
       on_success (clear_pipes env i runLoop a) (\<lambda>a.
         on_success (startReads env i [0..<4] a) (activate_identify env i runLoop aw)
           (activate_start_failed env i runLoop (aw_start_polls aw))) Pair) Pair"

definition activate_reopen :: "usb_env \<Rightarrow> activation_world \<Rightarrow> activation \<Rightarrow> IOReturn \<times> activation" where
  "activate_reopen env aw a =
     (let on = (\<lambda>f a. case f (ac_session a) of (st, s) \<Rightarrow> (st, a\<lparr>ac_session := s\<rparr>))
      in on_success (case aw_before aw of None \<Rightarrow> (kIOReturnSuccess, a) | Some f \<Rightarrow> on f a)
           (\<lambda>a. on_success (on (session_close env) a) (on (session_open env)) Pair) Pair)"

text \<open>The second half, on the reopened session.\<close>

definition activate_finish :: "usb_env \<Rightarrow> nat \<Rightarrow> nat option \<Rightarrow> activation_world \<Rightarrow> activation \<Rightarrow> IOReturn \<times> bool \<times> activation" where
  "activate_finish env i runLoop aw a =
     (if \<not> snd (aw_spawned aw) then (kIOReturnNoMemory, False, snd (stopReads env i runLoop (aw_final_polls aw) a)) else
      case aw_wake aw of (before, after) \<Rightarrow>
      case sendMessage env kWake (deliver_reads env i before a) of (wakeResult, a) \<Rightarrow>
      let a = deliver_reads env i after a; seen = ac_replySeen a; result = (if seen then kIOReturnSuccess else wakeResult)
      in case stopReads env i runLoop (aw_final_polls aw) a of (stopResult, a) \<Rightarrow>
        (if result = kIOReturnSuccess \<and> stopResult \<noteq> kIOReturnSuccess then stopResult else result, seen, a))"

definition activate_wake :: "usb_env \<Rightarrow> nat option \<Rightarrow> activation_world \<Rightarrow> activation \<Rightarrow> IOReturn \<times> bool \<times> activation" where
  "activate_wake env runLoop aw a =
     (let i = the (ds_interface (ac_session a)) in
      case on_success (ac_acquire runLoop a) (clear_pipes env i runLoop) Pair of (st, a) \<Rightarrow>
      if st \<noteq> kIOReturnSuccess then (st, False, a) else
      case startReads env i [0..<4] (a\<lparr>ac_reads := reads_new\<rparr>) of (st, a) \<Rightarrow>
      if st \<noteq> kIOReturnSuccess
      then (case ac_release runLoop st (drain_reads env i (aw_restart_polls aw) a) of (st, a) \<Rightarrow> (st, False, a))
      else activate_finish env i runLoop aw a)"

definition activate :: "usb_env \<Rightarrow> nat option \<Rightarrow> activation_world \<Rightarrow> NS6DeviceSession \<Rightarrow> IOReturn \<times> bool \<times> activation" where
  "activate env runLoop aw session =
     (let a = activation_new session in
      case ds_interface session of None \<Rightarrow> (kIOReturnNotReady, False, a) | Some i \<Rightarrow>
      if not_ready session then (kIOReturnNotReady, False, a) else
      case on_success (activate_prepare env i runLoop aw a) (activate_reopen env aw) Pair of (st, a) \<Rightarrow>
      if st \<noteq> kIOReturnSuccess then (st, False, a) else activate_wake env runLoop aw a)"

subsection \<open>What the device is sent\<close>

text \<open>The data and the status of the writes of a history, in order.\<close>

definition pipe_writes :: "usb_trace \<Rightarrow> (u8 list \<times> IOReturn) list" where
  "pipe_writes tr = concat (map (\<lambda>(c, st). case c of WritePipe _ _ data \<Rightarrow> [(data, st)] | _ \<Rightarrow> []) tr)"

abbreviation sent :: "NS6DeviceSession \<Rightarrow> (u8 list \<times> IOReturn) list" where
  "sent s \<equiv> pipe_writes (ds_trace s)"

definition packet_of :: "u8 list \<Rightarrow> u8 list" where
  "packet_of m = the (snd (buildPacket (Some m) (length m) (Some (replicate 42 0))))"

definition no_write :: "usb_call \<Rightarrow> bool" where
  "no_write c \<longleftrightarrow> (case c of WritePipe _ _ _ \<Rightarrow> False | _ \<Rightarrow> True)"

lemma pipe_writes_append [simp]: "pipe_writes (tr @ tr') = pipe_writes tr @ pipe_writes tr'" "pipe_writes [] = []"
  by (simp_all add: pipe_writes_def)

lemma sent_note [simp]: "no_write c \<Longrightarrow> sent (note_call c s) = sent s"
  by (simp add: note_call_def no_write_def pipe_writes_def split: usb_call.splits)

lemma sent_call [simp]: "no_write c \<Longrightarrow> sent (snd (call env c s)) = sent s"
  by (simp add: call_def Let_def no_write_def pipe_writes_def split: usb_call.splits)

lemma sent_call': "call env c s = (st, s') \<Longrightarrow> no_write c \<Longrightarrow> sent s' = sent s"
  using sent_call [of c env s] by simp

lemma no_write_simps [simp]:
  "no_write (MatchServices n)" "no_write IteratorRelease" "no_write (SleepMilliseconds t)" "no_write (QueryInterface h)" "no_write (CreateDevicePlugIn h)"
  "no_write (QueryDevice h)" "no_write (DeviceOpenSeize h)" "no_write (GetConfiguration h)" "no_write (SetConfiguration h b)" "no_write (DeviceClose h)"
  "no_write (DeviceRelease h)" "no_write (InterfaceOpenSeize h)" "no_write (InterfaceClose h)" "no_write (InterfaceRelease h)" "no_write (SetAlternateInterface h b)"
  "no_write (ControlRequest h b1 b2 w1 w2 d l)" "no_write (GetNumEndpoints h)" "no_write (GetPipeProperties h b)" "no_write (CreateAsyncEventSource h)"
  "no_write (SourceRelease h)" "no_write (RunLoopRetain h)" "no_write (RunLoopRelease h)" "no_write (RunLoopAddSource h g)" "no_write (RunLoopRemoveSource h g)"
  "no_write (AbortPipe h b)" "no_write (ClearPipeStall h b)" "no_write (PipeTransfer h b t)" "no_write (GetPipeStatus h b)"
  by (simp_all add: no_write_def)

text \<open>A step that sends nothing, composed by the success combinator.\<close>

lemma quiet_on_success:
  assumes "sent (snd r) = w" and "\<And>s. sent s = w \<Longrightarrow> sent (snd (ok s)) = w" and "\<And>st s. sent s = w \<Longrightarrow> sent (snd (failed st s)) = w"
  shows "sent (snd (on_success r ok failed)) = w"
  using assms by (auto simp: on_success_def split: prod.split)

lemma quiet_matching: "sent (snd (matchingInterface es n d s)) = sent s"
proof (induction es arbitrary: s)
  case (Cons e es)
  show ?case by (cases "ie_handle e") (simp_all add: Let_def Cons.IH)
qed simp

lemma quiet_find:
  assumes "find_interface env n d s = (st, found, s')"
  shows "sent s' = sent s"
proof -
  obtain st1 s1 where c: "call env (MatchServices ''IOUSBHostInterface'') s = (st1, s1)" by (cases "call env (MatchServices ''IOUSBHostInterface'') s")
  obtain f2 s2 where m: "matchingInterface (e_interfaces env (ds_trace s)) n d s1 = (f2, s2)"
    by (cases "matchingInterface (e_interfaces env (ds_trace s)) n d s1")
  have "sent s1 = sent s" using sent_call' [OF c] by simp
  moreover have "sent s2 = sent s1" using quiet_matching [of "e_interfaces env (ds_trace s)" n d s1] by (simp add: m)
  ultimately show ?thesis using assms by (auto simp: find_interface_def c m split: if_splits)
qed

lemma quiet_then_note: "sent (snd r) = w \<Longrightarrow> no_write c \<Longrightarrow> sent (snd (case r of (st, s) \<Rightarrow> (st, note_call c s))) = w"
  by (cases r) simp

lemma quiet_configure_found: "sent (snd (configure_found env d s)) = sent s"
  unfolding configure_found_def
  by (auto intro!: quiet_on_success quiet_then_note)

lemma quiet_configure: "sent (snd (configureDevice env s)) = sent s"
  unfolding configureDevice_def
  by (rule quiet_on_success) (simp_all add: Let_def quiet_configure_found split: option.split)

lemma quiet_close_mode: "sent (snd (close_mode env s)) = sent s"
  by (auto simp: close_mode_def call_def Let_def no_write_def pipe_writes_def split: option.split)

lemma quiet_close_run_loops: "sent (close_run_loops s) = sent s"
  by (simp add: close_run_loops_def Let_def split: option.split)

lemma quiet_close_auxiliary: "sent (snd (close_auxiliary env r s)) = sent s"
  by (simp add: close_auxiliary_def call_def Let_def pipe_writes_def note_call_def split: option.split)

lemma quiet_close_primary: "sent (snd (close_primary env r s)) = sent s"
  by (simp add: close_primary_def call_def Let_def pipe_writes_def note_call_def split: option.split)

lemma quiet_close [simp]: "sent (snd (session_close env s)) = sent s"
  by (simp add: session_close_def Let_def split_def quiet_close_mode quiet_close_run_loops quiet_close_auxiliary quiet_close_primary)

lemma quiet_close_with [simp]: "sent (snd (close_with env st s)) = sent s"
  by (simp add: close_with_def)

lemma quiet_firmware [simp]: "sent (read_firmware env i s) = sent s"
  by (simp add: read_firmware_def Let_def call_def pipe_writes_def)

lemma quiet_scan:
  assumes "\<And>p k s. sent (classify p k s) = sent s"
  shows "sent (snd (scan_pipes env i classify ks s)) = sent s"
  by (induction ks arbitrary: s) (auto intro!: quiet_on_success simp: assms)

lemma quiet_classify: "sent (classify_primary p k s) = sent s" "sent (classify_auxiliary p k s) = sent s"
  by (simp_all add: classify_primary_def classify_auxiliary_def)

lemma quiet_endpoints:
  assumes "\<And>p k s. sent (classify p k s) = sent s"
  shows "sent (snd (endpoint_pipes env i classify s)) = sent s"
  unfolding endpoint_pipes_def by (rule quiet_on_success) (simp_all add: quiet_scan [OF assms])

lemma quiet_create_source: "create_source env i s = (r, s') \<Longrightarrow> sent s' = sent s"
  by (auto simp: create_source_def call_def Let_def pipe_writes_def)

lemma quiet_finish_auxiliary: "sent (snd (finish_auxiliary env d a s)) = sent s"
  using quiet_create_source by (auto simp: finish_auxiliary_def split: prod.split)

lemma quiet_setup_auxiliary: "sent (snd (setup_auxiliary env d a s)) = sent s"
  unfolding setup_auxiliary_def
  by (rule quiet_on_success; (rule quiet_on_success)?) (simp_all add: quiet_finish_auxiliary quiet_endpoints quiet_classify)

lemma quiet_open_auxiliary: "sent (snd (open_auxiliary env d s)) = sent s"
proof -
  obtain st found s1 where f: "find_interface env 1 (Some d) s = (st, found, s1)" by (rule prod_cases3)
  then show ?thesis using quiet_find [OF f]
    by (auto simp: open_auxiliary_def quiet_setup_auxiliary split: option.split intro!: quiet_on_success)
qed

lemma quiet_finish_primary: "sent (snd (finish_primary env i d s)) = sent s"
  using quiet_create_source by (auto simp: finish_primary_def quiet_open_auxiliary split: prod.split)

lemma quiet_open_primary: "sent (snd (open_primary env i d s)) = sent s"
  unfolding open_primary_def
  by (rule quiet_on_success; (rule quiet_on_success)?) (simp_all add: quiet_finish_primary quiet_endpoints quiet_classify)

lemma quiet_retry: "retry_interface env n s = (st, found, s') \<Longrightarrow> sent s' = sent s"
proof (induction n arbitrary: s)
  case (Suc n)
  obtain st1 found1 s1 where f: "find_interface env 0 None (note_call (SleepMilliseconds 100) s) = (st1, found1, s1)" by (rule prod_cases3)
  have "sent s1 = sent s" using quiet_find [OF f] by simp
  then show ?case using Suc.prems Suc.IH [of "s1\<lparr>ds_interface := None\<rparr>"] by (auto simp: f split: if_splits)
qed simp

lemma quiet_open_interface:
  assumes "open_interface env s = (st, found, s')"
  shows "sent s' = sent s"
proof -
  obtain st1 found1 s1 where f: "find_interface env 0 None s = (st1, found1, s1)" by (rule prod_cases3)
  obtain st2 s2 where c: "configureDevice env (s1\<lparr>ds_interface := None\<rparr>) = (st2, s2)" by fastforce
  have "sent s2 = sent s1" using quiet_configure [of env "s1\<lparr>ds_interface := None\<rparr>"] by (simp add: c)
  then show ?thesis using assms quiet_find [OF f] quiet_retry [of env 20 s2 st found s'] by (auto simp: open_interface_def f c split: if_splits)
qed

lemma quiet_open [simp]: "sent (snd (session_open env s)) = sent s"
proof -
  obtain st found s1 where f: "open_interface env s = (st, found, s1)" by (rule prod_cases3)
  then show ?thesis using quiet_open_interface [OF f]
    by (auto simp: session_open_def quiet_open_primary split: option.split intro!: quiet_on_success)
qed

lemma quiet_events [simp]: "sent (snd (acquireEvents l s)) = sent s" "sent (snd (releaseEvents l s)) = sent s"
  by (simp_all add: acquireEvents_def releaseEvents_def Let_def split: option.split)

subsection \<open>What an activation sends\<close>

abbreviation told :: "activation \<Rightarrow> (u8 list \<times> IOReturn) list" where
  "told a \<equiv> sent (ac_session a)"

lemma told_ac_call [simp]: "no_write c \<Longrightarrow> told (snd (ac_call env c a)) = told a"
  using sent_call [of c env "ac_session a"] by (cases "call env c (ac_session a)") (simp add: ac_call_def)

lemma told_ac_call': "ac_call env c a = (st, a') \<Longrightarrow> no_write c \<Longrightarrow> told a' = told a"
  using told_ac_call [of c env a] by simp

lemma told_read_submit [simp]: "told (snd (read_submit env i k a)) = told a"
  using told_ac_call' [of env "PipeTransfer i (ds_midiInPipe (ac_session a)) k" a] by (auto simp: read_submit_def Let_def split: prod.split)

lemma told_read_completed [simp]: "told (read_completed env i c a) = told a"
  by (simp add: read_completed_def Let_def split: prod.split)

lemma told_deliver [simp]: "told (deliver_reads env i cs a) = told a"
  unfolding deliver_reads_def by (induction cs arbitrary: a) simp_all

lemma told_drain [simp]: "told (drain_reads env i polls a) = told a"
  by (induction polls arbitrary: a) simp_all

lemma told_halt [simp]: "told (halt_reads a) = told a"
  by (simp add: halt_reads_def)

lemma told_acquire [simp]: "told (snd (ac_acquire l a)) = told a"
  using quiet_events(1) [of l "ac_session a"] by (cases "acquireEvents l (ac_session a)") (simp add: ac_acquire_def)

lemma told_release [simp]: "told (snd (ac_release l st a)) = told a"
  by (simp add: ac_release_def)

lemma stopReads_result:
  assumes "stopReads env i l polls a = (st, a')"
  shows "told a' = told a" and "st = kIOReturnSuccess \<Longrightarrow> \<not> reads_in_flight a'"
proof -
  obtain st1 a1 where c: "ac_call env (AbortPipe i (ds_midiInPipe (ac_session a))) (halt_reads a) = (st1, a1)" by fastforce
  have m: "ds_midiInPipe (ac_session (halt_reads a)) = ds_midiInPipe (ac_session a)" by (simp add: halt_reads_def)
  let ?a2 = "drain_reads env i polls a1"
  obtain st2 s2 where r: "releaseEvents l (ac_session ?a2) = (st2, s2)" by fastforce
  have "sent s2 = told ?a2" using quiet_events(2) [of l "ac_session ?a2"] by (simp add: r)
  then show "told a' = told a" and "st = kIOReturnSuccess \<Longrightarrow> \<not> reads_in_flight a'"
    using assms told_ac_call' [OF c] by (auto simp: stopReads_def c r Let_def reads_in_flight_def split: if_splits)
qed

lemma told_on_success:
  assumes "told (snd r) = w" and "\<And>a. told a = w \<Longrightarrow> told (snd (ok a)) = w" and "\<And>st a. told a = w \<Longrightarrow> told (snd (failed st a)) = w"
  shows "told (snd (on_success r ok failed)) = w"
  using assms by (auto simp: on_success_def split: prod.split)

lemma told_clear_pipes [simp]: "told (snd (clear_pipes env i l a)) = told a"
  unfolding clear_pipes_def by (rule told_on_success; (rule told_on_success)?) simp_all

lemma told_startReads [simp]: "told (snd (startReads env i ks a)) = told a"
  by (induction ks arbitrary: a) (auto intro!: told_on_success)

lemma sendMessage_result:
  assumes "sendMessage env m a = (st, a')"
  obtains "told a' = told a" and "st \<noteq> kIOReturnSuccess" | "told a' = told a @ [(packet_of m, st)]"
proof (cases "ds_interface (ac_session a) = None \<or> ds_midiOutPipe (ac_session a) = 0 \<or>
    \<not> fst (buildPacket (Some m) (length m) (Some (replicate 42 0)))")
  case True
  then show ?thesis using assms that(1) by (auto simp: sendMessage_def Let_def split: option.splits prod.splits if_splits)
next
  case False
  then obtain i where i: "ds_interface (ac_session a) = Some i" by auto
  let ?c = "WritePipe i (ds_midiOutPipe (ac_session a)) (packet_of m)"
  obtain st1 a1 where c: "ac_call env ?c a = (st1, a1)" by fastforce
  have "told a1 = told a @ [(packet_of m, st1)]"
    using c by (auto simp: ac_call_def call_def Let_def pipe_writes_def)
  moreover have "st = st1" "told a' = told a1" using assms False
    by (auto simp: sendMessage_def i c [unfolded packet_of_def] Let_def split_def)
  ultimately show ?thesis using that(2) by simp
qed

lemma sendSequence_success:
  assumes "sendSequence env i before between after a = (kIOReturnSuccess, a')"
  shows "told a' = told a @ [(packet_of kHostIdentify, kIOReturnSuccess), (packet_of kJogEnable, kIOReturnSuccess)]"
proof -
  obtain st1 a1 where 1: "sendMessage env kHostIdentify (deliver_reads env i before a) = (st1, a1)" by fastforce
  obtain st2 a2 where 2: "sendMessage env kJogEnable (deliver_reads env i between a1) = (st2, a2)" by fastforce
  from assms have ok: "st1 = kIOReturnSuccess" "st2 = kIOReturnSuccess" "a' = deliver_reads env i after a2"
    by (auto simp: sendSequence_def 1 2 split: if_splits)
  have "told a1 = told a @ [(packet_of kHostIdentify, kIOReturnSuccess)]" using 1 by (rule sendMessage_result) (simp_all add: ok)
  moreover have "told a2 = told a1 @ [(packet_of kJogEnable, kIOReturnSuccess)]" using 2 by (rule sendMessage_result) (simp_all add: ok)
  ultimately show ?thesis by (simp add: ok)
qed

lemma activate_identify_success:
  assumes "activate_identify env i l aw a = (kIOReturnSuccess, a')"
  shows "told a' = told a @ [(packet_of kHostIdentify, kIOReturnSuccess), (packet_of kJogEnable, kIOReturnSuccess)]"
proof -
  obtain before between after where aw: "aw_sequence aw = (before, between, after)" by (rule prod_cases3)
  obtain st1 a1 where 1: "sendSequence env i before between after a = (st1, a1)" by fastforce
  obtain st2 a2 where 2: "stopReads env i l (aw_stop_polls aw) a1 = (st2, a2)" by fastforce
  have "st1 = kIOReturnSuccess" "a' = a2" using assms by (auto simp: activate_identify_def aw 1 2 split: if_splits)
  then show ?thesis using sendSequence_success [of env i before between after a a1] stopReads_result(1) [OF 2] 1 by simp
qed

lemma on_success_success:
  assumes "on_success r ok failed = (kIOReturnSuccess, s)" and "\<And>st s'. st \<noteq> kIOReturnSuccess \<Longrightarrow> fst (failed st s') \<noteq> kIOReturnSuccess"
  obtains s' where "r = (kIOReturnSuccess, s')" and "ok s' = (kIOReturnSuccess, s)"
proof (cases r)
  case (Pair st s')
  show thesis
  proof (cases "st = kIOReturnSuccess")
    case True
    then show thesis using assms(1) Pair that by (simp add: on_success_def)
  next
    case False
    then show thesis using assms(1) assms(2) [OF False, of s'] Pair by (simp add: on_success_def)
  qed
qed

lemma activate_start_failed_result: "st \<noteq> kIOReturnSuccess \<Longrightarrow> fst (activate_start_failed env i l polls st a) \<noteq> kIOReturnSuccess"
  by (simp add: activate_start_failed_def ac_release_def Let_def split: prod.split)

lemma activate_prepare_success:
  assumes "activate_prepare env i l aw a = (kIOReturnSuccess, a')"
  shows "told a' = told a @ [(packet_of kHostIdentify, kIOReturnSuccess), (packet_of kJogEnable, kIOReturnSuccess)]"
proof -
  from assms obtain a1 where 1: "ac_acquire l a = (kIOReturnSuccess, a1)" and r1: "on_success (clear_pipes env i l a1) (\<lambda>a.
      on_success (startReads env i [0..<4] a) (activate_identify env i l aw) (activate_start_failed env i l (aw_start_polls aw))) Pair
      = (kIOReturnSuccess, a')"
    unfolding activate_prepare_def by (rule on_success_success) simp
  from r1 obtain a2 where 2: "clear_pipes env i l a1 = (kIOReturnSuccess, a2)" and r2: "on_success (startReads env i [0..<4] a2)
      (activate_identify env i l aw) (activate_start_failed env i l (aw_start_polls aw)) = (kIOReturnSuccess, a')"
    by (rule on_success_success) simp
  from r2 obtain a3 where 3: "startReads env i [0..<4] a2 = (kIOReturnSuccess, a3)" and r3: "activate_identify env i l aw a3 = (kIOReturnSuccess, a')"
    by (rule on_success_success) (simp add: activate_start_failed_result)
  have "told a3 = told a" using told_acquire [of l a] told_clear_pipes [of env i l a1] told_startReads [of env i "[0..<4]" a2]
    by (simp add: 1 2 3)
  then show ?thesis using activate_identify_success [OF r3] by simp
qed

lemma told_reopen:
  assumes "\<And>f s. aw_before aw = Some f \<Longrightarrow> sent (snd (f s)) = sent s"
  shows "told (snd (activate_reopen env aw a)) = told a"
proof -
  have on: "told (snd (case f (ac_session a) of (st, s) \<Rightarrow> (st, a\<lparr>ac_session := s\<rparr>))) = told a"
    if "\<And>s. sent (snd (f s)) = sent s" for f :: "NS6DeviceSession \<Rightarrow> IOReturn \<times> NS6DeviceSession" and a
    using that [of "ac_session a"] by (cases "f (ac_session a)") simp
  show ?thesis unfolding activate_reopen_def Let_def
    by (rule told_on_success; (rule told_on_success)?) (auto simp: on assms split: option.split)
qed

lemma activate_finish_success:
  assumes "activate_finish env i l aw a = (kIOReturnSuccess, seen, a')"
  obtains st where "told a' = told a @ [(packet_of kWake, st)]" and "seen \<or> st = kIOReturnSuccess" and "\<not> reads_in_flight a'"
  | "told a' = told a" and seen and "\<not> reads_in_flight a'"
proof -
  obtain before after where aw: "aw_wake aw = (before, after)" by fastforce
  obtain st1 a1 where 1: "sendMessage env kWake (deliver_reads env i before a) = (st1, a1)" by fastforce
  obtain st2 a2 where 2: "stopReads env i l (aw_final_polls aw) (deliver_reads env i after a1) = (st2, a2)" by fastforce
  have r: "a' = a2" "seen \<or> st1 = kIOReturnSuccess" "st2 = kIOReturnSuccess"
    using assms by (auto simp: activate_finish_def aw 1 2 Let_def split: if_splits)
  then have q: "\<not> reads_in_flight a'" "told a' = told a1" using stopReads_result [OF 2] by simp_all
  from 1 show thesis by (rule sendMessage_result) (use that q r in auto)
qed

lemma activate_wake_success:
  assumes "activate_wake env l aw a = (kIOReturnSuccess, seen, a')"
  obtains st where "told a' = told a @ [(packet_of kWake, st)]" and "seen \<or> st = kIOReturnSuccess" and "\<not> reads_in_flight a'"
  | "told a' = told a" and seen and "\<not> reads_in_flight a'"
proof -
  let ?i = "the (ds_interface (ac_session a))"
  obtain st1 a1 where 1: "on_success (ac_acquire l a) (clear_pipes env ?i l) Pair = (st1, a1)" by fastforce
  obtain st2 a2 where 2: "startReads env ?i [0..<4] (a1\<lparr>ac_reads := reads_new\<rparr>) = (st2, a2)" by fastforce
  have "told a1 = told a" using told_on_success [of "ac_acquire l a" "told a" "clear_pipes env ?i l" Pair] by (simp add: 1)
  then have t: "told a2 = told a" using told_startReads [of env ?i "[0..<4]" "a1\<lparr>ac_reads := reads_new\<rparr>"] by (simp add: 2)
  have "activate_finish env ?i l aw a2 = (kIOReturnSuccess, seen, a')"
    using assms by (auto simp: activate_wake_def Let_def 1 2 ac_release_def split: if_splits)
  then show thesis by (rule activate_finish_success) (use that t in auto)
qed

text \<open>
  (C13) An activation that reports success has written the host identification and then the jog enable message, both accepted
  by the controller, before anything else; after them at most the wake message, which was accepted unless the controller's reply had
  been seen; and none of the reads, whose buffers live in the activation's frame, is in flight when it returns.
\<close>

theorem activation_sends_in_order:
  assumes "activate env runLoop aw session = (kIOReturnSuccess, seen, a)"
    and "\<And>f s. aw_before aw = Some f \<Longrightarrow> pipe_writes (ds_trace (snd (f s))) = pipe_writes (ds_trace s)"
  shows "\<exists>wake. pipe_writes (ds_trace (ac_session a)) = pipe_writes (ds_trace session) @
      [(packet_of kHostIdentify, kIOReturnSuccess), (packet_of kJogEnable, kIOReturnSuccess)] @ wake \<and>
      (wake = [(packet_of kWake, kIOReturnSuccess)] \<or> seen \<and> (wake = [] \<or> (\<exists>st. wake = [(packet_of kWake, st)]))) \<and>
      \<not> reads_in_flight a"
proof -
  from assms(1) obtain i where i: "ds_interface session = Some i" by (cases "ds_interface session") (auto simp: activate_def Let_def)
  obtain st1 a1 where 1: "on_success (activate_prepare env i runLoop aw (activation_new session)) (activate_reopen env aw) Pair = (st1, a1)" by fastforce
  from assms(1) have st1: "st1 = kIOReturnSuccess" and w: "activate_wake env runLoop aw a1 = (kIOReturnSuccess, seen, a)"
    by (auto simp: activate_def i Let_def 1 split: if_splits)
  from 1 [unfolded st1] obtain a0 where 0: "activate_prepare env i runLoop aw (activation_new session) = (kIOReturnSuccess, a0)"
      and r: "activate_reopen env aw a0 = (kIOReturnSuccess, a1)" by (rule on_success_success) simp
  have "told (snd (activate_reopen env aw a0)) = told a0" by (rule told_reopen) (rule assms(2))
  then have "told a1 = told a0" by (simp add: r)
  moreover have "told (activation_new session) = sent session" by (simp add: activation_new_def)
  ultimately have t: "told a1 = sent session @ [(packet_of kHostIdentify, kIOReturnSuccess), (packet_of kJogEnable, kIOReturnSuccess)]"
    using activate_prepare_success [OF 0] by simp
  from w show ?thesis by (rule activate_wake_success) (auto simp: t)
qed

text \<open>Witness for C0: an activation of a controller whose reads end with an error at the end of both halves.\<close>

definition activation_env :: usb_env where
  "activation_env = usb_example\<lparr>e_endpoints := (\<lambda>tr i. if i = 10 then 3 else 2),
     e_pipe := (\<lambda>tr i p. if i = 10 \<and> p = 3
        then \<lparr>pp_direction = 0, pp_number = 4, pp_transferType = 2, pp_maxPacketSize = 512, pp_interval = 0\<rparr>
        else e_pipe usb_example tr i p)\<rparr>"

definition activation_session :: NS6DeviceSession where
  "activation_session = (session_new [])\<lparr>ds_interface := Some 10, ds_asyncEventSource := Some 3, ds_audioOutPipe := 1, ds_midiInPipe := 2,
     ds_midiOutPipe := 3, ds_opened := True\<rparr>"

definition activation_world_example :: activation_world where
  "activation_world_example =
     (let aborted = [map (\<lambda>k. \<lparr>mc_slot = k, mc_status = kIOReturnNoDevice, mc_data = [], mc_bytes = 0\<rparr>) [0..<4]]
      in \<lparr>aw_spawned = (True, True), aw_sequence = ([], [], []), aw_wake = ([], []), aw_start_polls = [], aw_stop_polls = aborted,
          aw_restart_polls = [], aw_final_polls = aborted, aw_before = None\<rparr>)"

theorem activation_sends_in_order_witness:
  "\<exists>seen a. activate activation_env (Some 1) activation_world_example activation_session = (kIOReturnSuccess, seen, a) \<and> \<not> reads_in_flight a"
proof -
  have "fst (activate activation_env (Some 1) activation_world_example activation_session) = kIOReturnSuccess" by code_simp
  then obtain seen a where r: "activate activation_env (Some 1) activation_world_example activation_session = (kIOReturnSuccess, seen, a)"
    by (cases "activate activation_env (Some 1) activation_world_example activation_session") auto
  then show ?thesis using activation_sends_in_order [OF r] by (auto simp: activation_world_example_def Let_def)
qed

end
