(* ===== verification/NS6_Transport.thy ===== *)
theory NS6_Transport
  imports NS6_PCM
begin

unbundle bit_operations_syntax

text \<open>
  The sample-time ring between the audio callbacks and the USB worker: 24-bit conversion, appending, mixing by sample time,
  and dequeuing with linear resampling. The sample memory is modelled by slot: every access of the code is to one whole
  12-byte frame at a multiple of 12. Each function runs alone (the mixing functions hold a lock, and the ring has one
  appending and one consuming thread), so an atomic access is an access to a field.
\<close>

subsection \<open>24-bit samples\<close>

definition pack24 :: "int \<Rightarrow> u8 list" where
  "pack24 sample = [word_of_int sample, word_of_int (drop_bit 8 sample), word_of_int (drop_bit 16 sample)]"

definition unpack24 :: "u8 list \<Rightarrow> int" where
  "unpack24 s = sint ((ucast (s ! 0) :: u32) OR push_bit 8 (ucast (s ! 1)) OR push_bit 16 (scast (s ! 2)))"

definition saturate24 :: "int \<Rightarrow> int" where
  "saturate24 value = (if 8388607 < value then 8388607 else if value < - 8388608 then - 8388608 else value)"

record AudioStreamBasicDescription =
  mFormatFlags :: u32
  mBytesPerFrame :: u32
  mChannelsPerFrame :: u32
  mBitsPerChannel :: u32

definition is_float_format :: "AudioStreamBasicDescription \<Rightarrow> bool" where
  "is_float_format format \<longleftrightarrow> mFormatFlags format AND 1 \<noteq> 0"

definition valid_format :: "AudioStreamBasicDescription option \<Rightarrow> bool" where
  "valid_format format =
     (case format of None \<Rightarrow> False | Some f \<Rightarrow>
      if mChannelsPerFrame f \<noteq> 4 \<or> mBytesPerFrame f = 0 \<or> mBytesPerFrame f mod 4 \<noteq> 0 then False
      else let bytes = mBytesPerFrame f div 4 in
        if is_float_format f then mBitsPerChannel f = 32 \<and> bytes = 4
        else mBitsPerChannel f = 24 \<and> bytes = 3 \<or> mBitsPerChannel f = 32 \<and> bytes = 4)"

text \<open>The \<open>n\<close>-byte little-endian number in memory and the \<^verbatim>\<open>float\<close> with given bits.\<close>

definition word_at :: "u8 list \<Rightarrow> u32" where
  "word_at s = ucast (s ! 0) OR push_bit 8 (ucast (s ! 1)) OR push_bit 16 (ucast (s ! 2)) OR push_bit 24 (ucast (s ! 3))"

definition float_of_bits :: "u32 \<Rightarrow> flt" where
  "float_of_bits w =
     (let sign = (if bit w 31 then - 1 else 1); e = int (unat (take_bit 8 (drop_bit 23 w))); m = int (unat (take_bit 23 w))
      in if e = 255 then (if m \<noteq> 0 then NaN else if bit w 31 then MInf else PInf)
         else if e = 0 then Fin (sign * of_int m * pow2 (- 149))
         else Fin (sign * of_int (m + 2 ^ 23) * pow2 (e - 150)))"

definition float_sample :: "flt \<Rightarrow> int" where
  "float_sample v =
     (let value = (if isfinite v then v else slit 0);
          value = (if fless (slit 1) value then slit 1 else value);
          value = (if fless value (slit (- 1)) then slit (- 1) else value)
      in case fmul f32 value (slit 8388607) of Fin x \<Rightarrow> rint_even x | _ \<Rightarrow> 0)"

definition convert_sample :: "u8 list \<Rightarrow> bool \<Rightarrow> u32 \<Rightarrow> int" where
  "convert_sample s is_float bits =
     (if is_float then float_sample (float_of_bits (word_at s))
      else if bits = 24 then unpack24 s
      else drop_bit 8 (sint (word_at s)))"

definition convert_frame :: "u8 list \<Rightarrow> nat \<Rightarrow> bool \<Rightarrow> u32 \<Rightarrow> u8 list" where
  "convert_frame source sample_bytes is_float bits =
     concat (map (\<lambda>channel. pack24 (convert_sample (drop (channel * sample_bytes) source) is_float bits)) [0..<4])"

text \<open>The frame at index \<open>frame\<close> of a block in a format.\<close>

definition input_frame :: "AudioStreamBasicDescription \<Rightarrow> u8 list \<Rightarrow> nat \<Rightarrow> u8 list" where
  "input_frame f input frame =
     convert_frame (drop (frame * unat (mBytesPerFrame f)) input) (unat (mBytesPerFrame f div 4)) (is_float_format f) (mBitsPerChannel f)"

subsection \<open>The ring\<close>

abbreviation (input) NS6_TRANSPORT_RING_FRAMES :: nat where "NS6_TRANSPORT_RING_FRAMES \<equiv> 16384"

record NS6TransportShared =
  tx_samples :: "nat \<Rightarrow> u8 list"
  tx_tags :: "nat \<Rightarrow> u64"
  tx_read_cursor :: u64
  tx_high_water :: u64
  tx_initialized :: bool

record NS6TransportReader =
  tr_read_fraction :: flt

datatype NS6TransportStopReason = STOP_NONE | STOP_EMPTY | STOP_MISSING_TAG | STOP_RING_LIMIT | STOP_INVALID

definition slot_of :: "u64 \<Rightarrow> nat" where
  "slot_of position = unat (position mod 16384)"

definition ns6_transport_init_shared :: "NS6TransportShared \<Rightarrow> NS6TransportShared" where
  "ns6_transport_init_shared sh = sh\<lparr>tx_tags := (\<lambda>_. UINT64_MAX), tx_read_cursor := 0, tx_high_water := 0, tx_initialized := False\<rparr>"

definition ns6_transport_reset_shared :: "NS6TransportShared \<Rightarrow> NS6TransportShared" where
  "ns6_transport_reset_shared sh = sh\<lparr>tx_tags := (\<lambda>_. UINT64_MAX), tx_read_cursor := 0, tx_high_water := 0, tx_initialized := False\<rparr>"

definition ns6_transport_discard_shared :: "NS6TransportShared \<Rightarrow> NS6TransportReader option \<Rightarrow> NS6TransportShared \<times> NS6TransportReader option" where
  "ns6_transport_discard_shared sh reader =
     (sh\<lparr>tx_initialized := False, tx_tags := (\<lambda>_. UINT64_MAX), tx_read_cursor := 0, tx_high_water := 0\<rparr>,
      map_option (\<lambda>r. r\<lparr>tr_read_fraction := dlit 0\<rparr>) reader)"

definition store_frame :: "u64 \<Rightarrow> u8 list \<Rightarrow> NS6TransportShared \<Rightarrow> NS6TransportShared" where
  "store_frame position data sh = sh\<lparr>tx_samples := (tx_samples sh)(slot_of position := data), tx_tags := (tx_tags sh)(slot_of position := position)\<rparr>"

fun append_frames :: "AudioStreamBasicDescription \<Rightarrow> u8 list \<Rightarrow> u64 \<Rightarrow> nat list \<Rightarrow> NS6TransportShared \<Rightarrow> NS6TransportShared" where
  "append_frames f source sample_time [] sh = sh"
| "append_frames f source sample_time (frame # frames) sh =
     append_frames f source sample_time frames (store_frame (sample_time + of_nat frame) (input_frame f source frame) sh)"

text \<open>The loop at the end raises the high-water mark to \<open>position\<close> unless it is already there.\<close>

definition raise_high_water :: "u64 \<Rightarrow> NS6TransportShared \<Rightarrow> NS6TransportShared" where
  "raise_high_water position sh = (if tx_high_water sh < position then sh\<lparr>tx_high_water := position\<rparr> else sh)"

text \<open>The ring is positioned at \<open>sample_time\<close> by the first block.\<close>

definition start_at :: "u64 \<Rightarrow> NS6TransportShared \<Rightarrow> NS6TransportShared" where
  "start_at sample_time sh =
     (if tx_initialized sh then sh
      else sh\<lparr>tx_read_cursor := sample_time, tx_high_water := sample_time, tx_initialized := True\<rparr>)"

definition append_at :: "AudioStreamBasicDescription \<Rightarrow> u8 list \<Rightarrow> u64 \<Rightarrow> u32 \<Rightarrow> NS6TransportShared \<Rightarrow> bool \<times> NS6TransportShared" where
  "append_at f input sample_time count sh =
     (let cursor = tx_read_cursor sh;
          (sample_time, sh) = (if sample_time < cursor then (cursor, sh\<lparr>tx_high_water := cursor\<rparr>) else (sample_time, sh));
          position = sample_time + ucast count
      in if position \<le> cursor then (True, sh) else
      let skip = (if sample_time < cursor then ucast (cursor - sample_time) else 0 :: u32);
          sample_time = sample_time + ucast skip; count = count - skip
      in if count = 0 \<or> 16384 < sample_time - cursor \<or> 16384 - (sample_time - cursor) < ucast count then (False, sh)
         else (True, raise_high_water position
           (append_frames f (drop (unat skip * unat (mBytesPerFrame f)) input) sample_time [0..<unat count] sh)))"

definition ns6_transport_enqueue_at_shared :: "NS6TransportShared option \<Rightarrow> u8 list option \<Rightarrow> u64 \<Rightarrow> u32 \<Rightarrow> AudioStreamBasicDescription option \<Rightarrow>
    bool \<times> NS6TransportShared option" where
  "ns6_transport_enqueue_at_shared shared input sample_time count format =
     (case shared of None \<Rightarrow> (False, None) | Some sh \<Rightarrow>
      if input = None \<and> count \<noteq> 0 \<or> \<not> valid_format format then (False, shared)
      else if count = 0 then (True, shared)
      else let sample_time = tx_high_water sh in
        if UINT64_MAX - ucast count < sample_time then (False, shared)
        else map_prod id Some (append_at (the format) (the input) sample_time count (start_at sample_time sh)))"

definition ns6_transport_enqueue_shared :: "NS6TransportShared option \<Rightarrow> u8 list option \<Rightarrow> u32 \<Rightarrow> AudioStreamBasicDescription option \<Rightarrow>
    bool \<times> NS6TransportShared option" where
  "ns6_transport_enqueue_shared shared frames count format =
     (case shared of None \<Rightarrow> (False, None) | Some sh \<Rightarrow>
      let position = (if tx_initialized sh then tx_high_water sh else 0)
      in ns6_transport_enqueue_at_shared shared frames position count format)"

fun available_loop :: "NS6TransportShared \<Rightarrow> nat \<Rightarrow> nat \<Rightarrow> nat" where
  "available_loop sh 0 count = count"
| "available_loop sh (Suc remaining) count =
     (let position = tx_read_cursor sh + of_nat count
      in if tx_tags sh (slot_of position) \<noteq> position then count else available_loop sh remaining (Suc count))"

definition ns6_transport_available_shared :: "NS6TransportShared option \<Rightarrow> u32" where
  "ns6_transport_available_shared shared =
     (case shared of None \<Rightarrow> 0 | Some sh \<Rightarrow>
      if \<not> tx_initialized sh \<or> tx_high_water sh \<le> tx_read_cursor sh then 0
      else let limit = min (tx_high_water sh - tx_read_cursor sh) 16384
        in of_nat (available_loop sh (unat limit) 0))"

subsection \<open>Mixing\<close>

definition mix_frame :: "u8 list \<Rightarrow> u8 list \<Rightarrow> u8 list" where
  "mix_frame destination converted =
     concat (map (\<lambda>channel. pack24 (saturate24 (unpack24 (drop (channel * 3) destination) + unpack24 (drop (channel * 3) converted)))) [0..<4])"

fun mix_frames :: "AudioStreamBasicDescription \<Rightarrow> u8 list \<Rightarrow> u64 \<Rightarrow> nat list \<Rightarrow> NS6TransportShared \<Rightarrow> NS6TransportShared" where
  "mix_frames f source sample_time [] sh = sh"
| "mix_frames f source sample_time (frame # frames) sh =
     (let position = sample_time + of_nat frame; converted = input_frame f source frame
      in mix_frames f source sample_time frames
           (if tx_tags sh (slot_of position) = position
            then sh\<lparr>tx_samples := (tx_samples sh)(slot_of position := mix_frame (tx_samples sh (slot_of position)) converted)\<rparr>
            else store_frame position converted sh))"

text \<open>A drained ring whose cursor is a whole ring away from the block is moved to the block.\<close>

definition realign :: "u64 \<Rightarrow> NS6TransportShared \<Rightarrow> NS6TransportShared" where
  "realign sample_time sh =
     (let cursor = tx_read_cursor sh
      in if 16384 \<le> (if cursor < sample_time then sample_time - cursor else cursor - sample_time) \<and>
            ns6_transport_available_shared (Some sh) = 0
         then sh\<lparr>tx_read_cursor := sample_time, tx_high_water := sample_time\<rparr> else sh)"

definition mix_aligned :: "AudioStreamBasicDescription \<Rightarrow> u8 list \<Rightarrow> u64 \<Rightarrow> u32 \<Rightarrow> NS6TransportShared \<Rightarrow> bool \<times> NS6TransportShared" where
  "mix_aligned f source sample_time count sh =
     (let cursor = tx_read_cursor sh; late = (if sample_time < cursor then cursor - sample_time else 0)
      in if sample_time < cursor \<and> ucast count \<le> late then (True, sh) else
      let source = drop (unat late * unat (mBytesPerFrame f)) source; count = count - ucast late; sample_time = sample_time + late
      in if 16384 \<le> sample_time - cursor \<or> 16384 - (sample_time - cursor) < ucast count then (False, sh)
         else (True, raise_high_water (sample_time + ucast count) (mix_frames f source sample_time [0..<unat count] sh)))"

definition ns6_transport_mix_at_shared :: "NS6TransportShared option \<Rightarrow> u8 list option \<Rightarrow> u64 \<Rightarrow> u32 \<Rightarrow> AudioStreamBasicDescription option \<Rightarrow>
    bool \<times> NS6TransportShared option" where
  "ns6_transport_mix_at_shared shared input sample_time count format =
     (case shared of None \<Rightarrow> (False, None) | Some sh \<Rightarrow>
      if input = None \<and> count \<noteq> 0 \<or> \<not> valid_format format then (False, shared)
      else if count = 0 then (True, shared)
      else if UINT64_MAX - ucast count < sample_time then (False, shared)
      else map_prod id Some (mix_aligned (the format) (the input) sample_time count (realign sample_time (start_at sample_time sh))))"

subsection \<open>Dequeuing\<close>

definition interpolate_sample :: "int \<Rightarrow> int \<Rightarrow> flt \<Rightarrow> int" where
  "interpolate_sample a b fraction =
     (let value = fadd f64 (double_of_int a) (fmul f64 (fsub f64 (double_of_int b) (double_of_int a)) fraction);
          value = (if fless (dlit 8388607) value then dlit 8388607 else value);
          value = (if fless value (dlit (- 8388608)) then dlit (- 8388608) else value)
      in case value of Fin x \<Rightarrow> rint_even x | _ \<Rightarrow> 0)"

definition interpolate_frame :: "u8 list \<Rightarrow> u8 list \<Rightarrow> flt \<Rightarrow> u8 list" where
  "interpolate_frame first second fraction =
     concat (map (\<lambda>channel. pack24 (interpolate_sample (unpack24 (drop (channel * 3) first)) (unpack24 (drop (channel * 3) second)) fraction)) [0..<4])"

definition sane_ratio :: "flt \<Rightarrow> flt" where
  "sane_ratio r = (if \<not> isfinite r \<or> fless r (dlit (1/2)) \<or> fless (dlit (3/2)) r then dlit 1 else r)"

text \<open>One turn of the loop: the frame for a phase, or why the loop stops.\<close>

definition dequeue_frame :: "NS6TransportShared \<Rightarrow> flt \<Rightarrow> NS6TransportStopReason + u8 list" where
  "dequeue_frame sh phase =
     (let whole = of_nat (trunc_sat 64 phase) :: u64; fraction = fsub f64 phase (double_of_nat (unat whole));
          cursor = tx_read_cursor sh; first_position = cursor + whole;
          second_position = first_position + (if fless (dlit 0) fraction then 1 else 0)
      in if tx_high_water sh \<le> second_position then Inl STOP_EMPTY
         else if 16384 \<le> second_position - cursor then Inl STOP_RING_LIMIT
         else if tx_tags sh (slot_of first_position) \<noteq> first_position \<or> tx_tags sh (slot_of second_position) \<noteq> second_position
         then Inl STOP_MISSING_TAG
         else Inr (interpolate_frame (tx_samples sh (slot_of first_position)) (tx_samples sh (slot_of second_position)) fraction))"

fun dequeue_loop :: "NS6TransportShared \<Rightarrow> flt \<Rightarrow> nat \<Rightarrow> flt \<Rightarrow> u8 list list \<times> flt \<times> NS6TransportStopReason" where
  "dequeue_loop sh ratio 0 phase = ([], phase, STOP_NONE)"
| "dequeue_loop sh ratio (Suc n) phase =
     (case dequeue_frame sh phase of Inl reason \<Rightarrow> ([], phase, reason)
      | Inr frame \<Rightarrow> (case dequeue_loop sh ratio n (fadd f64 phase ratio) of (frames, phase, reason) \<Rightarrow> (frame # frames, phase, reason)))"

definition consume :: "flt \<Rightarrow> NS6TransportShared \<Rightarrow> NS6TransportReader \<Rightarrow> u64 \<times> NS6TransportShared \<times> NS6TransportReader" where
  "consume phase sh reader =
     (let consumed = of_nat (trunc_sat 64 phase) :: u64
      in (consumed, sh\<lparr>tx_read_cursor := tx_read_cursor sh + consumed\<rparr>,
          reader\<lparr>tr_read_fraction := fsub f64 phase (double_of_nat (unat consumed))\<rparr>))"

record dequeued =
  dq_produced :: u32
  dq_reason :: NS6TransportStopReason
  dq_output :: "u8 list option"
  dq_shared :: "NS6TransportShared option"
  dq_reader :: "NS6TransportReader option"

definition ns6_transport_dequeue_resampled_shared_diagnostic :: "NS6TransportShared option \<Rightarrow> NS6TransportReader option \<Rightarrow> u8 list option \<Rightarrow>
    u32 \<Rightarrow> flt \<Rightarrow> dequeued" where
  "ns6_transport_dequeue_resampled_shared_diagnostic shared reader output output_frames ratio =
     (case (shared, reader, output) of
        (Some sh, Some rd, Some buffer) \<Rightarrow>
          if output_frames = 0 \<or> \<not> tx_initialized sh then \<lparr>dq_produced = 0, dq_reason = STOP_INVALID, dq_output = output, dq_shared = shared, dq_reader = reader\<rparr>
          else (case dequeue_loop sh (sane_ratio ratio) (unat output_frames) (tr_read_fraction rd) of (frames, phase, reason) \<Rightarrow>
                case consume phase sh rd of (_, sh, rd) \<Rightarrow>
                  \<lparr>dq_produced = of_nat (length frames), dq_reason = reason, dq_output = Some (overwrite 0 (concat frames) buffer),
                   dq_shared = Some sh, dq_reader = Some rd\<rparr>)
      | _ \<Rightarrow> \<lparr>dq_produced = 0, dq_reason = STOP_INVALID, dq_output = output, dq_shared = shared, dq_reader = reader\<rparr>)"

definition ns6_transport_dequeue_shared :: "NS6TransportShared option \<Rightarrow> NS6TransportReader option \<Rightarrow> u8 list option \<Rightarrow> u32 \<Rightarrow> dequeued" where
  "ns6_transport_dequeue_shared shared reader frames capacity =
     ns6_transport_dequeue_resampled_shared_diagnostic shared reader frames capacity (dlit 1)"

definition ns6_transport_advance_resampled_shared :: "NS6TransportShared option \<Rightarrow> NS6TransportReader option \<Rightarrow> u32 \<Rightarrow> flt \<Rightarrow>
    u32 \<times> NS6TransportShared option \<times> NS6TransportReader option" where
  "ns6_transport_advance_resampled_shared shared reader output_frames ratio =
     (case (shared, reader) of
        (Some sh, Some rd) \<Rightarrow>
          if \<not> tx_initialized sh then (0, shared, reader)
          else (case consume (fadd f64 (tr_read_fraction rd) (fmul f64 (double_of_nat (unat output_frames)) (sane_ratio ratio))) sh rd of
                  (consumed, sh, rd) \<Rightarrow> (ucast consumed, Some sh, Some rd))
      | _ \<Rightarrow> (0, shared, reader))"

definition ns6_transport_advance_shared :: "NS6TransportShared option \<Rightarrow> u32 \<Rightarrow> u32 \<times> NS6TransportShared option" where
  "ns6_transport_advance_shared shared frames =
     (case shared of None \<Rightarrow> (0, None) | Some sh \<Rightarrow>
      if \<not> tx_initialized sh then (0, shared)
      else (frames, Some (sh\<lparr>tx_read_cursor := tx_read_cursor sh + ucast frames\<rparr>)))"

subsection \<open>In-process entry points\<close>

text \<open>The process-local ring and the pair of ring and reader that replaces it while one is bound.\<close>

record transport_process =
  tp_default :: "NS6TransportShared \<times> NS6TransportReader"
  tp_bound :: "(NS6TransportShared \<times> NS6TransportReader) option"

definition active :: "transport_process \<Rightarrow> NS6TransportShared \<times> NS6TransportReader" where
  "active p = (case tp_bound p of Some a \<Rightarrow> a | None \<Rightarrow> tp_default p)"

definition set_active :: "NS6TransportShared option \<Rightarrow> NS6TransportReader option \<Rightarrow> transport_process \<Rightarrow> transport_process" where
  "set_active sh rd p =
     (let a = (case sh of Some s \<Rightarrow> s | None \<Rightarrow> fst (active p), case rd of Some r \<Rightarrow> r | None \<Rightarrow> snd (active p))
      in case tp_bound p of Some _ \<Rightarrow> p\<lparr>tp_bound := Some a\<rparr> | None \<Rightarrow> p\<lparr>tp_default := a\<rparr>)"

definition ns6_transport_bind_shared :: "NS6TransportShared option \<Rightarrow> NS6TransportReader option \<Rightarrow> transport_process \<Rightarrow> transport_process" where
  "ns6_transport_bind_shared shared reader p =
     p\<lparr>tp_bound := (case (shared, reader) of (Some sh, Some rd) \<Rightarrow> Some (sh, rd) | _ \<Rightarrow> None)\<rparr>"

definition ns6_transport_reset :: "transport_process \<Rightarrow> transport_process" where
  "ns6_transport_reset p =
     (case active p of (sh, rd) \<Rightarrow> set_active (Some (ns6_transport_reset_shared sh)) (Some (rd\<lparr>tr_read_fraction := dlit 0\<rparr>)) p)"

definition ns6_transport_discard :: "transport_process \<Rightarrow> transport_process" where
  "ns6_transport_discard p =
     (case active p of (sh, rd) \<Rightarrow> case ns6_transport_discard_shared sh (Some rd) of (sh, rd) \<Rightarrow> set_active (Some sh) rd p)"

definition ns6_transport_enqueue_at :: "u8 list option \<Rightarrow> u64 \<Rightarrow> u32 \<Rightarrow> AudioStreamBasicDescription option \<Rightarrow> transport_process \<Rightarrow>
    bool \<times> transport_process" where
  "ns6_transport_enqueue_at input sample_time count format p =
     (case ns6_transport_enqueue_at_shared (Some (fst (active p))) input sample_time count format of (ok, sh) \<Rightarrow> (ok, set_active sh None p))"

definition ns6_transport_enqueue :: "u8 list option \<Rightarrow> u32 \<Rightarrow> AudioStreamBasicDescription option \<Rightarrow> transport_process \<Rightarrow> bool \<times> transport_process" where
  "ns6_transport_enqueue input count format p =
     (case ns6_transport_enqueue_shared (Some (fst (active p))) input count format of (ok, sh) \<Rightarrow> (ok, set_active sh None p))"

definition ns6_transport_available :: "transport_process \<Rightarrow> u32" where
  "ns6_transport_available p = ns6_transport_available_shared (Some (fst (active p)))"

definition ns6_transport_dequeue_resampled_diagnostic :: "u8 list option \<Rightarrow> u32 \<Rightarrow> flt \<Rightarrow> transport_process \<Rightarrow> dequeued \<times> transport_process" where
  "ns6_transport_dequeue_resampled_diagnostic output output_frames ratio p =
     (let d = ns6_transport_dequeue_resampled_shared_diagnostic (Some (fst (active p))) (Some (snd (active p))) output output_frames ratio
      in (d, set_active (dq_shared d) (dq_reader d) p))"

definition ns6_transport_dequeue :: "u8 list option \<Rightarrow> u32 \<Rightarrow> transport_process \<Rightarrow> dequeued \<times> transport_process" where
  "ns6_transport_dequeue output capacity p =
     (let d = ns6_transport_dequeue_shared (Some (fst (active p))) (Some (snd (active p))) output capacity
      in (d, set_active (dq_shared d) (dq_reader d) p))"

definition ns6_transport_advance_resampled :: "u32 \<Rightarrow> flt \<Rightarrow> transport_process \<Rightarrow> u32 \<times> transport_process" where
  "ns6_transport_advance_resampled output_frames ratio p =
     (case ns6_transport_advance_resampled_shared (Some (fst (active p))) (Some (snd (active p))) output_frames ratio of
        (n, sh, rd) \<Rightarrow> (n, set_active sh rd p))"

definition ns6_transport_advance :: "u32 \<Rightarrow> transport_process \<Rightarrow> u32 \<times> transport_process" where
  "ns6_transport_advance frames p =
     (case ns6_transport_advance_shared (Some (fst (active p))) frames of (n, sh) \<Rightarrow> (n, set_active sh None p))"

subsection \<open>Samples\<close>

lemma pack24_length [simp]: "length (pack24 v) = 3"
  by (simp add: pack24_def)

lemma bit_u8_high: "8 \<le> n \<Longrightarrow> \<not> bit (w :: u8) n"
  using bit_imp_le_length [of w n] by auto

lemma unpack24_bit:
  "bit (unpack24 s) n \<longleftrightarrow> (if n < 8 then bit (s ! 0) n else if n < 16 then bit (s ! 1) (n - 8) else bit (s ! 2) (min (n - 16) 7))"
proof -
  let ?w = "(ucast (s ! 0) :: u32) OR push_bit 8 (ucast (s ! 1)) OR push_bit 16 (scast (s ! 2))"
  have w: "bit ?w k \<longleftrightarrow> k < 32 \<and> (if k < 8 then bit (s ! 0) k else if k < 16 then bit (s ! 1) (k - 8) else bit (s ! 2) (min (k - 16) 7))" for k
    by (cases "k < 8"; cases "k < 16"; cases "k < 24")
       (auto simp: bit_or_iff bit_push_bit_iff bit_unsigned_iff bit_signed_iff bit_u8_high min_def)
  show ?thesis unfolding unpack24_def bit_sint_iff w by (auto simp: min_def)
qed

lemma unpack24_pack24:
  assumes "- 8388608 \<le> v" and "v \<le> 8388607"
  shows "unpack24 (pack24 v) = v"
proof (rule bit_eqI)
  fix n
  have v: "signed_take_bit 23 v = v" using assms by (simp add: signed_take_bit_int_eq_self_iff)
  have "bit v n = bit v (min 23 n)" using bit_signed_take_bit_iff [of 23 v n] by (simp add: v)
  moreover have "bit (unpack24 (pack24 v)) n = bit v (min 23 n)"
    by (cases "n < 8"; cases "n < 16"; cases "n < 23") (auto simp: unpack24_bit pack24_def bit_word_of_int_iff bit_drop_bit_eq)
  ultimately show "bit (unpack24 (pack24 v)) n = bit v n" by simp
qed

lemma unpack24_range: "- 8388608 \<le> unpack24 s \<and> unpack24 s \<le> 8388607"
proof -
  have "signed_take_bit 23 (unpack24 s) = unpack24 s"
  proof (rule bit_eqI)
    fix n
    show "bit (signed_take_bit 23 (unpack24 s)) n = bit (unpack24 s) n"
      by (cases "n < 23") (simp_all add: bit_signed_take_bit_iff unpack24_bit)
  qed
  then show ?thesis by (simp add: signed_take_bit_int_eq_self_iff)
qed

lemma pack24_unpack24:
  assumes "length s = 3"
  shows "pack24 (unpack24 s) = s"
proof -
  have "word_of_int (unpack24 s) = s ! 0" "word_of_int (drop_bit 8 (unpack24 s)) = s ! 1" "word_of_int (drop_bit 16 (unpack24 s)) = s ! 2"
    by (rule bit_word_eqI, simp add: bit_word_of_int_iff bit_drop_bit_eq unpack24_bit)+
  moreover have "s = [s ! 0, s ! 1, s ! 2]" using assms by (intro nth_equalityI) (auto simp: less_Suc_eq numeral_3_eq_3 numeral_2_eq_2)
  ultimately show ?thesis by (simp add: pack24_def)
qed

text \<open>The four lanes of a frame.\<close>

lemma concat4: "concat (map f [0..<4]) = f 0 @ f 1 @ f 2 @ f (3 :: nat)"
  by (simp add: upt_rec numeral_2_eq_2 numeral_3_eq_3)

lemma frame_lanes:
  assumes "length s = 12"
  shows "concat (map (\<lambda>channel. pack24 (unpack24 (drop (channel * 3) s))) [0..<4]) = s"
proof -
  have lane: "pack24 (unpack24 (drop k s)) = take 3 (drop k s)" if "k + 3 \<le> 12" for k
  proof -
    have "unpack24 (drop k s) = unpack24 (take 3 (drop k s))" by (simp add: unpack24_def)
    then show ?thesis using pack24_unpack24 [of "take 3 (drop k s)"] that assms by simp
  qed
  have "s = take 3 s @ take 3 (drop 3 s) @ take 3 (drop 6 s) @ take 3 (drop 9 s)"
    using assms by (intro nth_equalityI) (auto simp: nth_append)
  then show ?thesis using lane [of 0] by (simp add: concat4 lane)
qed

lemma convert_frame_length [simp]: "length (convert_frame s b fl bits) = 12" "length (input_frame f s k) = 12" "length (mix_frame s t) = 12"
  by (simp_all add: input_frame_def convert_frame_def mix_frame_def concat4)

lemma interpolate_same:
  assumes "- 8388608 \<le> a" and "a \<le> 8388607"
  shows "interpolate_sample a a (Fin 0) = a"
proof -
  have "double_of_int a = Fin (of_int a)" using assms unfolding double_of_int_def by (intro dbl.fround_small_int) (simp add: f64_def)
  moreover have "dlit 8388607 = Fin 8388607" "dlit (- 8388608) = Fin (- 8388608)"
    using dlit_int [of 8388607] dlit_int [of "- 8388608"] by simp_all
  moreover have "fround f64 (of_int a) = Fin (of_int a)" using calculation(1) by (simp add: double_of_int_def)
  ultimately show ?thesis using assms by (simp add: interpolate_sample_def fsub_def Let_def)
qed

lemma interpolate_frame_same: "length s = 12 \<Longrightarrow> interpolate_frame s s (Fin 0) = s"
  using frame_lanes [of s] by (simp add: interpolate_frame_def interpolate_same unpack24_range)

subsection \<open>The ring by position\<close>

text \<open>The frame stored for a position, if its slot carries the position's tag.\<close>

definition content :: "NS6TransportShared \<Rightarrow> nat \<Rightarrow> u8 list option" where
  "content sh p = (if tx_tags sh (p mod 16384) = of_nat p then Some (tx_samples sh (p mod 16384)) else None)"

text \<open>The positions of one window of the ring have different slots.\<close>

lemma window_slots: "w \<le> p \<Longrightarrow> p < w + R \<Longrightarrow> w \<le> q \<Longrightarrow> q < w + R \<Longrightarrow> p mod R = q mod R \<Longrightarrow> p = q" for R :: nat
proof (induction p q rule: linorder_wlog)
  case (le a b)
  then have "R dvd b - a" using mod_eq_dvd_iff_nat [of a b R] by simp
  moreover have "b - a < R" using le by linarith
  ultimately show ?case using le(1) by (auto dest: dvd_imp_le)
next
  case (sym a b)
  then show ?case by metis
qed

lemma slot_of_nat: "p < 2 ^ 64 \<Longrightarrow> slot_of (of_nat p) = p mod 16384"
  by (simp add: slot_of_def unat_mod unat_of_nat)

lemma content_store:
  assumes "q < 2 ^ 64" and "w \<le> p" "p < w + 16384" and "w \<le> q" "q < w + 16384"
  shows "content (store_frame (of_nat q) d sh) p = (if p = q then Some d else content sh p)"
proof (cases "p = q")
  case False
  then have "p mod 16384 \<noteq> q mod 16384" using window_slots [of w p 16384 q] assms by blast
  then show ?thesis using False by (simp add: content_def store_frame_def slot_of_nat [OF assms(1)])
qed (simp add: content_def store_frame_def slot_of_nat [OF assms(1)])

lemma store_frame_fields [simp]:
  "tx_read_cursor (store_frame p d sh) = tx_read_cursor sh" "tx_high_water (store_frame p d sh) = tx_high_water sh"
  "tx_initialized (store_frame p d sh) = tx_initialized sh"
  by (simp_all add: store_frame_def)

lemma append_frames_snoc: "append_frames f s t (xs @ [k]) sh = store_frame (t + of_nat k) (input_frame f s k) (append_frames f s t xs sh)"
  by (induction xs arbitrary: sh) simp_all

lemma append_frames_fields [simp]:
  "tx_read_cursor (append_frames f s t ks sh) = tx_read_cursor sh" "tx_high_water (append_frames f s t ks sh) = tx_high_water sh"
  "tx_initialized (append_frames f s t ks sh) = tx_initialized sh"
  by (induction ks arbitrary: sh) simp_all

lemma word_position: "t + of_nat k = (of_nat (unat t + k) :: u64)"
  by (simp add: word_of_unat)

lemma content_append_frames:
  assumes "w \<le> p" "p < w + 16384" and "w \<le> unat t" "unat t + n \<le> w + 16384" "unat t + n \<le> 2 ^ 64"
  shows "content (append_frames f s t [0..<n] sh) p =
    (if unat t \<le> p \<and> p < unat t + n then Some (input_frame f s (p - unat t)) else content sh p)"
  using assms(4,5)
proof (induction n)
  case (Suc n)
  have "content (append_frames f s t [0..<Suc n] sh) p =
      (if p = unat t + n then Some (input_frame f s n) else content (append_frames f s t [0..<n] sh) p)"
    using Suc.prems assms(1-3) by (simp add: append_frames_snoc word_position content_store del: of_nat_add)
  then show ?case using Suc by auto
qed auto

definition mixed :: "u8 list option \<Rightarrow> u8 list \<Rightarrow> u8 list" where
  "mixed old new = (case old of None \<Rightarrow> new | Some frame \<Rightarrow> mix_frame frame new)"

definition mix_step :: "u64 \<Rightarrow> u8 list \<Rightarrow> NS6TransportShared \<Rightarrow> NS6TransportShared" where
  "mix_step position converted sh =
     (if tx_tags sh (slot_of position) = position
      then sh\<lparr>tx_samples := (tx_samples sh)(slot_of position := mix_frame (tx_samples sh (slot_of position)) converted)\<rparr>
      else store_frame position converted sh)"

lemma mix_frames_snoc: "mix_frames f s t (xs @ [k]) sh = mix_step (t + of_nat k) (input_frame f s k) (mix_frames f s t xs sh)"
  by (induction xs arbitrary: sh) (simp_all add: Let_def mix_step_def)

lemma mix_step_fields [simp]:
  "tx_read_cursor (mix_step p d sh) = tx_read_cursor sh" "tx_high_water (mix_step p d sh) = tx_high_water sh"
  "tx_initialized (mix_step p d sh) = tx_initialized sh"
  by (simp_all add: mix_step_def)

lemma mix_frames_fields [simp]:
  "tx_read_cursor (mix_frames f s t ks sh) = tx_read_cursor sh" "tx_high_water (mix_frames f s t ks sh) = tx_high_water sh"
  "tx_initialized (mix_frames f s t ks sh) = tx_initialized sh"
  by (induction ks arbitrary: sh) (simp_all add: Let_def)

lemma content_mix_step:
  assumes "q < 2 ^ 64" and "w \<le> p" "p < w + 16384" and "w \<le> q" "q < w + 16384"
  shows "content (mix_step (of_nat q) d sh) p = (if p = q then Some (mixed (content sh q) d) else content sh p)"
proof (cases "tx_tags sh (q mod 16384) = of_nat q")
  case True
  have "p mod 16384 \<noteq> q mod 16384" if "p \<noteq> q" using window_slots [of w p 16384 q] assms that by blast
  then show ?thesis using True by (auto simp: mix_step_def content_def mixed_def slot_of_nat [OF assms(1)])
next
  case False
  then have "content sh q = None" by (simp add: content_def)
  then show ?thesis using content_store [OF assms, of d sh] False by (simp add: mix_step_def slot_of_nat [OF assms(1)] mixed_def)
qed

lemma content_mix_frames:
  assumes "w \<le> p" "p < w + 16384" and "w \<le> unat t" "unat t + n \<le> w + 16384" "unat t + n \<le> 2 ^ 64"
  shows "content (mix_frames f s t [0..<n] sh) p =
    (if unat t \<le> p \<and> p < unat t + n then Some (mixed (content sh p) (input_frame f s (p - unat t))) else content sh p)"
  using assms(4,5)
proof (induction n)
  case (Suc n)
  have "content (mix_frames f s t [0..<Suc n] sh) p = (if p = unat t + n
      then Some (mixed (content (mix_frames f s t [0..<n] sh) (unat t + n)) (input_frame f s n)) else content (mix_frames f s t [0..<n] sh) p)"
    using Suc.prems assms(1-3) by (simp add: mix_frames_snoc word_position content_mix_step del: of_nat_add)
  then show ?case using Suc by auto
qed auto

lemma input_frame_drop: "input_frame f (drop (k * unat (mBytesPerFrame f)) s) i = input_frame f s (k + i)"
  by (simp add: input_frame_def add_mult_distrib add.commute)

subsection \<open>The queue\<close>

definition tx_queue :: "NS6TransportShared \<Rightarrow> u8 list list" where
  "tx_queue sh = (if tx_initialized sh
     then map (\<lambda>p. the (content sh p)) [unat (tx_read_cursor sh)..<unat (tx_high_water sh)] else [])"

definition tx_ok :: "NS6TransportShared \<Rightarrow> bool" where
  "tx_ok sh \<longleftrightarrow> (tx_initialized sh \<longrightarrow>
     unat (tx_high_water sh) \<le> unat (tx_read_cursor sh) + 16384 \<and>
     (\<forall>p. unat (tx_read_cursor sh) \<le> p \<and> p < unat (tx_high_water sh) \<longrightarrow> (\<exists>d. content sh p = Some d \<and> length d = 12)))"

definition tx_below :: "nat \<Rightarrow> NS6TransportShared \<Rightarrow> bool" where
  "tx_below b sh \<longleftrightarrow> unat (tx_read_cursor sh) \<le> b \<and> unat (tx_high_water sh) \<le> b"

lemma append_at_eq:
  assumes "count \<noteq> 0" and "unat (tx_read_cursor sh) + unat count < 2 ^ 64" and "unat (tx_high_water sh) + unat count < 2 ^ 64"
    and "t = max (tx_read_cursor sh) (tx_high_water sh)" and "sh1 = sh\<lparr>tx_high_water := t\<rparr>"
  shows "append_at f input (tx_high_water sh) count sh =
    (if unat t - unat (tx_read_cursor sh) + unat count \<le> 16384
     then (True, (append_frames f input t [0..<unat count] sh1)\<lparr>tx_high_water := t + ucast count\<rparr>) else (False, sh1))"
proof -
  have u: "unat (ucast count :: u64) = unat count" by (simp add: unat_ucast_up)
  have st: "(if tx_high_water sh < tx_read_cursor sh then (tx_read_cursor sh, sh\<lparr>tx_high_water := tx_read_cursor sh\<rparr>) else (tx_high_water sh, sh)) = (t, sh1)"
    by (auto simp: assms(4,5) max_def)
  have c: "tx_read_cursor sh \<le> t" by (simp add: assms(4))
  have "unat t + unat count < 2 ^ 64" using assms(2-4) by (auto simp: max_def)
  then have p: "unat (t + ucast count) = unat t + unat count" using u by (simp add: unat_word_ariths)
  have n0: "0 < unat count" using assms(1) by (simp add: unat_gt_0)
  have later: "\<not> t + ucast count \<le> tx_read_cursor sh" "t < t + ucast count"
    using c p n0 by (auto simp: word_le_nat_alt word_less_nat_alt)
  have d: "unat (t - tx_read_cursor sh) = unat t - unat (tx_read_cursor sh)" using c by (simp add: unat_sub word_le_nat_alt)
  have room: "16384 < t - tx_read_cursor sh \<or> 16384 - (t - tx_read_cursor sh) < ucast count \<longleftrightarrow>
      \<not> unat t - unat (tx_read_cursor sh) + unat count \<le> 16384"
  proof (cases "16384 < t - tx_read_cursor sh")
    case False
    then have "unat (16384 - (t - tx_read_cursor sh)) = 16384 - unat (t - tx_read_cursor sh)"
      by (subst unat_sub) (auto simp: not_less)
    then show ?thesis using False u d by (simp add: word_less_nat_alt) linarith
  qed (use d in \<open>simp add: word_less_nat_alt\<close>)
  show ?thesis unfolding append_at_def Let_def st prod.case
    using later room c [folded not_less] assms(1) by (simp add: raise_high_water_def assms(5))
qed

lemma content_fields [simp]: "content (sh\<lparr>tx_high_water := h\<rparr>) = content sh" "content (sh\<lparr>tx_read_cursor := c\<rparr>) = content sh"
  "content (sh\<lparr>tx_initialized := i\<rparr>) = content sh"
  by (simp_all add: content_def fun_eq_iff)

lemma settle_queue:
  assumes "tx_ok sh" and "tx_initialized sh" and "t = max (tx_read_cursor sh) (tx_high_water sh)"
  shows "tx_queue (sh\<lparr>tx_high_water := t\<rparr>) = tx_queue sh" and "length (tx_queue sh) = unat t - unat (tx_read_cursor sh)"
    and "tx_ok (sh\<lparr>tx_high_water := t\<rparr>)"
  using assms by (cases "tx_read_cursor sh \<le> tx_high_water sh"; force simp: tx_queue_def tx_ok_def max_def word_le_nat_alt)+

lemma unat_ucast64: "unat (ucast (w :: u32) :: u64) = unat w"
  by (rule unat_ucast_up) simp

lemma append_queue:
  fixes count :: u32
  assumes ok: "tx_ok sh" "tx_initialized sh" "tx_high_water sh = t" and c: "unat (tx_read_cursor sh) \<le> unat t"
    and room: "unat t - unat (tx_read_cursor sh) + unat count \<le> 16384" and small: "unat t + unat count < 2 ^ 64"
    and s2: "s2 = (append_frames f input t [0..<unat count] sh)\<lparr>tx_high_water := t + ucast count\<rparr>"
  shows "tx_queue s2 = tx_queue sh @ map (input_frame f input) [0..<unat count]" and "tx_ok s2"
proof -
  let ?c = "unat (tx_read_cursor sh)" and ?n = "unat count"
  have h: "unat (tx_high_water s2) = unat t + ?n" using small by (simp add: s2 unat_word_ariths unat_ucast64)
  have f: "tx_read_cursor s2 = tx_read_cursor sh" "tx_initialized s2" using ok by (simp_all add: s2)
  have con: "content s2 p = (if unat t \<le> p then Some (input_frame f input (p - unat t)) else content sh p)" if "?c \<le> p" "p < unat t + ?n" for p
    unfolding s2 content_fields by (subst content_append_frames [of ?c]) (use that c room small in auto)
  have split: "[?c..<unat t + ?n] = [?c..<unat t] @ [unat t..<unat t + ?n]" using c by (rule upt_add_eq_append)
  have old: "map (\<lambda>p. the (content s2 p)) [?c..<unat t] = map (\<lambda>p. the (content sh p)) [?c..<unat t]" by (auto simp: con)
  have new: "map (\<lambda>p. the (content s2 p)) [unat t..<unat t + ?n] = map (input_frame f input) [0..<?n]"
    using c by (intro nth_equalityI) (auto simp: con)
  show "tx_queue s2 = tx_queue sh @ map (input_frame f input) [0..<?n]"
    unfolding tx_queue_def f(1) h using f(2) by (simp add: split old new ok)
  show "tx_ok s2" unfolding tx_ok_def f h using ok room c by (auto simp: con tx_ok_def)
qed

lemma block_end: "UINT64_MAX - ucast count < t \<longleftrightarrow> \<not> unat t + unat count < 2 ^ 64" for count :: u32 and t :: u64
proof -
  have "unat (UINT64_MAX - ucast count :: u64) = 2 ^ 64 - 1 - unat count"
    by (subst unat_sub) (simp_all add: unat_ucast64 unsigned_minus_1_eq_mask mask_eq_exp_minus_1)
  then show ?thesis using u32_less [of count] by (simp add: word_less_nat_alt) linarith
qed

lemma enqueue_call:
  assumes "count \<noteq> 0" and "valid_format (Some f)" and "unat (tx_high_water sh) + unat count < 2 ^ 64"
  shows "ns6_transport_enqueue_shared (Some sh) (Some input) count (Some f) =
    map_prod id Some (append_at f input (tx_high_water sh) count (start_at (tx_high_water sh) sh))"
  using assms by (simp add: ns6_transport_enqueue_shared_def ns6_transport_enqueue_at_shared_def Let_def block_end)

lemma enqueue_queue:
  assumes ok: "tx_ok sh" and below: "tx_below b sh" "b + 2 ^ 32 \<le> 2 ^ 63" and valid: "valid_format (Some f)"
  obtains ok' sh' where "ns6_transport_enqueue_shared (Some sh) (Some input) count (Some f) = (ok', Some sh')"
    and "ok' \<longleftrightarrow> length (tx_queue sh) + unat count \<le> 16384"
    and "tx_queue sh' = (if ok' then tx_queue sh @ map (input_frame f input) [0..<unat count] else tx_queue sh)"
    and "tx_ok sh'" and "tx_below (b + 2 ^ 32) sh'"
proof (cases "count = 0")
  case True
  have "length (tx_queue sh) \<le> 16384" using ok by (auto simp: tx_queue_def tx_ok_def)
  then show thesis using that [of True sh] True assms by (simp add: ns6_transport_enqueue_shared_def ns6_transport_enqueue_at_shared_def tx_below_def)
next
  case False
  define s0 where "s0 = start_at (tx_high_water sh) sh"
  define t where "t = max (tx_read_cursor s0) (tx_high_water s0)"
  define s1 where "s1 = s0\<lparr>tx_high_water := t\<rparr>"
  let ?c = "unat (tx_read_cursor s0)" and ?n = "unat count"
  have s0: "tx_high_water s0 = tx_high_water sh" "tx_initialized s0" "tx_queue s0 = tx_queue sh" "tx_ok s0" "tx_below b s0"
    using ok below by (auto simp: s0_def start_at_def tx_queue_def tx_ok_def tx_below_def)
  have n: "?n < 2 ^ 32" by (rule u32_less)
  have cb: "?c \<le> b" "unat (tx_high_water s0) \<le> b" using s0(5) by (simp_all add: tx_below_def)
  have tb: "unat t \<le> b" "?c \<le> unat t" using cb by (auto simp: t_def max_def word_le_nat_alt)
  have small: "?c + ?n < 2 ^ 64" "unat (tx_high_water s0) + ?n < 2 ^ 64" "unat t + ?n < 2 ^ 64" using cb tb n below(2) by simp_all
  note q1 = settle_queue [OF s0(4,2) t_def, folded s1_def]
  let ?s2 = "(append_frames f input t [0..<?n] s1)\<lparr>tx_high_water := t + ucast count\<rparr>"
  have e: "ns6_transport_enqueue_shared (Some sh) (Some input) count (Some f) =
    (if unat t - ?c + ?n \<le> 16384 then (True, Some ?s2) else (False, Some s1))"
    using enqueue_call [OF False valid small(2) [unfolded s0(1)], of input, folded s0_def]
      append_at_eq [OF False small(1,2) t_def s1_def, unfolded s0(1)] by simp
  have u: "unat (t + ucast count) = unat t + ?n" using small(3) by (simp add: unat_word_ariths unat_ucast64)
  show thesis
  proof (cases "unat t - ?c + ?n \<le> 16384")
    case True
    have s1: "tx_initialized s1" "tx_high_water s1 = t" "tx_read_cursor s1 = tx_read_cursor s0" by (simp_all add: s1_def s0(2))
    note a = append_queue [OF q1(3) s1(1,2), unfolded s1(3), OF tb(2) True small(3) refl, of f input]
    show thesis by (rule that [OF e [unfolded if_P [OF True]]]) (use True q1 a s0(3) cb tb n u in \<open>simp_all add: tx_below_def s1(3)\<close>)
  next
    case no: False
    show thesis by (rule that [OF e [unfolded if_not_P [OF no]]]) (use no q1 s0(3) cb tb in \<open>simp_all add: tx_below_def s1_def\<close>)
  qed
qed

subsection \<open>Dequeuing at the nominal rate\<close>

lemma phase_nat: "k \<le> 2 ^ 53 \<Longrightarrow> trunc_sat 64 (Fin (of_nat k)) = k" "k \<le> 2 ^ 53 \<Longrightarrow> double_of_nat k = Fin (of_nat k)"
  using dlit_int [of "int k"] by (simp_all add: trunc_sat_def double_of_nat_def dlit_def)

lemma queue_frame:
  assumes "tx_ok sh" "tx_initialized sh" and "tx_below b sh" "b + k < 2 ^ 63" "k < 2 ^ 53"
  shows "dequeue_frame sh (Fin (of_nat k)) = (if k < length (tx_queue sh) then Inr (tx_queue sh ! k) else Inl STOP_EMPTY)"
proof -
  let ?c = "unat (tx_read_cursor sh)" and ?h = "unat (tx_high_water sh)"
  define q where "q = tx_read_cursor sh + of_nat k"
  have c: "?c \<le> b" "?h \<le> b" using assms(3) by (simp_all add: tx_below_def)
  have q: "unat q = ?c + k" "slot_of q = (?c + k) mod 16384" "q = of_nat (?c + k)"
    using c assms(4) by (simp_all add: q_def unat_word_ariths unat_of_nat slot_of_def unat_mod word_of_unat)
  have d: "unat (q - tx_read_cursor sh) = k" using q(1) by (simp add: unat_sub word_le_nat_alt)
  have len: "length (tx_queue sh) = ?h - ?c" using assms(2) by (simp add: tx_queue_def)
  have fr: "fsub f64 (Fin (of_nat k)) (double_of_nat (unat (of_nat k :: u64))) = Fin 0"
    using assms(4,5) by (simp add: phase_nat unat_of_nat fsub_def)
  show ?thesis
  proof (cases "?c + k < ?h")
    case True
    then obtain dat where con: "content sh (?c + k) = Some dat" "length dat = 12"
      using assms(1,2) unfolding tx_ok_def by (meson le_add1)
    then have tag: "tx_tags sh (slot_of q) = q" "tx_samples sh (slot_of q) = dat"
      unfolding q(2) content_def by (auto simp: q(3) split: if_splits)
    have "k < 16384" using True assms(1,2) by (auto simp: tx_ok_def)
    then have "dequeue_frame sh (Fin (of_nat k)) = Inr dat"
      using True tag con(2) d q(1) assms(5)
      by (simp add: dequeue_frame_def Let_def phase_nat fr q_def [symmetric] word_le_nat_alt interpolate_frame_same)
    moreover have "tx_queue sh ! k = dat" using True assms(2) con nth_upt [OF True] by (simp add: tx_queue_def)
    ultimately show ?thesis using True len by simp
  next
    case False
    then have "tx_high_water sh \<le> q" using q(1) by (simp add: word_le_nat_alt)
    then have "dequeue_frame sh (Fin (of_nat k)) = Inl STOP_EMPTY"
      using assms(5) by (simp add: dequeue_frame_def Let_def phase_nat fr q_def [symmetric])
    then show ?thesis using False len by simp
  qed
qed

lemma phase_step: "k < 2 ^ 53 \<Longrightarrow> fadd f64 (Fin (of_nat k)) (Fin 1) = Fin (of_nat (Suc k))"
  using dlit_int [of "int (Suc k)"] by (simp add: dlit_def add.commute)

lemma queue_loop:
  assumes "tx_ok sh" "tx_initialized sh" "tx_below b sh"
  shows "b + (k + n) < 2 ^ 63 \<Longrightarrow> k + n < 2 ^ 53 \<Longrightarrow> k \<le> length (tx_queue sh) \<Longrightarrow>
    dequeue_loop sh (Fin 1) n (Fin (of_nat k)) =
      (take n (drop k (tx_queue sh)), Fin (of_nat (min (k + n) (length (tx_queue sh)))), if k + n \<le> length (tx_queue sh) then STOP_NONE else STOP_EMPTY)"
proof (induction n arbitrary: k)
  case (Suc n)
  have f: "dequeue_frame sh (Fin (of_nat k)) = (if k < length (tx_queue sh) then Inr (tx_queue sh ! k) else Inl STOP_EMPTY)"
    by (rule queue_frame [OF assms]) (use Suc.prems in simp_all)
  show ?case
  proof (cases "k < length (tx_queue sh)")
    case True
    then show ?thesis using Suc.IH [of "Suc k"] Suc.prems f phase_step [of k] by (simp add: Cons_nth_drop_Suc [symmetric] del: of_nat_Suc)
  qed (use f Suc.prems in simp)
qed (simp add: min_def)

lemma queue_lengths: "tx_ok sh \<Longrightarrow> d \<in> set (tx_queue sh) \<Longrightarrow> length d = 12" and queue_fits: "tx_ok sh \<Longrightarrow> length (tx_queue sh) \<le> 16384"
  by (auto simp: tx_ok_def tx_queue_def split: if_splits)

lemma frames_length: "(\<And>d. d \<in> set q \<Longrightarrow> length d = 12) \<Longrightarrow> length (concat q) = 12 * length q"
  by (induction q) simp_all

lemma advance_queue:
  assumes ok: "tx_ok sh" and below: "tx_below b sh" "b + 2 ^ 32 < 2 ^ 64" and n: "n < 2 ^ 32"
    and sh': "sh' = sh\<lparr>tx_read_cursor := tx_read_cursor sh + of_nat n\<rparr>"
  shows "tx_queue sh' = drop n (tx_queue sh)" and "tx_ok sh'" and "tx_below (b + 2 ^ 32) sh'"
proof -
  have "unat (tx_read_cursor sh') = unat (tx_read_cursor sh) + n"
    using assms by (simp add: tx_below_def unat_word_ariths unat_of_nat)
  then show "tx_queue sh' = drop n (tx_queue sh)" "tx_ok sh'" "tx_below (b + 2 ^ 32) sh'"
    using assms by (auto simp: sh' tx_queue_def tx_ok_def tx_below_def drop_map)
qed

lemma dequeue_queue:
  assumes ok: "tx_ok sh" and below: "tx_below b sh" "b + 2 ^ 32 < 2 ^ 63" and rd: "tr_read_fraction rd = Fin 0"
    and buffer: "length buffer = 12 * unat n"
    and d: "d = ns6_transport_dequeue_shared (Some sh) (Some rd) (Some buffer) n"
  obtains sh' where "dq_shared d = Some sh'" and "tx_queue sh' = drop (unat n) (tx_queue sh)" and "tx_ok sh'" and "tx_below (b + 2 ^ 32) sh'"
    and "dq_reader d = Some rd" and "unat (dq_produced d) = min (unat n) (length (tx_queue sh))"
    and "take (12 * unat (dq_produced d)) (the (dq_output d)) = concat (take (unat n) (tx_queue sh))"
    and "dq_reason d = STOP_NONE \<longleftrightarrow> unat n \<noteq> 0 \<and> unat n \<le> length (tx_queue sh)"
proof (cases "n = 0 \<or> \<not> tx_initialized sh")
  case True
  then have "d = \<lparr>dq_produced = 0, dq_reason = STOP_INVALID, dq_output = Some buffer, dq_shared = Some sh, dq_reader = Some rd\<rparr>"
    by (simp add: d ns6_transport_dequeue_shared_def ns6_transport_dequeue_resampled_shared_diagnostic_def)
  then show thesis using True below ok by (intro that [of sh]) (auto simp: tx_queue_def tx_below_def)
next
  case False
  let ?q = "tx_queue sh" and ?n = "unat n"
  let ?m = "min ?n (length ?q)"
  have n: "?n < 2 ^ 32" by (rule u32_less)
  have m: "?m < 2 ^ 32" using n by simp
  have ratio: "sane_ratio (Fin 1) = Fin 1" by (simp add: sane_ratio_def dlit_half)
  have loop: "dequeue_loop sh (Fin 1) ?n (Fin 0) = (take ?n ?q, Fin (of_nat ?m), if ?n \<le> length ?q then STOP_NONE else STOP_EMPTY)"
    using queue_loop [of sh b 0 ?n] ok below False n by simp
  let ?sh = "sh\<lparr>tx_read_cursor := tx_read_cursor sh + of_nat ?m\<rparr>"
  have rd0: "rd\<lparr>tr_read_fraction := Fin 0\<rparr> = rd" using rd by simp
  have consume: "consume (Fin (of_nat ?m)) sh rd = (of_nat ?m, ?sh, rd)"
    using m rd0 by (simp add: consume_def Let_def phase_nat unat_of_nat fsub_def del: of_nat_min)
  have e: "d = \<lparr>dq_produced = of_nat (length (take ?n ?q)), dq_reason = if ?n \<le> length ?q then STOP_NONE else STOP_EMPTY,
      dq_output = Some (overwrite 0 (concat (take ?n ?q)) buffer), dq_shared = Some ?sh, dq_reader = Some rd\<rparr>"
    using False unfolding d ns6_transport_dequeue_shared_def ns6_transport_dequeue_resampled_shared_diagnostic_def
    by (simp add: ratio rd loop consume del: of_nat_min length_take)
  have len: "length (concat (take ?n ?q)) = 12 * ?m"
    by (subst frames_length) (auto dest!: in_set_takeD intro: queue_lengths [OF ok])
  have u: "unat (dq_produced d) = ?m" using m by (simp add: e unat_of_nat min.commute del: of_nat_min)
  note a = advance_queue [OF ok below(1) _ m refl]
  have "drop ?m ?q = drop ?n ?q" by (simp add: min_def)
  with a u False show thesis
    by (intro that [of ?sh]) (use e len below(2) in \<open>simp_all add: overwrite_def unat_eq_0 del: of_nat_min\<close>)
qed

subsection \<open>The queue as the contract of the ring\<close>

datatype transport_op = TEnqueue "u8 list" u32 | TDequeue u32 | TAdvance u32 | TAvailable | TDiscard

datatype transport_result = TAccepted bool | TFrames "u8 list" bool | TCount nat | TDone

definition transport_step :: "AudioStreamBasicDescription \<Rightarrow> transport_op \<Rightarrow> NS6TransportShared \<times> NS6TransportReader \<Rightarrow>
    transport_result \<times> NS6TransportShared \<times> NS6TransportReader" where
  "transport_step f op s = (case s of (sh, rd) \<Rightarrow> case op of
     TEnqueue input count \<Rightarrow> (case ns6_transport_enqueue_shared (Some sh) (Some input) count (Some f) of (ok, sh') \<Rightarrow> (TAccepted ok, the sh', rd))
   | TDequeue n \<Rightarrow> (let d = ns6_transport_dequeue_shared (Some sh) (Some rd) (Some (replicate (12 * unat n) 0)) n
       in (TFrames (take (12 * unat (dq_produced d)) (the (dq_output d))) (dq_reason d = STOP_NONE), the (dq_shared d), the (dq_reader d)))
   | TAdvance n \<Rightarrow> (case ns6_transport_advance_shared (Some sh) n of (_, sh') \<Rightarrow> (TDone, the sh', rd))
   | TAvailable \<Rightarrow> (TCount (unat (ns6_transport_available_shared (Some sh))), sh, rd)
   | TDiscard \<Rightarrow> (case ns6_transport_discard_shared sh (Some rd) of (sh', rd') \<Rightarrow> (TDone, sh', the rd')))"

definition transport_spec :: "AudioStreamBasicDescription \<Rightarrow> transport_op \<Rightarrow> u8 list list \<Rightarrow> transport_result \<times> u8 list list" where
  "transport_spec f op q = (case op of
     TEnqueue input count \<Rightarrow> if length q + unat count \<le> 16384
       then (TAccepted True, q @ map (input_frame f input) [0..<unat count]) else (TAccepted False, q)
   | TDequeue n \<Rightarrow> (TFrames (concat (take (unat n) q)) (unat n \<noteq> 0 \<and> unat n \<le> length q), drop (unat n) q)
   | TAdvance n \<Rightarrow> (TDone, drop (unat n) q)
   | TAvailable \<Rightarrow> (TCount (length q), q)
   | TDiscard \<Rightarrow> (TDone, []))"

text \<open>What holds between two calls, after \<open>k\<close> calls on a new ring.\<close>

definition transport_inv :: "nat \<Rightarrow> NS6TransportShared \<times> NS6TransportReader \<Rightarrow> bool" where
  "transport_inv k s \<longleftrightarrow> tx_ok (fst s) \<and> tx_below (k * 2 ^ 32) (fst s) \<and> tr_read_fraction (snd s) = Fin 0"

lemma available_queue:
  assumes "tx_ok sh" and "tx_below b sh" "b < 2 ^ 63"
  shows "unat (ns6_transport_available_shared (Some sh)) = length (tx_queue sh)"
proof (cases "tx_initialized sh \<and> unat (tx_read_cursor sh) < unat (tx_high_water sh)")
  case True
  let ?c = "unat (tx_read_cursor sh)" and ?h = "unat (tx_high_water sh)"
  have loop: "available_loop sh m k = k + m" if "?c + k + m \<le> ?h" for m k
    using that
  proof (induction m arbitrary: k)
    case (Suc m)
    let ?p = "tx_read_cursor sh + of_nat k"
    have p: "?p = of_nat (?c + k)" by (rule word_position)
    have "?c + k < 2 ^ 64" using Suc.prems assms(2,3) by (simp add: tx_below_def)
    moreover have "?c + k < ?h" using Suc.prems by simp
    then obtain dat where "content sh (?c + k) = Some dat" using assms(1) True unfolding tx_ok_def by (meson le_add1)
    ultimately have "tx_tags sh (slot_of ?p) = ?p" unfolding p by (subst slot_of_nat) (auto simp: content_def split: if_splits)
    then show ?case using Suc by (simp add: Let_def)
  qed simp
  have "unat (tx_high_water sh - tx_read_cursor sh) = ?h - ?c" using True by (simp add: unat_sub word_le_nat_alt)
  moreover have "?h - ?c \<le> 16384" using assms(1) True by (auto simp: tx_ok_def)
  ultimately have "unat (min (tx_high_water sh - tx_read_cursor sh) 16384) = ?h - ?c" by (simp add: min_def word_le_nat_alt)
  then have "ns6_transport_available_shared (Some sh) = of_nat (available_loop sh (?h - ?c) 0)"
    using True by (simp add: ns6_transport_available_shared_def Let_def word_le_nat_alt del: of_nat_diff)
  also have "available_loop sh (?h - ?c) 0 = ?h - ?c" using True loop [of 0 "?h - ?c"] by simp
  finally show ?thesis using True \<open>?h - ?c \<le> 16384\<close> by (simp add: unat_of_nat tx_queue_def del: of_nat_diff)
qed (auto simp: ns6_transport_available_shared_def tx_queue_def word_le_nat_alt not_less)

lemma transport_step_refines:
  assumes inv: "transport_inv k (sh, rd)" and k: "Suc k < 2 ^ 31" and valid: "valid_format (Some f)"
  obtains r s' where "transport_step f op (sh, rd) = (r, s')" and "transport_spec f op (tx_queue sh) = (r, tx_queue (fst s'))" and "transport_inv (Suc k) s'"
proof -
  have ok: "tx_ok sh" "tx_below (k * 2 ^ 32) sh" "tr_read_fraction rd = Fin 0" using inv by (simp_all add: transport_inv_def)
  have b: "k * 2 ^ 32 + 2 ^ 32 < 2 ^ 63" using k by simp
  have b': "tx_below (Suc k * 4294967296) s \<longleftrightarrow> tx_below (k * 4294967296 + 4294967296) s" for s by (simp add: add.commute)
  show thesis
  proof (cases op)
    case (TEnqueue input count)
    obtain ok' sh' where e: "ns6_transport_enqueue_shared (Some sh) (Some input) count (Some f) = (ok', Some sh')"
      "ok' \<longleftrightarrow> length (tx_queue sh) + unat count \<le> 16384"
      "tx_queue sh' = (if ok' then tx_queue sh @ map (input_frame f input) [0..<unat count] else tx_queue sh)"
      "tx_ok sh'" "tx_below (k * 2 ^ 32 + 2 ^ 32) sh'"
      by (rule enqueue_queue [OF ok(1,2) less_imp_le [OF b] valid]) (rule that)
    show thesis by (rule that [of "TAccepted ok'" "(sh', rd)"]) (use e ok(3) in \<open>simp_all add: TEnqueue transport_step_def transport_spec_def transport_inv_def b' del: mult_Suc\<close>)
  next
    case (TDequeue n)
    let ?d = "ns6_transport_dequeue_shared (Some sh) (Some rd) (Some (replicate (12 * unat n) 0)) n"
    obtain sh' where "dq_shared ?d = Some sh'" "tx_queue sh' = drop (unat n) (tx_queue sh)" "tx_ok sh'" "tx_below (k * 2 ^ 32 + 2 ^ 32) sh'"
      "dq_reader ?d = Some rd" "unat (dq_produced ?d) = min (unat n) (length (tx_queue sh))"
      "take (12 * unat (dq_produced ?d)) (the (dq_output ?d)) = concat (take (unat n) (tx_queue sh))"
      "dq_reason ?d = STOP_NONE \<longleftrightarrow> unat n \<noteq> 0 \<and> unat n \<le> length (tx_queue sh)"
      by (rule dequeue_queue [OF ok(1,2) b ok(3) length_replicate refl]) (rule that)
    then show thesis using ok(3) by (intro that [of "TFrames (concat (take (unat n) (tx_queue sh))) (unat n \<noteq> 0 \<and> unat n \<le> length (tx_queue sh))" "(sh', rd)"])
      (simp_all add: TDequeue transport_step_def transport_spec_def transport_inv_def Let_def b' del: mult_Suc)
  next
    case (TAdvance n)
    note a = advance_queue [OF ok(1,2) _ u32_less [of n] refl]
    have w: "of_nat (unat n) = (ucast n :: u64)" by simp
    have q: "tx_queue sh = []" if "\<not> tx_initialized sh" using that by (simp add: tx_queue_def)
    show thesis
    proof (cases "tx_initialized sh")
      case True
      then show thesis using a ok(3) b by (intro that [of TDone "(sh\<lparr>tx_read_cursor := tx_read_cursor sh + ucast n\<rparr>, rd)"])
        (simp_all add: TAdvance transport_step_def transport_spec_def transport_inv_def ns6_transport_advance_shared_def b' w del: mult_Suc)
    next
      case False
      then show thesis using ok q by (intro that [of TDone "(sh, rd)"])
        (auto simp: TAdvance transport_step_def transport_spec_def transport_inv_def ns6_transport_advance_shared_def tx_below_def)
    qed
  next
    case TAvailable
    then show thesis using ok b available_queue [OF ok(1,2)] by (intro that [of "TCount (length (tx_queue sh))" "(sh, rd)"])
      (auto simp: transport_step_def transport_spec_def transport_inv_def tx_below_def)
  next
    case TDiscard
    then show thesis by (intro that [of TDone "snd (transport_step f op (sh, rd))"])
      (simp_all add: transport_step_def transport_spec_def transport_inv_def ns6_transport_discard_shared_def tx_queue_def tx_ok_def tx_below_def)
  qed
qed

interpretation tx_sim: simulation "transport_step f" "transport_spec f" "\<lambda>s. tx_queue (fst s)"
    "\<lambda>k s. valid_format (Some f) \<and> transport_inv k s" "\<lambda>k. k < 2 ^ 31"
proof unfold_locales
  fix k s op r s'
  assume a: "valid_format (Some f) \<and> transport_inv k s" "Suc k < 2 ^ 31" "transport_step f op s = (r, s')"
  obtain sh rd where s: "s = (sh, rd)" by fastforce
  obtain r1 s1 where "transport_step f op (sh, rd) = (r1, s1)" "transport_spec f op (tx_queue sh) = (r1, tx_queue (fst s1))" "transport_inv (Suc k) s1"
    by (rule transport_step_refines [of k sh rd f op]) (use a s in auto)
  then show "(valid_format (Some f) \<and> transport_inv (Suc k) s') \<and> transport_spec f op (tx_queue (fst s)) = (r, tx_queue (fst s'))" using a s by simp
qed simp

text \<open>
  (C4) The shared ring is a bounded queue of frames: in every sequence of fewer than \<open>2\<^sup>3\<^sup>1\<close> calls on a ring that has been
  initialised, appended blocks are accepted exactly when they fit beside the queued frames, every dequeue at the nominal rate returns the oldest
  converted frames bit for bit and says whether it was complete, an advance drops frames, and the reported fill level is the length of the queue.
\<close>

theorem transport_is_queue:
  assumes "valid_format (Some f)" and "length ops < 2 ^ 31" and "tr_read_fraction rd = dlit 0"
  shows "fst (run_ops (transport_step f) ops (ns6_transport_init_shared sh, rd)) = fst (run_ops (transport_spec f) ops [])"
proof -
  let ?s = "(ns6_transport_init_shared sh, rd)"
  have "transport_inv 0 ?s" "tx_queue (fst ?s) = []"
    using assms(3) by (simp_all add: transport_inv_def ns6_transport_init_shared_def tx_ok_def tx_below_def tx_queue_def)
  then show ?thesis using tx_sim.run_ok [of f 0 ?s ops] assms(1,2) by (cases "run_ops (transport_step f) ops ?s") simp
qed

text \<open>Witness for C0: two 32-bit frames are appended, three are asked for, and one more is appended after the ring has run dry.\<close>

definition format_example :: AudioStreamBasicDescription where
  "format_example = \<lparr>mFormatFlags = 12, mBytesPerFrame = 16, mChannelsPerFrame = 4, mBitsPerChannel = 32\<rparr>"

theorem transport_is_queue_witness:
  "let a = map of_nat [0..<32]; b = map of_nat [100..<116];
       sh = \<lparr>tx_samples = (\<lambda>_. []), tx_tags = (\<lambda>_. 0), tx_read_cursor = 0, tx_high_water = 0, tx_initialized = False\<rparr>
   in valid_format (Some format_example) \<and>
     fst (run_ops (transport_step format_example) [TEnqueue a 2, TAvailable, TDequeue 3, TEnqueue b 1, TDequeue 1]
       (ns6_transport_init_shared sh, \<lparr>tr_read_fraction = dlit 0\<rparr>)) =
     [TAccepted True, TCount 2, TFrames [1, 2, 3, 5, 6, 7, 9, 10, 11, 13, 14, 15, 17, 18, 19, 21, 22, 23, 25, 26, 27, 29, 30, 31] False,
      TAccepted True, TFrames [101, 102, 103, 105, 106, 107, 109, 110, 111, 113, 114, 115] True]"
proof -
  have v: "valid_format (Some format_example)" by code_simp
  have a: "map (input_frame format_example (map of_nat [0..<32])) [0, 1] =
    [[1, 2, 3, 5, 6, 7, 9, 10, 11, 13, 14, 15], [17, 18, 19, 21, 22, 23, 25, 26, 27, 29, 30, 31]]" by code_simp
  have b: "input_frame format_example (map of_nat [100..<116]) 0 = [101, 102, 103, 105, 106, 107, 109, 110, 111, 113, 114, 115]" by code_simp
  show ?thesis unfolding Let_def
    by (subst transport_is_queue [OF v]) (use a b v in \<open>simp_all add: transport_spec_def upt_rec [of _ 2] upt_rec [of _ 1]\<close>)
qed

subsection \<open>Mixing by sample time\<close>

definition accepts :: "NS6TransportShared \<Rightarrow> u64 \<Rightarrow> u32 \<Rightarrow> bool" where
  "accepts sh t n \<longleftrightarrow> n = 0 \<or> unat t + unat n < 2 ^ 64 \<and> unat t + unat n \<le> unat (tx_read_cursor sh) + 16384"

definition near :: "NS6TransportShared \<Rightarrow> u64 \<Rightarrow> bool" where
  "near sh t \<longleftrightarrow> tx_initialized sh \<and> unat t < unat (tx_read_cursor sh) + 16384 \<and> unat (tx_read_cursor sh) < unat t + 16384"

lemma near_aligned: "near sh t \<Longrightarrow> realign t (start_at t sh) = sh"
proof -
  assume n: "near sh t"
  have "\<not> 16384 \<le> (if tx_read_cursor sh < t then t - tx_read_cursor sh else tx_read_cursor sh - t)"
    using n by (auto simp: near_def word_le_nat_alt word_less_nat_alt unat_sub)
  moreover have "start_at t sh = sh" using n by (simp add: near_def start_at_def)
  ultimately show ?thesis unfolding realign_def Let_def by (simp only: if_False simp_thms)
qed

lemma mix_aligned_eq:
  assumes n: "near sh t" "count \<noteq> 0" "unat t + unat count < 2 ^ 64"
  obtains late st :: u64 and rest :: u32 where "unat late = unat (tx_read_cursor sh) - unat t" and "unat st = unat t + unat late" and "unat rest = unat count - unat late"
    and "mix_aligned f s t count sh =
      (if unat t + unat count \<le> unat (tx_read_cursor sh) then (True, sh) else if \<not> accepts sh t count then (False, sh)
       else (True, raise_high_water (st + ucast rest) (mix_frames f (drop (unat late * unat (mBytesPerFrame f)) s) st [0..<unat rest] sh)))"
proof -
  let ?c = "unat (tx_read_cursor sh)" and ?n = "unat count"
  define late where "late = (if t < tx_read_cursor sh then tx_read_cursor sh - t else 0)"
  define st where "st = t + late"
  define rest where "rest = count - ucast late"
  have ma: "mix_aligned f s t count sh = (if t < tx_read_cursor sh \<and> ucast count \<le> late then (True, sh)
      else if 16384 \<le> st - tx_read_cursor sh \<or> 16384 - (st - tx_read_cursor sh) < ucast rest then (False, sh)
      else (True, raise_high_water (st + ucast rest) (mix_frames f (drop (unat late * unat (mBytesPerFrame f)) s) st [0..<unat rest] sh)))"
    by (simp only: mix_aligned_def Let_def late_def st_def rest_def)
  have late: "unat late = ?c - unat t" by (auto simp: late_def unat_sub word_le_nat_alt word_less_nat_alt)
  have lt: "?c < 2 ^ 64" "?n < 2 ^ 32" "0 < ?n" using u64_less [of "tx_read_cursor sh"] u32_less [of count] n(2) by (auto simp: unat_gt_0)
  have st: "unat st = unat t + unat late" using lt(1) late n(3) by (simp add: st_def unat_word_ariths)
  have skip: "t < tx_read_cursor sh \<and> ucast count \<le> late \<longleftrightarrow> unat t + ?n \<le> ?c"
    using late lt by (auto simp: word_le_nat_alt word_less_nat_alt unat_ucast64)
  have rest: "unat rest = ?n - unat late" if "\<not> unat t + ?n \<le> ?c"
  proof -
    have "(ucast late :: u32) = of_nat (unat late)" by simp
    then have "unat (ucast late :: u32) = unat late" using that late lt by (simp only: unat_of_nat) simp
    then show ?thesis using that late by (simp add: rest_def unat_sub word_le_nat_alt)
  qed
  have d: "unat (st - tx_read_cursor sh) = unat t + unat late - ?c" using st late by (simp add: unat_sub word_le_nat_alt)
  have "unat t + unat late - ?c < 16384" using n(1) late by (auto simp: near_def)
  then have room: "16384 \<le> st - tx_read_cursor sh \<or> 16384 - (st - tx_read_cursor sh) < ucast rest \<longleftrightarrow> \<not> accepts sh t count" if "\<not> unat t + ?n \<le> ?c"
    using d rest [OF that] late that n by (simp add: word_le_nat_alt word_less_nat_alt unat_sub unat_ucast64 accepts_def) linarith
  show thesis
  proof (cases "unat t + ?n \<le> ?c")
    case True
    then have "mix_aligned f s t count sh = (True, sh)" using skip ma by simp
    then show thesis using True lt(2) by (intro that [OF late st, of "word_of_nat (?n - unat late)"]) (simp_all add: unat_of_nat)
  next
    case False
    show thesis by (rule that [OF late st rest [OF False]]) (simp only: ma skip room [OF False])
  qed
qed

lemma raise_high_water_fields [simp]:
  "tx_read_cursor (raise_high_water h sh) = tx_read_cursor sh" "tx_initialized (raise_high_water h sh) = tx_initialized sh"
  "content (raise_high_water h sh) = content sh"
  by (simp_all add: raise_high_water_def)

text \<open>What a block mixed at a sample time does to the positions the ring can hold.\<close>

definition in_window :: "NS6TransportShared \<Rightarrow> nat \<Rightarrow> bool" where
  "in_window sh p \<longleftrightarrow> unat (tx_read_cursor sh) \<le> p \<and> p < unat (tx_read_cursor sh) + 16384"

definition covers :: "NS6TransportShared \<Rightarrow> u64 \<Rightarrow> u32 \<Rightarrow> nat \<Rightarrow> bool" where
  "covers sh t count p \<longleftrightarrow> accepts sh t count \<and> unat t \<le> p \<and> p < unat t + unat count"

definition mix_effect :: "AudioStreamBasicDescription \<Rightarrow> u8 list \<Rightarrow> u64 \<Rightarrow> u32 \<Rightarrow> NS6TransportShared \<Rightarrow> NS6TransportShared \<Rightarrow> bool" where
  "mix_effect f s t count sh sh' \<longleftrightarrow> tx_read_cursor sh' = tx_read_cursor sh \<and> tx_initialized sh' = tx_initialized sh \<and>
     (\<forall>p. in_window sh p \<longrightarrow> content sh' p =
       (if covers sh t count p then Some (mixed (content sh p) (input_frame f s (p - unat t))) else content sh p))"

lemma mix_result:
  assumes "near sh t" and "valid_format (Some f)"
  obtains sh' where "ns6_transport_mix_at_shared (Some sh) (Some s) t count (Some f) = (accepts sh t count, Some sh')" and "mix_effect f s t count sh sh'"
proof (cases "count \<noteq> 0 \<and> unat t + unat count < 2 ^ 64")
  case False
  then show thesis using assms by (intro that [of sh]) (auto simp: ns6_transport_mix_at_shared_def accepts_def block_end mix_effect_def covers_def)
next
  case True
  then have n: "count \<noteq> 0" "unat t + unat count < 2 ^ 64" by simp_all
  obtain late st :: u64 and rest :: u32 where e: "unat late = unat (tx_read_cursor sh) - unat t" "unat st = unat t + unat late" "unat rest = unat count - unat late"
      "mix_aligned f s t count sh =
      (if unat t + unat count \<le> unat (tx_read_cursor sh) then (True, sh) else if \<not> accepts sh t count then (False, sh)
       else (True, raise_high_water (st + ucast rest) (mix_frames f (drop (unat late * unat (mBytesPerFrame f)) s) st [0..<unat rest] sh)))"
    by (rule mix_aligned_eq [OF assms(1) n]) (rule that)
  have call: "ns6_transport_mix_at_shared (Some sh) (Some s) t count (Some f) = map_prod id Some (mix_aligned f s t count sh)"
    using n assms(2) near_aligned [OF assms(1)] by (simp add: ns6_transport_mix_at_shared_def block_end)
  let ?c = "unat (tx_read_cursor sh)"
  show thesis
  proof (cases "unat t + unat count \<le> ?c \<or> \<not> accepts sh t count")
    case True
    then have "mix_aligned f s t count sh = (accepts sh t count, sh)" using n by (auto simp: e(4) accepts_def)
    then show thesis using True by (intro that [of sh]) (auto simp: call mix_effect_def covers_def in_window_def)
  next
    case acc: False
    let ?sh = "raise_high_water (st + ucast rest) (mix_frames f (drop (unat late * unat (mBytesPerFrame f)) s) st [0..<unat rest] sh)"
    have "content ?sh p = (if unat t \<le> p \<and> p < unat t + unat count then Some (mixed (content sh p) (input_frame f s (p - unat t))) else content sh p)"
      if "?c \<le> p" "p < ?c + 16384" for p
    proof -
      have "content ?sh p = (if unat st \<le> p \<and> p < unat st + unat rest
          then Some (mixed (content sh p) (input_frame f (drop (unat late * unat (mBytesPerFrame f)) s) (p - unat st))) else content sh p)"
        unfolding raise_high_water_fields by (rule content_mix_frames [of ?c]) (use that e(1-3) acc n in \<open>auto simp: accepts_def\<close>)
      moreover have "unat st \<le> p \<and> p < unat st + unat rest \<longleftrightarrow> unat t \<le> p \<and> p < unat t + unat count" using that e(1-3) acc by auto
      moreover have "unat late + (p - unat st) = p - unat t" if "unat st \<le> p" using that e(2) by simp
      ultimately show ?thesis by (auto simp: input_frame_drop)
    qed
    moreover have "mix_aligned f s t count sh = (True, ?sh)" using acc by (simp add: e(4))
    ultimately show thesis using acc by (intro that [of ?sh]) (simp_all add: call mix_effect_def covers_def in_window_def)
  qed
qed

lemma mix_frame_commute: "mix_frame a b = mix_frame b a"
  by (simp add: mix_frame_def add.commute)

lemma mix_frame_lane:
  assumes "ch < 4"
  shows "unpack24 (drop (ch * 3) (mix_frame a b)) = saturate24 (unpack24 (drop (ch * 3) a) + unpack24 (drop (ch * 3) b))"
proof -
  have lane: "unpack24 (pack24 (saturate24 v) @ rest) = saturate24 v" for v rest
  proof -
    have "unpack24 (pack24 (saturate24 v) @ rest) = unpack24 (pack24 (saturate24 v))" by (simp add: unpack24_def nth_append)
    also have "\<dots> = saturate24 v" by (rule unpack24_pack24) (simp_all add: saturate24_def)
    finally show ?thesis .
  qed
  have "ch = 0 \<or> ch = 1 \<or> ch = 2 \<or> ch = 3" using assms by linarith
  then show ?thesis using lane [where rest = "[]"] by (auto simp: mix_frame_def concat4 lane)
qed

lemma mix_effect_accepts:
  "mix_effect f s t n sh sh' \<Longrightarrow> near sh' u = near sh u" "mix_effect f s t n sh sh' \<Longrightarrow> accepts sh' u m = accepts sh u m"
  "mix_effect f s t n sh sh' \<Longrightarrow> in_window sh' p = in_window sh p" "mix_effect f s t n sh sh' \<Longrightarrow> covers sh' u m p = covers sh u m p"
  by (simp_all add: mix_effect_def near_def accepts_def in_window_def covers_def)

text \<open>
  (C18) Two clients mixing into the same part of the timeline are independent of their order: when a running ring
  holds nothing yet in its window, both orders give both clients the same answer and leave the same frames at every position, and
  where both wrote, each channel is their sum saturated to 24 bits.
\<close>

theorem mix_order_independent:
  assumes "near sh ta" and "near sh tb" and "valid_format (Some fa)" and "valid_format (Some fb)"
    and "\<And>p. in_window sh p \<Longrightarrow> content sh p = None"
  shows "\<exists>ab ba.
    ns6_transport_mix_at_shared (snd (ns6_transport_mix_at_shared (Some sh) (Some a) ta na (Some fa))) (Some b) tb nb (Some fb) = (accepts sh tb nb, Some ab) \<and>
    ns6_transport_mix_at_shared (snd (ns6_transport_mix_at_shared (Some sh) (Some b) tb nb (Some fb))) (Some a) ta na (Some fa) = (accepts sh ta na, Some ba) \<and>
    (\<forall>p. in_window sh p \<longrightarrow> content ab p = content ba p \<and>
      (covers sh ta na p \<and> covers sh tb nb p \<longrightarrow> (\<forall>ch < 4. unpack24 (drop (ch * 3) (the (content ab p))) =
        saturate24 (unpack24 (drop (ch * 3) (input_frame fa a (p - unat ta))) + unpack24 (drop (ch * 3) (input_frame fb b (p - unat tb)))))))"
proof -
  obtain sa where a: "ns6_transport_mix_at_shared (Some sh) (Some a) ta na (Some fa) = (accepts sh ta na, Some sa)" "mix_effect fa a ta na sh sa"
    by (rule mix_result [OF assms(1,3)]) (rule that)
  obtain sb where b: "ns6_transport_mix_at_shared (Some sh) (Some b) tb nb (Some fb) = (accepts sh tb nb, Some sb)" "mix_effect fb b tb nb sh sb"
    by (rule mix_result [OF assms(2,4)]) (rule that)
  have n: "near sa tb" "near sb ta" using assms(1,2) mix_effect_accepts(1) a(2) b(2) by blast+
  obtain ab where ab: "ns6_transport_mix_at_shared (Some sa) (Some b) tb nb (Some fb) = (accepts sa tb nb, Some ab)" "mix_effect fb b tb nb sa ab"
    by (rule mix_result [OF n(1) assms(4)]) (rule that)
  obtain ba where ba: "ns6_transport_mix_at_shared (Some sb) (Some a) ta na (Some fa) = (accepts sb ta na, Some ba)" "mix_effect fa a ta na sb ba"
    by (rule mix_result [OF n(2) assms(3)]) (rule that)
  note same = mix_effect_accepts(2-4) [OF a(2)] mix_effect_accepts(2-4) [OF b(2)]
  have "content ab p = (if covers sh tb nb p then Some (mixed (content sa p) (input_frame fb b (p - unat tb))) else content sa p)"
    "content ba p = (if covers sh ta na p then Some (mixed (content sb p) (input_frame fa a (p - unat ta))) else content sb p)"
    "content sa p = (if covers sh ta na p then Some (input_frame fa a (p - unat ta)) else None)"
    "content sb p = (if covers sh tb nb p then Some (input_frame fb b (p - unat tb)) else None)" if "in_window sh p" for p
    using that a(2) b(2) ab(2) ba(2) assms(5) [OF that] by (simp_all add: mix_effect_def same mixed_def)
  then show ?thesis using ab(1) ba(1) by (auto simp: a(1) b(1) same mixed_def mix_frame_commute mix_frame_lane)
qed

text \<open>Witness for C0: two full-scale clients overlap at sample 101 of a ring that runs from sample 100.\<close>

definition mix_ring_example :: NS6TransportShared where
  "mix_ring_example = \<lparr>tx_samples = (\<lambda>_. []), tx_tags = (\<lambda>_. UINT64_MAX), tx_read_cursor = 100, tx_high_water = 100, tx_initialized = True\<rparr>"

definition full_scale_example :: "u8 list" where
  "full_scale_example = concat (replicate 8 [0, 0xff, 0xff, 0x7f])"

theorem mix_order_independent_witness:
  "\<exists>ab. ns6_transport_mix_at_shared (snd (ns6_transport_mix_at_shared (Some mix_ring_example) (Some full_scale_example) 100 2 (Some format_example)))
      (Some full_scale_example) 101 2 (Some format_example) = (True, Some ab) \<and>
    unpack24 (drop (1 * 3) (the (content ab 101))) = 8388607"
proof -
  have none: "content mix_ring_example p = None" if "in_window mix_ring_example p" for p
  proof -
    have "unat (of_nat p :: u64) = p" using that by (simp add: in_window_def mix_ring_example_def unat_of_nat)
    then have "(of_nat p :: u64) \<noteq> UINT64_MAX" using that
      by (auto simp: in_window_def mix_ring_example_def unsigned_minus_1_eq_mask mask_eq_exp_minus_1)
    then show ?thesis by (simp add: content_def mix_ring_example_def)
  qed
  have v: "valid_format (Some format_example)" by code_simp
  have f: "input_frame format_example full_scale_example 0 = concat (replicate 4 [0xff, 0xff, 0x7f])"
    "input_frame format_example full_scale_example 1 = concat (replicate 4 [0xff, 0xff, 0x7f])" by code_simp+
  have u: "unpack24 (drop 3 (concat (replicate 4 [0xff, 0xff, 0x7f]))) = 8388607" "saturate24 (8388607 + 8388607) = 8388607" by code_simp+
  have c: "near mix_ring_example 100" "near mix_ring_example 101" "accepts mix_ring_example 101 2" "in_window mix_ring_example 101"
      "covers mix_ring_example 100 2 101" "covers mix_ring_example 101 2 101"
    by (simp_all add: near_def accepts_def in_window_def covers_def mix_ring_example_def)
  let ?mix = "\<lambda>t sh. ns6_transport_mix_at_shared sh (Some full_scale_example) t 2 (Some format_example)"
  obtain ab where ab: "?mix 101 (snd (?mix 100 (Some mix_ring_example))) = (accepts mix_ring_example 101 2, Some ab)"
      "\<forall>ch < 4. unpack24 (drop (ch * 3) (the (content ab 101))) =
        saturate24 (unpack24 (drop (ch * 3) (input_frame format_example full_scale_example (101 - unat (100 :: u64)))) +
          unpack24 (drop (ch * 3) (input_frame format_example full_scale_example (101 - unat (101 :: u64)))))"
    using mix_order_independent [OF c(1,2) v v none, of full_scale_example 2 full_scale_example 2] c(4-6) by blast
  have "unpack24 (drop (1 * 3) (the (content ab 101))) = 8388607" using spec [OF ab(2), of 1] f u by simp
  then show ?thesis using ab(1) c(3) by auto
qed

end
