(* ===== verification/NS6_Metrics.thy ===== *)
theory NS6_Metrics
  imports NS6_Float
begin

unbundle bit_operations_syntax

text \<open>
  The measurements the audio path keeps: callback timing, frame timestamps, the flow of the active client, the
  per-client table of callback statistics, and the conversions between host time, nanoseconds and samples. The loops that
  raise or lower an atomic maximum or minimum end with the larger or smaller value; the fields of a record are updated one
  after the other by one thread.
\<close>

subsection \<open>USB timing\<close>

record NS6USBTiming =
  ut_last_ns :: u64
  ut_intervals :: u64
  ut_total_ns :: u64
  ut_min_ns :: u64
  ut_max_ns :: u64

record NS6USBTimingSnapshot =
  snap_intervals :: u64
  snap_total_ns :: u64
  snap_min_ns :: u64
  snap_max_ns :: u64

definition ns6_usb_timing_init :: "NS6USBTiming option \<Rightarrow> NS6USBTiming option" where
  "ns6_usb_timing_init timing =
     map_option (\<lambda>_. \<lparr>ut_last_ns = 0, ut_intervals = 0, ut_total_ns = 0, ut_min_ns = UINT64_MAX, ut_max_ns = 0\<rparr>) timing"

definition update_min :: "u64 \<Rightarrow> u64 \<Rightarrow> u64" where
  "update_min candidate value = (if candidate < value then candidate else value)"

definition update_max :: "u64 \<Rightarrow> u64 \<Rightarrow> u64" where
  "update_max candidate value = (if value < candidate then candidate else value)"

definition timing_add :: "u64 \<Rightarrow> NS6USBTiming \<Rightarrow> NS6USBTiming" where
  "timing_add interval t = t\<lparr>ut_intervals := ut_intervals t + 1, ut_total_ns := ut_total_ns t + interval,
     ut_min_ns := update_min interval (ut_min_ns t), ut_max_ns := update_max interval (ut_max_ns t)\<rparr>"

definition ns6_usb_timing_record :: "NS6USBTiming option \<Rightarrow> u64 \<Rightarrow> NS6USBTiming option" where
  "ns6_usb_timing_record timing timestamp_ns =
     (case timing of None \<Rightarrow> None | Some t \<Rightarrow>
      if timestamp_ns = 0 then Some t
      else let previous = ut_last_ns t; t = t\<lparr>ut_last_ns := timestamp_ns\<rparr>
        in Some (if previous = 0 \<or> timestamp_ns \<le> previous then t else timing_add (timestamp_ns - previous) t))"

definition ns6_usb_timing_record_duration :: "NS6USBTiming option \<Rightarrow> u64 \<Rightarrow> NS6USBTiming option" where
  "ns6_usb_timing_record_duration timing duration_ns = map_option (timing_add duration_ns) timing"

definition ns6_usb_timing_take_snapshot :: "NS6USBTiming option \<Rightarrow> NS6USBTimingSnapshot option \<Rightarrow>
    bool \<times> NS6USBTimingSnapshot option \<times> NS6USBTiming option" where
  "ns6_usb_timing_take_snapshot timing snapshot =
     (case (timing, snapshot) of
        (Some t, Some _) \<Rightarrow>
          (ut_intervals t \<noteq> 0,
           Some \<lparr>snap_intervals = ut_intervals t, snap_total_ns = ut_total_ns t, snap_min_ns = ut_min_ns t, snap_max_ns = ut_max_ns t\<rparr>,
           Some (t\<lparr>ut_intervals := 0, ut_total_ns := 0, ut_min_ns := UINT64_MAX, ut_max_ns := 0\<rparr>))
      | _ \<Rightarrow> (False, snapshot, timing))"

definition ns6_usb_timing_is_callback_gap :: "u64 \<Rightarrow> bool" where
  "ns6_usb_timing_is_callback_gap interval_ns \<longleftrightarrow> 20000000 \<le> interval_ns"

definition ns6_usb_timing_is_slow_submit :: "u64 \<Rightarrow> bool" where
  "ns6_usb_timing_is_slow_submit duration_ns \<longleftrightarrow> 5000000 \<le> duration_ns"

subsection \<open>Frame timestamps\<close>

text \<open>The two halves of the timestamp of an isochronous frame.\<close>

type_synonym frame_timestamp = "u32 \<times> u32"

record NS6USBFrameTimestampRange =
  ft_valid_frames :: u32
  ft_oldest_ticks :: u64
  ft_newest_ticks :: u64

definition ns6_usb_frame_timestamp_callback_lag_ticks :: "NS6USBFrameTimestampRange \<Rightarrow> u64 \<Rightarrow> u64 option \<Rightarrow> bool \<times> u64 option" where
  "ns6_usb_frame_timestamp_callback_lag_ticks rng callback_ticks lag_ticks =
     (if lag_ticks = None \<or> ft_valid_frames rng = 0 \<or> callback_ticks < ft_newest_ticks rng then (False, lag_ticks)
      else (True, Some (callback_ticks - ft_newest_ticks rng)))"

definition timestamp_value :: "frame_timestamp \<Rightarrow> u64" where
  "timestamp_value ts = push_bit 32 (ucast (fst ts)) OR ucast (snd ts)"

definition timestamp_add :: "frame_timestamp \<Rightarrow> NS6USBFrameTimestampRange \<Rightarrow> NS6USBFrameTimestampRange" where
  "timestamp_add ts r =
     (let timestamp = timestamp_value ts in
      if timestamp = 0 then r
      else let r1 = (if ft_valid_frames r = 0 \<or> timestamp < ft_oldest_ticks r then r\<lparr>ft_oldest_ticks := timestamp\<rparr> else r);
               r2 = (if ft_valid_frames r1 = 0 \<or> ft_newest_ticks r1 < timestamp then r1\<lparr>ft_newest_ticks := timestamp\<rparr> else r1)
           in r2\<lparr>ft_valid_frames := ft_valid_frames r2 + 1\<rparr>)"

definition ns6_usb_frame_timestamp_range :: "frame_timestamp list option \<Rightarrow> u32 \<Rightarrow> NS6USBFrameTimestampRange" where
  "ns6_usb_frame_timestamp_range frames count =
     (let rng = \<lparr>ft_valid_frames = 0, ft_oldest_ticks = 0, ft_newest_ticks = 0\<rparr>
      in case frames of None \<Rightarrow> rng | Some fs \<Rightarrow> fold (\<lambda>i. timestamp_add (fs ! i)) [0..<unat count] rng)"

subsection \<open>The active flow\<close>

record NS6ActiveFlow =
  af_frames :: u32
  af_client_id :: u32
  af_last_callback_tick :: u64

record NS6ActiveFlowSnapshot =
  fsn_frames :: u32
  fsn_client_id :: u32

definition ns6_active_flow_should_rearm :: "NS6ActiveFlowSnapshot \<Rightarrow> u32 \<Rightarrow> u32 \<Rightarrow> bool" where
  "ns6_active_flow_should_rearm flow queued_frames minimum_queued_frames \<longleftrightarrow>
     fsn_frames flow = 0 \<and> 0 < queued_frames \<and> queued_frames < minimum_queued_frames"

definition ns6_active_flow_record :: "NS6ActiveFlow \<Rightarrow> u32 \<Rightarrow> u32 \<Rightarrow> u64 \<Rightarrow> NS6ActiveFlow" where
  "ns6_active_flow_record flow frames client tick = flow\<lparr>af_frames := frames, af_client_id := client, af_last_callback_tick := tick\<rparr>"

definition ns6_active_flow_clear :: "NS6ActiveFlow \<Rightarrow> NS6ActiveFlow" where
  "ns6_active_flow_clear flow = flow\<lparr>af_last_callback_tick := 0, af_frames := 0, af_client_id := 0\<rparr>"

definition ns6_active_flow_snapshot :: "NS6ActiveFlow \<Rightarrow> u64 \<Rightarrow> u64 \<Rightarrow> NS6ActiveFlowSnapshot" where
  "ns6_active_flow_snapshot flow now max_age_ticks =
     (let last = af_last_callback_tick flow
      in if last \<noteq> 0 \<and> last \<le> now \<and> now - last < max_age_ticks
         then \<lparr>fsn_frames = af_frames flow, fsn_client_id = af_client_id flow\<rparr> else \<lparr>fsn_frames = 0, fsn_client_id = 0\<rparr>)"

subsection \<open>Host time, nanoseconds and samples\<close>

definition ns6_sample_time_from_nanos :: "u64 \<Rightarrow> u32 \<Rightarrow> u64 option \<Rightarrow> bool \<times> u64 option" where
  "ns6_sample_time_from_nanos nanoseconds sample_rate sample_time =
     (if sample_time = None \<or> sample_rate = 0 then (False, sample_time)
      else let seconds = nanoseconds div 1000000000; remainder = nanoseconds mod 1000000000;
               fractional_frames = remainder * ucast sample_rate div 1000000000
           in if (UINT64_MAX - fractional_frames) div ucast sample_rate < seconds then (False, sample_time)
              else (True, Some (seconds * ucast sample_rate + fractional_frames)))"

definition ns6_usb_realtime_duration_ticks :: "u64 \<Rightarrow> u32 \<Rightarrow> u32 \<Rightarrow> u64" where
  "ns6_usb_realtime_duration_ticks duration_ns numer denom =
     (if numer = 0 \<or> denom = 0 then 0
      else let scaled = ucast duration_ns * ucast denom :: 128 word;
               ticks = (scaled + ucast numer - 1) div ucast numer
           in if ucast (UINT64_MAX :: u64) < ticks then UINT64_MAX else ucast ticks)"

definition ns6_usb_realtime_deadline :: "u64 \<Rightarrow> u64 \<Rightarrow> u64" where
  "ns6_usb_realtime_deadline start duration_ticks =
     (if UINT64_MAX - start < duration_ticks then UINT64_MAX else start + duration_ticks)"

definition mach_ticks_to_ns :: "u32 \<Rightarrow> u32 \<Rightarrow> u64 \<Rightarrow> u64" where
  "mach_ticks_to_ns numer denom ticks =
     (if denom = 0 then 0
      else ticks div ucast denom * ucast numer + (ticks mod ucast denom * ucast numer) div ucast denom)"

definition ns6_zero_timestamp_keep_anchor :: "u64 \<Rightarrow> u64 \<Rightarrow> u64" where
  "ns6_zero_timestamp_keep_anchor anchor_host_time current_host_time = (if anchor_host_time \<noteq> 0 then anchor_host_time else current_host_time)"

text \<open>On the target \<^verbatim>\<open>long double\<close> is \<^verbatim>\<open>double\<close>.\<close>

definition ns6_zero_timestamp_calculate :: "u64 \<Rightarrow> u64 \<Rightarrow> u32 \<Rightarrow> u32 \<Rightarrow> flt \<Rightarrow> u64 \<times> u64" where
  "ns6_zero_timestamp_calculate anchor_host_time current_host_time timebase_numer timebase_denom sample_rate =
     (if current_host_time < anchor_host_time \<or> timebase_numer = 0 \<or> timebase_denom = 0 \<or> \<not> fless (dlit 0) sample_rate then (0, anchor_host_time)
      else let numer = double_of_nat (unat timebase_numer); denom = double_of_nat (unat timebase_denom);
               elapsed_ticks = double_of_nat (unat (current_host_time - anchor_host_time));
               elapsed_ns = fdiv f64 (fmul f64 elapsed_ticks numer) denom;
               frame = of_nat (trunc_sat 64 (fdiv f64 (fmul f64 elapsed_ns sample_rate) (dlit 1000000000))) :: u64;
               frame = frame - frame mod 16384;
               host_delta = fdiv f64 (fmul f64 (fdiv f64 (fmul f64 (double_of_nat (unat frame)) (dlit 1000000000)) sample_rate) denom) numer
           in (frame, anchor_host_time + of_nat (trunc_sat 64 host_delta)))"

subsection \<open>The table of callback statistics\<close>

record NS6IOClientMetrics =
  im_client_key :: u64
  im_calls :: u64
  im_frames :: u64
  im_last_cycle :: u64
  im_last_output_sample_time :: u64
  im_last_output_frames :: u32
  im_output_sample_time_valid :: bool
  im_duplicate_cycles :: u64
  im_skipped_cycles :: u64
  im_last_callback_start_ns :: u64
  im_interval_count :: u64
  im_interval_total_ns :: u64
  im_max_interval_ns :: u64
  im_max_callback_ns :: u64
  im_deadline_misses :: u64

type_synonym NS6IOMetrics = "NS6IOClientMetrics list"

record NS6IOMetricsSnapshot =
  ms_client_id :: u32
  ms_calls :: u64
  ms_frames :: u64
  ms_last_cycle :: u64
  ms_last_output_sample_time :: u64
  ms_last_output_frames :: u32
  ms_output_sample_time_valid :: bool
  ms_duplicate_cycles :: u64
  ms_skipped_cycles :: u64
  ms_interval_count :: u64
  ms_interval_total_ns :: u64
  ms_max_interval_ns :: u64
  ms_max_callback_ns :: u64
  ms_deadline_misses :: u64

definition client_zero :: NS6IOClientMetrics where
  "client_zero = \<lparr>im_client_key = 0, im_calls = 0, im_frames = 0, im_last_cycle = 0, im_last_output_sample_time = 0, im_last_output_frames = 0,
     im_output_sample_time_valid = False, im_duplicate_cycles = 0, im_skipped_cycles = 0, im_last_callback_start_ns = 0, im_interval_count = 0,
     im_interval_total_ns = 0, im_max_interval_ns = 0, im_max_callback_ns = 0, im_deadline_misses = 0\<rparr>"

definition ns6_io_metrics_init :: "NS6IOMetrics option \<Rightarrow> NS6IOMetrics option" where
  "ns6_io_metrics_init metrics = map_option (\<lambda>_. replicate 32 client_zero) metrics"

text \<open>The first slot that belongs to the client or is free; a free one is claimed.\<close>

fun client_slot :: "u64 \<Rightarrow> NS6IOMetrics \<Rightarrow> nat option" where
  "client_slot key [] = None"
| "client_slot key (s # ss) = (if im_client_key s = key \<or> im_client_key s = 0 then Some 0 else map_option Suc (client_slot key ss))"

definition with_client :: "NS6IOMetrics \<Rightarrow> u32 \<Rightarrow> (NS6IOClientMetrics \<Rightarrow> NS6IOClientMetrics) \<Rightarrow> NS6IOMetrics" where
  "with_client m client f =
     (let key = ucast client + 1
      in case client_slot key m of None \<Rightarrow> m | Some i \<Rightarrow> m[i := f ((m ! i)\<lparr>im_client_key := key\<rparr>)])"

definition count_cycle :: "u32 \<Rightarrow> u64 \<Rightarrow> NS6IOClientMetrics \<Rightarrow> NS6IOClientMetrics" where
  "count_cycle n cycle s =
     (let previous = im_last_cycle s;
          s = s\<lparr>im_calls := im_calls s + 1, im_frames := im_frames s + ucast n, im_last_cycle := cycle\<rparr>;
          s = (if cycle \<noteq> 0 \<and> previous = cycle then s\<lparr>im_duplicate_cycles := im_duplicate_cycles s + 1\<rparr> else s)
      in if cycle \<noteq> 0 \<and> previous \<noteq> 0 \<and> previous + 1 < cycle \<and> cycle - previous < 1024
         then s\<lparr>im_skipped_cycles := im_skipped_cycles s + (cycle - previous - 1)\<rparr> else s)"

definition ns6_io_metrics_record :: "NS6IOMetrics option \<Rightarrow> u32 \<Rightarrow> u32 \<Rightarrow> u64 \<Rightarrow> NS6IOMetrics option" where
  "ns6_io_metrics_record metrics client n cycle = map_option (\<lambda>m. with_client m client (count_cycle n cycle)) metrics"

definition count_times :: "u64 \<Rightarrow> u64 \<Rightarrow> u64 \<Rightarrow> NS6IOClientMetrics \<Rightarrow> NS6IOClientMetrics" where
  "count_times start_ns callback_ns deadline_ns s =
     (let previous = im_last_callback_start_ns s; s = s\<lparr>im_last_callback_start_ns := start_ns\<rparr>;
          s = (if start_ns \<noteq> 0 \<and> previous \<noteq> 0 \<and> previous < start_ns
               then s\<lparr>im_interval_count := im_interval_count s + 1, im_interval_total_ns := im_interval_total_ns s + (start_ns - previous),
                      im_max_interval_ns := update_max (start_ns - previous) (im_max_interval_ns s)\<rparr> else s);
          s = s\<lparr>im_max_callback_ns := update_max callback_ns (im_max_callback_ns s)\<rparr>
      in if deadline_ns \<noteq> 0 \<and> deadline_ns < callback_ns then s\<lparr>im_deadline_misses := im_deadline_misses s + 1\<rparr> else s)"

definition ns6_io_metrics_record_timed :: "NS6IOMetrics option \<Rightarrow> u32 \<Rightarrow> u32 \<Rightarrow> u64 \<Rightarrow> u64 \<Rightarrow> u64 \<Rightarrow> u64 \<Rightarrow> NS6IOMetrics option" where
  "ns6_io_metrics_record_timed metrics client n cycle start_ns callback_ns deadline_ns =
     map_option (\<lambda>m. with_client m client (\<lambda>s. count_times start_ns callback_ns deadline_ns (count_cycle n cycle s))) metrics"

definition ns6_io_metrics_record_output_timed :: "NS6IOMetrics option \<Rightarrow> u32 \<Rightarrow> u32 \<Rightarrow> u64 \<Rightarrow> u64 \<Rightarrow> bool \<Rightarrow> u64 \<Rightarrow> u64 \<Rightarrow> u64 \<Rightarrow>
    NS6IOMetrics option" where
  "ns6_io_metrics_record_output_timed metrics client n cycle sample_time valid start_ns callback_ns deadline_ns =
     map_option (\<lambda>m. with_client m client (\<lambda>s. s\<lparr>im_last_output_sample_time := sample_time, im_last_output_frames := n, im_output_sample_time_valid := valid\<rparr>))
       (ns6_io_metrics_record_timed metrics client n cycle start_ns callback_ns deadline_ns)"

definition client_snapshot :: "NS6IOClientMetrics \<Rightarrow> NS6IOMetricsSnapshot" where
  "client_snapshot s = \<lparr>ms_client_id = ucast (im_client_key s - 1), ms_calls = im_calls s, ms_frames = im_frames s, ms_last_cycle = im_last_cycle s,
     ms_last_output_sample_time = im_last_output_sample_time s, ms_last_output_frames = im_last_output_frames s,
     ms_output_sample_time_valid = im_output_sample_time_valid s, ms_duplicate_cycles = im_duplicate_cycles s, ms_skipped_cycles = im_skipped_cycles s,
     ms_interval_count = im_interval_count s, ms_interval_total_ns = im_interval_total_ns s, ms_max_interval_ns = im_max_interval_ns s,
     ms_max_callback_ns = im_max_callback_ns s, ms_deadline_misses = im_deadline_misses s\<rparr>"

definition client_reset :: "NS6IOClientMetrics \<Rightarrow> NS6IOClientMetrics" where
  "client_reset s = s\<lparr>im_calls := 0, im_frames := 0, im_duplicate_cycles := 0, im_skipped_cycles := 0, im_interval_count := 0, im_interval_total_ns := 0,
     im_max_interval_ns := 0, im_max_callback_ns := 0, im_deadline_misses := 0\<rparr>"

fun snapshot_clients :: "nat \<Rightarrow> NS6IOMetrics \<Rightarrow> NS6IOMetricsSnapshot list \<times> NS6IOMetrics" where
  "snapshot_clients capacity [] = ([], [])"
| "snapshot_clients capacity (s # ss) =
     (if capacity = 0 then ([], s # ss)
      else if im_client_key s = 0 then (case snapshot_clients capacity ss of (snaps, ss) \<Rightarrow> (snaps, s # ss))
      else (case snapshot_clients (capacity - 1) ss of (snaps, ss) \<Rightarrow> (client_snapshot s # snaps, client_reset s # ss)))"

definition ns6_io_metrics_take_snapshot :: "NS6IOMetrics option \<Rightarrow> NS6IOMetricsSnapshot list option \<Rightarrow> nat \<Rightarrow>
    nat \<times> NS6IOMetricsSnapshot list option \<times> NS6IOMetrics option" where
  "ns6_io_metrics_take_snapshot metrics snapshots capacity =
     (case (metrics, snapshots) of
        (Some m, Some out) \<Rightarrow> if capacity = 0 then (0, snapshots, metrics)
          else (case snapshot_clients capacity m of (snaps, m) \<Rightarrow> (length snaps, Some (overwrite 0 snaps out), Some m))
      | _ \<Rightarrow> (0, snapshots, metrics))"

subsection \<open>Exact conversions\<close>

lemma UINT64_MAX_nat: "unat UINT64_MAX = 2 ^ 64 - 1"
  by (simp add: unsigned_minus_1_eq_mask mask_eq_exp_minus_1)

lemma unat_ucast_u32: "unat (ucast (w :: u32) :: u64) = unat w" "unat (ucast w :: 128 word) = unat w" "unat (ucast (v :: u64) :: 128 word) = unat v"
  by (rule unat_ucast_up, simp)+

lemma whole_samples:
  assumes "rate \<noteq> 0"
  shows "ns6_sample_time_from_nanos ns rate (Some t) =
      (if unat ns * unat rate div 1000000000 < 2 ^ 64 then (True, Some (of_nat (unat ns * unat rate div 1000000000))) else (False, Some t))"
proof -
  let ?N = "unat ns" and ?R = "unat rate"
  let ?r = "?N mod 1000000000" and ?s = "?N div 1000000000"
  let ?f = "?r * ?R div 1000000000"
  define frac where "frac = ns mod 1000000000 * ucast rate div 1000000000"
  define sec where "sec = ns div 1000000000"
  have R: "0 < ?R" "?R < 2 ^ 32" using assms u32_less [of rate] by (simp_all add: unat_gt_0)
  have "?r * ?R < 1000000000 * 2 ^ 32" using R by (intro mult_strict_mono) auto
  moreover have "unat (ns mod 1000000000 * ucast rate) = ?r * ?R mod 2 ^ 64" by (simp add: unat_word_ariths unat_mod unat_ucast_u32)
  ultimately have f: "unat frac = ?f" by (simp add: frac_def unat_div)
  have s: "unat sec = ?s" by (simp add: sec_def unat_div)
  have total: "?N * ?R div 1000000000 = ?s * ?R + ?f"
  proof -
    have "?N * ?R = (?s * 1000000000 + ?r) * ?R" by (simp only: div_mult_mod_eq)
    then have "?N * ?R = (?s * ?R) * 1000000000 + ?r * ?R" by (simp only: add_mult_distrib add_mult_distrib2 ac_simps)
    then show ?thesis by simp
  qed
  have "unat ((UINT64_MAX - frac) div ucast rate) = (2 ^ 64 - 1 - ?f) div ?R"
    by (simp add: unat_div unat_ucast_u32 unat_sub UINT64_MAX_nat f)
  then have c: "(UINT64_MAX - frac) div ucast rate < sec \<longleftrightarrow> \<not> ?s * ?R + ?f < 2 ^ 64"
    using R(1) f u64_less [of frac] by (simp add: word_less_nat_alt s div_less_iff_less_mult) linarith
  have "sec * ucast rate + frac = of_nat (unat sec * unat (ucast rate :: u64) + unat frac)" by (simp add: word_of_unat)
  then have "sec * ucast rate + frac = of_nat (?s * ?R + ?f)" by (simp only: f s unat_ucast_u32)
  then show ?thesis using assms c by (simp add: ns6_sample_time_from_nanos_def Let_def total frac_def sec_def)
qed

lemma ticks_rounded_up:
  assumes "numer \<noteq> 0" and "denom \<noteq> 0"
  shows "unat (ns6_usb_realtime_duration_ticks ns numer denom) = min ((unat ns * unat denom + unat numer - 1) div unat numer) (2 ^ 64 - 1)"
proof -
  let ?D = "unat ns * unat denom" and ?n = "unat numer"
  define ticks where "ticks = (ucast ns * ucast denom + ucast numer - 1) div (ucast numer :: 128 word)"
  have "?D \<le> 2 ^ 64 * 2 ^ 32" using u64_less [of ns] u32_less [of denom] by (intro mult_mono) auto
  moreover have n: "0 < ?n" "?n < 2 ^ 32" using assms(1) u32_less [of numer] by (simp_all add: unat_gt_0)
  ultimately have small: "?D + ?n < 2 ^ 128" by simp
  have "ucast ns * ucast denom + ucast numer - 1 = (of_nat (?D + ?n - 1) :: 128 word)"
    using n(1) by (simp add: of_nat_diff Suc_leI)
  then have t: "unat ticks = (?D + ?n - 1) div ?n" using small by (simp add: ticks_def unat_div unat_of_nat unat_ucast_u32)
  have m: "unat (ucast UINT64_MAX :: 128 word) = 2 ^ 64 - 1" by (simp add: unat_ucast_u32 UINT64_MAX_nat)
  have "unat (ucast ticks :: u64) = unat ticks" if "unat ticks \<le> 2 ^ 64 - 1"
  proof -
    have "(ucast ticks :: u64) = of_nat (unat ticks)" by simp
    then show ?thesis using that by (simp only: unat_of_nat) simp
  qed
  then show ?thesis using assms t m
    by (auto simp: ns6_usb_realtime_duration_ticks_def Let_def ticks_def [symmetric] word_less_nat_alt UINT64_MAX_nat min_def)
qed

lemma deadline_saturates: "unat (ns6_usb_realtime_deadline start ticks) = min (unat start + unat ticks) (2 ^ 64 - 1)"
proof -
  have "unat (UINT64_MAX - start) = 2 ^ 64 - 1 - unat start" by (subst unat_sub) (simp_all add: UINT64_MAX_nat)
  then show ?thesis
    using u64_less [of start] by (auto simp: ns6_usb_realtime_deadline_def word_less_nat_alt UINT64_MAX_nat unat_word_ariths)
qed

text \<open>
  (C34) The conversions round exactly once: the sample time of a nanosecond count is the whole number of samples in it and the function fails
  exactly when that number has more than 64 bits, a duration is converted to ticks rounding up and saturating, and a deadline saturates.
\<close>

theorem time_conversions_exact:
  assumes "rate \<noteq> 0" and "numer \<noteq> 0" and "denom \<noteq> 0"
  shows "ns6_sample_time_from_nanos ns rate (Some t) =
      (if unat ns * unat rate div 1000000000 < 2 ^ 64 then (True, Some (of_nat (unat ns * unat rate div 1000000000))) else (False, Some t)) \<and>
    unat (ns6_usb_realtime_duration_ticks ns numer denom) = min ((unat ns * unat denom + unat numer - 1) div unat numer) (2 ^ 64 - 1) \<and>
    unat (ns6_usb_realtime_deadline start ticks) = min (unat start + unat ticks) (2 ^ 64 - 1)"
  using whole_samples [OF assms(1)] ticks_rounded_up [OF assms(2,3)] deadline_saturates by blast

text \<open>Witness for C0: 1.5 seconds at 44.1 kHz, and a timebase of 125/3.\<close>

theorem time_conversions_exact_witness:
  "ns6_sample_time_from_nanos 1500000000 44100 (Some 0) = (True, Some 66150) \<and>
   unat (ns6_usb_realtime_duration_ticks 1000 125 3) = 24"
  using time_conversions_exact [of 44100 125 3 1500000000 0 0 0] time_conversions_exact [of 44100 125 3 1000 0 0 0] by simp

subsection \<open>No callback is lost\<close>

text \<open>The calls and frames a table or a list of snapshots holds for a client.\<close>

definition key_of :: "u32 \<Rightarrow> u64" where
  "key_of client = ucast client + 1"

definition held :: "(NS6IOClientMetrics \<Rightarrow> u64) \<Rightarrow> u32 \<Rightarrow> NS6IOMetrics \<Rightarrow> u64" where
  "held count client m = sum_list (map (\<lambda>s. if im_client_key s = key_of client then count s else 0) m)"

definition reported :: "(NS6IOMetricsSnapshot \<Rightarrow> u64) \<Rightarrow> u32 \<Rightarrow> NS6IOMetricsSnapshot list \<Rightarrow> u64" where
  "reported count client snaps = sum_list (map (\<lambda>s. if ms_client_id s = client then count s else 0) snaps)"

lemma key_of_inj [simp]: "key_of a = key_of b \<longleftrightarrow> a = b" "key_of a \<noteq> 0" "ucast (key_of a - 1) = a"
proof -
  have u: "unat (key_of a) = unat a + 1" for a
    using u32_less [of a] by (simp add: key_of_def unat_word_ariths unat_ucast_u32)
  then show "key_of a = key_of b \<longleftrightarrow> a = b" by (metis add_right_cancel unsigned_word_eqI)
  show "key_of a \<noteq> 0" using u [of a] by auto
  have "(ucast (ucast a :: u64) :: u32) = a" by (rule bit_word_eqI) (simp add: bit_unsigned_iff)
  then show "ucast (key_of a - 1) = a" by (simp add: key_of_def)
qed

definition table_ok :: "u32 list \<Rightarrow> NS6IOMetrics \<Rightarrow> bool" where
  "table_ok clients m \<longleftrightarrow> map im_client_key m = map key_of clients @ replicate (32 - length clients) 0 \<and> distinct clients \<and> length clients \<le> 32 \<and>
     (\<forall>s \<in> set m. im_client_key s = 0 \<longrightarrow> im_calls s = 0 \<and> im_frames s = 0)"

lemma client_slot_prefix:
  "map im_client_key m = map key_of cs @ replicate n 0 \<Longrightarrow> c \<in> set cs \<or> 0 < n \<Longrightarrow>
   \<exists>i. client_slot (key_of c) m = Some i \<and> i < length m \<and> (if c \<in> set cs then i < length cs \<and> cs ! i = c else i = length cs)"
proof (induction m arbitrary: cs)
  case (Cons s m)
  show ?case
  proof (cases cs)
    case Nil
    then show ?thesis using Cons.prems by (cases n) auto
  next
    case (Cons d ds)
    then have s: "im_client_key s = key_of d" "map im_client_key m = map key_of ds @ replicate n 0" using Cons.prems by simp_all
    show ?thesis
    proof (cases "d = c")
      case False
      then obtain i where "client_slot (key_of c) m = Some i" "i < length m" "if c \<in> set ds then i < length ds \<and> ds ! i = c else i = length ds"
        using Cons.IH [OF s(2)] Cons.prems(2) Cons by auto
      then show ?thesis using False s Cons by (intro exI [of _ "Suc i"]) (auto split: if_splits)
    qed (use s Cons in auto)
  qed
qed auto

lemma sum_list_update_group: "i < length xs \<Longrightarrow> sum_list (xs[i := y]) = sum_list xs + y - xs ! i" for y :: "'a :: ab_group_add"
proof (induction xs arbitrary: i)
  case (Cons x xs)
  then show ?case by (cases i) (simp_all add: algebra_simps)
qed simp

lemma held_update:
  assumes "i < length m" and "im_client_key (m ! i) = key_of c \<or> im_client_key (m ! i) = 0 \<and> count (m ! i) = 0"
    and "im_client_key x = key_of c"
  shows "held count d (m[i := x]) = held count d m + (if d = c then count x - count (m ! i) else 0)"
proof -
  let ?f = "\<lambda>s. if im_client_key s = key_of d then count s else 0"
  have "sum_list (map ?f (m[i := x])) = sum_list ((map ?f m)[i := ?f x])" by (simp add: map_update)
  also have "\<dots> = sum_list (map ?f m) + ?f x - ?f (m ! i)"
    using assms(1) by (subst sum_list_update_group) simp_all
  finally show ?thesis using assms(2,3) by (auto simp: held_def)
qed

lemma with_client_held:
  assumes ok: "table_ok cs m" and room: "c \<in> set cs \<or> length cs < 32"
    and g: "\<And>s. im_client_key (g s) = im_client_key s \<and> im_calls (g s) = im_calls s + k \<and> im_frames (g s) = im_frames s + n"
  shows "table_ok (if c \<in> set cs then cs else cs @ [c]) (with_client m c g)"
    and "held im_calls d (with_client m c g) = held im_calls d m + (if d = c then k else 0)"
    and "held im_frames d (with_client m c g) = held im_frames d m + (if d = c then n else 0)"
proof -
  have keys: "map im_client_key m = map key_of cs @ replicate (32 - length cs) 0" using ok by (simp add: table_ok_def)
  have len: "length m = 32" using arg_cong [OF keys, of length] ok by (simp add: table_ok_def)
  obtain i where i: "client_slot (key_of c) m = Some i" "i < length m" "if c \<in> set cs then i < length cs \<and> cs ! i = c else i = length cs"
    using client_slot_prefix [OF keys, of c] room by auto
  have key: "im_client_key (m ! i) = (if c \<in> set cs then key_of c else 0)"
    using arg_cong [OF keys, of "\<lambda>xs. xs ! i"] i(2,3) len by (auto simp: nth_append split: if_splits)
  let ?x = "g ((m ! i)\<lparr>im_client_key := key_of c\<rparr>)"
  have w: "with_client m c g = m[i := ?x]" by (simp add: with_client_def key_of_def [symmetric] i(1))
  have zero: "im_client_key (m ! i) = key_of c \<or> im_client_key (m ! i) = 0 \<and> im_calls (m ! i) = 0 \<and> im_frames (m ! i) = 0"
    using key ok i(2) by (auto simp: table_ok_def split: if_splits)
  have x: "im_client_key ?x = key_of c" "im_calls ?x = im_calls (m ! i) + k" "im_frames ?x = im_frames (m ! i) + n" using g by simp_all
  show "held im_calls d (with_client m c g) = held im_calls d m + (if d = c then k else 0)"
    "held im_frames d (with_client m c g) = held im_frames d m + (if d = c then n else 0)"
    unfolding w using held_update [OF i(2) _ x(1)] zero x by auto
  have "map im_client_key (m[i := ?x]) = (map im_client_key m)[i := key_of c]" using x(1) by (simp add: map_update)
  also have "\<dots> = map key_of (if c \<in> set cs then cs else cs @ [c]) @ replicate (32 - length (if c \<in> set cs then cs else cs @ [c])) 0"
  proof (cases "c \<in> set cs")
    case True
    then show ?thesis using i(3) by (simp add: keys list_update_append) (metis list_update_id map_update)
  next
    case False
    then have "32 - length cs = Suc (32 - Suc (length cs))" using room by auto
    then show ?thesis using False i(3) by (simp add: keys list_update_append)
  qed
  finally show "table_ok (if c \<in> set cs then cs else cs @ [c]) (with_client m c g)"
    unfolding w table_ok_def using ok room x(1) by (auto simp: table_ok_def dest!: set_update_subset_insert [THEN subsetD])
qed

lemma snapshot_held:
  "\<forall>s \<in> set m. im_client_key s = 0 \<or> (\<exists>d. im_client_key s = key_of d) \<Longrightarrow> snapshot_clients cap m = (snaps, m') \<Longrightarrow>
   reported ms_calls c snaps + held im_calls c m' = held im_calls c m \<and> reported ms_frames c snaps + held im_frames c m' = held im_frames c m \<and>
   map im_client_key m' = map im_client_key m \<and> (\<forall>s' \<in> set m'. \<exists>s \<in> set m. s' = s \<or> s' = client_reset s)"
proof (induction m arbitrary: cap snaps m')
  case (Cons s m)
  show ?case
  proof (cases "cap = 0 \<or> im_client_key s = 0")
    case True
    obtain sn m1 where r: "snapshot_clients cap m = (sn, m1)" by fastforce
    show ?thesis
    proof (cases "cap = 0")
      case True
      then show ?thesis using Cons.prems by (auto simp: reported_def)
    next
      case False
      then show ?thesis using True Cons.IH [OF _ r] Cons.prems r by (auto simp: held_def)
    qed
  next
    case False
    obtain sn m1 where r: "snapshot_clients (cap - 1) m = (sn, m1)" by fastforce
    then have e: "snaps = client_snapshot s # sn" "m' = client_reset s # m1" using False Cons.prems(2) by auto
    obtain d where "im_client_key s = key_of d" using Cons.prems(1) False by auto
    then have "ms_client_id (client_snapshot s) = c \<longleftrightarrow> im_client_key s = key_of c" by (auto simp: client_snapshot_def)
    then show ?thesis using Cons.IH [OF _ r] Cons.prems(1) unfolding e
      by (auto simp: held_def reported_def client_snapshot_def client_reset_def algebra_simps)
  qed
qed (auto simp: reported_def held_def)

datatype metrics_op = MRecord u32 u32 u64 | MRecordTimed u32 u32 u64 u64 u64 u64 | MSnapshot nat

fun metrics_step :: "metrics_op \<Rightarrow> NS6IOMetrics \<Rightarrow> NS6IOMetricsSnapshot list \<times> NS6IOMetrics" where
  "metrics_step (MRecord c n cycle) m = ([], the (ns6_io_metrics_record (Some m) c n cycle))"
| "metrics_step (MRecordTimed c n cycle start callback deadline) m = ([], the (ns6_io_metrics_record_timed (Some m) c n cycle start callback deadline))"
| "metrics_step (MSnapshot capacity) m =
     (case ns6_io_metrics_take_snapshot (Some m) (Some []) capacity of (_, snaps, m') \<Rightarrow> (the snaps, the m'))"

text \<open>The client and the frames a recording operation counts.\<close>

fun recorded :: "metrics_op \<Rightarrow> (u32 \<times> u32) list" where
  "recorded (MRecord c n cycle) = [(c, n)]"
| "recorded (MRecordTimed c n cycle start callback deadline) = [(c, n)]"
| "recorded (MSnapshot capacity) = []"

lemma count_fields:
  "im_client_key (count_cycle n cycle s) = im_client_key s" "im_calls (count_cycle n cycle s) = im_calls s + 1"
  "im_frames (count_cycle n cycle s) = im_frames s + ucast n" "im_client_key (count_times a b e s) = im_client_key s"
  "im_calls (count_times a b e s) = im_calls s" "im_frames (count_times a b e s) = im_frames s"
  by (simp_all add: count_cycle_def count_times_def Let_def)

text \<open>What the operations recorded for a client.\<close>

definition counted_calls :: "u32 \<Rightarrow> metrics_op list \<Rightarrow> u64" where
  "counted_calls c ops = sum_list (map (\<lambda>e. if fst e = c then 1 else 0) (concat (map recorded ops)))"

definition counted_frames :: "u32 \<Rightarrow> metrics_op list \<Rightarrow> u64" where
  "counted_frames c ops = sum_list (map (\<lambda>e. if fst e = c then ucast (snd e) else 0) (concat (map recorded ops)))"

definition clients_of :: "metrics_op list \<Rightarrow> u32 set" where
  "clients_of ops = fst ` set (concat (map recorded ops))"

lemma table_ok_keys: "table_ok cs m \<Longrightarrow> \<forall>s \<in> set m. im_client_key s = 0 \<or> (\<exists>d. im_client_key s = key_of d)"
proof
  fix s
  assume "table_ok cs m" and "s \<in> set m"
  then have "im_client_key s \<in> set (map key_of cs @ replicate (32 - length cs) 0)" unfolding table_ok_def by (metis image_eqI list.set_map)
  then show "im_client_key s = 0 \<or> (\<exists>d. im_client_key s = key_of d)" by auto
qed

lemma snapshot_step:
  assumes "table_ok cs m" and "metrics_step (MSnapshot cap) m = (snaps, m')"
  shows "table_ok cs m'" and "reported ms_calls c snaps + held im_calls c m' = held im_calls c m"
    and "reported ms_frames c snaps + held im_frames c m' = held im_frames c m"
proof -
  obtain sn m1 where r: "snapshot_clients cap m = (sn, m1)" by fastforce
  have h: "reported ms_calls c sn + held im_calls c m1 = held im_calls c m" "reported ms_frames c sn + held im_frames c m1 = held im_frames c m"
    "map im_client_key m1 = map im_client_key m" "\<forall>s' \<in> set m1. \<exists>s \<in> set m. s' = s \<or> s' = client_reset s" for c
    using snapshot_held [OF table_ok_keys [OF assms(1)] r] by blast+
  have e: "cap = 0 \<and> snaps = [] \<and> m' = m \<or> snaps = sn \<and> m' = m1"
    using assms(2) r by (auto simp: ns6_io_metrics_take_snapshot_def overwrite_def split: if_splits)
  have "table_ok cs m1" using assms(1) h(3,4) unfolding table_ok_def by (fastforce simp: client_reset_def)
  then show "table_ok cs m'" using e assms(1) by auto
  show "reported ms_calls c snaps + held im_calls c m' = held im_calls c m" "reported ms_frames c snaps + held im_frames c m' = held im_frames c m"
    using e h(1,2) by (auto simp: reported_def)
qed

lemma record_step:
  assumes "table_ok cs m" and "recorded op = [(c, n)]" and "c \<in> set cs \<or> length cs < 32" and "metrics_step op m = (snaps, m')"
  shows "snaps = []" and "table_ok (if c \<in> set cs then cs else cs @ [c]) m'"
    and "held im_calls d m' = held im_calls d m + (if d = c then 1 else 0)" and "held im_frames d m' = held im_frames d m + (if d = c then ucast n else 0)"
proof -
  obtain g where g: "snaps = []" "m' = with_client m c g"
      "\<And>s. im_client_key (g s) = im_client_key s \<and> im_calls (g s) = im_calls s + 1 \<and> im_frames (g s) = im_frames s + ucast n"
    using assms(2,4) by (cases op) (auto simp: ns6_io_metrics_record_def ns6_io_metrics_record_timed_def count_fields)
  show "snaps = []" "table_ok (if c \<in> set cs then cs else cs @ [c]) m'"
    "held im_calls d m' = held im_calls d m + (if d = c then 1 else 0)" "held im_frames d m' = held im_frames d m + (if d = c then ucast n else 0)"
    using with_client_held [OF assms(1,3) g(3)] g(1,2) by simp_all
qed

lemma metrics_run:
  "table_ok cs m \<Longrightarrow> card (set cs \<union> clients_of ops) \<le> 32 \<Longrightarrow> run_ops metrics_step ops m = (rs, m') \<Longrightarrow>
   reported ms_calls c (concat rs) + held im_calls c m' = held im_calls c m + counted_calls c ops \<and>
   reported ms_frames c (concat rs) + held im_frames c m' = held im_frames c m + counted_frames c ops"
proof (induction ops arbitrary: cs m rs m')
  case (Cons op ops)
  obtain r m1 where s: "metrics_step op m = (r, m1)" by fastforce
  obtain rs1 m2 where run: "run_ops metrics_step ops m1 = (rs1, m2)" by fastforce
  have e: "rs = r # rs1" "m' = m2" using Cons.prems(3) s run by simp_all
  have app: "reported f c (r @ xs) = reported f c r + reported f c xs" for f xs by (simp add: reported_def)
  show ?case
  proof (cases "recorded op")
    case Nil
    then obtain cap where op: "op = MSnapshot cap" by (cases op) auto
    note st = snapshot_step [OF Cons.prems(1) s [unfolded op]]
    have "card (set cs \<union> clients_of ops) \<le> 32" using Cons.prems(2) by (simp add: clients_of_def op)
    from Cons.IH [OF st(1) this run] show ?thesis unfolding e st(2,3) [of c, symmetric]
      by (simp add: app op counted_calls_def counted_frames_def add.assoc)
  next
    case rec: (Cons x xs)
    then obtain d n where op: "recorded op = [(d, n)]" by (cases op) auto
    let ?cs = "if d \<in> set cs then cs else cs @ [d]"
    have all: "set ?cs \<union> clients_of ops = set cs \<union> clients_of (op # ops)" by (auto simp: clients_of_def op)
    have "card (insert d (set cs)) \<le> card (set cs \<union> clients_of (op # ops))" by (rule card_mono) (auto simp: clients_of_def op)
    then have "card (insert d (set cs)) \<le> 32" using Cons.prems(2) by linarith
    then have room: "d \<in> set cs \<or> length cs < 32" using Cons.prems(1) by (cases "d \<in> set cs") (auto simp: table_ok_def distinct_card)
    note st = record_step [OF Cons.prems(1) op room s]
    from Cons.IH [OF st(2) Cons.prems(2) [folded all] run] st(3,4) [of c] show ?thesis unfolding e st(1)
      by (simp add: op counted_calls_def counted_frames_def algebra_simps)
  qed
qed (simp add: reported_def counted_calls_def counted_frames_def)

text \<open>
  (C20) The statistics lose no callback: for up to 32 clients and any sequence of recordings and snapshots, what the snapshots reported for a client
  and what the table still holds are together exactly the calls and the frames recorded for it.
\<close>

theorem metrics_conserve:
  assumes "card (clients_of ops) \<le> 32" and "run_ops metrics_step ops (the (ns6_io_metrics_init (Some m0))) = (rs, m)"
  shows "reported ms_calls c (concat rs) + held im_calls c m = counted_calls c ops \<and>
    reported ms_frames c (concat rs) + held im_frames c m = counted_frames c ops"
proof -
  let ?m = "replicate 32 client_zero"
  have "table_ok [] ?m" by (simp add: table_ok_def client_zero_def)
  moreover have "held im_calls c ?m = 0" "held im_frames c ?m = 0" by (simp_all add: held_def client_zero_def sum_list_replicate)
  ultimately show ?thesis using metrics_run [of "[]" ?m ops rs m c] assms by (simp add: ns6_io_metrics_init_def)
qed

text \<open>Witness for C0: two callbacks of client 7 around a snapshot.\<close>

theorem metrics_conserve_witness:
  "\<exists>rs m. run_ops metrics_step [MRecord 7 64 1, MSnapshot 4, MRecordTimed 7 32 2 100 10 0] (the (ns6_io_metrics_init (Some []))) = (rs, m) \<and>
     reported ms_frames 7 (concat rs) + held im_frames 7 m = 96"
proof -
  let ?ops = "[MRecord 7 64 1, MSnapshot 4, MRecordTimed 7 32 2 100 10 0]"
  obtain rs m where run: "run_ops metrics_step ?ops (the (ns6_io_metrics_init (Some []))) = (rs, m)" by fastforce
  have "card (clients_of ?ops) \<le> 32" by (simp add: clients_of_def)
  from metrics_conserve [OF this run, of 7] run show ?thesis by (auto simp: counted_frames_def)
qed

end
