(* ===== verification/NS6_MidiReads.thy ===== *)
theory NS6_MidiReads
  imports NS6_Midi
begin

text \<open>
  The MIDI side of the first driver: the headers \<^verbatim>\<open>coreaudio/NS6MIDIParser.h\<close>, \<^verbatim>\<open>NS6MIDIRecovery.h\<close>, \<^verbatim>\<open>NS6MIDIReadLifecycle.h\<close>,
  \<^verbatim>\<open>NS6MIDILease.h\<close>, \<^verbatim>\<open>NS6MIDIHandshake.h\<close> and the module \<^verbatim>\<open>coreaudio/NS6MIDI.c\<close>. The module's static variables are the
  record \<open>ns6_midi\<close>; the USB stack is the environment of \<open>NS6_USB\<close>. The name \<^verbatim>\<open>input_polling\<close>, the flags \<^verbatim>\<open>in_flight_read_mask\<close> and
  the procedure \<^verbatim>\<open>refresh_input_polling\<close> are used by the module and declared nowhere: they are arguments of the definitions that use them.
\<close>

unbundle bit_operations_syntax

subsection \<open>Parser of the report stream\<close>

record ns6_midi_parser =
  np_message :: "u8 list"
  np_used :: u8
  np_expected :: u8

definition ns6_midi_parser_zero :: ns6_midi_parser where
  "ns6_midi_parser_zero = \<lparr>np_message = [0, 0, 0], np_used = 0, np_expected = 0\<rparr>"

definition ns6_midi_report_stream_length :: "nat \<Rightarrow> nat" where
  "ns6_midi_report_stream_length len = (if 41 < len then 41 else len)"

text \<open>One turn of the loop; the list is what has been written to an output buffer of the given capacity.\<close>

definition parse_byte :: "nat \<Rightarrow> u8 \<Rightarrow> ns6_midi_parser \<times> u8 list \<Rightarrow> ns6_midi_parser \<times> u8 list" where
  "parse_byte capacity byte = (\<lambda>(p, written).
     if byte = 0xfd then (p, written)
     else if byte AND 0x80 \<noteq> 0 then
       (let p = p\<lparr>np_used := 0, np_expected := 0\<rparr>
        in if 0x80 \<le> byte \<and> byte \<le> 0xef
           then (p\<lparr>np_message := (np_message p)[0 := byte], np_used := 1, np_expected := (if 0xc0 \<le> byte \<and> byte \<le> 0xdf then 2 else 3)\<rparr>, written)
           else (p, written))
     else if np_expected p = 0 \<or> 3 \<le> np_used p then (p, written)
     else let p = p\<lparr>np_message := (np_message p)[unat (np_used p) := byte], np_used := np_used p + 1\<rparr>
          in if np_used p = np_expected p
             then (p\<lparr>np_used := 0, np_expected := 0\<rparr>,
                   if capacity < length written + unat (np_expected p) then written
                   else written @ take (unat (np_expected p)) (np_message p))
             else (p, written))"

definition ns6_midi_parser_feed :: "ns6_midi_parser option \<Rightarrow> u8 list option \<Rightarrow> nat \<Rightarrow> bool \<Rightarrow> nat \<Rightarrow> ns6_midi_parser option \<times> u8 list" where
  "ns6_midi_parser_feed parser input len output capacity =
     (case (parser, input) of
        (Some p, Some bytes) \<Rightarrow>
          if output then (case fold (parse_byte capacity) (take len bytes) (p, []) of (p, written) \<Rightarrow> (Some p, written))
          else (parser, [])
      | _ \<Rightarrow> (parser, []))"

subsection \<open>Recovery masks\<close>

abbreviation NS6_MIDI_RECOVERY_SLOTS :: nat where "NS6_MIDI_RECOVERY_SLOTS \<equiv> 4"

datatype ns6_midi_error_class = NS6_MIDI_ERROR_OTHER | NS6_MIDI_ERROR_NOT_RESPONDING | NS6_MIDI_ERROR_PIPE_STALLED

text \<open>Status codes are only compared, so their type is a parameter.\<close>

definition ns6_midi_recovery_error_class :: "'s \<Rightarrow> 's \<Rightarrow> 's \<Rightarrow> ns6_midi_error_class" where
  "ns6_midi_recovery_error_class status not_responding_status pipe_stalled_status =
     (if status = not_responding_status then NS6_MIDI_ERROR_NOT_RESPONDING
      else if status = pipe_stalled_status then NS6_MIDI_ERROR_PIPE_STALLED else NS6_MIDI_ERROR_OTHER)"

definition ns6_midi_recovery_withhold_not_responding :: "'s \<Rightarrow> 's \<Rightarrow> bool \<Rightarrow> bool" where
  "ns6_midi_recovery_withhold_not_responding status not_responding_status diagnostic_enabled \<longleftrightarrow>
     diagnostic_enabled \<and> status = not_responding_status"

definition ns6_midi_recovery_requires_pipe_clear :: "'s \<Rightarrow> 's \<Rightarrow> bool" where
  "ns6_midi_recovery_requires_pipe_clear status pipe_stalled_status \<longleftrightarrow> status = pipe_stalled_status"

definition ns6_midi_recovery_should_reidentify :: "bool \<Rightarrow> bool \<Rightarrow> bool \<Rightarrow> bool" where
  "ns6_midi_recovery_should_reidentify pipe_stall_recovered recovery_succeeded all_reads_resubmitted \<longleftrightarrow>
     pipe_stall_recovered \<and> recovery_succeeded \<and> all_reads_resubmitted"

definition slot_mask :: "nat \<Rightarrow> u32" where
  "slot_mask slot = push_bit slot 1"

definition ns6_midi_in_flight_set :: "u32 \<Rightarrow> nat \<Rightarrow> u32" where
  "ns6_midi_in_flight_set flags slot = (if slot < NS6_MIDI_RECOVERY_SLOTS then flags OR slot_mask slot else flags)"

definition ns6_midi_in_flight_clear :: "u32 \<Rightarrow> nat \<Rightarrow> u32" where
  "ns6_midi_in_flight_clear flags slot = (if slot < NS6_MIDI_RECOVERY_SLOTS then flags AND NOT (slot_mask slot) else flags)"

text \<open>The loop drops the lowest bit of the mask; \<open>lowest_dropped\<close> is its body, which makes the flags smaller.\<close>

definition lowest_dropped :: "u32 \<Rightarrow> u32" where
  "lowest_dropped flags = flags AND (flags - 1)"

lemma lowest_dropped_less: "flags \<noteq> 0 \<Longrightarrow> lowest_dropped flags < flags"
proof -
  assume "flags \<noteq> 0"
  then have "flags - 1 < flags" by (simp add: measure_unat word_less_nat_alt)
  moreover have "lowest_dropped flags \<le> flags - 1" unfolding lowest_dropped_def by (simp add: word_and_le1)
  ultimately show ?thesis by (rule le_less_trans [rotated])
qed

function in_flight_count_loop :: "u32 \<Rightarrow> u32 \<Rightarrow> u32" where
  "in_flight_count_loop flags count = (if flags \<noteq> 0 then in_flight_count_loop (lowest_dropped flags) (count + 1) else count)"
  by pat_completeness auto

termination
  by (relation "measure (\<lambda>(flags, _). unat flags)") (use lowest_dropped_less in \<open>auto simp: word_less_nat_alt\<close>)

declare in_flight_count_loop.simps [simp del]

definition ns6_midi_in_flight_count :: "u32 \<Rightarrow> u32" where
  "ns6_midi_in_flight_count flags = in_flight_count_loop flags 0"

definition ns6_midi_in_flight_minimum :: "u32 \<Rightarrow> u32 \<Rightarrow> u32" where
  "ns6_midi_in_flight_minimum current observed = (if observed < current then observed else current)"

definition ns6_midi_recovery_elapsed_us :: "u64 \<Rightarrow> u64 \<Rightarrow> u64" where
  "ns6_midi_recovery_elapsed_us started_us finished_us = (if started_us \<le> finished_us then finished_us - started_us else 0)"

definition ns6_midi_recovery_log_due :: "u64 \<Rightarrow> u64 \<Rightarrow> u64 \<Rightarrow> bool" where
  "ns6_midi_recovery_log_due now_ms last_log_ms interval_ms \<longleftrightarrow>
     last_log_ms = 0 \<or> last_log_ms \<le> now_ms \<and> interval_ms \<le> now_ms - last_log_ms"

definition ns6_midi_recovery_add :: "u32 \<Rightarrow> nat \<Rightarrow> u32" where
  "ns6_midi_recovery_add pending slot = (if slot < NS6_MIDI_RECOVERY_SLOTS then pending OR slot_mask slot else pending)"

definition ns6_midi_recovery_expand_pipe_stall :: "u32 \<Rightarrow> u32" where
  "ns6_midi_recovery_expand_pipe_stall pending = (if pending \<noteq> 0 then push_bit NS6_MIDI_RECOVERY_SLOTS 1 - 1 else 0)"

text \<open>Reads the mask and clears it; the pointer may be null.\<close>

definition ns6_midi_recovery_take :: "u32 option \<Rightarrow> u32 \<times> u32 option" where
  "ns6_midi_recovery_take pending = (case pending of None \<Rightarrow> (0, None) | Some ready \<Rightarrow> (ready, Some 0))"

definition ns6_midi_recovery_ready :: "u32 \<Rightarrow> u32 \<Rightarrow> u32" where
  "ns6_midi_recovery_ready completed in_flight = completed AND NOT in_flight"

definition ns6_midi_recovery_backoff_ms :: "u32 \<Rightarrow> u32" where
  "ns6_midi_recovery_backoff_ms attempt =
     (if attempt = 0 then 0 else if 6 \<le> attempt then 1000 else push_bit (unat (attempt - 1)) 50)"

definition ns6_midi_recovery_retry_backoff_ms :: "u32 \<Rightarrow> u32 \<Rightarrow> bool \<Rightarrow> u32" where
  "ns6_midi_recovery_retry_backoff_ms consecutive_recovery_failures consecutive_clear_failures clear_pending =
     (let attempt = consecutive_recovery_failures;
          attempt = (if clear_pending
            then (let submission_retry = (if 0 < consecutive_recovery_failures then consecutive_recovery_failures - 1 else 0)
                  in if submission_retry < consecutive_clear_failures then consecutive_clear_failures else submission_retry)
            else attempt)
      in ns6_midi_recovery_backoff_ms attempt)"

subsection \<open>Read lifecycle and lease\<close>

text \<open>The compile-time switches: whether to keep reading while audio is idle, and the number of reads at the start.\<close>

record midi_build =
  mb_keep_input_idle :: bool
  mb_initial_read_count :: u32
  mb_no_retry_not_responding :: bool
  mb_midi_enabled :: bool

definition midi_default_build :: midi_build where
  "midi_default_build = \<lparr>mb_keep_input_idle = False, mb_initial_read_count = 4, mb_no_retry_not_responding = False, mb_midi_enabled = True\<rparr>"

abbreviation NS6_MIDI_ACTIVE_READ_COUNT :: u32 where "NS6_MIDI_ACTIVE_READ_COUNT \<equiv> 4"

datatype NS6MIDIReadAction = NS6_MIDI_READ_NOOP | NS6_MIDI_READ_QUIESCE | NS6_MIDI_READ_REARM

definition ns6_midi_read_action :: "bool \<Rightarrow> u32 \<Rightarrow> u32 \<Rightarrow> NS6MIDIReadAction" where
  "ns6_midi_read_action session_running target_count active_count =
     (if \<not> session_running \<or> target_count = active_count then NS6_MIDI_READ_NOOP
      else if active_count < target_count then NS6_MIDI_READ_REARM else NS6_MIDI_READ_QUIESCE)"

definition idle_read_count :: "midi_build \<Rightarrow> u32" where
  "idle_read_count build = (if mb_keep_input_idle build then 4 else 0)"

definition ns6_midi_read_target_count :: "midi_build \<Rightarrow> bool \<Rightarrow> bool \<Rightarrow> u32" where
  "ns6_midi_read_target_count build session_running audio_active =
     (if \<not> session_running then 0
      else let count = (if audio_active then NS6_MIDI_ACTIVE_READ_COUNT else idle_read_count build)
           in if NS6_MIDI_ACTIVE_READ_COUNT < count then NS6_MIDI_ACTIVE_READ_COUNT else count)"

definition ns6_midi_read_initial_count :: "midi_build \<Rightarrow> bool \<Rightarrow> u32" where
  "ns6_midi_read_initial_count build session_running =
     (if \<not> session_running then 0
      else if NS6_MIDI_ACTIVE_READ_COUNT < mb_initial_read_count build then NS6_MIDI_ACTIVE_READ_COUNT else mb_initial_read_count build)"

definition ns6_midi_read_target_mask :: "u32 \<Rightarrow> u32" where
  "ns6_midi_read_target_mask target_count =
     (if NS6_MIDI_ACTIVE_READ_COUNT \<le> target_count then push_bit 4 1 - 1
      else if target_count \<noteq> 0 then push_bit (unat target_count) 1 - 1 else 0)"

definition ns6_midi_read_missing_mask :: "u32 \<Rightarrow> u32 \<Rightarrow> u32" where
  "ns6_midi_read_missing_mask target_count in_flight_mask = ns6_midi_read_target_mask target_count AND NOT in_flight_mask"

definition ns6_midi_read_should_submit :: "bool \<Rightarrow> u32 \<Rightarrow> nat \<Rightarrow> bool \<Rightarrow> bool" where
  "ns6_midi_read_should_submit session_running target_count slot recovery_active \<longleftrightarrow>
     session_running \<and> slot < unat target_count \<and> \<not> recovery_active"

definition ns6_midi_read_completion_should_continue :: "bool \<Rightarrow> u32 \<Rightarrow> nat \<Rightarrow> bool \<Rightarrow> bool" where
  "ns6_midi_read_completion_should_continue session_running target_count slot recovery_active =
     ns6_midi_read_should_submit session_running target_count slot recovery_active"

definition ns6_midi_should_poll :: "bool \<Rightarrow> bool \<Rightarrow> bool" where
  "ns6_midi_should_poll enabled session_running \<longleftrightarrow> enabled \<and> session_running"

definition ns6_midi_lease_expired :: "bool \<Rightarrow> u64 \<Rightarrow> u64 \<Rightarrow> u64 \<Rightarrow> bool" where
  "ns6_midi_lease_expired active last_activity_ms now_ms timeout_ms \<longleftrightarrow>
     active \<and> last_activity_ms \<noteq> 0 \<and> last_activity_ms \<le> now_ms \<and> timeout_ms \<le> now_ms - last_activity_ms"

definition ns6_midi_lease_decode :: "u8 list option \<Rightarrow> nat \<Rightarrow> bool option \<Rightarrow> bool \<times> bool option" where
  "ns6_midi_lease_decode data len active =
     (case (data, active) of
        (Some d, Some _) \<Rightarrow>
          if len \<noteq> 5 \<or> d ! 0 \<noteq> 0x4e \<or> d ! 1 \<noteq> 0x53 \<or> d ! 2 \<noteq> 0x36 \<or> d ! 3 \<noteq> 0x4c \<or> 1 < d ! 4 then (False, active)
          else (True, Some (d ! 4 \<noteq> 0))
      | _ \<Rightarrow> (False, active))"

definition NS6_MIDI_HOST_IDENTIFY :: "u8 list" where
  "NS6_MIDI_HOST_IDENTIFY =
     [0xf0, 0x00, 0x01, 0x3f, 0x7f, 0x79, 0x50, 0x00, 0x10, 0x04, 0x01, 0x00, 0x00, 0x00,
      0x04, 0x04, 0x0e, 0x0f, 0x00, 0x00, 0x0e, 0x05, 0x0f, 0x04, 0x0c, 0x06, 0x0b, 0x0f, 0x0d, 0x0c, 0xf7]"

definition NS6_MIDI_JOG_ENABLE :: "u8 list" where
  "NS6_MIDI_JOG_ENABLE = [0xb1, 0x3b, 0x01, 0xb2, 0x3b, 0x01, 0xb3, 0x3b, 0x01, 0xb4, 0x3b, 0x01]"

definition NS6_MIDI_WAKE :: "u8 list" where
  "NS6_MIDI_WAKE = [0xf0, 0x00, 0x01, 0x3f, 0x7f, 0x79, 0x60, 0x00, 0x01, 0x49, 0x01, 0x00, 0x00, 0x00, 0x00, 0xf7]"

subsection \<open>State of the module\<close>

text \<open>
  \<open>nm_outstanding\<close> counts, for every slot, the reads the USB stack has accepted and not completed: it is what the stack knows, not a
  variable of the module. The buffer \<^verbatim>\<open>handshake_sysex\<close> is the list of the bytes stored in it, \<open>nm_forwarded\<close> the datagrams sent to the bridge,
  and a socket is open or not. Reading a clock is an argument of each operation.
\<close>

record ns6_midi =
  nm_trace :: usb_trace
  nm_outstanding :: "nat list"
  nm_usb :: "nat option"
  nm_input_pipe :: u8
  nm_output_pipe :: u8
  nm_parser :: ns6_midi_parser
  nm_handshake_capture :: bool
  nm_handshake_reply_seen :: bool
  nm_handshake_sysex_active :: bool
  nm_handshake_sysex :: "u8 list"
  nm_queue :: "u8 list list"
  nm_head :: nat
  nm_tail :: nat
  nm_pending_read_recovery_mask :: u32
  nm_pending_read_clear_mask :: u32
  nm_read_recovery_requested_us :: "u64 list"
  nm_input_error_counts :: "u64 list list"
  nm_last_input_error_log_ms :: u64
  nm_read_in_flight_mask :: u32
  nm_read_in_flight_minimum_count :: u32
  nm_read_in_flight_minimum_tracking :: bool
  nm_input_pipe_recovery_active :: bool
  nm_audio_client_active :: bool
  nm_read_target_count :: u32
  nm_read_slot_out_of_flight_since_ms :: "u64 list"
  nm_inbound_socket :: bool
  nm_outbound_socket :: bool
  nm_forwarded :: "u8 list list"
  nm_writer_started :: bool
  nm_receiver_started :: bool
  nm_running :: bool
  nm_handshake_requested :: bool

text \<open>The clock readings of one submission or completion: for the out-of-flight mark, for the error log and for the recovery request.\<close>

record midi_clock =
  mc_out_ms :: u64
  mc_log_ms :: u64
  mc_us :: u64

definition nm_call :: "usb_env \<Rightarrow> usb_call \<Rightarrow> ns6_midi \<Rightarrow> IOReturn \<times> ns6_midi" where
  "nm_call env c s = (let st = e_status env (nm_trace s) c in (st, s\<lparr>nm_trace := nm_trace s @ [(c, st)]\<rparr>))"

subsection \<open>Read slots\<close>

definition read_slot_bit :: "nat option \<Rightarrow> u32" where
  "read_slot_bit slot = (case slot of Some index \<Rightarrow> if index < 4 then slot_mask index else 0 | None \<Rightarrow> 0)"

definition track_read_in_flight_minimum :: "u32 \<Rightarrow> ns6_midi \<Rightarrow> ns6_midi" where
  "track_read_in_flight_minimum flags s =
     (if \<not> nm_read_in_flight_minimum_tracking s then s
      else let observed = ns6_midi_in_flight_count flags; current = nm_read_in_flight_minimum_count s
           in if observed < current then s\<lparr>nm_read_in_flight_minimum_count := ns6_midi_in_flight_minimum current observed\<rparr> else s)"

definition mark_read_slot_out_of_flight :: "u64 \<Rightarrow> nat \<Rightarrow> ns6_midi \<Rightarrow> ns6_midi" where
  "mark_read_slot_out_of_flight now_ms index s =
     (if 4 \<le> index \<or> nm_read_slot_out_of_flight_since_ms s ! index \<noteq> 0 then s
      else s\<lparr>nm_read_slot_out_of_flight_since_ms := (nm_read_slot_out_of_flight_since_ms s)[index := now_ms]\<rparr>)"

fun error_class_index :: "ns6_midi_error_class \<Rightarrow> nat" where
  "error_class_index NS6_MIDI_ERROR_OTHER = 0"
| "error_class_index NS6_MIDI_ERROR_NOT_RESPONDING = 1"
| "error_class_index NS6_MIDI_ERROR_PIPE_STALLED = 2"

definition log_input_error :: "u64 \<Rightarrow> IOReturn \<Rightarrow> nat option \<Rightarrow> ns6_midi \<Rightarrow> ns6_midi" where
  "log_input_error now_ms result slot s =
     (case slot of None \<Rightarrow> s | Some index \<Rightarrow>
      if 4 \<le> index then s
      else let c = error_class_index (ns6_midi_recovery_error_class result kIOReturnNotResponding kIOUSBPipeStalled);
               counts = nm_input_error_counts s ! index;
               s = s\<lparr>nm_input_error_counts := (nm_input_error_counts s)[index := counts[c := counts ! c + 1]]\<rparr>
           in if ns6_midi_recovery_log_due now_ms (nm_last_input_error_log_ms s) 5000 then s\<lparr>nm_last_input_error_log_ms := now_ms\<rparr> else s)"

definition schedule_read_recovery :: "midi_build \<Rightarrow> u64 \<Rightarrow> nat option \<Rightarrow> IOReturn \<Rightarrow> ns6_midi \<Rightarrow> ns6_midi" where
  "schedule_read_recovery build now_us slot status s =
     (case slot of None \<Rightarrow> s | Some index \<Rightarrow>
      if \<not> nm_running s \<or> 4 \<le> index then s
      else if ns6_midi_recovery_withhold_not_responding status kIOReturnNotResponding (mb_no_retry_not_responding build) then s
      else let clear_stall = ns6_midi_recovery_requires_pipe_clear status kIOUSBPipeStalled;
               s = s\<lparr>nm_read_recovery_requested_us := (nm_read_recovery_requested_us s)[index := now_us],
                     nm_pending_read_recovery_mask := ns6_midi_recovery_add (nm_pending_read_recovery_mask s) index\<rparr>
           in if clear_stall then s\<lparr>nm_pending_read_clear_mask := nm_pending_read_clear_mask s OR slot_mask index\<rparr> else s)"

text \<open>A failed submission gives the slot back and asks for its recovery.\<close>

definition submit_failed :: "midi_build \<Rightarrow> midi_clock \<Rightarrow> nat \<Rightarrow> IOReturn \<Rightarrow> ns6_midi \<Rightarrow> ns6_midi" where
  "submit_failed build clk index result s =
     (let s = s\<lparr>nm_read_in_flight_mask := nm_read_in_flight_mask s AND NOT (read_slot_bit (Some index))\<rparr>;
          s = track_read_in_flight_minimum (nm_read_in_flight_mask s) s;
          s = mark_read_slot_out_of_flight (mc_out_ms clk) index s;
          s = log_input_error (mc_log_ms clk) result (Some index) s
      in schedule_read_recovery build (mc_us clk) (Some index) result s)"

text \<open>The stack accepts the read: the slot is in flight, and no longer marked as out of it.\<close>

definition submit_accepted :: "nat \<Rightarrow> ns6_midi \<Rightarrow> ns6_midi" where
  "submit_accepted index s =
     s\<lparr>nm_outstanding := (nm_outstanding s)[index := nm_outstanding s ! index + 1],
       nm_read_slot_out_of_flight_since_ms := (nm_read_slot_out_of_flight_since_ms s)[index := 0]\<rparr>"

definition submit_read :: "midi_build \<Rightarrow> usb_env \<Rightarrow> midi_clock \<Rightarrow> nat \<Rightarrow> ns6_midi \<Rightarrow> bool \<times> ns6_midi" where
  "submit_read build env clk index s =
     (if \<not> ns6_midi_read_should_submit (nm_running s) (nm_read_target_count s) index (nm_input_pipe_recovery_active s) then (False, s)
      else let bit = read_slot_bit (Some index); previous = nm_read_in_flight_mask s;
               s = s\<lparr>nm_read_in_flight_mask := previous OR bit\<rparr>
           in if previous AND bit \<noteq> 0 then (False, s)
              else let s = track_read_in_flight_minimum (nm_read_in_flight_mask s) s
                   in case nm_call env (PipeTransfer (the (nm_usb s)) (nm_input_pipe s) index) s of (result, s) \<Rightarrow>
                      if result = kIOReturnSuccess then (True, submit_accepted index s)
                      else (False, submit_failed build clk index result s))"

subsection \<open>Reports\<close>

definition forward_to_bridge :: "u8 list \<Rightarrow> ns6_midi \<Rightarrow> ns6_midi" where
  "forward_to_bridge data s = (if nm_outbound_socket s then s\<lparr>nm_forwarded := nm_forwarded s @ [data]\<rparr> else s)"

definition drop_sysex :: "ns6_midi \<Rightarrow> ns6_midi" where
  "drop_sysex s = s\<lparr>nm_handshake_sysex_active := False, nm_handshake_sysex := []\<rparr>"

definition inspect_byte :: "u8 \<Rightarrow> ns6_midi \<Rightarrow> ns6_midi" where
  "inspect_byte byte s =
     (if byte = 0xfd then s
      else if byte = 0xf0 then s\<lparr>nm_handshake_sysex_active := True, nm_handshake_sysex := [byte]\<rparr>
      else if \<not> nm_handshake_sysex_active s then s
      else if 64 \<le> length (nm_handshake_sysex s) then drop_sysex s
      else let s = s\<lparr>nm_handshake_sysex := nm_handshake_sysex s @ [byte]\<rparr>
           in if byte = 0xf7 then
                drop_sysex (if 7 \<le> length (nm_handshake_sysex s) \<and> take 7 (nm_handshake_sysex s) = reply_prefix
                            then s\<lparr>nm_handshake_reply_seen := True\<rparr> else s)
              else if byte AND 0x80 \<noteq> 0 then drop_sysex s else s)"

definition inspect_handshake_reply :: "u8 list \<Rightarrow> ns6_midi \<Rightarrow> ns6_midi" where
  "inspect_handshake_reply data s = (if \<not> nm_handshake_capture s then s else fold inspect_byte data s)"

definition publish_packet :: "u8 list \<Rightarrow> nat \<Rightarrow> ns6_midi \<Rightarrow> ns6_midi" where
  "publish_packet data len s =
     (let stream_length = ns6_midi_report_stream_length len;
          s = inspect_handshake_reply (take stream_length data) s
      in case ns6_midi_parser_feed (Some (nm_parser s)) (Some data) stream_length True 45 of (p, messages) \<Rightarrow>
         let s = s\<lparr>nm_parser := the p\<rparr>
         in if messages \<noteq> [] then forward_to_bridge messages s else s)"

text \<open>The handler runs for the slot at \<open>index\<close>; \<open>data\<close> is its buffer and \<open>argument\<close> the number of bytes received.\<close>

definition read_complete :: "midi_build \<Rightarrow> usb_env \<Rightarrow> bool \<Rightarrow> midi_clock \<Rightarrow> nat \<Rightarrow> IOReturn \<Rightarrow> u8 list \<Rightarrow> nat \<Rightarrow> ns6_midi \<Rightarrow> ns6_midi" where
  "read_complete build env input_polling clk index status data argument s =
     (let bit = read_slot_bit (Some index);
          s = s\<lparr>nm_read_in_flight_mask := nm_read_in_flight_mask s AND NOT bit\<rparr>;
          s = track_read_in_flight_minimum (nm_read_in_flight_mask s) s
      in if \<not> ns6_midi_read_completion_should_continue (nm_running s) (nm_read_target_count s) index (nm_input_pipe_recovery_active s) then s
         else if status = kIOReturnSuccess then
           (let s = publish_packet data (min argument 42) s
            in if nm_running s \<and> input_polling then snd (submit_read build env clk index s) else s)
         else
           (let s = mark_read_slot_out_of_flight (mc_out_ms clk) index s;
                s = log_input_error (mc_log_ms clk) status (Some index) s
            in schedule_read_recovery build (mc_us clk) (Some index) status s))"

subsection \<open>Output queue\<close>

abbreviation MIDI_WRITE_QUEUE :: nat where "MIDI_WRITE_QUEUE \<equiv> 1024"

definition output_packet :: "u8 list \<Rightarrow> u8 list" where
  "output_packet data = (overwrite 0 data (replicate 42 0xfd))[41 := 0xe0]"

definition enqueue :: "u8 list \<Rightarrow> ns6_midi \<Rightarrow> ns6_midi" where
  "enqueue data s =
     (if data = [] \<or> 42 \<le> length data then s
      else let next = (nm_tail s + 1) mod MIDI_WRITE_QUEUE
           in if next \<noteq> nm_head s then s\<lparr>nm_queue := (nm_queue s)[nm_tail s := output_packet data], nm_tail := next\<rparr> else s)"

definition recover_stalled_pipe :: "usb_env \<Rightarrow> u8 \<Rightarrow> ns6_midi \<Rightarrow> bool \<times> ns6_midi" where
  "recover_stalled_pipe env pipe s =
     (case nm_usb s of None \<Rightarrow> (False, s) | Some i \<Rightarrow>
      if pipe = 0 \<or> \<not> nm_running s then (False, s)
      else case nm_call env (ClearPipeStall i pipe) s of (result, s) \<Rightarrow> (result = kIOReturnSuccess, s))"

text \<open>The end of a turn of the writer: the oldest packet is written, once more after a cleared stall.\<close>

definition worker_output :: "usb_env \<Rightarrow> ns6_midi \<Rightarrow> ns6_midi" where
  "worker_output env s =
     (if nm_head s = nm_tail s then s
      else let packet = nm_queue s ! nm_head s;
               s = s\<lparr>nm_head := (nm_head s + 1) mod MIDI_WRITE_QUEUE\<rparr>;
               write = nm_call env (WritePipe (the (nm_usb s)) (nm_output_pipe s) packet)
           in case write s of (result, s) \<Rightarrow>
              if result = kIOUSBPipeStalled
              then (case recover_stalled_pipe env (nm_output_pipe s) s of (cleared, s) \<Rightarrow>
                if cleared then snd (nm_call env (WritePipe (the (nm_usb s)) (nm_output_pipe s) packet) s) else s)
              else s)"

subsection \<open>Requests of other threads\<close>

definition ns6_midi_set_audio_active :: "midi_build \<Rightarrow> bool \<Rightarrow> ns6_midi \<Rightarrow> ns6_midi" where
  "ns6_midi_set_audio_active build active s =
     (if \<not> mb_midi_enabled build then s
      else s\<lparr>nm_audio_client_active := active, nm_read_target_count := ns6_midi_read_target_count build (nm_running s) active\<rparr>)"

definition ns6_midi_take_handshake_request :: "ns6_midi \<Rightarrow> bool \<times> ns6_midi" where
  "ns6_midi_take_handshake_request s = (nm_handshake_requested s, s\<lparr>nm_handshake_requested := False\<rparr>)"

definition receive_datagram :: "u8 list option \<Rightarrow> ns6_midi \<Rightarrow> ns6_midi" where
  "receive_datagram received s =
     (if \<not> nm_running s then s else case received of Some data \<Rightarrow> if data \<noteq> [] then enqueue (take 41 data) s else s | None \<Rightarrow> s)"

text \<open>
  What happens beside the writer thread: the stack completes a read it has accepted, the audio side becomes active or idle, a datagram
  arrives. A completion carries what the undeclared \<^verbatim>\<open>input_polling\<close> reads as, its clock readings, its slot and result.
\<close>

datatype midi_happening =
    Completed bool midi_clock nat IOReturn "u8 list" nat
  | AudioActive bool
  | Received "u8 list option"

fun midi_happens :: "midi_build \<Rightarrow> usb_env \<Rightarrow> midi_happening \<Rightarrow> ns6_midi \<Rightarrow> ns6_midi" where
  "midi_happens build env (Completed polling clk index status data argument) s =
     (if 4 \<le> index \<or> nm_outstanding s ! index = 0 then s
      else read_complete build env polling clk index status data argument
        (s\<lparr>nm_outstanding := (nm_outstanding s)[index := nm_outstanding s ! index - 1]\<rparr>))"
| "midi_happens build env (AudioActive active) s = ns6_midi_set_audio_active build active s"
| "midi_happens build env (Received received) s = receive_datagram received s"

text \<open>Waits for the reads to drain while other events happen; \<open>None\<close> when it still waits after the given events.\<close>

fun wait_for_input_reads_to_drain :: "midi_build \<Rightarrow> usb_env \<Rightarrow> midi_happening list \<Rightarrow> ns6_midi \<Rightarrow> (bool \<times> ns6_midi) option" where
  "wait_for_input_reads_to_drain build env [] s =
     (if nm_running s \<and> nm_read_in_flight_mask s \<noteq> 0 then None else Some (nm_read_in_flight_mask s = 0, s))"
| "wait_for_input_reads_to_drain build env (e # es) s =
     (if nm_running s \<and> nm_read_in_flight_mask s \<noteq> 0 then wait_for_input_reads_to_drain build env es (midi_happens build env e s)
      else Some (nm_read_in_flight_mask s = 0, s))"

subsection \<open>The writer thread\<close>

record midi_worker =
  wk_consecutive_recovery_failures :: u32
  wk_consecutive_clear_failures :: u32
  wk_input_read_depth :: u32

definition midi_worker_new :: "midi_build \<Rightarrow> midi_worker" where
  "midi_worker_new build = \<lparr>wk_consecutive_recovery_failures = 0, wk_consecutive_clear_failures = 0,
     wk_input_read_depth = mb_initial_read_count build\<rparr>"

text \<open>Submits the slots of a list that are in a mask; whether all were accepted.\<close>

fun submit_masked :: "midi_build \<Rightarrow> usb_env \<Rightarrow> (nat \<Rightarrow> midi_clock) \<Rightarrow> u32 \<Rightarrow> nat list \<Rightarrow> ns6_midi \<Rightarrow> bool \<times> ns6_midi" where
  "submit_masked build env clk flags [] s = (True, s)"
| "submit_masked build env clk flags (i # is) s =
     (if flags AND slot_mask i = 0 then submit_masked build env clk flags is s
      else case submit_read build env (clk i) i s of (ok, s) \<Rightarrow>
        case submit_masked build env clk flags is s of (all, s) \<Rightarrow> (ok \<and> all, s))"

definition clear_pending_masks :: "ns6_midi \<Rightarrow> ns6_midi" where
  "clear_pending_masks s = s\<lparr>nm_pending_read_recovery_mask := 0, nm_pending_read_clear_mask := 0\<rparr>"

definition resubmit_missing :: "midi_build \<Rightarrow> usb_env \<Rightarrow> (nat \<Rightarrow> midi_clock) \<Rightarrow> u32 \<Rightarrow> ns6_midi \<Rightarrow> ns6_midi" where
  "resubmit_missing build env clk depth s =
     snd (submit_masked build env clk (ns6_midi_read_missing_mask depth (nm_read_in_flight_mask s)) [0..<unat depth] s)"

definition quiesce_drained :: "midi_build \<Rightarrow> usb_env \<Rightarrow> (nat \<Rightarrow> midi_clock) \<Rightarrow> ns6_midi \<times> midi_worker \<Rightarrow> ns6_midi \<times> midi_worker" where
  "quiesce_drained build env clk = (\<lambda>(s, w).
     let s = (clear_pending_masks s)\<lparr>nm_input_pipe_recovery_active := False\<rparr>;
         depth = nm_read_target_count s
     in (snd (submit_masked build env clk UINT32_MAX [0..<unat depth] s), w\<lparr>wk_input_read_depth := depth\<rparr>))"

definition quiesce_failed :: "midi_build \<Rightarrow> usb_env \<Rightarrow> (nat \<Rightarrow> midi_clock) \<Rightarrow> ns6_midi \<times> midi_worker \<Rightarrow> ns6_midi \<times> midi_worker" where
  "quiesce_failed build env clk = (\<lambda>(s, w).
     let target = nm_read_target_count s
     in if target \<noteq> 0
        then (resubmit_missing build env clk target (s\<lparr>nm_input_pipe_recovery_active := False\<rparr>), w\<lparr>wk_input_read_depth := target\<rparr>)
        else (snd (nm_call env (SleepMilliseconds 20) s), w))"

definition worker_quiesce :: "midi_build \<Rightarrow> usb_env \<Rightarrow> (nat \<Rightarrow> midi_clock) \<Rightarrow> midi_happening list \<Rightarrow> ns6_midi \<times> midi_worker \<Rightarrow> (ns6_midi \<times> midi_worker) option" where
  "worker_quiesce build env clk events = (\<lambda>(s, w).
     case nm_call env (AbortPipe (the (nm_usb s)) (nm_input_pipe s)) (s\<lparr>nm_input_pipe_recovery_active := True\<rparr>) of (abort_result, s) \<Rightarrow>
     if abort_result \<noteq> kIOReturnSuccess then Some (quiesce_failed build env clk (s, w))
     else case wait_for_input_reads_to_drain build env events s of
            None \<Rightarrow> None
          | Some (drained, s) \<Rightarrow> Some (if drained then quiesce_drained build env clk (s, w) else quiesce_failed build env clk (s, w)))"

definition worker_rearm :: "midi_build \<Rightarrow> usb_env \<Rightarrow> (nat \<Rightarrow> midi_clock) \<Rightarrow> ns6_midi \<times> midi_worker \<Rightarrow> ns6_midi \<times> midi_worker" where
  "worker_rearm build env clk = (\<lambda>(s, w).
     let depth = nm_read_target_count s
     in (resubmit_missing build env clk depth (s\<lparr>nm_input_pipe_recovery_active := False\<rparr>), w\<lparr>wk_input_read_depth := depth\<rparr>))"

text \<open>The endpoint-wide recovery: abort, drain, clear. The result says whether the abort and the whole recovery succeeded.\<close>

definition endpoint_recovery :: "usb_env \<Rightarrow> midi_build \<Rightarrow> midi_happening list \<Rightarrow> ns6_midi \<Rightarrow> ((bool \<times> bool) \<times> ns6_midi) option" where
  "endpoint_recovery env build events s =
     (case nm_call env (AbortPipe (the (nm_usb s)) (nm_input_pipe s)) s of (abort_result, s) \<Rightarrow>
      if abort_result \<noteq> kIOReturnSuccess then Some ((False, False), s)
      else case wait_for_input_reads_to_drain build env events s of None \<Rightarrow> None
        | Some (drained, s) \<Rightarrow>
            (case (if drained \<and> nm_running s then recover_stalled_pipe env (nm_input_pipe s) s else (False, s)) of (recovered, s) \<Rightarrow>
             Some ((True, recovered), if drained then (clear_pending_masks s)\<lparr>nm_input_pipe_recovery_active := False\<rparr> else s)))"

definition failures_after :: "bool \<Rightarrow> u32 \<Rightarrow> u32" where
  "failures_after ok failures = (if ok then 0 else if failures < 6 then failures + 1 else 6)"

text \<open>The masks after an endpoint-wide recovery.\<close>

definition expanded_masks :: "bool \<Rightarrow> bool \<Rightarrow> u32 \<Rightarrow> ns6_midi \<Rightarrow> u32 \<times> u32 \<Rightarrow> u32 \<times> u32" where
  "expanded_masks aborted recovered depth s = (\<lambda>(recovery_mask, clear_mask).
     let every_slot = ns6_midi_recovery_expand_pipe_stall recovery_mask AND ns6_midi_read_target_mask depth
     in if recovered then (every_slot, clear_mask)
        else if aborted \<and> nm_read_in_flight_mask s = 0 then (every_slot, every_slot)
        else (recovery_mask, clear_mask))"

text \<open>
  Resubmits after a recovery. When the stall was cleared the thread first waits for the last completions; \<open>late\<close> are the events of that
  wait and \<open>in_flight_read_mask\<close> is the undeclared flags it looks at.
\<close>

definition recovery_resubmit :: "midi_build \<Rightarrow> usb_env \<Rightarrow> (nat \<Rightarrow> midi_clock) \<Rightarrow> midi_happening list \<Rightarrow> u32 \<Rightarrow> u32 \<Rightarrow> u32 \<Rightarrow> ns6_midi \<Rightarrow> bool \<times> ns6_midi" where
  "recovery_resubmit build env clk late in_flight_read_mask recovery_mask clear_mask s =
     (if clear_mask AND recovery_mask \<noteq> 0
      then (let s = fold (midi_happens build env) late s
            in case ns6_midi_recovery_take (Some (nm_pending_read_recovery_mask s)) of (taken, rest) \<Rightarrow>
               let recovery_mask = ns6_midi_recovery_ready (recovery_mask OR taken) in_flight_read_mask;
                   s = s\<lparr>nm_pending_read_recovery_mask := the rest,
                         nm_pending_read_clear_mask := nm_pending_read_clear_mask s AND NOT recovery_mask\<rparr>
               in submit_masked build env clk recovery_mask [0..<4] s)
      else submit_masked build env clk recovery_mask [0..<4] s)"

text \<open>The last part of a recovery: resubmit or put the slots back, count the failures, ask for a new handshake.\<close>

definition recovery_finish :: "midi_build \<Rightarrow> usb_env \<Rightarrow> (nat \<Rightarrow> midi_clock) \<Rightarrow> midi_happening list \<Rightarrow> u32 \<Rightarrow> bool \<Rightarrow> bool \<Rightarrow> u32 \<times> u32 \<Rightarrow>
    ns6_midi \<times> midi_worker \<Rightarrow> ns6_midi \<times> midi_worker" where
  "recovery_finish build env clk late in_flight_read_mask clear_pending recovered = (\<lambda>(recovery_mask, clear_mask) (s, w).
     case (if recovered then recovery_resubmit build env clk late in_flight_read_mask recovery_mask clear_mask s
           else (False, if nm_running s
             then s\<lparr>nm_pending_read_recovery_mask := nm_pending_read_recovery_mask s OR recovery_mask,
                    nm_pending_read_clear_mask := nm_pending_read_clear_mask s OR (clear_mask AND recovery_mask)\<rparr>
             else s)) of (all_submitted, s) \<Rightarrow>
     (if ns6_midi_recovery_should_reidentify clear_pending recovered all_submitted then s\<lparr>nm_handshake_requested := True\<rparr> else s,
      w\<lparr>wk_consecutive_recovery_failures := failures_after all_submitted (wk_consecutive_recovery_failures w)\<rparr>))"

definition worker_recover :: "midi_build \<Rightarrow> usb_env \<Rightarrow> (nat \<Rightarrow> midi_clock) \<Rightarrow> midi_happening list \<Rightarrow> midi_happening list \<Rightarrow> u32 \<Rightarrow> u32 \<Rightarrow> u32 \<Rightarrow>
    ns6_midi \<times> midi_worker \<Rightarrow> (ns6_midi \<times> midi_worker) option" where
  "worker_recover build env clk events late in_flight_read_mask recovery_mask clear_mask = (\<lambda>(s, w).
     let clear_pending = (clear_mask AND recovery_mask \<noteq> 0);
         delay_ms = ns6_midi_recovery_retry_backoff_ms (wk_consecutive_recovery_failures w) (wk_consecutive_clear_failures w) clear_pending;
         s = (if delay_ms \<noteq> 0 then snd (nm_call env (SleepMilliseconds (unat delay_ms)) s) else s);
         finish = recovery_finish build env clk late in_flight_read_mask clear_pending
     in if \<not> clear_pending then Some (finish True (recovery_mask, clear_mask) (s, w))
        else case endpoint_recovery env build events s of None \<Rightarrow> None
          | Some ((aborted, recovered), s) \<Rightarrow>
              Some (finish recovered (expanded_masks aborted recovered (wk_input_read_depth w) s (recovery_mask, clear_mask))
                (s, w\<lparr>wk_consecutive_clear_failures := failures_after recovered (wk_consecutive_clear_failures w)\<rparr>)))"

text \<open>A turn of the thread: it may be blocked, end, or leave a new state.\<close>

datatype worker_result = Blocked | Exited ns6_midi | Turned "ns6_midi \<times> midi_worker"

definition turned :: "(ns6_midi \<times> midi_worker) option \<Rightarrow> worker_result" where
  "turned r = (case r of None \<Rightarrow> Blocked | Some x \<Rightarrow> Turned x)"

definition worker_serve :: "midi_build \<Rightarrow> usb_env \<Rightarrow> (nat \<Rightarrow> midi_clock) \<Rightarrow> midi_happening list \<Rightarrow> midi_happening list \<Rightarrow> u32 \<Rightarrow>
    ns6_midi \<times> midi_worker \<Rightarrow> worker_result" where
  "worker_serve build env clk events late in_flight_read_mask = (\<lambda>(s, w).
     let recovery_mask = (if nm_running s then nm_pending_read_recovery_mask s else 0);
         clear_mask = (if nm_running s then nm_pending_read_clear_mask s else 0);
         s = (if nm_running s then clear_pending_masks s else s);
         s = (if clear_mask AND recovery_mask \<noteq> 0 then s\<lparr>nm_input_pipe_recovery_active := True\<rparr> else s)
     in if recovery_mask \<noteq> 0 then turned (worker_recover build env clk events late in_flight_read_mask recovery_mask clear_mask (s, w))
        else Turned (worker_output env s, w))"

definition write_worker :: "midi_build \<Rightarrow> usb_env \<Rightarrow> (nat \<Rightarrow> midi_clock) \<Rightarrow> midi_happening list \<Rightarrow> midi_happening list \<Rightarrow> u32 \<Rightarrow>
    ns6_midi \<times> midi_worker \<Rightarrow> worker_result" where
  "write_worker build env clk events late in_flight_read_mask = (\<lambda>(s, w).
     let action = ns6_midi_read_action (nm_running s) (nm_read_target_count s) (wk_input_read_depth w)
     in if nm_head s = nm_tail s \<and> nm_pending_read_recovery_mask s = 0 \<and> action = NS6_MIDI_READ_NOOP \<and> nm_running s then Blocked
        else if nm_head s = nm_tail s \<and> \<not> nm_running s then Exited (clear_pending_masks s)
        else case action of
          NS6_MIDI_READ_QUIESCE \<Rightarrow> turned (worker_quiesce build env clk events (s, w))
        | NS6_MIDI_READ_REARM \<Rightarrow> Turned (worker_rearm build env clk (s, w))
        | NS6_MIDI_READ_NOOP \<Rightarrow> worker_serve build env clk events late in_flight_read_mask (s, w))"

subsection \<open>Start, handshake and stop\<close>

fun scan_midi_pipes :: "usb_env \<Rightarrow> nat \<Rightarrow> u8 list \<Rightarrow> ns6_midi \<Rightarrow> ns6_midi" where
  "scan_midi_pipes env i [] s = s"
| "scan_midi_pipes env i (pipe # pipes) s =
     (case nm_call env (GetPipeProperties i pipe) s of (st, s1) \<Rightarrow>
      if st \<noteq> kIOReturnSuccess then scan_midi_pipes env i pipes s1
      else let p = e_pipe env (nm_trace s) i pipe;
               s1 = (if pp_direction p = kUSBIn \<and> pp_number p = 3 \<and> pp_transferType p = kUSBBulk then s1\<lparr>nm_input_pipe := pipe\<rparr> else s1);
               s1 = (if pp_direction p = kUSBOut \<and> pp_number p = 4 \<and> pp_transferType p = kUSBBulk then s1\<lparr>nm_output_pipe := pipe\<rparr> else s1)
           in scan_midi_pipes env i pipes s1)"

definition find_pipes :: "usb_env \<Rightarrow> nat \<Rightarrow> ns6_midi \<Rightarrow> bool \<times> ns6_midi" where
  "find_pipes env i s =
     (case nm_call env (GetNumEndpoints i) s of (st, s1) \<Rightarrow>
      if st \<noteq> kIOReturnSuccess then (False, s1)
      else let s1 = scan_midi_pipes env i (map word_of_nat [1..<unat (e_endpoints env (nm_trace s) i) + 1]) s1
           in (nm_input_pipe s1 \<noteq> 0 \<and> nm_output_pipe s1 \<noteq> 0, s1))"

text \<open>What the system answers to the two socket calls and to the bind.\<close>

definition open_sockets :: "bool \<times> bool \<times> bool \<Rightarrow> ns6_midi \<Rightarrow> bool \<times> ns6_midi" where
  "open_sockets = (\<lambda>(inbound, outbound, bound) s.
     (inbound \<and> outbound \<and> bound, s\<lparr>nm_inbound_socket := inbound, nm_outbound_socket := outbound\<rparr>))"

definition close_sockets :: "ns6_midi \<Rightarrow> ns6_midi" where
  "close_sockets s = s\<lparr>nm_inbound_socket := False, nm_outbound_socket := False\<rparr>"

definition ns6_midi_stop :: "(ns6_midi \<Rightarrow> ns6_midi) \<Rightarrow> ns6_midi \<Rightarrow> ns6_midi" where
  "ns6_midi_stop refresh_input_polling s =
     (let was_running = nm_running s;
          s = s\<lparr>nm_handshake_requested := False, nm_audio_client_active := False, nm_running := False, nm_read_target_count := 0\<rparr>
      in if \<not> was_running \<and> \<not> nm_writer_started s \<and> \<not> nm_receiver_started s then (close_sockets s)\<lparr>nm_usb := None\<rparr>
         else let s = refresh_input_polling s
              in s\<lparr>nm_inbound_socket := False, nm_writer_started := False, nm_receiver_started := False, nm_outbound_socket := False,
                   nm_usb := None, nm_input_pipe := 0, nm_output_pipe := 0\<rparr>)"

definition midi_reset :: "midi_build \<Rightarrow> nat \<Rightarrow> ns6_midi \<Rightarrow> ns6_midi" where
  "midi_reset build new_usb s =
     s\<lparr>nm_usb := Some new_usb, nm_input_pipe := 0, nm_output_pipe := 0, nm_head := 0, nm_tail := 0,
       nm_pending_read_recovery_mask := 0, nm_pending_read_clear_mask := 0, nm_parser := ns6_midi_parser_zero,
       nm_writer_started := False, nm_receiver_started := False,
       nm_read_in_flight_mask := 0, nm_read_in_flight_minimum_count := 4, nm_read_in_flight_minimum_tracking := False,
       nm_input_pipe_recovery_active := False, nm_handshake_requested := False,
       nm_audio_client_active := (NS6_MIDI_ACTIVE_READ_COUNT \<le> mb_initial_read_count build),
       nm_read_target_count := ns6_midi_read_initial_count build True, nm_last_input_error_log_ms := 0,
       nm_read_slot_out_of_flight_since_ms := replicate 4 0\<rparr>"

text \<open>The pipes are found and cleared and the sockets opened, in this order and up to the first failure.\<close>

definition midi_connect :: "midi_build \<Rightarrow> usb_env \<Rightarrow> bool \<times> bool \<times> bool \<Rightarrow> nat \<Rightarrow> ns6_midi \<Rightarrow> bool \<times> ns6_midi" where
  "midi_connect build env sockets i s =
     (case find_pipes env i s of (found, s) \<Rightarrow>
      if \<not> found then (False, s)
      else case (if mb_midi_enabled build then nm_call env (ClearPipeStall i (nm_input_pipe s)) s else (kIOReturnSuccess, s)) of (st, s) \<Rightarrow>
      if st \<noteq> kIOReturnSuccess then (False, s)
      else case nm_call env (ClearPipeStall i (nm_output_pipe s)) s of (st, s) \<Rightarrow>
      if st \<noteq> kIOReturnSuccess then (False, s) else open_sockets sockets s)"

definition start_reads :: "midi_build \<Rightarrow> usb_env \<Rightarrow> (nat \<Rightarrow> midi_clock) \<Rightarrow> ns6_midi \<Rightarrow> ns6_midi" where
  "start_reads build env clk s =
     (let initial_reads = ns6_midi_read_initial_count build True;
          s = snd (submit_masked build env clk UINT32_MAX [0..<unat initial_reads] s);
          s = s\<lparr>nm_read_in_flight_minimum_count := ns6_midi_in_flight_count (nm_read_in_flight_mask s),
                nm_read_in_flight_minimum_tracking := True\<rparr>
      in track_read_in_flight_minimum (nm_read_in_flight_mask s) s)"

text \<open>\<open>threads\<close> says whether the writer and the receiver thread can be created.\<close>

definition ns6_midi_start :: "midi_build \<Rightarrow> usb_env \<Rightarrow> (ns6_midi \<Rightarrow> ns6_midi) \<Rightarrow> bool \<times> bool \<times> bool \<Rightarrow> bool \<times> bool \<Rightarrow> (nat \<Rightarrow> midi_clock) \<Rightarrow>
    nat option \<Rightarrow> nat option \<Rightarrow> ns6_midi \<Rightarrow> bool \<times> ns6_midi" where
  "ns6_midi_start build env refresh_input_polling sockets threads clk new_usb run_loop s =
     (if nm_running s then (True, s)
      else case (new_usb, run_loop) of
        (Some i, Some _) \<Rightarrow>
          (case midi_connect build env sockets i (midi_reset build i s) of (connected, s) \<Rightarrow>
           if \<not> connected then (False, (close_sockets s)\<lparr>nm_usb := None\<rparr>)
           else if \<not> fst threads then (False, (close_sockets s)\<lparr>nm_running := False, nm_usb := None\<rparr>)
           else let s = s\<lparr>nm_running := True, nm_writer_started := True\<rparr>
                in if \<not> mb_midi_enabled build then (True, s)
                   else if \<not> snd threads then (False, ns6_midi_stop refresh_input_polling s)
                   else (True, start_reads build env clk (s\<lparr>nm_receiver_started := True\<rparr>)))
      | _ \<Rightarrow> (False, s))"

text \<open>
  The handshake: \<open>polls\<close> are the turns of the run loop until the reply deadline, each with the events it delivers, \<open>gap\<close> and \<open>gap2\<close> those of
  the two pauses.
\<close>

fun handshake_await_reply :: "midi_build \<Rightarrow> usb_env \<Rightarrow> midi_happening list list \<Rightarrow> ns6_midi \<Rightarrow> ns6_midi" where
  "handshake_await_reply build env [] s = s"
| "handshake_await_reply build env (events # polls) s =
     (if nm_handshake_reply_seen s then s else handshake_await_reply build env polls (fold (midi_happens build env) events s))"

definition ns6_midi_handshake :: "midi_build \<Rightarrow> usb_env \<Rightarrow> (ns6_midi \<Rightarrow> ns6_midi) \<Rightarrow> nat option \<Rightarrow> midi_happening list list \<Rightarrow> midi_happening list \<Rightarrow> midi_happening list \<Rightarrow>
    ns6_midi \<Rightarrow> bool \<times> ns6_midi" where
  "ns6_midi_handshake build env refresh_input_polling loop polls gap gap2 s =
     (if \<not> nm_running s \<or> loop = None then (False, s)
      else let s = s\<lparr>nm_handshake_capture := True, nm_handshake_reply_seen := False, nm_handshake_sysex_active := False, nm_handshake_sysex := []\<rparr>;
               s = enqueue NS6_MIDI_HOST_IDENTIFY s;
               s = handshake_await_reply build env polls s;
               received = nm_handshake_reply_seen s;
               s = fold (midi_happens build env) gap s;
               s = enqueue NS6_MIDI_JOG_ENABLE s;
               s = fold (midi_happens build env) gap2 s;
               s = enqueue NS6_MIDI_WAKE s;
               s = s\<lparr>nm_handshake_capture := False, nm_handshake_sysex_active := False\<rparr>
           in (received, refresh_input_polling s))"

subsection \<open>The reads in flight are counted\<close>

definition bits_of :: "nat \<Rightarrow> nat set" where
  "bits_of n = {i. bit n i}"

lemma finite_bits_of [simp]: "finite (bits_of n)"
proof -
  have "bits_of n \<subseteq> {..<n}"
  proof
    fix i assume "i \<in> bits_of n"
    then have "2 ^ i \<le> n" by (auto simp: bits_of_def bit_iff_odd intro: ccontr)
    with less_exp [of i] have "i < n" by (rule order_less_le_trans)
    then show "i \<in> {..<n}" by simp
  qed
  then show ?thesis by (rule finite_subset) simp
qed

lemma bits_of_double: "bits_of (2 * n) = Suc ` bits_of n" "bits_of (Suc (2 * n)) = insert 0 (Suc ` bits_of n)"
proof -
  have "i \<in> bits_of (2 * n) \<longleftrightarrow> i \<in> Suc ` bits_of n" "i \<in> bits_of (Suc (2 * n)) \<longleftrightarrow> i \<in> insert 0 (Suc ` bits_of n)" for i
    by (cases i; auto simp: bits_of_def bit_Suc bit_0)+
  then show "bits_of (2 * n) = Suc ` bits_of n" "bits_of (Suc (2 * n)) = insert 0 (Suc ` bits_of n)" by auto
qed

lemma card_lowest_dropped: "0 < n \<Longrightarrow> card (bits_of n) = Suc (card (bits_of (n AND (n - 1))))" for n :: nat
proof (induction n rule: nat_bit_induct)
  case (even n)
  have "2 * n - 1 = Suc (2 * (n - 1))" using even by simp
  then have "2 * n AND (2 * n - 1) = 2 * (n AND (n - 1))" by (simp only: and_nat_unfold [of "2 * n"]) simp
  then show ?case using even by (simp add: bits_of_double card_image)
next
  case (odd n)
  have "Suc (2 * n) AND (Suc (2 * n) - 1) = 2 * n" by (simp only: and_nat_unfold [of "Suc (2 * n)"]) simp
  moreover have "0 \<notin> Suc ` bits_of n" by auto
  ultimately show ?case by (simp add: bits_of_double card_image)
qed simp

lemma unat_lowest_dropped: "flags \<noteq> 0 \<Longrightarrow> unat (lowest_dropped flags) = unat flags AND (unat flags - 1)"
  by (simp add: lowest_dropped_def unsigned_and_eq unat_minus_one)

lemma lowest_dropped_times: "k \<le> card (bits_of (unat flags)) \<Longrightarrow> card (bits_of (unat ((lowest_dropped ^^ k) flags))) = card (bits_of (unat flags)) - k"
proof (induction k)
  case (Suc k)
  let ?m = "(lowest_dropped ^^ k) flags"
  have n: "card (bits_of (unat ?m)) = card (bits_of (unat flags)) - k" using Suc by simp
  then have "?m \<noteq> 0" using Suc.prems by (auto simp: bits_of_def)
  then show ?case using n card_lowest_dropped [of "unat ?m"] by (simp add: unat_lowest_dropped unat_gt_0)
qed simp

lemma bits_of_u32: "bits_of (unat flags) = {i. i < 32 \<and> bit flags i}" "card (bits_of (unat flags)) \<le> 32" for flags :: u32
proof -
  show eq: "bits_of (unat flags) = {i. i < 32 \<and> bit flags i}" by (auto simp: bits_of_def bit_unsigned_iff dest: bit_imp_le_length)
  have "card {i. i < 32 \<and> bit flags i} \<le> card {..<32 :: nat}" by (rule card_mono) auto
  then show "card (bits_of (unat flags)) \<le> 32" by (simp add: eq)
qed

lemma no_bits: "bits_of n = {} \<longleftrightarrow> n = 0"
  by (auto simp: bits_of_def intro: bit_eqI)

lemma in_flight_count_loop: "in_flight_count_loop flags count = count + word_of_nat (card (bits_of (unat flags)))"
proof (induction flags count rule: in_flight_count_loop.induct)
  case (1 flags count)
  show ?case
  proof (cases "flags = 0")
    case False
    then have "card (bits_of (unat flags)) = Suc (card (bits_of (unat (lowest_dropped flags))))"
      using card_lowest_dropped [of "unat flags"] by (simp add: unat_lowest_dropped unat_gt_0)
    then show ?thesis using 1 False by (simp add: in_flight_count_loop.simps [of flags])
  qed (simp add: in_flight_count_loop.simps [of 0] bits_of_def)
qed

lemma in_flight_count: "unat (ns6_midi_in_flight_count flags) = card {i. i < 32 \<and> bit flags i}"
  using bits_of_u32(2) [of flags] by (simp add: ns6_midi_in_flight_count_def in_flight_count_loop bits_of_u32(1) unat_of_nat)

text \<open>
  (C26) The loop that counts the reads in flight ends on every mask: its body runs exactly once for each bit of the mask, the mask is nonzero
  before and zero after, and the result is the number of bits.
\<close>

theorem in_flight_count_terminates:
  "let n = card {i. i < 32 \<and> bit flags i}
   in (lowest_dropped ^^ n) flags = 0 \<and> list_all (\<lambda>k. (lowest_dropped ^^ k) flags \<noteq> 0) [0..<n] \<and> unat (ns6_midi_in_flight_count flags) = n"
proof -
  have zero: "(lowest_dropped ^^ k) flags = 0 \<longleftrightarrow> k = card (bits_of (unat flags))" if "k \<le> card (bits_of (unat flags))" for k
    using lowest_dropped_times [OF that] that no_bits [of "unat ((lowest_dropped ^^ k) flags)"] by (auto simp: unat_eq_0 card_eq_0_iff)
  show ?thesis by (simp add: Let_def in_flight_count bits_of_u32(1) [symmetric] zero list_all_iff)
qed

subsection \<open>Every slot is read at most once at a time\<close>

definition reads_ok :: "ns6_midi \<Rightarrow> bool" where
  "reads_ok s \<longleftrightarrow> length (nm_outstanding s) = 4 \<and> (\<forall>i < 4. nm_outstanding s ! i = of_bool (bit (nm_read_in_flight_mask s) i)) \<and>
     (\<forall>i. bit (nm_read_in_flight_mask s) i \<longrightarrow> i < 4)"

lemma reads_ok_cong: "nm_outstanding s' = nm_outstanding s \<Longrightarrow> nm_read_in_flight_mask s' = nm_read_in_flight_mask s \<Longrightarrow> reads_ok s' \<longleftrightarrow> reads_ok s"
  by (simp add: reads_ok_def)

lemma bit_slot_mask [simp]: "bit (slot_mask k) i \<longleftrightarrow> i = k \<and> k < 32"
  by (auto simp: slot_mask_def push_bit_of_1 bit_exp_iff)

lemma and_slot_mask: "k < 32 \<Longrightarrow> m AND slot_mask k = 0 \<longleftrightarrow> \<not> bit m k"
  by (simp add: slot_mask_def push_bit_of_1 and_exp_eq_0_iff_not_bit)

lemma same_mask [simp]:
  "nm_read_in_flight_mask (track_read_in_flight_minimum m s) = nm_read_in_flight_mask s"
  "nm_read_in_flight_mask (mark_read_slot_out_of_flight t i s) = nm_read_in_flight_mask s"
  "nm_read_in_flight_mask (log_input_error t r sl s) = nm_read_in_flight_mask s"
  "nm_read_in_flight_mask (schedule_read_recovery build t sl r s) = nm_read_in_flight_mask s"
  "nm_read_in_flight_mask (submit_accepted i s) = nm_read_in_flight_mask s"
  "nm_read_in_flight_mask (forward_to_bridge d s) = nm_read_in_flight_mask s"
  "nm_read_in_flight_mask (inspect_byte b s) = nm_read_in_flight_mask s"
  "nm_read_in_flight_mask (enqueue d s) = nm_read_in_flight_mask s"
  "nm_read_in_flight_mask (clear_pending_masks s) = nm_read_in_flight_mask s"
  by (simp_all add: track_read_in_flight_minimum_def mark_read_slot_out_of_flight_def log_input_error_def schedule_read_recovery_def
      submit_accepted_def forward_to_bridge_def inspect_byte_def drop_sysex_def enqueue_def clear_pending_masks_def Let_def split: option.split)

lemma same_outstanding [simp]:
  "nm_outstanding (track_read_in_flight_minimum m s) = nm_outstanding s"
  "nm_outstanding (mark_read_slot_out_of_flight t i s) = nm_outstanding s"
  "nm_outstanding (log_input_error t r sl s) = nm_outstanding s"
  "nm_outstanding (schedule_read_recovery build t sl r s) = nm_outstanding s"
  "nm_outstanding (forward_to_bridge d s) = nm_outstanding s"
  "nm_outstanding (inspect_byte b s) = nm_outstanding s"
  "nm_outstanding (enqueue d s) = nm_outstanding s"
  "nm_outstanding (clear_pending_masks s) = nm_outstanding s"
  by (simp_all add: track_read_in_flight_minimum_def mark_read_slot_out_of_flight_def log_input_error_def schedule_read_recovery_def
      forward_to_bridge_def inspect_byte_def drop_sysex_def enqueue_def clear_pending_masks_def Let_def split: option.split)

lemma fold_inspect [simp]:
  "nm_read_in_flight_mask (fold inspect_byte bs s) = nm_read_in_flight_mask s" "nm_outstanding (fold inspect_byte bs s) = nm_outstanding s"
  by (induction bs arbitrary: s) simp_all

lemma reads_ok_simps [simp]:
  "reads_ok (publish_packet d n s) \<longleftrightarrow> reads_ok s"
  "reads_ok (ns6_midi_set_audio_active build b s) \<longleftrightarrow> reads_ok s"
  "reads_ok (receive_datagram r s) \<longleftrightarrow> reads_ok s"
  "reads_ok (clear_pending_masks s) \<longleftrightarrow> reads_ok s"
  "reads_ok (snd (nm_call env c s)) \<longleftrightarrow> reads_ok s"
  "reads_ok (s\<lparr>nm_input_pipe_recovery_active := b\<rparr>) \<longleftrightarrow> reads_ok s"
  "reads_ok (s\<lparr>nm_handshake_requested := b\<rparr>) \<longleftrightarrow> reads_ok s"
  "reads_ok (s\<lparr>nm_pending_read_recovery_mask := m, nm_pending_read_clear_mask := m'\<rparr>) \<longleftrightarrow> reads_ok s"
  by (auto intro!: reads_ok_cong simp: publish_packet_def inspect_handshake_reply_def ns6_midi_set_audio_active_def receive_datagram_def nm_call_def
      Let_def split: prod.split option.split)

lemma recover_reads_ok [simp]: "reads_ok (snd (recover_stalled_pipe env pipe s)) \<longleftrightarrow> reads_ok s"
  by (simp add: recover_stalled_pipe_def case_prod_beta split: option.split)

lemma recover_stalled_ok: "reads_ok s \<Longrightarrow> recover_stalled_pipe env pipe s = (b, s') \<Longrightarrow> reads_ok s'"
  using recover_reads_ok [of env pipe s] by simp

lemma submit_read_ok:
  assumes "reads_ok s"
  shows "reads_ok (snd (submit_read build env clk index s))"
proof -
  let ?m = "nm_read_in_flight_mask s" and ?bit = "read_slot_bit (Some index)"
  consider (never) "\<not> ns6_midi_read_should_submit (nm_running s) (nm_read_target_count s) index (nm_input_pipe_recovery_active s)"
    | (twice) "?m AND ?bit \<noteq> 0" | (outside) "4 \<le> index" | (submit) "index < 4" "\<not> bit ?m index"
    by (cases "index < 4") (auto simp: read_slot_bit_def and_slot_mask)
  then show ?thesis
  proof cases
    case never
    then show ?thesis using assms by (simp add: submit_read_def)
  next
    case twice
    then have "index < 4" by (auto simp: read_slot_bit_def split: if_splits)
    moreover from twice this have "bit ?m index" by (simp add: read_slot_bit_def and_slot_mask)
    ultimately have "reads_ok (s\<lparr>nm_read_in_flight_mask := ?m OR ?bit\<rparr>)" using assms by (auto simp: reads_ok_def read_slot_bit_def bit_or_iff)
    then show ?thesis using twice assms by (simp add: submit_read_def Let_def)
  next
    case outside
    then have "?bit = 0" by (simp add: read_slot_bit_def)
    then show ?thesis using assms outside
      by (simp add: submit_read_def Let_def submit_accepted_def submit_failed_def reads_ok_def nm_call_def)
  next
    case submit
    then have eq: "?bit = slot_mask index" "?m AND slot_mask index = 0" by (simp_all add: read_slot_bit_def and_slot_mask)
    show ?thesis using assms submit eq unfolding submit_read_def Let_def nm_call_def
      by (auto simp: submit_accepted_def submit_failed_def reads_ok_def bit_or_iff bit_and_iff bit_not_iff nth_list_update less_Suc_eq)
  qed
qed

lemma submit_masked_ok: "reads_ok s \<Longrightarrow> reads_ok (snd (submit_masked build env clk flags is s))"
proof (induction "is" arbitrary: s)
  case (Cons i "is")
  then show ?case using submit_read_ok [OF Cons.prems] by (simp add: case_prod_beta)
qed simp

lemma happens_ok: "reads_ok s \<Longrightarrow> reads_ok (midi_happens build env e s)"
proof (cases e)
  case (Completed polling clk index status data argument)
  assume ok: "reads_ok s"
  let ?s1 = "s\<lparr>nm_outstanding := (nm_outstanding s)[index := nm_outstanding s ! index - 1],
    nm_read_in_flight_mask := nm_read_in_flight_mask s AND NOT (slot_mask index)\<rparr>"
  let ?s2 = "track_read_in_flight_minimum (nm_read_in_flight_mask ?s1) ?s1"
  show ?thesis
  proof (cases "4 \<le> index \<or> nm_outstanding s ! index = 0")
    case False
    then have "reads_ok ?s1" using ok by (auto simp: reads_ok_def bit_and_iff bit_not_iff nth_list_update)
    then have ok2: "reads_ok ?s2" by (subst reads_ok_cong [of _ ?s1]) simp_all
    then have "reads_ok (schedule_read_recovery build t sl status (log_input_error u status sl' (mark_read_slot_out_of_flight v index ?s2)))" for t sl u sl' v
      by (subst reads_ok_cong [of _ ?s2]) simp_all
    moreover have "reads_ok (snd (submit_read build env clk index (publish_packet data n ?s2)))" for n
      using ok2 by (simp add: submit_read_ok)
    ultimately show ?thesis using False ok2 by (simp add: Completed read_complete_def read_slot_bit_def Let_def)
  qed (use ok in \<open>auto simp: Completed\<close>)
qed simp_all

lemma fold_happens_ok: "reads_ok s \<Longrightarrow> reads_ok (fold (midi_happens build env) es s)"
  by (induction es arbitrary: s) (simp_all add: happens_ok)

lemma wait_ok: "reads_ok s \<Longrightarrow> wait_for_input_reads_to_drain build env es s = Some (drained, s') \<Longrightarrow> reads_ok s'"
  by (induction build env es s rule: wait_for_input_reads_to_drain.induct) (auto split: if_splits intro: happens_ok)

lemma quiesce_ok: "reads_ok s \<Longrightarrow> reads_ok (fst (quiesce_drained build env clk (s, w)))" "reads_ok s \<Longrightarrow> reads_ok (fst (quiesce_failed build env clk (s, w)))"
  by (simp_all add: quiesce_drained_def quiesce_failed_def resubmit_missing_def Let_def submit_masked_ok)

lemma nm_call_ok: "reads_ok s \<Longrightarrow> nm_call env c s = (st, s') \<Longrightarrow> reads_ok s'"
  using reads_ok_simps(5) [of env c s] by simp

lemma worker_quiesce_ok: "reads_ok s \<Longrightarrow> worker_quiesce build env clk es (s, w) = Some (s', w') \<Longrightarrow> reads_ok s'"
proof -
  assume ok: "reads_ok s" and run: "worker_quiesce build env clk es (s, w) = Some (s', w')"
  obtain st s1 where c: "nm_call env (AbortPipe (the (nm_usb s)) (nm_input_pipe s)) (s\<lparr>nm_input_pipe_recovery_active := True\<rparr>) = (st, s1)" by fastforce
  have ok1: "reads_ok s1" using nm_call_ok [OF _ c] ok by simp
  have fin: "s' = fst (quiesce_drained build env clk (s2, w)) \<or> s' = fst (quiesce_failed build env clk (s2, w)) \<Longrightarrow> reads_ok s2 \<Longrightarrow> ?thesis" for s2
    using quiesce_ok by auto
  show ?thesis
  proof (cases "st = kIOReturnSuccess")
    case True
    obtain d s2 where w: "wait_for_input_reads_to_drain build env es s1 = Some (d, s2)"
      using run c True by (auto simp: worker_quiesce_def split: option.splits)
    from run c True w have "(s', w') = (if d then quiesce_drained build env clk (s2, w) else quiesce_failed build env clk (s2, w))"
      by (simp add: worker_quiesce_def)
    then show ?thesis using fin [OF _ wait_ok [OF ok1 w]] by (cases d) (metis fst_conv)+
  next
    case False
    then have "(s', w') = quiesce_failed build env clk (s1, w)" using run c by (simp add: worker_quiesce_def)
    then show ?thesis using fin [OF _ ok1] by (metis fst_conv)
  qed
qed

lemma endpoint_recovery_ok: "reads_ok s \<Longrightarrow> endpoint_recovery env build es s = Some (r, s') \<Longrightarrow> reads_ok s'"
proof -
  assume ok: "reads_ok s" and run: "endpoint_recovery env build es s = Some (r, s')"
  obtain st s1 where c: "nm_call env (AbortPipe (the (nm_usb s)) (nm_input_pipe s)) s = (st, s1)" by fastforce
  note ok1 = nm_call_ok [OF ok c]
  show ?thesis
  proof (cases "st = kIOReturnSuccess")
    case True
    obtain d s2 where w: "wait_for_input_reads_to_drain build env es s1 = Some (d, s2)"
      using run c True by (auto simp: endpoint_recovery_def split: option.splits)
    obtain b s3 where r: "(if d \<and> nm_running s2 then recover_stalled_pipe env (nm_input_pipe s2) s2 else (False, s2)) = (b, s3)" by fastforce
    have "reads_ok s3" using wait_ok [OF ok1 w] r by (auto split: if_splits intro: recover_stalled_ok)
    then show ?thesis using run c True w r by (auto simp: endpoint_recovery_def)
  qed (use run c ok1 in \<open>auto simp: endpoint_recovery_def\<close>)
qed

lemma recovery_resubmit_ok: "reads_ok s \<Longrightarrow> reads_ok (snd (recovery_resubmit build env clk late m r c s))"
proof -
  assume ok: "reads_ok s"
  have "reads_ok (fold (midi_happens build env) late s)" using ok by (rule fold_happens_ok)
  then show ?thesis using ok by (auto simp: recovery_resubmit_def ns6_midi_recovery_take_def Let_def intro!: submit_masked_ok)
qed

lemma recovery_finish_ok: "reads_ok s \<Longrightarrow> reads_ok (fst (recovery_finish build env clk late m cp rec masks (s, w)))"
  by (cases masks) (auto simp: recovery_finish_def case_prod_beta recovery_resubmit_ok)

lemma worker_recover_ok:
  assumes "reads_ok s" and "worker_recover build env clk es late m r c (s, w) = Some (s', w')"
  shows "reads_ok s'"
proof -
  let ?finish = "recovery_finish build env clk late m (c AND r \<noteq> 0)"
  define d where "d = ns6_midi_recovery_retry_backoff_ms (wk_consecutive_recovery_failures w) (wk_consecutive_clear_failures w) (c AND r \<noteq> 0)"
  define s0 where "s0 = (if d \<noteq> 0 then snd (nm_call env (SleepMilliseconds (unat d)) s) else s)"
  have ok: "reads_ok s0" using assms(1) by (simp add: s0_def)
  have fin: "(s', w') = ?finish rec masks (s1, w1) \<Longrightarrow> reads_ok s1 \<Longrightarrow> ?thesis" for rec masks s1 w1
    using recovery_finish_ok [of s1 build env clk late m "c AND r \<noteq> 0" rec masks w1] by (metis fst_conv)
  have eq: "worker_recover build env clk es late m r c (s, w) =
    (if c AND r = 0 then Some (?finish True (r, c) (s0, w))
     else case endpoint_recovery env build es s0 of None \<Rightarrow> None
       | Some ((a, rec), s1) \<Rightarrow> Some (?finish rec (expanded_masks a rec (wk_input_read_depth w) s1 (r, c))
           (s1, w\<lparr>wk_consecutive_clear_failures := failures_after rec (wk_consecutive_clear_failures w)\<rparr>)))"
    by (simp add: worker_recover_def Let_def s0_def d_def)
  show ?thesis
  proof (cases "c AND r = 0")
    case True
    then have "(s', w') = ?finish True (r, c) (s0, w)" using assms(2) unfolding eq by simp
    then show ?thesis using ok by (rule fin)
  next
    case False
    obtain a rec s1 where e: "endpoint_recovery env build es s0 = Some ((a, rec), s1)"
      using assms(2) False unfolding eq by (auto split: option.splits)
    from assms(2) False e have "(s', w') = ?finish rec (expanded_masks a rec (wk_input_read_depth w) s1 (r, c))
        (s1, w\<lparr>wk_consecutive_clear_failures := failures_after rec (wk_consecutive_clear_failures w)\<rparr>)"
      unfolding eq by simp
    then show ?thesis using endpoint_recovery_ok [OF ok e] by (rule fin)
  qed
qed

lemma worker_output_ok: "reads_ok (worker_output env s) \<longleftrightarrow> reads_ok s"
proof -
  have "reads_ok (s\<lparr>nm_head := h\<rparr>) \<longleftrightarrow> reads_ok s" for h by (rule reads_ok_cong) simp_all
  then show ?thesis by (simp add: worker_output_def Let_def case_prod_beta)
qed

lemma write_worker_ok:
  assumes "reads_ok s"
  shows "write_worker build env clk es late m (s, w) = Turned (s', w') \<Longrightarrow> reads_ok s'"
    and "write_worker build env clk es late m (s, w) = Exited s' \<Longrightarrow> reads_ok s'"
proof -
  define r where "r = (if nm_running s then nm_pending_read_recovery_mask s else 0)"
  define c where "c = (if nm_running s then nm_pending_read_clear_mask s else 0)"
  define s0 where "s0 = (if nm_running s then clear_pending_masks s else s)"
  define s1 where "s1 = (if c AND r \<noteq> 0 then s0\<lparr>nm_input_pipe_recovery_active := True\<rparr> else s0)"
  have ok1: "reads_ok s1" using assms by (simp add: s1_def s0_def)
  have "worker_serve build env clk es late m (s, w) =
      (if r \<noteq> 0 then turned (worker_recover build env clk es late m r c (s1, w)) else Turned (worker_output env s1, w))"
    by (simp add: worker_serve_def Let_def r_def c_def s0_def s1_def)
  then have serve: "worker_serve build env clk es late m (s, w) = Turned (s', w') \<Longrightarrow> reads_ok s'"
    "worker_serve build env clk es late m (s, w) \<noteq> Exited s'"
    using worker_recover_ok [OF ok1, of build env clk es late m r c w s' w'] ok1
    by (auto simp: worker_output_ok turned_def split: if_splits option.splits)
  have rearm: "reads_ok (fst (worker_rearm build env clk (s, w)))"
    using assms by (simp add: worker_rearm_def resubmit_missing_def Let_def submit_masked_ok)
  show "write_worker build env clk es late m (s, w) = Turned (s', w') \<Longrightarrow> reads_ok s'"
    using assms serve rearm worker_quiesce_ok [OF assms] unfolding write_worker_def Let_def turned_def
    by (auto split: if_splits option.splits NS6MIDIReadAction.splits)
  show "write_worker build env clk es late m (s, w) = Exited s' \<Longrightarrow> reads_ok s'"
    using assms serve(2) unfolding write_worker_def Let_def turned_def
    by (auto split: if_splits option.splits NS6MIDIReadAction.splits)
qed

text \<open>Runs: events beside the writer thread and turns of it, which stays where it is while it is blocked or has ended.\<close>

datatype midi_op = Happens midi_happening | Turn "nat \<Rightarrow> midi_clock" "midi_happening list" "midi_happening list" u32

fun midi_op_step :: "midi_build \<Rightarrow> usb_env \<Rightarrow> midi_op \<Rightarrow> ns6_midi \<times> midi_worker \<Rightarrow> ns6_midi \<times> midi_worker" where
  "midi_op_step build env (Happens e) (s, w) = (midi_happens build env e s, w)"
| "midi_op_step build env (Turn clk events late in_flight_read_mask) (s, w) =
     (case write_worker build env clk events late in_flight_read_mask (s, w) of
        Blocked \<Rightarrow> (s, w) | Exited s \<Rightarrow> (s, w) | Turned x \<Rightarrow> x)"

lemma midi_run_ok: "reads_ok s \<Longrightarrow> fold (midi_op_step build env) ops (s, w) = (s', w') \<Longrightarrow> reads_ok s'"
proof (induction ops arbitrary: s w)
  case (Cons op ops)
  obtain s1 w1 where 1: "midi_op_step build env op (s, w) = (s1, w1)" by fastforce
  have "reads_ok s1"
    using 1 Cons.prems(1) write_worker_ok [OF Cons.prems(1)] by (cases op) (auto intro: happens_ok split: worker_result.splits)
  then show ?case using Cons.IH Cons.prems(2) 1 by simp
qed simp

lemma scan_reads [simp]:
  "nm_read_in_flight_mask (scan_midi_pipes env i ps s) = nm_read_in_flight_mask s" "nm_outstanding (scan_midi_pipes env i ps s) = nm_outstanding s"
  by (induction env i ps s rule: scan_midi_pipes.induct) (simp_all add: nm_call_def Let_def)

lemma connect_reads:
  "midi_connect build env sockets i s = (b, s') \<Longrightarrow> nm_read_in_flight_mask s' = nm_read_in_flight_mask s \<and> nm_outstanding s' = nm_outstanding s"
  by (auto simp: midi_connect_def find_pipes_def open_sockets_def nm_call_def Let_def split: if_splits prod.splits)

lemma start_ok:
  assumes "\<not> nm_running s0" and "nm_outstanding s0 = replicate 4 0"
    and "ns6_midi_start build env refresh sockets threads clk usb run_loop s0 = (True, s)"
  shows "reads_ok s"
proof -
  obtain i l where args: "usb = Some i" "run_loop = Some l" using assms(1,3) by (cases usb; cases run_loop) (auto simp: ns6_midi_start_def)
  obtain b s1 where c: "midi_connect build env sockets i (midi_reset build i s0) = (b, s1)" by fastforce
  have "nm_read_in_flight_mask s1 = 0 \<and> nm_outstanding s1 = replicate 4 0" using connect_reads [OF c] assms(2) by (simp add: midi_reset_def)
  then have ok: "reads_ok (s1\<lparr>nm_running := True, nm_writer_started := True\<rparr>)"
    "reads_ok (s1\<lparr>nm_running := True, nm_writer_started := True, nm_receiver_started := True\<rparr>)"
    by (auto simp: reads_ok_def less_Suc_eq numeral_eq_Suc)
  have "reads_ok (start_reads build env clk s2)" if "reads_ok s2" for s2
    using submit_masked_ok [OF that] by (auto simp: start_reads_def Let_def reads_ok_def)
  then show ?thesis using assms(1,3) args c ok by (auto simp: ns6_midi_start_def Let_def split: if_splits)
qed

lemma reads_sum: "reads_ok s \<Longrightarrow> sum_list (nm_outstanding s) = unat (ns6_midi_in_flight_count (nm_read_in_flight_mask s))"
proof -
  assume ok: "reads_ok s"
  let ?m = "nm_read_in_flight_mask s"
  have "sum_list (nm_outstanding s) = (\<Sum>i<4. of_bool (bit ?m i))"
    using ok by (simp add: sum_list_sum_nth reads_ok_def atLeast0LessThan)
  also have "\<dots> = card {i. i < 4 \<and> bit ?m i}" by (simp add: sum.If_cases Collect_conj_eq lessThan_def of_bool_def Int_commute)
  also have "{i. i < 4 \<and> bit ?m i} = {i. i < 32 \<and> bit ?m i}" using ok by (auto simp: reads_ok_def)
  finally show ?thesis by (simp add: in_flight_count)
qed

text \<open>
  (C6) No buffer is handed to the USB stack twice: from a successful start on, whatever the stack answers and whatever the audio side and the
  network do, every read slot has at most one read outstanding, exactly when its bit of the mask is set, and the count the module reports
  is the number of outstanding reads.
\<close>

theorem midi_reads_once:
  assumes "\<not> nm_running s0" and "nm_outstanding s0 = replicate 4 0"
    and "ns6_midi_start build env refresh sockets threads clk usb run_loop s0 = (True, s1)"
    and "fold (midi_op_step build env) ops (s1, midi_worker_new build) = (s, w)"
  shows "(i < 4 \<longrightarrow> nm_outstanding s ! i = of_bool (bit (nm_read_in_flight_mask s) i)) \<and>
    sum_list (nm_outstanding s) = unat (ns6_midi_in_flight_count (nm_read_in_flight_mask s))"
proof -
  have "reads_ok s" using start_ok [OF assms(1-3)] assms(4) by (rule midi_run_ok)
  then show ?thesis using reads_sum by (simp add: reads_ok_def)
qed

text \<open>The module before its first start, and a stack that accepts everything and offers the two MIDI pipes.\<close>

definition midi_static :: ns6_midi where
  "midi_static = \<lparr>nm_trace = [], nm_outstanding = replicate 4 0, nm_usb = None, nm_input_pipe = 0, nm_output_pipe = 0, nm_parser = ns6_midi_parser_zero,
     nm_handshake_capture = False, nm_handshake_reply_seen = False, nm_handshake_sysex_active = False, nm_handshake_sysex = [],
     nm_queue = replicate MIDI_WRITE_QUEUE (replicate 42 0), nm_head = 0, nm_tail = 0, nm_pending_read_recovery_mask = 0,
     nm_pending_read_clear_mask = 0, nm_read_recovery_requested_us = replicate 4 0, nm_input_error_counts = replicate 4 [0, 0, 0],
     nm_last_input_error_log_ms = 0, nm_read_in_flight_mask = 0, nm_read_in_flight_minimum_count = 0,
     nm_read_in_flight_minimum_tracking = False, nm_input_pipe_recovery_active = False, nm_audio_client_active = False,
     nm_read_target_count = 0, nm_read_slot_out_of_flight_since_ms = replicate 4 0, nm_inbound_socket = False, nm_outbound_socket = False,
     nm_forwarded = [], nm_writer_started = False, nm_receiver_started = False, nm_running = False, nm_handshake_requested = False\<rparr>"

definition accepting_env :: usb_env where
  "accepting_env = \<lparr>e_status = (\<lambda>_ _. kIOReturnSuccess), e_interfaces = (\<lambda>_. []), e_devices = (\<lambda>_. []), e_endpoints = (\<lambda>_ _. 2),
     e_pipe = (\<lambda>_ _ pipe. \<lparr>pp_direction = (if pipe = 1 then kUSBIn else kUSBOut), pp_number = (if pipe = 1 then 3 else 4),
       pp_transferType = kUSBBulk, pp_maxPacketSize = 42, pp_interval = 0\<rparr>),
     e_data = (\<lambda>_ _. []), e_source = (\<lambda>_. 0)\<rparr>"

definition midi_clock_zero :: midi_clock where
  "midi_clock_zero = \<lparr>mc_out_ms = 0, mc_log_ms = 0, mc_us = 0\<rparr>"

abbreviation (input) start_example :: "bool \<times> ns6_midi" where
  "start_example \<equiv> ns6_midi_start midi_default_build accepting_env id (True, True, True) (True, True) (\<lambda>_. midi_clock_zero) (Some 1) (Some 1) midi_static"

lemma start_example: "fst start_example"
  by (simp add: ns6_midi_start_def midi_static_def midi_connect_def find_pipes_def open_sockets_def midi_reset_def nm_call_def accepting_env_def
      midi_default_build_def upt_rec Let_def)

text \<open>Witness for C0: a start, a completed read and a turn of the writer.\<close>

theorem midi_reads_once_witness:
  "\<exists>s1 s w. start_example = (True, s1) \<and>
     fold (midi_op_step midi_default_build accepting_env)
       [Happens (Completed True midi_clock_zero 0 kIOReturnSuccess (replicate 42 0xfd) 42), Turn (\<lambda>_. midi_clock_zero) [] [] 0]
       (s1, midi_worker_new midi_default_build) = (s, w) \<and>
     nm_outstanding s ! 0 = of_bool (bit (nm_read_in_flight_mask s) 0)"
proof -
  let ?ops = "[Happens (Completed True midi_clock_zero 0 kIOReturnSuccess (replicate 42 0xfd) 42), Turn (\<lambda>_. midi_clock_zero) [] [] 0]"
  obtain s1 where 1: "start_example = (True, s1)" using start_example by (metis prod.collapse)
  obtain s w where 2: "fold (midi_op_step midi_default_build accepting_env) ?ops (s1, midi_worker_new midi_default_build) = (s, w)" by fastforce
  have "\<not> nm_running midi_static" "nm_outstanding midi_static = replicate 4 0" by (simp_all add: midi_static_def)
  from midi_reads_once [OF this 1 2, of 0] have "nm_outstanding s ! 0 = of_bool (bit (nm_read_in_flight_mask s) 0)" by simp
  with 1 2 show ?thesis by blast
qed

subsection \<open>A read can get lost\<close>

text \<open>
  (C40) When audio becomes idle and active again before the writer thread runs, a read that completes in between is lost: its slot is
  neither in flight nor scheduled for recovery, the module wants all four reads, and the writer thread waits.
\<close>

theorem midi_read_lost:
  assumes "nm_running s" and "nm_outstanding s = [1, 1, 1, 1]" and "nm_head s = nm_tail s" and "nm_pending_read_recovery_mask s = 0"
    and "wk_input_read_depth w = 4" and "s' = fold (midi_happens midi_default_build env)
      [AudioActive False, Completed polling clk 0 status data n, AudioActive True] s"
  shows "nm_read_target_count s' = 4 \<and> nm_outstanding s' ! 0 = 0 \<and> \<not> bit (nm_read_in_flight_mask s') 0 \<and>
    \<not> bit (nm_pending_read_recovery_mask s') 0 \<and> write_worker midi_default_build env clks events late m (s', w) = Blocked"
proof -
  let ?s1 = "s\<lparr>nm_audio_client_active := False, nm_read_target_count := 0, nm_outstanding := [0, 1, 1, 1],
    nm_read_in_flight_mask := nm_read_in_flight_mask s AND NOT (slot_mask 0)\<rparr>"
  let ?s2 = "track_read_in_flight_minimum (nm_read_in_flight_mask ?s1) ?s1"
  have s': "s' = ?s2\<lparr>nm_audio_client_active := True, nm_read_target_count := 4\<rparr>"
    using assms(1,2,6) by (simp add: ns6_midi_set_audio_active_def midi_default_build_def ns6_midi_read_target_count_def idle_read_count_def
        read_complete_def read_slot_bit_def ns6_midi_read_completion_should_continue_def ns6_midi_read_should_submit_def
        track_read_in_flight_minimum_def Let_def)
  have "nm_running ?s2 = nm_running s \<and> nm_head ?s2 = nm_head s \<and> nm_tail ?s2 = nm_tail s \<and>
      nm_pending_read_recovery_mask ?s2 = nm_pending_read_recovery_mask s"
    by (simp add: track_read_in_flight_minimum_def Let_def)
  then show ?thesis using assms(1-5)
    by (simp add: s' write_worker_def ns6_midi_read_action_def bit_and_iff bit_not_iff)
qed

text \<open>Witness for C0: four reads in flight and an empty queue.\<close>

theorem midi_read_lost_witness:
  "let s = midi_static\<lparr>nm_running := True, nm_outstanding := [1, 1, 1, 1], nm_read_in_flight_mask := 15, nm_read_target_count := 4\<rparr>
   in nm_outstanding (fold (midi_happens midi_default_build accepting_env)
      [AudioActive False, Completed True midi_clock_zero 0 kIOReturnSuccess (replicate 42 0xfd) 42, AudioActive True] s) ! 0 = 0"
proof -
  let ?s = "midi_static\<lparr>nm_running := True, nm_outstanding := [1, 1, 1, 1], nm_read_in_flight_mask := 15, nm_read_target_count := 4\<rparr>"
  have 1: "nm_running ?s" "nm_outstanding ?s = [1, 1, 1, 1]" "nm_head ?s = nm_tail ?s" "nm_pending_read_recovery_mask ?s = 0"
    "wk_input_read_depth (midi_worker_new midi_default_build) = 4"
    by (simp_all add: midi_static_def midi_worker_new_def midi_default_build_def)
  show ?thesis unfolding Let_def using midi_read_lost [OF 1 refl] by blast
qed

subsection \<open>The two parsers agree\<close>

definition same_parser :: "ns6_midi_parser \<Rightarrow> MIDIInputParser \<Rightarrow> bool" where
  "same_parser p q \<longleftrightarrow> np_message p = mp_message q \<and> unat (np_used p) = mp_used q \<and> unat (np_expected p) = mp_expected q \<and> parser_ok q"

lemma parse_byte_same:
  assumes same: "same_parser p q" and room: "length out + mp_used q + 1 \<le> capacity" and fed: "feed_byte b (q, out) = (q', out')"
  shows "\<exists>p'. parse_byte capacity b (p, out) = (p', out') \<and> same_parser p' q'"
proof -
  have ok: "parser_ok q'" using feed_byte_ok [OF _ fed] same by (simp add: same_parser_def)
  have q: "mp_message q = np_message p" "mp_used q = unat (np_used p)" "mp_expected q = unat (np_expected p)"
    using same by (simp_all add: same_parser_def)
  have zero: "unat (np_expected p) = 0 \<longleftrightarrow> np_expected p = 0" by (simp add: unat_eq_0)
  have three: "3 \<le> unat (np_used p) \<longleftrightarrow> 3 \<le> np_used p" by (simp add: word_le_nat_alt)
  have inc: "unat (np_used p + 1) = Suc (unat (np_used p))" if "\<not> 3 \<le> np_used p"
    using that by (simp add: word_le_nat_alt unat_word_ariths)
  have full: "np_used p + 1 = np_expected p \<longleftrightarrow> Suc (unat (np_used p)) = unat (np_expected p)" if "\<not> 3 \<le> np_used p"
    using inc [OF that] by (simp add: word_unat_eq_iff)
  show ?thesis
  proof (cases "b < 0x80")
    case True
    then have b: "b \<noteq> 0xfd" "b AND 0x80 = 0" by (auto simp: top_bit)
    let ?m = "(np_message p)[unat (np_used p) := b]"
    consider (idle) "np_expected p = 0 \<or> 3 \<le> np_used p"
      | (last) "np_expected p \<noteq> 0" "\<not> 3 \<le> np_used p" "np_used p + 1 = np_expected p"
      | (more) "np_expected p \<noteq> 0" "\<not> 3 \<le> np_used p" "np_used p + 1 \<noteq> np_expected p" by blast
    then show ?thesis
    proof cases
      case idle
      then have "q' = q \<and> out' = out" using fed unfolding feed_byte_data [OF True] q three zero by (simp split: if_splits)
      then show ?thesis using idle same by (simp add: parse_byte_def b)
    next
      case last
      then have n: "Suc (unat (np_used p)) = unat (np_expected p)" using full by simp
      have eq: "q' = q\<lparr>mp_message := ?m, mp_used := 0, mp_expected := 0\<rparr>" "out' = out @ take (unat (np_expected p)) ?m"
        using fed last n unfolding feed_byte_data [OF True] q three zero by simp_all
      have "parse_byte capacity b (p, out) = (p\<lparr>np_message := ?m, np_used := 0, np_expected := 0\<rparr>, out')"
        using last room n q by (simp add: parse_byte_def b Let_def eq(2))
      then show ?thesis using ok by (simp add: same_parser_def eq(1))
    next
      case more
      then have "q' = q\<lparr>mp_message := ?m, mp_used := Suc (unat (np_used p))\<rparr>" "out' = out"
        using fed full unfolding feed_byte_data [OF True] q three zero by simp_all
      moreover have "parse_byte capacity b (p, out) = (p\<lparr>np_message := ?m, np_used := np_used p + 1\<rparr>, out)"
        using more by (simp add: parse_byte_def b Let_def)
      ultimately show ?thesis using ok more inc q by (simp add: same_parser_def)
    qed
  next
    case False
    then have b: "b AND 0x80 \<noteq> 0" "0x80 \<le> b" using top_bit by (simp_all add: not_less)
    consider "b = 0xfd" | "b \<noteq> 0xfd" "b \<le> 0xef" | "b \<noteq> 0xfd" "\<not> b \<le> 0xef" by blast
    then show ?thesis using fed ok same q b unfolding feed_byte_status [OF False]
      by cases (auto simp: parse_byte_def Let_def same_parser_def midi_size_def)
  qed
qed

lemma parse_bytes_same:
  "same_parser p q \<Longrightarrow> length out + mp_used q + length bs \<le> capacity \<Longrightarrow> fold feed_byte bs (q, out) = (q', out') \<Longrightarrow>
   \<exists>p'. fold (parse_byte capacity) bs (p, out) = (p', out') \<and> same_parser p' q'"
proof (induction bs arbitrary: p q out)
  case (Cons b bs)
  obtain q1 out1 where 1: "feed_byte b (q, out) = (q1, out1)" by fastforce
  have "parser_ok q" using Cons.prems(1) by (simp add: same_parser_def)
  note len = feed_byte_ok [OF this 1]
  obtain p1 where p1: "parse_byte capacity b (p, out) = (p1, out1)" "same_parser p1 q1"
    using parse_byte_same [OF Cons.prems(1) _ 1, of capacity] Cons.prems(2) by auto
  have "\<exists>p'. fold (parse_byte capacity) bs (p1, out1) = (p', out') \<and> same_parser p' q'"
    using Cons.prems(2,3) 1 len by (intro Cons.IH [OF p1(2)]) auto
  then show ?case by (simp add: p1)
qed simp

text \<open>The messages each parser makes of a report.\<close>

definition driver_messages :: "u8 list \<Rightarrow> MIDIInputParser \<Rightarrow> u8 list \<times> MIDIInputParser" where
  "driver_messages report q = (case feedReport (Some report) (length report) True q of (q, out) \<Rightarrow> (out, q))"

definition legacy_messages :: "u8 list \<Rightarrow> ns6_midi_parser \<Rightarrow> u8 list \<times> ns6_midi_parser" where
  "legacy_messages report p =
     (case ns6_midi_parser_feed (Some p) (Some report) (ns6_midi_report_stream_length (length report)) True 45 of (p, out) \<Rightarrow> (out, the p))"

lemma messages_same:
  assumes "same_parser p q" and "length report = 42" and "driver_messages report q = (out, q')"
  shows "\<exists>p'. legacy_messages report p = (out, p') \<and> same_parser p' q'"
proof -
  have used: "mp_used q \<le> 2" using assms(1) by (auto simp: same_parser_def parser_ok_def midi_size_def split: if_splits)
  have "fold feed_byte (take 41 report) (q, []) = (q', out)" using assms(2,3) by (auto simp: driver_messages_def feedReport_def split: prod.splits)
  then have "\<exists>p'. fold (parse_byte 45) (take 41 report) (p, []) = (p', out) \<and> same_parser p' q'"
    using used by (intro parse_bytes_same [OF assms(1)]) auto
  then show ?thesis using assms(2) by (auto simp: legacy_messages_def ns6_midi_parser_feed_def ns6_midi_report_stream_length_def)
qed

text \<open>
  (C23) The parser of the first driver and the one of the second make the same MIDI messages of every sequence of 42-byte reports: the
  capacity check of the first one, which would drop a message, never fires on the buffer its caller provides.
\<close>

theorem midi_parsers_agree:
  assumes "\<forall>report \<in> set reports. length report = 42"
  shows "fst (run_ops legacy_messages reports ns6_midi_parser_zero) = fst (run_ops driver_messages reports midi_parser_new)"
proof -
  have "fst (run_ops legacy_messages rs p) = fst (run_ops driver_messages rs q)"
    if "same_parser p q" "\<forall>report \<in> set rs. length report = 42" for rs p q
    using that
  proof (induction rs arbitrary: p q)
    case (Cons r rs)
    obtain out q1 where q1: "driver_messages r q = (out, q1)" by fastforce
    obtain p1 where p1: "legacy_messages r p = (out, p1)" "same_parser p1 q1"
      using messages_same [OF Cons.prems(1) _ q1] Cons.prems(2) by auto
    show ?case using Cons.IH [OF p1(2)] Cons.prems(2) by (simp add: p1(1) q1 case_prod_beta)
  qed simp
  moreover have "same_parser ns6_midi_parser_zero midi_parser_new"
    using parser_new_ok by (simp add: same_parser_def ns6_midi_parser_zero_def midi_parser_new_def)
  ultimately show ?thesis using assms by blast
qed

text \<open>Witness for C0: a note whose last byte arrives in the second report.\<close>

theorem midi_parsers_agree_witness:
  "let reports = [replicate 39 0xfd @ [0x90, 0x3c, 0], 0x7f # replicate 41 0xfd]
   in fst (run_ops legacy_messages reports ns6_midi_parser_zero) = [[], [0x90, 0x3c, 0x7f]]"
proof -
  let ?reports = "[replicate 39 0xfd @ [0x90, 0x3c, 0], 0x7f # replicate 41 0xfd] :: u8 list list"
  have "fst (run_ops driver_messages ?reports midi_parser_new) = [[], [0x90, 0x3c, 0x7f]]" by code_simp
  moreover have "\<forall>report \<in> set ?reports. length report = 42" by simp
  ultimately show ?thesis using midi_parsers_agree [of ?reports] unfolding Let_def by simp
qed

end
