(* ===== verification/NS6_Service.thy ===== *)
theory NS6_Service
  imports NS6_Clients NS6_Transport NS6_Ring
begin

text \<open>
  The persistent USB service of the first driver and its client: \<^verbatim>\<open>coreaudio/NS6SharedMemory.h\<close>, \<^verbatim>\<open>NS6DeviceProtocol.h\<close>,
  \<^verbatim>\<open>NS6DeviceMachService.c\<close> and \<^verbatim>\<open>NS6DeviceClient.c\<close>. The kernel is an argument: what a receive returns, which processes are alive, whether a
  system call succeeds. A message is what its bytes read as, a reply is a value. The calls the service makes to the USB module are recorded in
  \<open>sv_usb\<close>; the module's answers are arguments.
\<close>

unbundle bit_operations_syntax

subsection \<open>Shared memory\<close>

text \<open>\<open>sizeof\<close> is the sizeof of the structure on the platform.\<close>

record NS6SharedMemory =
  sm_protocol_version :: u32
  sm_struct_size :: u32
  sm_output :: NS6TransportShared
  sm_capture :: NS6CaptureRing
  sm_session :: session_gate
  sm_capture_requested :: bool
  sm_capture_last_demand_ns :: u64

definition ns6_shared_memory_init :: "u32 \<Rightarrow> NS6SharedMemory option \<Rightarrow> NS6SharedMemory option" where
  "ns6_shared_memory_init sizeof memory =
     map_option (\<lambda>m. m\<lparr>sm_protocol_version := 5, sm_struct_size := sizeof, sm_output := ns6_transport_init_shared (sm_output m),
       sm_capture := the (ns6_capture_ring_init (Some (sm_capture m))), sm_session := the (ns6_device_session_init (Some (sm_session m))),
       sm_capture_requested := False, sm_capture_last_demand_ns := 0\<rparr>) memory"

text \<open>
  The gate operations as a thread runs them. \<open>drained\<close> is the attempt at which the counter of callbacks first reads zero, if it does.
\<close>

definition ns6_device_session_begin :: "nat option \<Rightarrow> u64 \<Rightarrow> session_gate \<Rightarrow> bool \<times> session_gate" where
  "ns6_device_session_begin drained sid s =
     (if sid = 0 then (False, s)
      else let previous = sg_active_id s; s = s\<lparr>sg_active_id := 0\<rparr>
           in case drained of
                Some attempt \<Rightarrow> if attempt < 100000 then (True, s\<lparr>sg_active_id := sid\<rparr>) else (False, s\<lparr>sg_active_id := previous\<rparr>)
              | None \<Rightarrow> (False, s\<lparr>sg_active_id := previous\<rparr>))"

definition ns6_device_session_io_begin :: "u64 \<Rightarrow> session_gate \<Rightarrow> bool \<times> session_gate" where
  "ns6_device_session_io_begin sid s =
     (if sid = 0 then (False, s)
      else let s = s\<lparr>sg_callbacks_in_flight := sg_callbacks_in_flight s + 1\<rparr>
           in if ns6_device_session_is_current (Some s) sid then (True, s)
              else (False, s\<lparr>sg_callbacks_in_flight := sg_callbacks_in_flight s - 1\<rparr>))"

definition ns6_device_session_io_end :: "session_gate \<Rightarrow> session_gate" where
  "ns6_device_session_io_end s = s\<lparr>sg_callbacks_in_flight := sg_callbacks_in_flight s - 1\<rparr>"

subsection \<open>Protocol\<close>

datatype kern_return =
    KERN_SUCCESS
  | KERN_FAILURE
  | KERN_NO_ACCESS
  | KERN_RESOURCE_SHORTAGE
  | MIG_BAD_ARGUMENTS
  | MIG_BAD_ID

abbreviation NS6_DEVICE_MSG_HELLO :: u32 where "NS6_DEVICE_MSG_HELLO \<equiv> 0x4e530001"
abbreviation NS6_DEVICE_MSG_SET_AUDIO_ACTIVE :: u32 where "NS6_DEVICE_MSG_SET_AUDIO_ACTIVE \<equiv> 0x4e530003"
abbreviation NS6_DEVICE_MSG_SET_STARTUP_BUFFER :: u32 where "NS6_DEVICE_MSG_SET_STARTUP_BUFFER \<equiv> 0x4e530004"
abbreviation NS6_DEVICE_MSG_GET_STATE :: u32 where "NS6_DEVICE_MSG_GET_STATE \<equiv> 0x4e530005"
abbreviation NS6_DEVICE_MSG_RELEASE_CLIENT :: u32 where "NS6_DEVICE_MSG_RELEASE_CLIENT \<equiv> 0x4e530008"

record NS6DeviceHelloRequest =
  hq_protocol_version :: u32
  hq_client_struct_size :: u32
  hq_client_id :: u64

record NS6DeviceControlRequest =
  cq_protocol_version :: u32
  cq_value :: u32
  cq_session_id :: u64
  cq_client_id :: u64

record NS6DeviceStateSnapshot =
  ss_connected :: u32
  ss_transport_ready :: u32
  ss_firmware_version :: string
  ss_underruns :: u64
  ss_transfer_errors :: u64
  ss_packet_errors :: u64
  ss_clock_rate_millihz :: u64
  ss_active_frames :: u32

definition snapshot_zero :: NS6DeviceStateSnapshot where
  "snapshot_zero = \<lparr>ss_connected = 0, ss_transport_ready = 0, ss_firmware_version = [], ss_underruns = 0, ss_transfer_errors = 0,
     ss_packet_errors = 0, ss_clock_rate_millihz = 0, ss_active_frames = 0\<rparr>"

definition ns6_device_protocol_version_supported :: "u32 \<Rightarrow> bool" where
  "ns6_device_protocol_version_supported version \<longleftrightarrow> version = 4"

text \<open>
  A received message: its identifier and size, the audit trailer (whether it is well formed, the sender's user and process), and the bytes
  read as either request.
\<close>

record mach_request =
  mq_id :: u32
  mq_size :: nat
  mq_trailer :: bool
  mq_euid :: u32
  mq_pid :: int
  mq_hello :: NS6DeviceHelloRequest
  mq_control :: NS6DeviceControlRequest

text \<open>The fields of \<^verbatim>\<open>NS6DeviceHelloReply\<close>; a port is a number, the null port \<open>None\<close>.\<close>

record NS6DeviceHelloReply =
  hr_memory_entry :: "nat option"
  hr_protocol_version :: u32
  hr_shared_struct_size :: u32
  hr_mapped_size :: u64
  hr_memory_offset :: u64
  hr_session_id :: u64
  hr_status :: kern_return

datatype service_reply = HelloReply NS6DeviceHelloReply | ControlReply kern_return | StateReply kern_return NS6DeviceStateSnapshot

subsection \<open>The service\<close>

datatype usb_request = UsbSetPaused bool | UsbSetStartupBufferFrames u32 | UsbRequestRestart

record NS6DeviceService =
  sv_memory :: "NS6SharedMemory option"
  sv_receive_port :: "nat option"
  sv_memory_entry :: "nat option"
  sv_mapping_base :: u64
  sv_mapping_size :: u64
  sv_memory_offset :: u64
  sv_stopping :: bool
  sv_owner :: bool
  sv_clients :: NS6DeviceClientRegistry
  sv_running :: bool
  sv_audio_active :: bool
  sv_startup_buffer_frames :: u32
  sv_session_id :: u64
  sv_coreaudiod_uid :: u32
  sv_snapshot :: NS6DeviceStateSnapshot
  sv_usb :: "usb_request list"

definition usb_call_made :: "usb_request \<Rightarrow> NS6DeviceService \<Rightarrow> NS6DeviceService" where
  "usb_call_made r s = s\<lparr>sv_usb := sv_usb s @ [r]\<rparr>"

definition hello_refused :: "u32 \<Rightarrow> kern_return \<Rightarrow> service_reply" where
  "hello_refused sizeof status = HelloReply \<lparr>hr_memory_entry = None, hr_protocol_version = 4, hr_shared_struct_size = sizeof, hr_mapped_size = 0,
     hr_memory_offset = 0, hr_session_id = 0, hr_status = status\<rparr>"

definition handle_hello :: "u32 \<Rightarrow> NS6DeviceHelloRequest \<Rightarrow> int \<Rightarrow> NS6DeviceService \<Rightarrow> service_reply \<times> NS6DeviceService" where
  "handle_hello sizeof request peer_pid s =
     (if \<not> ns6_device_protocol_version_supported (hq_protocol_version request) \<or> hq_client_struct_size request \<noteq> sizeof \<or> hq_client_id request = 0
      then (hello_refused sizeof MIG_BAD_ARGUMENTS, s)
      else case ns6_device_client_registry_attach (Some (sv_clients s)) (hq_client_id request) peer_pid of (attached, clients) \<Rightarrow>
      if \<not> attached then (hello_refused sizeof KERN_RESOURCE_SHORTAGE, s)
      else (HelloReply \<lparr>hr_memory_entry = sv_memory_entry s, hr_protocol_version = 4, hr_shared_struct_size = sizeof, hr_mapped_size = sv_mapping_size s,
              hr_memory_offset = sv_memory_offset s, hr_session_id = sv_session_id s, hr_status = KERN_SUCCESS\<rparr>,
            s\<lparr>sv_clients := the clients\<rparr>))"

definition update_audio_active_from_clients :: "NS6DeviceService \<Rightarrow> NS6DeviceService" where
  "update_audio_active_from_clients s =
     (let active = ns6_device_client_registry_any_audio_active (Some (sv_clients s)); was_active = sv_audio_active s;
          s = s\<lparr>sv_audio_active := active\<rparr>
      in if active then (if \<not> was_active then usb_call_made (UsbSetPaused False) s else s)
         else if was_active then usb_call_made (UsbSetPaused True) s else s)"

text \<open>\<open>alive\<close> says which processes \<^verbatim>\<open>kill(pid, 0)\<close> finds. The loop visits the eight slots; a detachment changes those it has yet to visit.\<close>

fun reap_loop :: "(int \<Rightarrow> bool) \<Rightarrow> nat list \<Rightarrow> NS6DeviceClientRegistry \<Rightarrow> bool \<times> NS6DeviceClientRegistry" where
  "reap_loop alive [] clients = (False, clients)"
| "reap_loop alive (i # is) clients =
     (let client = clients ! i
      in if client_id client = 0 \<or> process_id client \<le> 0 \<or> alive (process_id client) then reap_loop alive is clients
         else case ns6_device_client_registry_detach_process (Some clients) (process_id client) of (detached, rest) \<Rightarrow>
           case reap_loop alive is (the rest) of (reaped, clients) \<Rightarrow> (detached \<noteq> 0 \<or> reaped, clients))"

definition reap_dead_clients :: "(int \<Rightarrow> bool) \<Rightarrow> NS6DeviceService \<Rightarrow> NS6DeviceService" where
  "reap_dead_clients alive s =
     (case reap_loop alive [0..<8] (sv_clients s) of (reaped, clients) \<Rightarrow>
      let s = s\<lparr>sv_clients := clients\<rparr> in if reaped then update_audio_active_from_clients s else s)"

definition control_allowed :: "NS6DeviceControlRequest \<Rightarrow> NS6DeviceService \<Rightarrow> bool" where
  "control_allowed request s \<longleftrightarrow>
     ns6_device_session_is_current (map_option sm_session (sv_memory s)) (cq_session_id request) \<and>
     ns6_device_client_registry_contains (Some (sv_clients s)) (cq_client_id request)"

text \<open>\<open>ready\<close> and \<open>restarts\<close> are the answers of \<^verbatim>\<open>ns6_usb_is_ready\<close> and \<^verbatim>\<open>ns6_usb_request_restart\<close>.\<close>

definition set_startup_buffer :: "bool \<Rightarrow> bool \<Rightarrow> u32 \<Rightarrow> NS6DeviceService \<Rightarrow> kern_return \<times> NS6DeviceService" where
  "set_startup_buffer ready restarts value s =
     (if value = 0 \<or> 65536 < value then (MIG_BAD_ARGUMENTS, s)
      else let changed = (sv_startup_buffer_frames s \<noteq> value);
               s = usb_call_made (UsbSetStartupBufferFrames value) (s\<lparr>sv_startup_buffer_frames := value\<rparr>)
           in if changed \<and> ready
              then (if restarts then KERN_SUCCESS else KERN_FAILURE, usb_call_made UsbRequestRestart s)
              else (KERN_SUCCESS, s))"

definition handle_control :: "bool \<Rightarrow> bool \<Rightarrow> u32 \<Rightarrow> NS6DeviceControlRequest \<Rightarrow> NS6DeviceService \<Rightarrow> service_reply \<times> NS6DeviceService" where
  "handle_control ready restarts message request s =
     (if \<not> ns6_device_protocol_version_supported (cq_protocol_version request) then (ControlReply MIG_BAD_ARGUMENTS, s)
      else if \<not> control_allowed request s then (ControlReply MIG_BAD_ID, s)
      else if message = NS6_DEVICE_MSG_SET_AUDIO_ACTIVE then
        (if 1 < cq_value request then (ControlReply MIG_BAD_ARGUMENTS, s)
         else let clients = snd (ns6_device_client_registry_set_audio_active (Some (sv_clients s)) (cq_client_id request) (cq_value request \<noteq> 0))
              in (ControlReply KERN_SUCCESS, update_audio_active_from_clients (s\<lparr>sv_clients := the clients\<rparr>)))
      else if message = NS6_DEVICE_MSG_RELEASE_CLIENT then
        (case ns6_device_client_registry_detach (Some (sv_clients s)) (cq_client_id request) of (detached, clients) \<Rightarrow>
         if \<not> detached then (ControlReply MIG_BAD_ID, s)
         else (ControlReply KERN_SUCCESS, update_audio_active_from_clients (s\<lparr>sv_clients := the clients\<rparr>)))
      else if message = NS6_DEVICE_MSG_SET_STARTUP_BUFFER then
        (case set_startup_buffer ready restarts (cq_value request) s of (status, s) \<Rightarrow> (ControlReply status, s))
      else (ControlReply MIG_BAD_ID, s))"

definition handle_state :: "NS6DeviceControlRequest \<Rightarrow> NS6DeviceService \<Rightarrow> service_reply" where
  "handle_state request s =
     StateReply (if ns6_device_protocol_version_supported (cq_protocol_version request) \<and> control_allowed request s then KERN_SUCCESS else MIG_BAD_ID)
       ((sv_snapshot s)\<lparr>ss_active_frames := sv_startup_buffer_frames s\<rparr>)"

definition reject_unauthorized_request :: "u32 \<Rightarrow> u32 \<Rightarrow> service_reply" where
  "reject_unauthorized_request sizeof message =
     (if message = NS6_DEVICE_MSG_HELLO then hello_refused sizeof KERN_NO_ACCESS
      else if message = NS6_DEVICE_MSG_GET_STATE then StateReply KERN_NO_ACCESS snapshot_zero
      else ControlReply KERN_NO_ACCESS)"

definition sender_is_authorized :: "mach_request \<Rightarrow> u32 \<Rightarrow> bool" where
  "sender_is_authorized request coreaudiod_uid \<longleftrightarrow> mq_trailer request \<and> ns6_device_peer_uid_authorized (mq_euid request) coreaudiod_uid"

text \<open>The sizes of the two request structures.\<close>

abbreviation sizeof_NS6DeviceHelloRequest :: nat where "sizeof_NS6DeviceHelloRequest \<equiv> 40"
abbreviation sizeof_NS6DeviceControlRequest :: nat where "sizeof_NS6DeviceControlRequest \<equiv> 48"

text \<open>What a turn of the thread depends on beside the message: the processes alive and the answers of the USB module.\<close>

record service_world =
  w_alive :: "int \<Rightarrow> bool"
  w_ready :: bool
  w_restarts :: bool

definition service_serve :: "u32 \<Rightarrow> service_world \<Rightarrow> mach_request \<Rightarrow> NS6DeviceService \<Rightarrow> service_reply \<times> NS6DeviceService" where
  "service_serve sizeof w request s =
     (if \<not> sender_is_authorized request (sv_coreaudiod_uid s) then (reject_unauthorized_request sizeof (mq_id request), s)
      else let s = reap_dead_clients (w_alive w) s
           in if mq_id request = NS6_DEVICE_MSG_HELLO \<and> sizeof_NS6DeviceHelloRequest \<le> mq_size request
                then handle_hello sizeof (mq_hello request) (mq_pid request) s
              else if mq_id request = NS6_DEVICE_MSG_GET_STATE \<and> sizeof_NS6DeviceControlRequest \<le> mq_size request
                then (handle_state (mq_control request) s, s)
              else if sizeof_NS6DeviceControlRequest \<le> mq_size request
                then handle_control (w_ready w) (w_restarts w) (mq_id request) (mq_control request) s
              else (ControlReply MIG_BAD_ARGUMENTS, s))"

datatype receive_result = Received mach_request | TimedOut | ReceiveFailed

text \<open>A turn of the loop of \<^verbatim>\<open>service_thread\<close>, which does nothing once the service is stopping.\<close>

definition service_thread :: "u32 \<Rightarrow> service_world \<Rightarrow> receive_result \<Rightarrow> NS6DeviceService \<Rightarrow> service_reply option \<times> NS6DeviceService" where
  "service_thread sizeof w received s =
     (if sv_stopping s then (None, s)
      else case received of
        Received request \<Rightarrow> (case service_serve sizeof w request s of (reply, s) \<Rightarrow> (Some reply, s))
      | TimedOut \<Rightarrow> (None, reap_dead_clients (w_alive w) s)
      | ReceiveFailed \<Rightarrow> (None, s))"

definition service_turn :: "u32 \<Rightarrow> service_world \<times> receive_result \<Rightarrow> NS6DeviceService \<Rightarrow> service_reply option \<times> NS6DeviceService" where
  "service_turn sizeof e = service_thread sizeof (fst e) (snd e)"

subsection \<open>Publishing and stopping\<close>

text \<open>
  What the system answers while the service is published: the user of \<^verbatim>\<open>_coreaudiod\<close>, the address of the memory and the page sizeof, the memory entry
  with its sizeof, the receive port, the clock, the drain of the callbacks and whether the thread can be created.
\<close>

record publish_world =
  pw_account :: "u32 option"
  pw_address :: u64
  pw_page_size :: u64
  pw_memory_entry :: "(nat \<times> u64) option"
  pw_receive_port :: "nat option"
  pw_time :: u64
  pw_drained :: "nat option"
  pw_thread :: bool

definition page_base :: "publish_world \<Rightarrow> u64" where
  "page_base w = pw_address w AND NOT (pw_page_size w - 1)"

definition page_offset :: "publish_world \<Rightarrow> u64" where
  "page_offset w = pw_address w - page_base w"

definition page_length :: "u32 \<Rightarrow> publish_world \<Rightarrow> u64" where
  "page_length sizeof w = (page_offset w + ucast sizeof + pw_page_size w - 1) AND NOT (pw_page_size w - 1)"

text \<open>The ports are given back, as after a session that cannot begin or a thread that cannot be created.\<close>

definition publish_undone :: "NS6DeviceService \<Rightarrow> NS6DeviceService" where
  "publish_undone s = s\<lparr>sv_receive_port := None, sv_memory_entry := None, sv_memory := None, sv_owner := the (ns6_device_owner_release (Some (sv_owner s)))\<rparr>"

text \<open>The last part, with the ports at hand. The memory is returned as well: the service and its owner share it.\<close>

definition publish_session :: "u32 \<Rightarrow> publish_world \<Rightarrow> NS6SharedMemory \<Rightarrow> NS6DeviceService \<Rightarrow> bool \<times> NS6SharedMemory \<times> NS6DeviceService" where
  "publish_session sizeof w memory s =
     (let sid = pw_time w XOR pw_address w; sid = (if sid = 0 then 1 else sid);
          s = s\<lparr>sv_memory := Some memory, sv_mapping_base := page_base w, sv_mapping_size := page_length sizeof w,
                sv_memory_offset := page_offset w, sv_session_id := sid, sv_clients := registry_zero\<rparr>
      in case ns6_device_session_begin (pw_drained w) sid (sm_session memory) of (begun, session) \<Rightarrow>
         let memory = memory\<lparr>sm_session := session\<rparr>
         in if \<not> begun then (False, memory, publish_undone s)
            else let s = s\<lparr>sv_memory := Some memory,
                           sv_snapshot := (sv_snapshot s)\<lparr>ss_connected := 0, ss_transport_ready := 0, ss_firmware_version := []\<rparr>,
                           sv_stopping := False, sv_audio_active := False\<rparr>
                 in if \<not> pw_thread w then (False, memory, publish_undone s) else (True, memory, s\<lparr>sv_running := True\<rparr>))"

definition ns6_device_service_publish :: "u32 \<Rightarrow> publish_world \<Rightarrow> NS6SharedMemory \<Rightarrow> NS6DeviceService \<Rightarrow> bool \<times> NS6SharedMemory \<times> NS6DeviceService" where
  "ns6_device_service_publish sizeof w memory s =
     (if sv_running s \<or> sm_protocol_version memory \<noteq> 5 \<or> sm_struct_size memory \<noteq> sizeof then (False, memory, s)
      else case pw_account w of None \<Rightarrow> (False, memory, s) | Some uid \<Rightarrow>
      let s = s\<lparr>sv_coreaudiod_uid := uid, sv_owner := the (ns6_device_owner_init (Some (sv_owner s)))\<rparr>
      in case ns6_device_owner_claim (Some (sv_owner s)) of (claimed, owner) \<Rightarrow>
         let s = s\<lparr>sv_owner := the owner\<rparr>; released = s\<lparr>sv_owner := the (ns6_device_owner_release owner)\<rparr>
         in if \<not> claimed then (False, memory, s)
            else case pw_memory_entry w of None \<Rightarrow> (False, memory, released) | Some (entry, entry_size) \<Rightarrow>
            if entry_size < page_length sizeof w then (False, memory, released\<lparr>sv_memory_entry := Some entry\<rparr>)
            else case pw_receive_port w of None \<Rightarrow> (False, memory, released\<lparr>sv_memory_entry := None\<rparr>)
              | Some port \<Rightarrow> publish_session sizeof w memory (s\<lparr>sv_memory_entry := Some entry, sv_receive_port := Some port\<rparr>))"

definition ns6_device_service_update_device_state :: "bool \<Rightarrow> bool \<Rightarrow> string option \<Rightarrow> NS6DeviceService \<Rightarrow> NS6DeviceService" where
  "ns6_device_service_update_device_state is_connected transport_ready firmware_version s =
     s\<lparr>sv_snapshot := (sv_snapshot s)\<lparr>ss_connected := of_bool is_connected, ss_transport_ready := of_bool transport_ready,
         ss_firmware_version := (case firmware_version of Some v \<Rightarrow> take 31 v | None \<Rightarrow> [])\<rparr>\<rparr>"

definition ns6_device_service_audio_active :: "NS6DeviceService \<Rightarrow> bool" where
  "ns6_device_service_audio_active s = sv_audio_active s"

definition ns6_device_service_stop :: "NS6DeviceService \<Rightarrow> NS6DeviceService" where
  "ns6_device_service_stop s =
     (if \<not> sv_running s then s
      else s\<lparr>sv_stopping := True, sv_receive_port := None, sv_memory_entry := None, sv_memory := None, sv_mapping_base := 0,
             sv_mapping_size := 0, sv_memory_offset := 0, sv_running := False, sv_owner := the (ns6_device_owner_release (Some (sv_owner s)))\<rparr>)"

subsection \<open>The client\<close>

text \<open>
  The kernel's message passing is the argument \<open>ipc\<close>: whether a reply port can be allocated and what answer, if any, a sent message brings.
  \<open>'k\<close> is everything behind the port.
\<close>

datatype device_message = HelloMessage NS6DeviceHelloRequest | ControlMessage u32 NS6DeviceControlRequest

record 'k ipc =
  ipc_reply_port :: "'k \<Rightarrow> bool"
  ipc_send :: "nat \<Rightarrow> device_message \<Rightarrow> 'k \<Rightarrow> service_reply option \<times> 'k"

definition exchange_message :: "'k ipc \<Rightarrow> nat \<Rightarrow> device_message \<Rightarrow> 'k \<Rightarrow> service_reply option \<times> 'k" where
  "exchange_message ipc port request k = (if ipc_reply_port ipc k then ipc_send ipc port request k else (None, k))"

record NS6DeviceClient =
  dc_service_port :: "nat option"
  dc_mapping_address :: u64
  dc_mapping_size :: u64
  dc_shared_memory :: "u64 option"
  dc_session_id :: u64
  dc_client_id :: u64
  dc_connected :: bool

definition device_client_zero :: NS6DeviceClient where
  "device_client_zero = \<lparr>dc_service_port = None, dc_mapping_address = 0, dc_mapping_size = 0, dc_shared_memory = None, dc_session_id = 0,
     dc_client_id = 0, dc_connected = False\<rparr>"

definition send_control :: "'k ipc \<Rightarrow> u32 \<Rightarrow> u32 \<Rightarrow> NS6DeviceClient \<Rightarrow> 'k \<Rightarrow> bool \<times> 'k" where
  "send_control ipc message value client k =
     (case dc_service_port client of None \<Rightarrow> (False, k) | Some port \<Rightarrow>
      if \<not> dc_connected client then (False, k)
      else case exchange_message ipc port (ControlMessage message \<lparr>cq_protocol_version = 4, cq_value = value, cq_session_id = dc_session_id client,
             cq_client_id = dc_client_id client\<rparr>) k of (reply, k) \<Rightarrow> (reply = Some (ControlReply KERN_SUCCESS), k))"

definition ns6_device_client_disconnect :: "'k ipc \<Rightarrow> NS6DeviceClient \<Rightarrow> 'k \<Rightarrow> NS6DeviceClient \<times> 'k" where
  "ns6_device_client_disconnect ipc client k =
     (device_client_zero,
      if dc_connected client \<and> dc_client_id client \<noteq> 0 then snd (send_control ipc NS6_DEVICE_MSG_RELEASE_CLIENT 0 client k) else k)"

text \<open>Whether the send right can be retained, the value the client number is made of, the address the memory is mapped at and the header found there.\<close>

record client_world =
  cw_retain :: bool
  cw_unique :: u64
  cw_map :: "u64 option"
  cw_header :: "u32 \<times> u32"

definition hello_valid :: "u32 \<Rightarrow> NS6DeviceHelloReply \<Rightarrow> bool" where
  "hello_valid sizeof reply \<longleftrightarrow>
     ns6_device_protocol_version_supported (hr_protocol_version reply) \<and> hr_shared_struct_size reply = sizeof \<and> hr_session_id reply \<noteq> 0 \<and>
     hr_status reply = KERN_SUCCESS \<and> hr_memory_entry reply \<noteq> None \<and> hr_mapped_size reply \<noteq> 0 \<and>
     hr_memory_offset reply < hr_mapped_size reply \<and> ucast sizeof \<le> hr_mapped_size reply - hr_memory_offset reply"

definition connect_mapped :: "'k ipc \<Rightarrow> client_world \<Rightarrow> u32 \<Rightarrow> NS6DeviceHelloReply \<Rightarrow> NS6DeviceClient \<Rightarrow> 'k \<Rightarrow> bool \<times> NS6DeviceClient \<times> 'k" where
  "connect_mapped ipc w sizeof reply client k =
     (case cw_map w of None \<Rightarrow> (case ns6_device_client_disconnect ipc client k of (client, k) \<Rightarrow> (False, client, k))
      | Some address \<Rightarrow>
        let client = client\<lparr>dc_mapping_address := address, dc_mapping_size := hr_mapped_size reply\<rparr>
        in if cw_header w \<noteq> (5, sizeof) then (case ns6_device_client_disconnect ipc client k of (client, k) \<Rightarrow> (False, client, k))
           else (True, client\<lparr>dc_shared_memory := Some (address + hr_memory_offset reply)\<rparr>, k))"

definition ns6_device_client_connect_to_port :: "'k ipc \<Rightarrow> client_world \<Rightarrow> u32 \<Rightarrow> NS6DeviceClient \<Rightarrow> nat option \<Rightarrow> 'k \<Rightarrow> bool \<times> NS6DeviceClient \<times> 'k" where
  "ns6_device_client_connect_to_port ipc w sizeof client service_port k =
     (case service_port of None \<Rightarrow> (False, client, k) | Some port \<Rightarrow>
      case ns6_device_client_disconnect ipc client k of (client, k) \<Rightarrow>
      if \<not> cw_retain w then (False, client, k)
      else let cid = (if cw_unique w = 0 then 1 else cw_unique w)
           in case exchange_message ipc port (HelloMessage \<lparr>hq_protocol_version = 4, hq_client_struct_size = sizeof, hq_client_id = cid\<rparr>) k of
                (Some (HelloReply reply), k) \<Rightarrow>
                  if \<not> hello_valid sizeof reply then (False, client, k)
                  else connect_mapped ipc w sizeof reply
                    (client\<lparr>dc_service_port := Some port, dc_session_id := hr_session_id reply, dc_client_id := cid, dc_connected := True\<rparr>) k
              | (_, k) \<Rightarrow> (False, client, k))"

text \<open>\<open>looked_up\<close> is the port the name of the service resolves to.\<close>

definition ns6_device_client_connect :: "'k ipc \<Rightarrow> client_world \<Rightarrow> u32 \<Rightarrow> nat option \<Rightarrow> NS6DeviceClient \<Rightarrow> 'k \<Rightarrow> bool \<times> NS6DeviceClient \<times> 'k" where
  "ns6_device_client_connect ipc w sizeof looked_up client k =
     (case looked_up of None \<Rightarrow> (False, client, k) | Some port \<Rightarrow> ns6_device_client_connect_to_port ipc w sizeof client (Some port) k)"

definition ns6_device_client_set_audio_active :: "'k ipc \<Rightarrow> bool \<Rightarrow> NS6DeviceClient \<Rightarrow> 'k \<Rightarrow> bool \<times> 'k" where
  "ns6_device_client_set_audio_active ipc is_active client k =
     send_control ipc NS6_DEVICE_MSG_SET_AUDIO_ACTIVE (if is_active then 1 else 0) client k"

definition ns6_device_client_set_startup_buffer :: "'k ipc \<Rightarrow> u32 \<Rightarrow> NS6DeviceClient \<Rightarrow> 'k \<Rightarrow> bool \<times> 'k" where
  "ns6_device_client_set_startup_buffer ipc frames client k = send_control ipc NS6_DEVICE_MSG_SET_STARTUP_BUFFER frames client k"

datatype NS6DeviceClientStateResult =
  NS6_DEVICE_CLIENT_STATE_UNAVAILABLE | NS6_DEVICE_CLIENT_STATE_READY | NS6_DEVICE_CLIENT_STATE_REPLACED

definition ns6_device_client_get_state_result :: "'k ipc \<Rightarrow> NS6DeviceClient \<Rightarrow> NS6DeviceStateSnapshot option \<Rightarrow> 'k \<Rightarrow>
    NS6DeviceClientStateResult \<times> NS6DeviceStateSnapshot option \<times> 'k" where
  "ns6_device_client_get_state_result ipc client snapshot k =
     (if \<not> dc_connected client \<or> snapshot = None \<or> dc_service_port client = None then (NS6_DEVICE_CLIENT_STATE_UNAVAILABLE, snapshot, k)
      else case exchange_message ipc (the (dc_service_port client)) (ControlMessage NS6_DEVICE_MSG_GET_STATE \<lparr>cq_protocol_version = 4, cq_value = 0,
             cq_session_id = dc_session_id client, cq_client_id = dc_client_id client\<rparr>) k of
           (Some (StateReply status reply), k) \<Rightarrow>
             if status = MIG_BAD_ID then (NS6_DEVICE_CLIENT_STATE_REPLACED, snapshot, k)
             else if status \<noteq> KERN_SUCCESS then (NS6_DEVICE_CLIENT_STATE_UNAVAILABLE, snapshot, k)
             else (NS6_DEVICE_CLIENT_STATE_READY, Some reply, k)
         | (_, k) \<Rightarrow> (NS6_DEVICE_CLIENT_STATE_UNAVAILABLE, snapshot, k))"

definition ns6_device_client_get_state :: "'k ipc \<Rightarrow> NS6DeviceClient \<Rightarrow> NS6DeviceStateSnapshot option \<Rightarrow> 'k \<Rightarrow> bool \<times> NS6DeviceStateSnapshot option \<times> 'k" where
  "ns6_device_client_get_state ipc client snapshot k =
     (case ns6_device_client_get_state_result ipc client snapshot k of (result, rest) \<Rightarrow> (result = NS6_DEVICE_CLIENT_STATE_READY, rest))"

subsection \<open>Audio is active exactly while a client holds an active lease\<close>

fun last_paused :: "usb_request list \<Rightarrow> bool option" where
  "last_paused [] = None"
| "last_paused (r # rs) = (case last_paused rs of Some p \<Rightarrow> Some p | None \<Rightarrow> case r of UsbSetPaused p \<Rightarrow> Some p | _ \<Rightarrow> None)"

lemma last_paused_snoc: "last_paused (rs @ [r]) = (case r of UsbSetPaused p \<Rightarrow> Some p | _ \<Rightarrow> last_paused rs)"
  by (induction rs) (auto split: usb_request.split option.split)

definition paused_agrees :: "bool \<Rightarrow> usb_request list \<Rightarrow> bool" where
  "paused_agrees is_active usb = (case last_paused usb of None \<Rightarrow> \<not> is_active | Some p \<Rightarrow> p = (\<not> is_active))"

lemma paused_agrees_snoc: "paused_agrees a (rs @ [r]) = (case r of UsbSetPaused p \<Rightarrow> p = (\<not> a) | _ \<Rightarrow> paused_agrees a rs)"
  by (simp add: paused_agrees_def last_paused_snoc split: usb_request.split)

definition service_ok :: "NS6DeviceService \<Rightarrow> bool" where
  "service_ok s \<longleftrightarrow> sv_audio_active s = ns6_device_client_registry_any_audio_active (Some (sv_clients s)) \<and>
     paused_agrees (sv_audio_active s) (sv_usb s)"

lemma update_audio_ok:
  "paused_agrees (sv_audio_active s) (sv_usb s) \<Longrightarrow> service_ok (update_audio_active_from_clients s)"
  by (auto simp: service_ok_def paused_agrees_def update_audio_active_from_clients_def usb_call_made_def last_paused_snoc Let_def split: option.splits)

lemma service_ok_clients: "service_ok s \<Longrightarrow> service_ok (update_audio_active_from_clients (s\<lparr>sv_clients := c\<rparr>))"
  by (rule update_audio_ok) (auto simp: service_ok_def)

text \<open>Reaping frees the slots of dead processes and no others.\<close>

lemma detach_process_nth:
  "i < length r \<Longrightarrow> 0 < pid \<Longrightarrow> the (snd (ns6_device_client_registry_detach_process (Some r) pid)) ! i =
     (if client_id (r ! i) \<noteq> 0 \<and> process_id (r ! i) = pid then lease_zero else r ! i)"
  "0 < pid \<Longrightarrow> length (the (snd (ns6_device_client_registry_detach_process (Some r) pid))) = length r"
  by (simp_all add: ns6_device_client_registry_detach_process_def Let_def)

lemma detach_process_found:
  "i < length r \<Longrightarrow> client_id (r ! i) \<noteq> 0 \<Longrightarrow> 0 < process_id (r ! i) \<Longrightarrow> fst (ns6_device_client_registry_detach_process (Some r) (process_id (r ! i))) \<noteq> 0"
  by (auto simp: ns6_device_client_registry_detach_process_def Let_def filter_empty_conv)

definition lease_alive :: "(int \<Rightarrow> bool) \<Rightarrow> NS6DeviceClientLease \<Rightarrow> bool" where
  "lease_alive alive c \<longleftrightarrow> client_id c = 0 \<or> process_id c \<le> 0 \<or> alive (process_id c)"

lemma reap_loop_spec:
  assumes "reap_loop alive is r = (reaped, r')" and "set is \<subseteq> {..<length r}"
  shows "length r' = length r \<and> (\<not> reaped \<longrightarrow> r' = r) \<and> (\<forall>i \<in> set is. lease_alive alive (r' ! i)) \<and>
    (\<forall>i < length r. r' ! i = r ! i \<or> r' ! i = lease_zero \<and> \<not> lease_alive alive (r ! i))"
  using assms
proof (induction "is" arbitrary: r reaped r')
  case (Cons i "is")
  let ?c = "r ! i"
  show ?case
  proof (cases "lease_alive alive ?c")
    case True
    then have "reap_loop alive is r = (reaped, r')" using Cons.prems(1) by (simp add: lease_alive_def Let_def)
    from Cons.IH [OF this] Cons.prems(2) True show ?thesis by (auto simp: lease_alive_def lease_zero_def)
  next
    case False
    let ?d = "ns6_device_client_registry_detach_process (Some r) (process_id ?c)"
    let ?r1 = "the (snd ?d)"
    have c: "client_id ?c \<noteq> 0" "0 < process_id ?c" "\<not> alive (process_id ?c)" "i < length r"
      using False Cons.prems(2) by (simp_all add: lease_alive_def)
    have b: "reap_loop alive is ?r1 = (fst (reap_loop alive is ?r1), r')" and reaped: "reaped"
      using Cons.prems(1) c detach_process_found [OF c(4,1,2)] by (auto simp: Let_def case_prod_beta prod_eq_iff)
    have len: "length ?r1 = length r" using c(2) by (rule detach_process_nth(2))
    have one: "?r1 ! j = r ! j \<or> ?r1 ! j = lease_zero \<and> \<not> lease_alive alive (r ! j)" if "j < length r" for j
      using detach_process_nth(1) [OF that c(2)] c by (auto simp: lease_alive_def)
    have here: "?r1 ! i = lease_zero" using detach_process_nth(1) [OF c(4,2)] c(1) by simp
    have zero: "lease_alive alive lease_zero" by (simp add: lease_alive_def lease_zero_def)
    from Cons.IH [OF b] Cons.prems(2) len have ih: "length r' = length r" "\<forall>i \<in> set is. lease_alive alive (r' ! i)"
      "\<forall>j < length r. r' ! j = ?r1 ! j \<or> r' ! j = lease_zero \<and> \<not> lease_alive alive (?r1 ! j)" by auto
    have "r' ! j = r ! j \<or> r' ! j = lease_zero \<and> \<not> lease_alive alive (r ! j)" if "j < length r" for j
      using ih(3) one [OF that] that zero by metis
    moreover have "lease_alive alive (r' ! i)" using ih(3) here c(4) zero by metis
    ultimately show ?thesis using ih(1,2) reaped by auto
  qed
qed simp

lemma reap_ok: "length (sv_clients s) = 8 \<Longrightarrow> service_ok s \<Longrightarrow> service_ok (reap_dead_clients alive s)"
proof -
  assume len: "length (sv_clients s) = 8" and ok: "service_ok s"
  obtain b r where r: "reap_loop alive [0..<8] (sv_clients s) = (b, r)" by fastforce
  have "set [0..<8] \<subseteq> {..<length (sv_clients s)}" using len by auto
  then have "\<not> b \<Longrightarrow> r = sv_clients s" using reap_loop_spec [OF r] by simp
  then show ?thesis using ok service_ok_clients [OF ok] r by (cases b) (auto simp: reap_dead_clients_def)
qed

lemma update_clients [simp]: "sv_clients (update_audio_active_from_clients s) = sv_clients s"
  by (simp add: update_audio_active_from_clients_def usb_call_made_def Let_def)

lemma reap_length: "length (sv_clients s) = 8 \<Longrightarrow> length (sv_clients (reap_dead_clients alive s)) = 8"
proof -
  assume len: "length (sv_clients s) = 8"
  obtain b r where r: "reap_loop alive [0..<8] (sv_clients s) = (b, r)" by fastforce
  have "set [0..<8] \<subseteq> {..<length (sv_clients s)}" using len by auto
  then show ?thesis using reap_loop_spec [OF r] len r by (auto simp: reap_dead_clients_def Let_def)
qed

lemma registry_length:
  "length (the (snd (ns6_device_client_registry_attach (Some r) c p))) = length r"
  "length (the (snd (ns6_device_client_registry_set_audio_active (Some r) c a))) = length r"
  "length (the (snd (ns6_device_client_registry_detach (Some r) c))) = length r"
  by (auto simp: ns6_device_client_registry_attach_def ns6_device_client_registry_set_audio_active_def ns6_device_client_registry_detach_def
      split: option.split)

text \<open>Attaching never makes a lease active: a new lease is inactive and an old one keeps its state.\<close>

lemma attach_any_active:
  assumes "fst (ns6_device_client_registry_attach (Some r) c p)"
  shows "ns6_device_client_registry_any_audio_active (Some (the (snd (ns6_device_client_registry_attach (Some r) c p)))) =
    ns6_device_client_registry_any_audio_active (Some r)"
  using assms
proof (cases "find_slot (\<lambda>x. client_id x = c) r")
  case (Some i)
  then have i: "i < length r" "client_id (r ! i) = c" by (auto dest: find_slot_Some)
  have "client_id (r[i := (r ! i)\<lparr>process_id := p\<rparr>] ! j) = client_id (r ! j) \<and> audio_active (r[i := (r ! i)\<lparr>process_id := p\<rparr>] ! j) = audio_active (r ! j)"
    if "j < length r" for j using that by (cases "j = i") simp_all
  then show ?thesis using assms Some
    by (auto simp: ns6_device_client_registry_attach_def ns6_device_client_registry_any_audio_active_def list_ex_length split: if_splits)
next
  case None
  then obtain i where i: "find_slot (\<lambda>x. client_id x = 0) r = Some i" "c \<noteq> 0"
    using assms by (auto simp: ns6_device_client_registry_attach_def split: if_splits option.splits)
  let ?r' = "r[i := (r ! i)\<lparr>client_id := c, process_id := p, audio_active := False\<rparr>]"
  from i have "i < length r" "client_id (r ! i) = 0" by (auto dest: find_slot_Some)
  then have "client_id (?r' ! j) \<noteq> 0 \<and> audio_active (?r' ! j) \<longleftrightarrow> client_id (r ! j) \<noteq> 0 \<and> audio_active (r ! j)" if "j < length r" for j
    using that by (cases "j = i") simp_all
  then show ?thesis using i None
    by (auto simp: ns6_device_client_registry_attach_def ns6_device_client_registry_any_audio_active_def list_ex_length)
qed

definition service_inv :: "NS6DeviceService \<Rightarrow> bool" where
  "service_inv s \<longleftrightarrow> service_ok s \<and> length (sv_clients s) = 8"

lemma hello_inv: "service_inv s \<Longrightarrow> service_inv (snd (handle_hello sz request pid s))"
proof -
  assume inv: "service_inv s"
  obtain a r where a: "ns6_device_client_registry_attach (Some (sv_clients s)) (hq_client_id request) pid = (a, r)" by fastforce
  have "a \<Longrightarrow> ns6_device_client_registry_any_audio_active (Some (the r)) = ns6_device_client_registry_any_audio_active (Some (sv_clients s))"
    using attach_any_active [of "sv_clients s" "hq_client_id request" pid] a by simp
  moreover have "length (the r) = length (sv_clients s)" using registry_length(1) [of "sv_clients s" "hq_client_id request" pid] a by simp
  ultimately show ?thesis using inv a by (auto simp: handle_hello_def service_inv_def service_ok_def)
qed

lemma usb_call_ok: "service_inv s \<Longrightarrow> (case r of UsbSetPaused _ \<Rightarrow> False | _ \<Rightarrow> True) \<Longrightarrow> service_inv (usb_call_made r s)"
  by (cases r) (auto simp: service_inv_def service_ok_def usb_call_made_def paused_agrees_snoc)

lemma startup_inv: "service_inv s \<Longrightarrow> service_inv (snd (set_startup_buffer ready restarts v s))"
proof -
  assume inv: "service_inv s"
  have "service_inv (s\<lparr>sv_startup_buffer_frames := v\<rparr>)" using inv by (auto simp: service_inv_def service_ok_def)
  then have "service_inv (usb_call_made (UsbSetStartupBufferFrames v) (s\<lparr>sv_startup_buffer_frames := v\<rparr>))" by (rule usb_call_ok) simp
  then show ?thesis using inv usb_call_ok [of _ UsbRequestRestart] by (simp add: set_startup_buffer_def Let_def)
qed

lemma control_inv: "service_inv s \<Longrightarrow> service_inv (snd (handle_control ready restarts message request s))"
proof -
  assume inv: "service_inv s"
  have upd: "length c = 8 \<Longrightarrow> service_inv (update_audio_active_from_clients (s\<lparr>sv_clients := c\<rparr>))" for c
    using inv service_ok_clients [of s] by (simp add: service_inv_def)
  have len: "length (sv_clients s) = 8" using inv by (simp add: service_inv_def)
  show ?thesis
    using inv startup_inv [OF inv] upd [of "the (snd (ns6_device_client_registry_set_audio_active (Some (sv_clients s)) (cq_client_id request) b))" for b]
      upd [of "the (snd (ns6_device_client_registry_detach (Some (sv_clients s)) (cq_client_id request)))"]
    by (auto simp: handle_control_def Let_def registry_length len case_prod_beta)
qed

lemma thread_inv: "service_inv s \<Longrightarrow> service_inv (snd (service_thread sz w received s))"
proof -
  assume inv: "service_inv s"
  then have r: "service_inv (reap_dead_clients alive s)" for alive using reap_ok reap_length by (simp add: service_inv_def)
  then show ?thesis using inv
    by (auto simp: service_thread_def service_serve_def Let_def hello_inv control_inv case_prod_beta split: receive_result.split)
qed

lemma run_thread_inv: "service_inv s \<Longrightarrow> service_inv (snd (run_ops (service_turn sz) events s))"
proof (induction events arbitrary: s)
  case (Cons e es)
  then show ?case using thread_inv [OF Cons.prems] by (simp add: service_turn_def case_prod_beta)
qed simp

lemma publish_session_inv:
  assumes "publish_session sz w memory s0 = (True, memory', s)" and "sv_usb s0 = []"
  shows "service_inv s"
proof -
  have "sv_clients s = registry_zero \<and> \<not> sv_audio_active s \<and> sv_usb s = sv_usb s0"
    using assms(1) by (auto simp: publish_session_def Let_def split: if_splits prod.splits)
  then show ?thesis using assms(2) by (simp add: service_inv_def service_ok_def paused_agrees_def registry_zero_def lease_zero_def
        ns6_device_client_registry_any_audio_active_def list_ex_iff)
qed

lemma publish_inv:
  assumes "ns6_device_service_publish sz w memory s0 = (True, memory', s)" and "sv_usb s0 = []"
  shows "service_inv s"
  using assms unfolding ns6_device_service_publish_def Let_def
  by (auto simp: ns6_device_owner_init_def ns6_device_owner_claim_def dest!: publish_session_inv split: if_splits option.splits)

text \<open>
  (C9) The service keeps audio active exactly while some client holds an active lease, whatever it receives and whichever clients die, and the
  last pause request it made to the USB module always agrees: none while audio was never active, otherwise unpaused exactly while it is.
\<close>

theorem service_audio_follows_leases:
  assumes "ns6_device_service_publish sz w memory s0 = (True, memory', s1)" and "sv_usb s0 = []"
    and "run_ops (service_turn sz) events s1 = (replies, s)"
  shows "ns6_device_service_audio_active s = ns6_device_client_registry_any_audio_active (Some (sv_clients s)) \<and>
    paused_agrees (ns6_device_service_audio_active s) (sv_usb s)"
  using run_thread_inv [OF publish_inv [OF assms(1,2)], of sz events] assms(3)
  by (auto simp: service_inv_def service_ok_def ns6_device_service_audio_active_def)

text \<open>Witness for C0: a published service and a client that attaches and activates audio.\<close>

definition publish_example :: publish_world where
  "publish_example = \<lparr>pw_account = Some 202, pw_address = 0x100000, pw_page_size = 0x4000, pw_memory_entry = Some (7, 0x100000),
     pw_receive_port = Some 9, pw_time = 5, pw_drained = Some 0, pw_thread = True\<rparr>"

definition memory_example :: NS6SharedMemory where
  "memory_example = the (ns6_shared_memory_init 0x8000 (Some \<lparr>sm_protocol_version = 0, sm_struct_size = 0,
     sm_output = \<lparr>tx_samples = (\<lambda>_. []), tx_tags = (\<lambda>_. 0), tx_read_cursor = 0, tx_high_water = 0, tx_initialized = False\<rparr>,
     sm_capture = \<lparr>c_samples = [], c_head = 0, c_tail = 0\<rparr>, sm_session = \<lparr>sg_active_id = 0, sg_callbacks_in_flight = 0\<rparr>,
     sm_capture_requested = False, sm_capture_last_demand_ns = 0\<rparr>))"

definition service_static :: NS6DeviceService where
  "service_static = \<lparr>sv_memory = None, sv_receive_port = None, sv_memory_entry = None, sv_mapping_base = 0, sv_mapping_size = 0,
     sv_memory_offset = 0, sv_stopping = False, sv_owner = False, sv_clients = registry_zero, sv_running = False, sv_audio_active = False,
     sv_startup_buffer_frames = 256, sv_session_id = 0, sv_coreaudiod_uid = 0, sv_snapshot = snapshot_zero, sv_usb = []\<rparr>"

definition world_example :: service_world where
  "world_example = \<lparr>w_alive = (\<lambda>_. True), w_ready = True, w_restarts = True\<rparr>"

definition request_example :: "u32 \<Rightarrow> u32 \<Rightarrow> mach_request" where
  "request_example message euid = \<lparr>mq_id = message, mq_size = 48, mq_trailer = True, mq_euid = euid, mq_pid = 11,
     mq_hello = \<lparr>hq_protocol_version = 4, hq_client_struct_size = 0x8000, hq_client_id = 3\<rparr>,
     mq_control = \<lparr>cq_protocol_version = 4, cq_value = 1, cq_session_id = 0x100005, cq_client_id = 3\<rparr>\<rparr>"

lemma publish_example: "fst (ns6_device_service_publish 0x8000 publish_example memory_example service_static)"
  by (simp add: ns6_device_service_publish_def publish_session_def publish_example_def memory_example_def service_static_def ns6_shared_memory_init_def
      ns6_transport_init_shared_def ns6_device_owner_init_def ns6_device_owner_claim_def ns6_device_session_begin_def page_length_def page_offset_def
      page_base_def Let_def)

theorem service_audio_follows_leases_witness:
  "\<exists>memory' s1 replies s. ns6_device_service_publish 0x8000 publish_example memory_example service_static = (True, memory', s1) \<and>
     run_ops (service_turn 0x8000)
       [(world_example, Received (request_example NS6_DEVICE_MSG_HELLO 202)), (world_example, Received (request_example NS6_DEVICE_MSG_SET_AUDIO_ACTIVE 202))] s1 =
       (replies, s) \<and> paused_agrees (ns6_device_service_audio_active s) (sv_usb s)"
proof -
  obtain memory' s1 where 1: "ns6_device_service_publish 0x8000 publish_example memory_example service_static = (True, memory', s1)"
    using publish_example by (metis prod.collapse)
  obtain replies s where 2: "run_ops (service_turn 0x8000)
      [(world_example, Received (request_example NS6_DEVICE_MSG_HELLO 202)), (world_example, Received (request_example NS6_DEVICE_MSG_SET_AUDIO_ACTIVE 202))] s1 =
      (replies, s)" by fastforce
  have "sv_usb service_static = []" by (simp add: service_static_def)
  from service_audio_follows_leases [OF 1 this 2] 1 2 show ?thesis by blast
qed

subsection \<open>Unauthorized senders have no influence\<close>

definition authorized_event :: "u32 \<Rightarrow> service_world \<times> receive_result \<Rightarrow> bool" where
  "authorized_event uid e = (case snd e of Received request \<Rightarrow> sender_is_authorized request uid | _ \<Rightarrow> True)"

text \<open>A refusal that tells the sender nothing.\<close>

definition access_refused :: "service_reply \<Rightarrow> bool" where
  "access_refused reply = (case reply of
     HelloReply r \<Rightarrow> hr_status r = KERN_NO_ACCESS \<and> hr_memory_entry r = None \<and> hr_mapped_size r = 0 \<and> hr_session_id r = 0
   | ControlReply st \<Rightarrow> st = KERN_NO_ACCESS
   | StateReply st snapshot \<Rightarrow> st = KERN_NO_ACCESS \<and> snapshot = snapshot_zero)"

lemma update_fixed: "sv_coreaudiod_uid (update_audio_active_from_clients s) = sv_coreaudiod_uid s" "sv_stopping (update_audio_active_from_clients s) = sv_stopping s"
  by (simp_all add: update_audio_active_from_clients_def usb_call_made_def Let_def)

lemma thread_fixed:
  "sv_coreaudiod_uid (snd (service_thread sz w received s)) = sv_coreaudiod_uid s \<and> sv_stopping (snd (service_thread sz w received s)) = sv_stopping s"
proof -
  have hello: "sv_coreaudiod_uid (snd (handle_hello sz q p s)) = sv_coreaudiod_uid s \<and> sv_stopping (snd (handle_hello sz q p s)) = sv_stopping s" for q p s
    by (simp add: handle_hello_def split: prod.split)
  have control: "sv_coreaudiod_uid (snd (handle_control a b m q s)) = sv_coreaudiod_uid s \<and> sv_stopping (snd (handle_control a b m q s)) = sv_stopping s" for a b m q s
    by (simp add: handle_control_def set_startup_buffer_def usb_call_made_def update_fixed Let_def split: prod.split)
  have reap: "sv_coreaudiod_uid (reap_dead_clients alive s) = sv_coreaudiod_uid s \<and> sv_stopping (reap_dead_clients alive s) = sv_stopping s" for alive s
    by (simp add: reap_dead_clients_def update_fixed Let_def split: prod.split)
  show ?thesis
    by (simp add: service_thread_def service_serve_def hello control reap Let_def case_prod_beta split: receive_result.split)
qed

text \<open>
  (C10) A process the service does not authorize has no influence on it: leaving out all its messages leads to the same state, and each of them is
  answered by a refusal that names no memory, session or device state.
\<close>

theorem service_ignores_unauthorized:
  assumes "run_ops (service_turn sz) events s = (replies, s')"
  shows "snd (run_ops (service_turn sz) (filter (authorized_event (sv_coreaudiod_uid s)) events) s) = s' \<and>
    (i < length events \<longrightarrow> \<not> authorized_event (sv_coreaudiod_uid s) (events ! i) \<longrightarrow> \<not> sv_stopping s \<longrightarrow> (\<exists>r. replies ! i = Some r \<and> access_refused r))"
  using assms
proof (induction events arbitrary: s replies i)
  case (Cons e es)
  obtain w received where e: "e = (w, received)" by fastforce
  obtain r s1 where 1: "service_thread sz w received s = (r, s1)" by fastforce
  then have t: "service_turn sz e s = (r, s1)" by (simp add: service_turn_def e)
  obtain rs where rs: "run_ops (service_turn sz) es s1 = (rs, s')" "replies = r # rs"
    using Cons.prems t by (auto split: prod.splits)
  have same: "sv_coreaudiod_uid s1 = sv_coreaudiod_uid s" "sv_stopping s1 = sv_stopping s" using thread_fixed [of sz w received s] 1 by simp_all
  have refused: "s1 = s \<and> (\<not> sv_stopping s \<longrightarrow> (\<exists>x. r = Some x \<and> access_refused x))" if "\<not> authorized_event (sv_coreaudiod_uid s) e"
    using that 1 e by (auto simp: authorized_event_def service_thread_def service_serve_def access_refused_def reject_unauthorized_request_def
        hello_refused_def split: receive_result.splits if_splits)
  note ih = Cons.IH [OF rs(1), unfolded same]
  show ?case
  proof (intro conjI)
    show "snd (run_ops (service_turn sz) (filter (authorized_event (sv_coreaudiod_uid s)) (e # es)) s) = s'"
      using ih refused by (cases "authorized_event (sv_coreaudiod_uid s) e") (auto simp: t split: prod.split)
    show "i < length (e # es) \<longrightarrow> \<not> authorized_event (sv_coreaudiod_uid s) ((e # es) ! i) \<longrightarrow> \<not> sv_stopping s \<longrightarrow>
        (\<exists>r. replies ! i = Some r \<and> access_refused r)"
      using ih [of "i - 1"] refused rs(2) by (cases i) auto
  qed
qed simp

text \<open>Witness for C0: a request of user 501 between two of the audio server.\<close>

theorem service_ignores_unauthorized_witness:
  "let events = [(world_example, Received (request_example NS6_DEVICE_MSG_HELLO 0)), (world_example, Received (request_example NS6_DEVICE_MSG_HELLO 501))]
   in \<exists>r. fst (run_ops (service_turn 0x8000) events service_static) ! 1 = Some r \<and> access_refused r"
proof -
  let ?events = "[(world_example, Received (request_example NS6_DEVICE_MSG_HELLO 0)), (world_example, Received (request_example NS6_DEVICE_MSG_HELLO 501))]"
  obtain replies s' where run: "run_ops (service_turn 0x8000) ?events service_static = (replies, s')" by fastforce
  have "\<not> authorized_event (sv_coreaudiod_uid service_static) (?events ! 1)" "\<not> sv_stopping service_static"
    by (simp_all add: authorized_event_def request_example_def sender_is_authorized_def ns6_device_peer_uid_authorized_def service_static_def)
  then show ?thesis using service_ignores_unauthorized [OF run, of 1] run by (simp add: Let_def)
qed

subsection \<open>A client attaches, plays and leaves\<close>

text \<open>The messages of a process as the service receives them, and message passing to the service itself.\<close>

definition request_of :: "u32 \<Rightarrow> int \<Rightarrow> device_message \<Rightarrow> mach_request" where
  "request_of euid pid message = (case message of
     HelloMessage h \<Rightarrow> \<lparr>mq_id = NS6_DEVICE_MSG_HELLO, mq_size = sizeof_NS6DeviceHelloRequest, mq_trailer = True, mq_euid = euid, mq_pid = pid, mq_hello = h,
       mq_control = \<lparr>cq_protocol_version = 0, cq_value = 0, cq_session_id = 0, cq_client_id = 0\<rparr>\<rparr>
   | ControlMessage m c \<Rightarrow> \<lparr>mq_id = m, mq_size = sizeof_NS6DeviceControlRequest, mq_trailer = True, mq_euid = euid, mq_pid = pid,
       mq_hello = \<lparr>hq_protocol_version = 0, hq_client_struct_size = 0, hq_client_id = 0\<rparr>, mq_control = c\<rparr>)"

definition service_ipc :: "u32 \<Rightarrow> service_world \<Rightarrow> u32 \<Rightarrow> int \<Rightarrow> NS6DeviceService ipc" where
  "service_ipc sizeof w euid pid = \<lparr>ipc_reply_port = (\<lambda>_. True),
     ipc_send = (\<lambda>port message s. case service_serve sizeof w (request_of euid pid message) s of (reply, s) \<Rightarrow> (Some reply, s))\<rparr>"

text \<open>The service offers its memory and the current session, and its registry is regular.\<close>

definition serving :: "u32 \<Rightarrow> NS6DeviceService \<Rightarrow> bool" where
  "serving sizeof s \<longleftrightarrow> registry_inv (sv_clients s) \<and> service_ok s \<and> sv_session_id s \<noteq> 0 \<and> sv_memory_entry s \<noteq> None \<and>
     map_option (\<lambda>m. sg_active_id (sm_session m)) (sv_memory s) = Some (sv_session_id s) \<and>
     sv_memory_offset s < sv_mapping_size s \<and> ucast sizeof \<le> sv_mapping_size s - sv_memory_offset s"

lemma registry_any_active: "registry_inv r \<Longrightarrow> ns6_device_client_registry_any_audio_active (Some r) \<longleftrightarrow> (\<exists>k p. registry_abs r k = Some (p, True))"
  using reg.lookup_iff [of r]
  by (fastforce simp: registry_inv_def ns6_device_client_registry_any_audio_active_def list_ex_iff registry_abs_def in_set_conv_nth)

lemma reap_all_alive: "reap_dead_clients (\<lambda>_. True) s = s"
proof -
  have "reap_loop (\<lambda>_. True) is r = (False, r)" for "is" r by (induction "is") (simp_all add: Let_def)
  then show ?thesis by (simp add: reap_dead_clients_def)
qed

lemma serve_alive:
  assumes "ns6_device_peer_uid_authorized euid (sv_coreaudiod_uid s)" and "w_alive w = (\<lambda>_. True)"
  shows "service_serve sz w (request_of euid pid (HelloMessage h)) s = handle_hello sz h pid s"
    and "m \<noteq> NS6_DEVICE_MSG_HELLO \<Longrightarrow> m \<noteq> NS6_DEVICE_MSG_GET_STATE \<Longrightarrow>
      service_serve sz w (request_of euid pid (ControlMessage m c)) s = handle_control (w_ready w) (w_restarts w) m c s"
  using assms by (simp_all add: service_serve_def request_of_def sender_is_authorized_def reap_all_alive)

text \<open>The effect of the three requests on the leases.\<close>

lemma hello_attaches:
  assumes "serving sz s" and "hq_protocol_version h = 4" and "hq_client_struct_size h = sz" and "hq_client_id h \<noteq> 0"
    and "registry_abs (sv_clients s) (hq_client_id h) = None" and "card (dom (registry_abs (sv_clients s))) < 8"
  shows "\<exists>r. handle_hello sz h pid s = (HelloReply \<lparr>hr_memory_entry = sv_memory_entry s, hr_protocol_version = 4, hr_shared_struct_size = sz,
      hr_mapped_size = sv_mapping_size s, hr_memory_offset = sv_memory_offset s, hr_session_id = sv_session_id s, hr_status = KERN_SUCCESS\<rparr>,
      s\<lparr>sv_clients := r\<rparr>) \<and> registry_inv r \<and> registry_abs r = (registry_abs (sv_clients s))(hq_client_id h \<mapsto> (pid, False))"
proof -
  obtain ok r where a: "ns6_device_client_registry_attach (Some (sv_clients s)) (hq_client_id h) pid = (ok, r)" by fastforce
  have "registry_inv (sv_clients s)" using assms(1) by (simp add: serving_def)
  from attach_refines [OF this, of "hq_client_id h" pid] a assms(4-6) have "ok" "registry_inv (the r)"
    "registry_abs (the r) = (registry_abs (sv_clients s))(hq_client_id h \<mapsto> (pid, False))" by (cases ok; auto)+
  then show ?thesis using a assms(2-4) by (auto simp: handle_hello_def ns6_device_protocol_version_supported_def)
qed

lemma control_reaches:
  assumes "registry_inv (sv_clients s)" and "cq_protocol_version c = 4" and "cq_client_id c = k" and "registry_abs (sv_clients s) k = Some (p, a)"
    and "map_option (\<lambda>m. sg_active_id (sm_session m)) (sv_memory s) = Some (cq_session_id c)" and "cq_session_id c \<noteq> 0"
  shows "cq_value c = 1 \<Longrightarrow> \<exists>r. handle_control x y NS6_DEVICE_MSG_SET_AUDIO_ACTIVE c s = (ControlReply KERN_SUCCESS, update_audio_active_from_clients (s\<lparr>sv_clients := r\<rparr>)) \<and>
      registry_inv r \<and> registry_abs r = (registry_abs (sv_clients s))(k \<mapsto> (p, True))"
    and "\<exists>r. handle_control x y NS6_DEVICE_MSG_RELEASE_CLIENT c s = (ControlReply KERN_SUCCESS, update_audio_active_from_clients (s\<lparr>sv_clients := r\<rparr>)) \<and>
      registry_inv r \<and> registry_abs r = (registry_abs (sv_clients s))(k := None)"
proof -
  have k: "k \<noteq> 0" using assms(4) by (metis registry_abs_0 option.distinct(1))
  have "ns6_device_client_registry_contains (Some (sv_clients s)) k"
    using registry_missing [OF k, of "sv_clients s"] k assms(4) by (auto simp: ns6_device_client_registry_contains_def)
  then have ok: "control_allowed c s" "ns6_device_protocol_version_supported (cq_protocol_version c)"
    using assms by (auto simp: control_allowed_def ns6_device_session_is_current_def ns6_device_protocol_version_supported_def)
  obtain b1 r1 where 1: "ns6_device_client_registry_set_audio_active (Some (sv_clients s)) k True = (b1, r1)" by fastforce
  obtain b2 r2 where 2: "ns6_device_client_registry_detach (Some (sv_clients s)) k = (b2, r2)" by fastforce
  have r1: "registry_inv (the r1)" "registry_abs (the r1) = (registry_abs (sv_clients s))(k \<mapsto> (p, True))"
    using set_active_refines [OF assms(1), of k True] 1 assms(4) by auto
  have r2: "b2" "registry_inv (the r2)" "registry_abs (the r2) = (registry_abs (sv_clients s))(k := None)"
    using detach_refines [OF assms(1), of k] 2 assms(4) by (auto simp: of_bool_def split: if_splits)
  show "cq_value c = 1 \<Longrightarrow> \<exists>r. handle_control x y NS6_DEVICE_MSG_SET_AUDIO_ACTIVE c s = (ControlReply KERN_SUCCESS, update_audio_active_from_clients (s\<lparr>sv_clients := r\<rparr>)) \<and>
      registry_inv r \<and> registry_abs r = (registry_abs (sv_clients s))(k \<mapsto> (p, True))"
    using ok 1 r1 assms(3) by (auto simp: handle_control_def)
  show "\<exists>r. handle_control x y NS6_DEVICE_MSG_RELEASE_CLIENT c s = (ControlReply KERN_SUCCESS, update_audio_active_from_clients (s\<lparr>sv_clients := r\<rparr>)) \<and>
      registry_inv r \<and> registry_abs r = (registry_abs (sv_clients s))(k := None)"
    using ok 2 r2 assms(3) by (auto simp: handle_control_def)
qed

lemma update_fields [simp]:
  "sv_memory (update_audio_active_from_clients s) = sv_memory s" "sv_session_id (update_audio_active_from_clients s) = sv_session_id s"
  "sv_coreaudiod_uid (update_audio_active_from_clients s) = sv_coreaudiod_uid s"
  "sv_audio_active (update_audio_active_from_clients s) = ns6_device_client_registry_any_audio_active (Some (sv_clients s))"
  by (simp_all add: update_audio_active_from_clients_def usb_call_made_def Let_def)

text \<open>
  (C11) A client's session with the service is a round trip: connecting to a serving service with a free slot succeeds, activating audio makes
  the service active, and disconnecting leaves exactly the leases, and the activity, that were there before.
\<close>

theorem client_session_roundtrip:
  assumes "serving sz s" and "ns6_device_peer_uid_authorized euid (sv_coreaudiod_uid s)" and "w_alive w = (\<lambda>_. True)"
    and "cw_retain cw" and "cw_map cw = Some a" and "cw_header cw = (5, sz)" and "cw_unique cw \<noteq> 0"
    and "registry_abs (sv_clients s) (cw_unique cw) = None" and "card (dom (registry_abs (sv_clients s))) < 8"
  shows "\<exists>c s1 s2 s3. ns6_device_client_connect_to_port (service_ipc sz w euid pid) cw sz device_client_zero (Some port) s = (True, c, s1) \<and>
    ns6_device_client_set_audio_active (service_ipc sz w euid pid) True c s1 = (True, s2) \<and> sv_audio_active s2 \<and>
    ns6_device_client_disconnect (service_ipc sz w euid pid) c s2 = (device_client_zero, s3) \<and>
    registry_abs (sv_clients s3) = registry_abs (sv_clients s) \<and> sv_audio_active s3 = sv_audio_active s"
proof -
  let ?ipc = "service_ipc sz w euid pid" and ?k = "cw_unique cw"
  let ?h = "\<lparr>hq_protocol_version = 4, hq_client_struct_size = sz, hq_client_id = ?k\<rparr>"
  obtain r1 where h: "handle_hello sz ?h pid s = (HelloReply \<lparr>hr_memory_entry = sv_memory_entry s, hr_protocol_version = 4, hr_shared_struct_size = sz,
      hr_mapped_size = sv_mapping_size s, hr_memory_offset = sv_memory_offset s, hr_session_id = sv_session_id s, hr_status = KERN_SUCCESS\<rparr>, s\<lparr>sv_clients := r1\<rparr>)"
    and r1: "registry_inv r1" "registry_abs r1 = (registry_abs (sv_clients s))(?k \<mapsto> (pid, False))"
    using hello_attaches [of sz s ?h pid] assms by auto
  let ?s1 = "s\<lparr>sv_clients := r1\<rparr>"
  let ?c = "\<lparr>dc_service_port = Some port, dc_mapping_address = a, dc_mapping_size = sv_mapping_size s,
    dc_shared_memory = Some (a + sv_memory_offset s), dc_session_id = sv_session_id s, dc_client_id = ?k, dc_connected = True\<rparr>"
  have send: "exchange_message ?ipc port (HelloMessage ?h) s = (Some (fst (handle_hello sz ?h pid s)), ?s1)"
    by (simp add: exchange_message_def service_ipc_def serve_alive [OF assms(2,3)] h)
  have 1: "ns6_device_client_connect_to_port ?ipc cw sz device_client_zero (Some port) s = (True, ?c, ?s1)"
    using assms send by (auto simp: ns6_device_client_connect_to_port_def ns6_device_client_disconnect_def device_client_zero_def h connect_mapped_def
        hello_valid_def ns6_device_protocol_version_supported_def serving_def)
  let ?q = "\<lambda>v. \<lparr>cq_protocol_version = 4, cq_value = v, cq_session_id = sv_session_id s, cq_client_id = ?k\<rparr>"
  have session: "map_option (\<lambda>m. sg_active_id (sm_session m)) (sv_memory s) = Some (sv_session_id s)" "sv_session_id s \<noteq> 0"
    using assms(1) by (simp_all add: serving_def)
  obtain r2 where c2: "handle_control (w_ready w) (w_restarts w) NS6_DEVICE_MSG_SET_AUDIO_ACTIVE (?q 1) ?s1 =
      (ControlReply KERN_SUCCESS, update_audio_active_from_clients (?s1\<lparr>sv_clients := r2\<rparr>))"
    and r2: "registry_inv r2" "registry_abs r2 = (registry_abs r1)(?k \<mapsto> (pid, True))"
    using control_reaches(1) [of ?s1 "?q 1" ?k pid False] r1 session by auto
  let ?s2 = "update_audio_active_from_clients (?s1\<lparr>sv_clients := r2\<rparr>)"
  have 2: "ns6_device_client_set_audio_active ?ipc True ?c ?s1 = (True, ?s2)"
    using c2 assms(2,3) by (simp add: ns6_device_client_set_audio_active_def send_control_def exchange_message_def service_ipc_def serve_alive)
  have "sv_audio_active ?s2" using registry_any_active [OF r2(1)] r2(2) by auto
  moreover obtain r3 where c3: "handle_control (w_ready w) (w_restarts w) NS6_DEVICE_MSG_RELEASE_CLIENT (?q 0) ?s2 =
      (ControlReply KERN_SUCCESS, update_audio_active_from_clients (?s2\<lparr>sv_clients := r3\<rparr>))"
    and r3: "registry_inv r3" "registry_abs r3 = (registry_abs r2)(?k := None)"
    using control_reaches(2) [of ?s2 "?q 0" ?k pid True] r2 session by auto
  let ?s3 = "update_audio_active_from_clients (?s2\<lparr>sv_clients := r3\<rparr>)"
  have 3: "ns6_device_client_disconnect ?ipc ?c ?s2 = (device_client_zero, ?s3)"
    using c3 assms(2,3,7) by (simp add: ns6_device_client_disconnect_def send_control_def exchange_message_def service_ipc_def serve_alive)
  have same: "registry_abs r3 = registry_abs (sv_clients s)" using r1 r2 r3 assms(8) by auto
  have "sv_audio_active ?s3 = sv_audio_active s"
    using registry_any_active [OF r3(1)] registry_any_active [of "sv_clients s"] same assms(1) by (simp add: serving_def service_ok_def)
  ultimately show ?thesis using 1 2 3 same by fastforce
qed

text \<open>Witness for C0: the first client of a fresh session.\<close>

definition serving_example :: NS6DeviceService where
  "serving_example = service_static\<lparr>sv_memory := Some (memory_example\<lparr>sm_session := \<lparr>sg_active_id = 5, sg_callbacks_in_flight = 0\<rparr>\<rparr>), sv_session_id := 5,
     sv_memory_entry := Some 7, sv_mapping_size := 0x8000, sv_coreaudiod_uid := 202, sv_running := True\<rparr>"

definition client_world_example :: client_world where
  "client_world_example = \<lparr>cw_retain = True, cw_unique = 3, cw_map = Some 0x200000, cw_header = (5, 0x8000)\<rparr>"

theorem client_session_roundtrip_witness:
  "\<exists>c s1 s2. ns6_device_client_connect_to_port (service_ipc 0x8000 world_example 202 11) client_world_example 0x8000 device_client_zero (Some 9) serving_example =
      (True, c, s1) \<and> ns6_device_client_set_audio_active (service_ipc 0x8000 world_example 202 11) True c s1 = (True, s2) \<and> sv_audio_active s2"
proof -
  have "serving 0x8000 serving_example"
    using registry_zero_inv(1) by (simp add: serving_def serving_example_def service_static_def service_ok_def paused_agrees_def
        ns6_device_client_registry_any_audio_active_def registry_zero_def lease_zero_def list_ex_iff)
  moreover have "registry_abs (sv_clients serving_example) = Map.empty"
    using registry_zero_inv(2) by (simp add: serving_example_def service_static_def)
  ultimately show ?thesis
    using client_session_roundtrip [where sz = "0x8000" and s = serving_example and euid = 202 and w = world_example and cw = client_world_example and
        a = "0x200000" and pid = 11 and port = 9]
    by (auto simp: world_example_def client_world_example_def serving_example_def ns6_device_peer_uid_authorized_def)
qed

end
