(* ===== verification/NS6_Hal.thy ===== *)
theory NS6_Hal
  imports NS6_Service NS6_Metrics "HOL-Library.Sublist"
begin

text \<open>
  The CoreAudio plug-in of the first driver: \<^verbatim>\<open>coreaudio/NS6HALMapping.h\<close> and the operations of \<^verbatim>\<open>NS6HAL.c\<close> that change its state, that is
  the client table, start and stop, the I/O callbacks, the monitor that follows the service, presence of the device and the settable properties.
  The mapping is first a step relation between callback threads and the owner, then the sequential operations the plug-in calls. Memory is a map
  from addresses to the shared structure found there, so that unmapping and reading through a stale pointer are visible. Log lines are left out.
\<close>

subsection \<open>The mapping handed to the callbacks\<close>

record NS6HALMapping =
  hm_memory :: "u64 option"
  hm_session_id :: u64
  hm_readers :: u32

record NS6HALMappingLease =
  ml_memory :: u64
  ml_session_id :: u64

text \<open>What an operation can do instead of returning: wait for ever, or read through a pointer to nothing.\<close>

datatype hal_failure = Hang | Fault

definition ns6_hal_mapping_init :: "NS6HALMapping \<Rightarrow> NS6HALMapping" where
  "ns6_hal_mapping_init m = m\<lparr>hm_memory := None, hm_session_id := 0, hm_readers := 0\<rparr>"

definition ns6_hal_mapping_acquire :: "NS6HALMapping \<Rightarrow> NS6HALMappingLease option \<times> NS6HALMapping" where
  "ns6_hal_mapping_acquire m =
     (let m = m\<lparr>hm_readers := hm_readers m + 1\<rparr>
      in case hm_memory m of None \<Rightarrow> (None, m\<lparr>hm_readers := hm_readers m - 1\<rparr>)
         | Some memory \<Rightarrow> (Some \<lparr>ml_memory = memory, ml_session_id = hm_session_id m\<rparr>, m))"

definition ns6_hal_mapping_release :: "NS6HALMapping \<Rightarrow> NS6HALMapping" where
  "ns6_hal_mapping_release m = m\<lparr>hm_readers := hm_readers m - 1\<rparr>"

text \<open>Run alone, the wait for the readers ends at once or never.\<close>

definition ns6_hal_mapping_withdraw :: "NS6HALMapping \<Rightarrow> hal_failure + NS6HALMapping" where
  "ns6_hal_mapping_withdraw m = (if hm_readers m = 0 then Inr (m\<lparr>hm_memory := None\<rparr>) else Inl Hang)"

definition ns6_hal_mapping_publish :: "u64 \<Rightarrow> u64 \<Rightarrow> NS6HALMapping \<Rightarrow> NS6HALMapping" where
  "ns6_hal_mapping_publish memory session_id m = m\<lparr>hm_session_id := session_id, hm_memory := Some memory\<rparr>"

text \<open>
  What the owner of the mapping does, in order: it maps and unmaps memory, has seen a withdrawal through, or publishes memory with its session.
  The owner keeps to its side of the contract when it publishes only mapped memory, with nothing offered, and unmaps only what is mapped and not offered.
\<close>

datatype owner_event = Mapped u64 | Unmapped u64 | Withdrew | Published u64 u64

fun owner_next :: "owner_event \<Rightarrow> u64 set \<times> u64 option \<Rightarrow> (u64 set \<times> u64 option) option" where
  "owner_next (Mapped a) (M, p) = Some (insert a M, p)"
| "owner_next (Unmapped a) (M, p) = (if a \<in> M \<and> p \<noteq> Some a then Some (M - {a}, p) else None)"
| "owner_next Withdrew (M, p) = Some (M, None)"
| "owner_next (Published a sid) (M, p) = (if a \<in> M \<and> p = None then Some (M, Some a) else None)"

fun owner_run :: "owner_event list \<Rightarrow> u64 set \<times> u64 option \<Rightarrow> (u64 set \<times> u64 option) option" where
  "owner_run [] st = Some st"
| "owner_run (e # es) st = Option.bind (owner_next e st) (owner_run es)"

lemma owner_run_append: "owner_run (es @ fs) st = Option.bind (owner_run es st) (owner_run fs)"
  by (induction es arbitrary: st) (auto simp: Option.bind_eq_Some_conv split: bind_split)

text \<open>
  Between threads every atomic access is a step, and a store becomes visible some time after it is made: the owner's stores wait in
  \<open>mp_stores\<close> and land one by one in order, and the increment of a callback in \<open>mp_late\<close> has not landed yet. Each later load of a thread follows its earlier ones.
  The release stores and acquire loads of the code ask for no more than that; with \<open>ordered\<close> a thread's load also waits for its own earlier
  stores, as under sequential consistency. A callback has counted itself, has read the pointer, holds a lease or is about to take its count back. The owner
  works through \<open>mp_todo\<close>; \<open>mp_offer\<close> is the publication in force, from the publication to the return from withdrawing.
\<close>

datatype mapping_store = StoreMemory "u64 option" | StoreSession u64

datatype reader_state = Resting | Counted | Loaded u64 | Leasing u64 u64 | Giving_up

datatype owner_state = Settled | Withdrawing | Publishing u64

record mapping_state =
  mp_mapping :: NS6HALMapping
  mp_stores :: "mapping_store list"
  mp_reader :: "nat \<Rightarrow> reader_state"
  mp_late :: "nat set"
  mp_owner :: owner_state
  mp_todo :: "owner_event list"
  mp_offer :: "(u64 \<times> u64) option"
  mp_mapped :: "u64 set"

definition at_reader :: "nat \<Rightarrow> reader_state \<Rightarrow> mapping_state \<Rightarrow> mapping_state" where
  "at_reader t r s = s\<lparr>mp_reader := (mp_reader s)(t := r)\<rparr>"

definition count_reader :: "(u32 \<Rightarrow> u32) \<Rightarrow> mapping_state \<Rightarrow> mapping_state" where
  "count_reader f s = s\<lparr>mp_mapping := (mp_mapping s)\<lparr>hm_readers := f (hm_readers (mp_mapping s))\<rparr>\<rparr>"

definition owner_store :: "mapping_store \<Rightarrow> owner_state \<Rightarrow> mapping_state \<Rightarrow> mapping_state" where
  "owner_store x b s = s\<lparr>mp_stores := mp_stores s @ [x], mp_owner := b\<rparr>"

fun lands :: "mapping_store \<Rightarrow> NS6HALMapping \<Rightarrow> NS6HALMapping" where
  "lands (StoreMemory p) m = m\<lparr>hm_memory := p\<rparr>"
| "lands (StoreSession sid) m = m\<lparr>hm_session_id := sid\<rparr>"

inductive mapping_step :: "bool \<Rightarrow> nat \<Rightarrow> mapping_state \<Rightarrow> mapping_state \<Rightarrow> bool" for ordered threads where
  acquire_count: "t < threads \<Longrightarrow> mp_reader s t = Resting \<Longrightarrow> mapping_step ordered threads s (at_reader t Counted (s\<lparr>mp_late := insert t (mp_late s)\<rparr>))"
| count_lands: "t \<in> mp_late s \<Longrightarrow> mapping_step ordered threads s (count_reader (\<lambda>n. n + 1) (s\<lparr>mp_late := mp_late s - {t}\<rparr>))"
| acquire_load: "mp_reader s t = Counted \<Longrightarrow> (ordered \<longrightarrow> t \<notin> mp_late s) \<Longrightarrow> hm_memory (mp_mapping s) = Some a \<Longrightarrow>
    mapping_step ordered threads s (at_reader t (Loaded a) s)"
| acquire_null: "mp_reader s t = Counted \<Longrightarrow> (ordered \<longrightarrow> t \<notin> mp_late s) \<Longrightarrow> hm_memory (mp_mapping s) = None \<Longrightarrow>
    mapping_step ordered threads s (at_reader t Giving_up s)"
| acquire_undo: "mp_reader s t = Giving_up \<Longrightarrow> t \<notin> mp_late s \<Longrightarrow> mapping_step ordered threads s (at_reader t Resting (count_reader (\<lambda>n. n - 1) s))"
| acquire_session: "mp_reader s t = Loaded a \<Longrightarrow> mapping_step ordered threads s (at_reader t (Leasing a (hm_session_id (mp_mapping s))) s)"
| release: "mp_reader s t = Leasing a sid \<Longrightarrow> t \<notin> mp_late s \<Longrightarrow>
    mapping_step ordered threads s (at_reader t Resting (count_reader (\<lambda>n. n - 1) s))"
| store_lands: "mp_stores s = x # xs \<Longrightarrow> mapping_step ordered threads s (s\<lparr>mp_mapping := lands x (mp_mapping s), mp_stores := xs\<rparr>)"
| map: "mp_owner s = Settled \<Longrightarrow> mp_todo s = Mapped a # es \<Longrightarrow>
    mapping_step ordered threads s (s\<lparr>mp_todo := es, mp_mapped := insert a (mp_mapped s)\<rparr>)"
| unmap: "mp_owner s = Settled \<Longrightarrow> mp_todo s = Unmapped a # es \<Longrightarrow>
    mapping_step ordered threads s (s\<lparr>mp_todo := es, mp_mapped := mp_mapped s - {a}\<rparr>)"
| withdraw_clear: "mp_owner s = Settled \<Longrightarrow> mp_todo s = Withdrew # es \<Longrightarrow> mapping_step ordered threads s (owner_store (StoreMemory None) Withdrawing s)"
| withdraw_done: "mp_owner s = Withdrawing \<Longrightarrow> (ordered \<longrightarrow> mp_stores s = []) \<Longrightarrow> hm_readers (mp_mapping s) = 0 \<Longrightarrow>
    mapping_step ordered threads s (s\<lparr>mp_owner := Settled, mp_todo := tl (mp_todo s), mp_offer := None\<rparr>)"
| publish_session: "mp_owner s = Settled \<Longrightarrow> mp_todo s = Published a sid # es \<Longrightarrow>
    mapping_step ordered threads s (owner_store (StoreSession sid) (Publishing a) (s\<lparr>mp_todo := es, mp_offer := Some (a, sid)\<rparr>))"
| publish_memory: "mp_owner s = Publishing a \<Longrightarrow> mapping_step ordered threads s (owner_store (StoreMemory (Some a)) Settled s)"

definition mapping_start :: "owner_event list \<Rightarrow> mapping_state" where
  "mapping_start es = \<lparr>mp_mapping = ns6_hal_mapping_init \<lparr>hm_memory = None, hm_session_id = 0, hm_readers = 0\<rparr>, mp_stores = [], mp_reader = (\<lambda>_. Resting),
     mp_late = {}, mp_owner = Settled, mp_todo = es, mp_offer = None, mp_mapped = {}\<rparr>"

subsection \<open>Every lease points to mapped memory and names its session\<close>

definition counted :: "mapping_state \<Rightarrow> nat set" where
  "counted s = {t. mp_reader s t \<noteq> Resting}"

fun pointer_of :: "reader_state \<Rightarrow> u64 option" where
  "pointer_of (Loaded a) = Some a"
| "pointer_of (Leasing a sid) = Some a"
| "pointer_of _ = None"

text \<open>The stores of the publication in force and of the withdrawal in progress; those that have not landed are the last ones of these.\<close>

fun pending :: "(u64 \<times> u64) option \<Rightarrow> owner_state \<Rightarrow> mapping_store list" where
  "pending None Withdrawing = [StoreMemory None]"
| "pending None _ = []"
| "pending (Some (a, sid)) Settled = [StoreSession sid, StoreMemory (Some a)]"
| "pending (Some (a, sid)) Withdrawing = [StoreSession sid, StoreMemory (Some a), StoreMemory None]"
| "pending (Some (a, sid)) (Publishing _) = [StoreSession sid]"

definition readers_inv :: "nat \<Rightarrow> mapping_state \<Rightarrow> bool" where
  "readers_inv threads s \<longleftrightarrow> counted s \<subseteq> {..<threads} \<and> (\<forall>t \<in> mp_late s. mp_reader s t = Counted) \<and>
     unat (hm_readers (mp_mapping s)) = card (counted s - mp_late s)"

text \<open>What a callback can read or has read is the memory in force, whose stores have landed.\<close>

definition readable :: "mapping_state \<Rightarrow> u64 \<Rightarrow> bool" where
  "readable s a \<longleftrightarrow> hm_memory (mp_mapping s) = Some a \<or> (\<exists>t. pointer_of (mp_reader s t) = Some a)"

definition leases_inv :: "mapping_state \<Rightarrow> bool" where
  "leases_inv s \<longleftrightarrow>
     (\<forall>a. readable s a \<longrightarrow>
        mp_offer s = Some (a, hm_session_id (mp_mapping s)) \<and> mp_stores s \<in> {[], [StoreMemory None]} \<and> (\<forall>b. mp_owner s \<noteq> Publishing b)) \<and>
     (\<forall>t a sid. mp_reader s t = Leasing a sid \<longrightarrow> sid = hm_session_id (mp_mapping s))"

definition stores_inv :: "mapping_state \<Rightarrow> bool" where
  "stores_inv s \<longleftrightarrow> suffix (mp_stores s) (pending (mp_offer s) (mp_owner s)) \<and>
     (\<forall>a sid. mp_offer s = Some (a, sid) \<and> StoreSession sid \<notin> set (mp_stores s) \<longrightarrow> hm_session_id (mp_mapping s) = sid) \<and>
     (mp_owner s = Withdrawing \<and> mp_stores s = [] \<longrightarrow> hm_memory (mp_mapping s) = None)"

definition owner_inv :: "owner_event list \<Rightarrow> mapping_state \<Rightarrow> bool" where
  "owner_inv es s \<longleftrightarrow>
     (\<forall>a. mp_owner s = Publishing a \<longrightarrow> (\<exists>sid. mp_offer s = Some (a, sid))) \<and>
     (mp_owner s = Withdrawing \<longrightarrow> (\<exists>rest. mp_todo s = Withdrew # rest)) \<and>
     owner_run (mp_todo s) (mp_mapped s, map_option fst (mp_offer s)) \<noteq> None \<and>
     (\<forall>a sid. mp_offer s = Some (a, sid) \<longrightarrow> a \<in> mp_mapped s \<and> Published a sid \<in> set es) \<and> set (mp_todo s) \<subseteq> set es"

lemmas mapping_inv_defs = readers_inv_def leases_inv_def readable_def stores_inv_def owner_inv_def

lemma mapping_fields [simp]:
  "mp_reader (at_reader t r s) = (mp_reader s)(t := r)" "mp_mapping (at_reader t r s) = mp_mapping s" "mp_owner (at_reader t r s) = mp_owner s"
  "mp_mapped (at_reader t r s) = mp_mapped s" "mp_stores (at_reader t r s) = mp_stores s" "mp_late (at_reader t r s) = mp_late s"
  "mp_todo (at_reader t r s) = mp_todo s" "mp_offer (at_reader t r s) = mp_offer s"
  "mp_reader (count_reader f s) = mp_reader s" "mp_owner (count_reader f s) = mp_owner s" "mp_mapped (count_reader f s) = mp_mapped s"
  "mp_stores (count_reader f s) = mp_stores s" "mp_late (count_reader f s) = mp_late s"
  "mp_todo (count_reader f s) = mp_todo s" "mp_offer (count_reader f s) = mp_offer s"
  "hm_memory (mp_mapping (count_reader f s)) = hm_memory (mp_mapping s)"
  "hm_session_id (mp_mapping (count_reader f s)) = hm_session_id (mp_mapping s)"
  "hm_readers (mp_mapping (count_reader f s)) = f (hm_readers (mp_mapping s))"
  "mp_reader (owner_store x b s) = mp_reader s" "mp_mapping (owner_store x b s) = mp_mapping s" "mp_owner (owner_store x b s) = b"
  "mp_mapped (owner_store x b s) = mp_mapped s" "mp_stores (owner_store x b s) = mp_stores s @ [x]" "mp_late (owner_store x b s) = mp_late s"
  "mp_todo (owner_store x b s) = mp_todo s" "mp_offer (owner_store x b s) = mp_offer s"
  by (simp_all add: at_reader_def count_reader_def owner_store_def)

lemma counted_reader [simp]:
  "counted (at_reader t r s) = (if r = Resting then counted s - {t} else insert t (counted s))"
  "counted (count_reader f s) = counted s" "counted (owner_store x b s) = counted s" "counted (mp_late_update g s) = counted s"
  by (auto simp: counted_def)

lemma lands_readers [simp]: "hm_readers (lands x m) = hm_readers m"
  by (cases x) simp_all

lemma readers_leave:
  assumes "readers_inv threads s" and "mp_reader s t \<noteq> Resting" and "t \<notin> mp_late s"
  shows "readers_inv threads (at_reader t Resting (count_reader (\<lambda>n. n - 1) s))"
proof -
  have "t \<in> counted s - mp_late s" using assms by (simp add: counted_def)
  moreover have "counted s - {t} - mp_late s = counted s - mp_late s - {t}" by auto
  ultimately show ?thesis
    using assms counter_exit [of _ "counted s - mp_late s" threads t] unfolding readers_inv_def by (auto simp: subset_iff)
qed

lemma readers_stay:
  assumes "readers_inv threads s" and "mp_reader s t \<noteq> Resting" and "r \<noteq> Resting" and "t \<notin> mp_late s"
  shows "readers_inv threads (at_reader t r s)"
proof -
  have "insert t (counted s) = counted s" using assms(2) by (auto simp: counted_def)
  then show ?thesis using assms unfolding readers_inv_def by auto
qed

lemma readers_step:
  assumes "mapping_step True threads s s'" and inv: "readers_inv threads s" and "threads < 2 ^ 32"
  shows "readers_inv threads s'"
  using assms(1)
proof cases
  case (acquire_count t)
  then have "t \<notin> counted s" by (simp add: counted_def)
  moreover from this have "insert t (counted s) - insert t (mp_late s) = counted s - mp_late s" by auto
  ultimately show ?thesis using inv acquire_count unfolding readers_inv_def by auto
next
  case (count_lands t)
  then have "t \<in> counted s" "counted s - (mp_late s - {t}) = insert t (counted s - mp_late s)" using inv by (auto simp: readers_inv_def counted_def)
  moreover have "t < threads" "counted s - mp_late s \<subseteq> {..<threads}" using inv calculation(1) by (auto simp: readers_inv_def)
  ultimately show ?thesis
    using inv assms(3) count_lands counter_enter [of "hm_readers (mp_mapping s)" "counted s - mp_late s" threads t] by (simp add: readers_inv_def)
next
  case (acquire_session t a)
  then have "t \<notin> mp_late s" using inv by (auto simp: readers_inv_def)
  then show ?thesis using readers_stay [OF inv] acquire_session by simp
qed (use inv readers_leave [OF inv] readers_stay [OF inv] in \<open>simp_all add: readers_inv_def counted_def\<close>)

lemma no_pointers:
  assumes "readers_inv threads s" and "hm_readers (mp_mapping s) = 0"
  shows "pointer_of (mp_reader s t) = None"
proof -
  have "finite (counted s)" using assms(1) finite_subset [of "counted s" "{..<threads}"] by (auto simp: readers_inv_def)
  then have "counted s - mp_late s = {}" using assms by (auto simp: readers_inv_def)
  then have "mp_reader s t = Resting \<or> mp_reader s t = Counted" using assms(1) by (auto simp: readers_inv_def counted_def)
  then show ?thesis by auto
qed

lemma owner_step:
  assumes "mapping_step True threads s s'" and "owner_inv es s"
  shows "owner_inv es s'"
  using assms
  by cases (auto simp: owner_inv_def split: if_splits option.splits)

lemma stores_shape:
  assumes "stores_inv s" and "mp_stores s = x # xs"
  shows "(\<exists>a sid. mp_offer s = Some (a, sid) \<and> x = StoreSession sid \<and> (xs = [] \<longrightarrow> mp_owner s \<noteq> Withdrawing)) \<or>
    (\<exists>a sid. mp_offer s = Some (a, sid) \<and> x = StoreMemory (Some a) \<and> xs \<in> {[], [StoreMemory None]} \<and> (\<forall>b. mp_owner s \<noteq> Publishing b) \<and>
       (xs = [] \<longrightarrow> mp_owner s \<noteq> Withdrawing)) \<or>
    x = StoreMemory None \<and> xs = [] \<and> mp_owner s = Withdrawing"
  using assms by (cases "mp_offer s"; cases "mp_owner s") (auto simp: stores_inv_def suffix_Cons)

lemma settled_stores:
  assumes "stores_inv s" and "mp_owner s \<noteq> Withdrawing"
  shows "mp_stores s \<noteq> [StoreMemory None] \<and> (mp_offer s = None \<longrightarrow> mp_stores s = [])"
  using assms by (cases "mp_offer s"; cases "mp_owner s") (auto simp: stores_inv_def suffix_Cons)

lemma suffix_store: "suffix xs ys \<Longrightarrow> suffix (xs @ [x]) (ys @ [x])"
  by simp

lemma stores_step:
  assumes "mapping_step True threads s s'" and "owner_inv es s" and "stores_inv s"
  shows "stores_inv s'"
  using assms(1)
proof cases
  case (store_lands x xs)
  have "suffix xs (pending (mp_offer s) (mp_owner s))" using assms(3) store_lands(2) suffix_ConsD by (fastforce simp: stores_inv_def)
  then show ?thesis using stores_shape [OF assms(3) store_lands(2)] assms(3) store_lands by (auto simp: stores_inv_def)
next
  case (withdraw_clear es')
  then show ?thesis using assms(3) by (cases "mp_offer s") (auto simp: stores_inv_def dest: suffix_store)
next
  case withdraw_done
  then show ?thesis using assms(3) by (simp add: stores_inv_def)
next
  case (publish_session a sid es')
  then have "mp_offer s = None" using assms(2) by (auto simp: owner_inv_def split: if_splits)
  then show ?thesis using settled_stores [OF assms(3)] publish_session by (simp add: stores_inv_def)
next
  case (publish_memory a)
  then obtain sid where "mp_offer s = Some (a, sid)" using assms(2) by (auto simp: owner_inv_def)
  then show ?thesis using assms(3) publish_memory suffix_store [of "mp_stores s" "[StoreSession sid]"] by (auto simp: stores_inv_def)
qed (use assms(3) in \<open>simp_all add: stores_inv_def\<close>)

text \<open>Nothing to read and nobody reading.\<close>

lemma leases_none:
  assumes "hm_memory (mp_mapping s) = None" and "\<And>t. pointer_of (mp_reader s t) = None"
  shows "leases_inv s"
proof -
  have "mp_reader s t \<noteq> Leasing a sid" for t a sid using assms(2) [of t] by auto
  then show ?thesis using assms by (simp add: leases_inv_def readable_def)
qed

lemma leases_noneD:
  assumes "leases_inv s" and "mp_offer s = None \<or> (\<exists>b. mp_owner s = Publishing b) \<or> mp_stores s \<notin> {[], [StoreMemory None]}"
  shows "hm_memory (mp_mapping s) = None" "pointer_of (mp_reader s t) = None"
proof -
  have "\<not> readable s a" for a using assms by (auto simp: leases_inv_def)
  then have no: "hm_memory (mp_mapping s) \<noteq> Some a" "pointer_of (mp_reader s t) \<noteq> Some a" for a t by (auto simp: readable_def)
  show "hm_memory (mp_mapping s) = None" using no(1) by (cases "hm_memory (mp_mapping s)") auto
  show "pointer_of (mp_reader s t) = None" using no(2) by (cases "pointer_of (mp_reader s t)") auto
qed

lemma leases_reader:
  assumes "leases_inv s" and "\<And>a. pointer_of r = Some a \<Longrightarrow> hm_memory (mp_mapping s) = Some a \<or> pointer_of (mp_reader s t) = Some a"
    and "\<And>a sid. r = Leasing a sid \<Longrightarrow> sid = hm_session_id (mp_mapping s)"
  shows "leases_inv (at_reader t r s)"
proof -
  have "readable s a" if "readable (at_reader t r s) a" for a
    using that assms(2) by (auto simp: readable_def split: if_splits)
  moreover have "sid = hm_session_id (mp_mapping s)" if "mp_reader (at_reader t r s) u = Leasing a sid" for u a sid
    using that assms(1,3) by (auto simp: leases_inv_def split: if_splits)
  ultimately show ?thesis using assms(1) unfolding leases_inv_def mapping_fields(2,3,5,8) by metis
qed

lemma leases_lands:
  assumes "owner_inv es s" and "stores_inv s" and "leases_inv s" and "mp_stores s = x # xs"
  shows "leases_inv (s\<lparr>mp_mapping := lands x (mp_mapping s), mp_stores := xs\<rparr>)"
  using stores_shape [OF assms(2,4)]
proof (elim disjE exE conjE)
  fix a sid assume "x = StoreSession sid"
  then show ?thesis using leases_noneD [OF assms(3)] assms(4) by (intro leases_none) auto
next
  fix a sid assume x: "mp_offer s = Some (a, sid)" "x = StoreMemory (Some a)" "xs \<in> {[], [StoreMemory None]}" "\<forall>b. mp_owner s \<noteq> Publishing b"
  have none: "pointer_of (mp_reader s t) = None" "mp_reader s t \<noteq> Leasing b i" for t b i using leases_noneD(2) [OF assms(3), of t] assms(4) x(2) by auto
  have "hm_session_id (mp_mapping s) = sid" using assms(2,4) x by (auto simp: stores_inv_def)
  then show ?thesis using x none by (simp add: leases_inv_def readable_def)
next
  assume "x = StoreMemory None" "xs = []"
  then show ?thesis using assms(3,4) by (simp add: leases_inv_def readable_def)
qed

lemma leases_step:
  assumes "mapping_step True threads s s'" and "readers_inv threads s" and "owner_inv es s" and "stores_inv s" and "leases_inv s"
  shows "leases_inv s'"
  using assms(1)
proof cases
  case withdraw_done
  then show ?thesis using no_pointers [OF assms(2)] assms(4) by (intro leases_none) (auto simp: stores_inv_def)
next
  case (store_lands x xs)
  then show ?thesis using leases_lands [OF assms(3-5)] by simp
next
  case (withdraw_clear es')
  then have "mp_stores s \<noteq> [StoreMemory None]" using settled_stores [OF assms(4)] by simp
  then show ?thesis using assms(5) withdraw_clear by (auto simp: leases_inv_def readable_def)
next
  case (publish_session a sid es')
  then have "mp_offer s = None" using assms(3) by (auto simp: owner_inv_def split: if_splits)
  then show ?thesis using leases_noneD [OF assms(5)] publish_session by (intro leases_none) auto
next
  case (publish_memory a)
  then show ?thesis using leases_noneD [OF assms(5)] by (intro leases_none) auto
next
  case (acquire_load t a)
  then show ?thesis using leases_reader [OF assms(5), of "Loaded a" t] by simp
next
  case (acquire_session t a)
  then show ?thesis using leases_reader [OF assms(5), of "Leasing a (hm_session_id (mp_mapping s))" t] by simp
next
  case (acquire_count t)
  have "leases_inv (s\<lparr>mp_late := insert t (mp_late s)\<rparr>)" using assms(5) by (simp add: leases_inv_def readable_def)
  then show ?thesis using leases_reader [of _ Counted t] acquire_count by simp
next
  case (acquire_null t)
  then show ?thesis using leases_reader [OF assms(5), of Giving_up t] by simp
next
  case (acquire_undo t)
  have "leases_inv (count_reader (\<lambda>n. n - 1) s)" using assms(5) by (simp add: leases_inv_def readable_def)
  then show ?thesis using leases_reader [of _ Resting t] acquire_undo by simp
next
  case (release t a sid)
  have "leases_inv (count_reader (\<lambda>n. n - 1) s)" using assms(5) by (simp add: leases_inv_def readable_def)
  then show ?thesis using leases_reader [of _ Resting t] release by simp
qed (use assms(5) in \<open>simp_all add: leases_inv_def readable_def\<close>)

lemma mapping_reach_inv:
  assumes "(mapping_step True threads)\<^sup>*\<^sup>* (mapping_start es) s" and "threads < 2 ^ 32" and "owner_run es ({}, None) \<noteq> None"
  shows "readers_inv threads s \<and> owner_inv es s \<and> stores_inv s \<and> leases_inv s"
  using assms(1)
proof (induction rule: rtranclp_induct)
  case base
  then show ?case using assms(3) by (simp add: mapping_inv_defs mapping_start_def ns6_hal_mapping_init_def counted_def)
next
  case (step y z)
  then show ?case using readers_step [OF step(2)] owner_step [OF step(2)] stores_step [OF step(2)] leases_step [OF step(2)] assms(2) step(3) by blast
qed

subsection \<open>State of the plug-in\<close>

abbreviation DEVICE_ID :: u32 where "DEVICE_ID \<equiv> 2"
abbreviation STREAM_ID :: u32 where "STREAM_ID \<equiv> 3"
abbreviation INPUT_STREAM_ID :: u32 where "INPUT_STREAM_ID \<equiv> 4"

datatype OSStatus =
    noErr
  | kAudioHardwareBadObjectError
  | kAudioHardwareNotRunningError
  | kAudioHardwareUnspecifiedError
  | kAudioHardwareIllegalOperationError
  | kAudioHardwareUnsupportedOperationError
  | kAudioHardwareBadPropertySizeError
  | OtherStatus int

record NS6TrackedClient =
  tc_client_id :: u32
  tc_pid :: int
  tc_bundle_id :: string
  tc_starts :: u32
  tc_order :: u64
  tc_used :: bool

definition tracked_zero :: NS6TrackedClient where
  "tracked_zero = \<lparr>tc_client_id = 0, tc_pid = 0, tc_bundle_id = [], tc_starts = 0, tc_order = 0, tc_used = False\<rparr>"

text \<open>The properties the host is told have changed.\<close>

datatype hal_change = DeviceListChanged | DeviceIsAliveChanged | BufferFrameSizeChanged | DriverBufferChanged | BufferRestartChanged

record NS6HAL =
  hl_tracked_clients :: "NS6TrackedClient list"
  hl_client_order :: u64
  hl_buffer_frames :: u32
  hl_driver_buffer_frames :: u32
  hl_active_flow :: NS6ActiveFlow
  hl_buffer_restart_pending :: bool
  hl_buffer_restart_state :: u32
  hl_host :: bool
  hl_seed :: u32
  hl_io_clients :: u32
  hl_untracked_io_starts :: u32
  hl_anchor_host_time :: u64
  hl_timebase :: "u32 \<times> u32"
  hl_io_metrics :: NS6IOMetrics
  hl_io_metrics_once :: bool
  hl_device_present :: bool
  hl_enqueue_failures :: u32
  hl_last_enqueue_log_ms :: u64
  hl_device_client :: NS6DeviceClient
  hl_callback_mapping :: NS6HALMapping
  hl_service_ready :: bool
  hl_service_superseded :: bool
  hl_memory :: "u64 \<Rightarrow> NS6SharedMemory option"
  hl_changed :: "hal_change list"
  hl_trace :: "owner_event list"

text \<open>\<open>hl_trace\<close> records what the plug-in does as the owner of the mapping.\<close>

definition owner_did :: "owner_event \<Rightarrow> NS6HAL \<Rightarrow> NS6HAL" where
  "owner_did e h = h\<lparr>hl_trace := hl_trace h @ [e]\<rparr>"

text \<open>The zeroed and initialised statics of \<^verbatim>\<open>NS6HAL.c\<close>; \<open>metrics\<close> is what the uninitialised table holds.\<close>

definition hal_static :: "NS6IOMetrics \<Rightarrow> NS6HAL" where
  "hal_static metrics = \<lparr>hl_tracked_clients = replicate 128 tracked_zero, hl_client_order = 0, hl_buffer_frames = 256, hl_driver_buffer_frames = 256,
     hl_active_flow = \<lparr>af_frames = 0, af_client_id = 0, af_last_callback_tick = 0\<rparr>, hl_buffer_restart_pending = False, hl_buffer_restart_state = 0,
     hl_host = False, hl_seed = 1, hl_io_clients = 0, hl_untracked_io_starts = 0, hl_anchor_host_time = 0, hl_timebase = (0, 0),
     hl_io_metrics = metrics, hl_io_metrics_once = False, hl_device_present = False, hl_enqueue_failures = 0, hl_last_enqueue_log_ms = 0,
     hl_device_client = device_client_zero, hl_callback_mapping = \<lparr>hm_memory = None, hm_session_id = 0, hm_readers = 0\<rparr>,
     hl_service_ready = False, hl_service_superseded = False, hl_memory = (\<lambda>_. None), hl_changed = [], hl_trace = []\<rparr>"

definition initialize_io_metrics :: "NS6HAL \<Rightarrow> NS6HAL" where
  "initialize_io_metrics h =
     (if hl_io_metrics_once h then h
      else h\<lparr>hl_io_metrics := the (ns6_io_metrics_init (Some (hl_io_metrics h))), hl_io_metrics_once := True\<rparr>)"

subsection \<open>Presence of the device\<close>

text \<open>
  \<open>first\<close> and \<open>second\<close> are what the two registry queries answer, \<open>later\<close> the clients active after the wait.
\<close>

definition announce_presence :: "bool \<Rightarrow> NS6HAL \<Rightarrow> NS6HAL" where
  "announce_presence present h =
     (let previous = hl_device_present h; h = h\<lparr>hl_device_present := present\<rparr>
      in if previous = present \<or> \<not> hl_host h then h
         else h\<lparr>hl_changed := hl_changed h @ [DeviceListChanged, DeviceIsAliveChanged]\<rparr>)"

definition publish_connection_state :: "bool \<Rightarrow> u32 \<Rightarrow> bool \<Rightarrow> NS6HAL \<Rightarrow> NS6HAL" where
  "publish_connection_state first later second h =
     (if ns6_connection_should_defer_disconnect first (hl_io_clients h) then h
      else if \<not> first \<and> hl_device_present h then
        (if ns6_connection_should_defer_disconnect second later then h else announce_presence second h)
      else announce_presence first h)"

subsection \<open>Following the service\<close>

text \<open>
  What a connection attempt meets: the kernel's answers, the port the name resolves to, the size of the shared structure and its contents.
\<close>

record connect_world =
  cn_client :: client_world
  cn_port :: "nat option"
  cn_sizeof :: u32
  cn_memory :: NS6SharedMemory

definition hal_connect :: "'k ipc \<Rightarrow> connect_world \<Rightarrow> NS6DeviceClient \<Rightarrow> NS6HAL \<Rightarrow> 'k \<Rightarrow> bool \<times> NS6DeviceClient \<times> NS6HAL \<times> 'k" where
  "hal_connect ipc cn client h k =
     (case ns6_device_client_connect ipc ((cn_client cn)\<lparr>cw_header := (sm_protocol_version (cn_memory cn), sm_struct_size (cn_memory cn))\<rparr>)
             (cn_sizeof cn) (cn_port cn) client k of
        (ok, client, k) \<Rightarrow> (ok, client, if ok then owner_did (Mapped (the (dc_shared_memory client)))
          (h\<lparr>hl_memory := (hl_memory h)(the (dc_shared_memory client) \<mapsto> cn_memory cn)\<rparr>) else h, k))"

definition unmap_client :: "NS6DeviceClient \<Rightarrow> NS6HAL \<Rightarrow> NS6HAL" where
  "unmap_client client h = (case dc_shared_memory client of None \<Rightarrow> h | Some a \<Rightarrow> owner_did (Unmapped a) (h\<lparr>hl_memory := (hl_memory h)(a := None)\<rparr>))"

definition hal_disconnect :: "'k ipc \<Rightarrow> NS6DeviceClient \<Rightarrow> NS6HAL \<Rightarrow> 'k \<Rightarrow> NS6DeviceClient \<times> NS6HAL \<times> 'k" where
  "hal_disconnect ipc client h k = (case ns6_device_client_disconnect ipc client k of (zero, k) \<Rightarrow> (zero, unmap_client client h, k))"

definition withdraw_mapping :: "NS6HAL \<Rightarrow> hal_failure + NS6HAL" where
  "withdraw_mapping h = map_sum id (\<lambda>m. owner_did Withdrew (h\<lparr>hl_callback_mapping := m\<rparr>)) (ns6_hal_mapping_withdraw (hl_callback_mapping h))"

definition publish_device_mapping_locked :: "NS6HAL \<Rightarrow> hal_failure + NS6HAL" where
  "publish_device_mapping_locked h =
     map_sum id (\<lambda>h.
       case dc_shared_memory (hl_device_client h) of
         Some memory \<Rightarrow> if dc_connected (hl_device_client h)
           then owner_did (Published memory (dc_session_id (hl_device_client h)))
             (h\<lparr>hl_callback_mapping := ns6_hal_mapping_publish memory (dc_session_id (hl_device_client h)) (hl_callback_mapping h), hl_service_ready := True\<rparr>)
           else h\<lparr>hl_service_ready := False\<rparr>
       | None \<Rightarrow> h\<lparr>hl_service_ready := False\<rparr>) (withdraw_mapping h)"

definition take_over :: "'k ipc \<Rightarrow> NS6DeviceClient \<Rightarrow> NS6HAL \<Rightarrow> 'k \<Rightarrow> hal_failure + NS6HAL \<times> 'k" where
  "take_over ipc replacement h k =
     (let previous = hl_device_client h
      in case publish_device_mapping_locked (h\<lparr>hl_device_client := replacement\<rparr>) of
           Inl e \<Rightarrow> Inl e
         | Inr h \<Rightarrow> (case hal_disconnect ipc previous (h\<lparr>hl_service_superseded := False\<rparr>) k of (_, h, k) \<Rightarrow> Inr (h, k)))"

definition lose_service :: "'k ipc \<Rightarrow> NS6DeviceClient \<Rightarrow> NS6HAL \<Rightarrow> 'k \<Rightarrow> hal_failure + NS6HAL \<times> 'k" where
  "lose_service ipc replacement h k =
     (case hal_disconnect ipc replacement h k of (_, h, k) \<Rightarrow>
      case withdraw_mapping h of Inl e \<Rightarrow> Inl e
      | Inr h \<Rightarrow>
        (case (if dc_connected (hl_device_client h) then hal_disconnect ipc (hl_device_client h) h k else (hl_device_client h, h, k)) of
           (client, h, k) \<Rightarrow> Inr (h\<lparr>hl_device_client := client, hl_service_ready := False\<rparr>, k)))"

definition monitor_reconnect :: "'k ipc \<Rightarrow> connect_world \<Rightarrow> NS6HAL \<Rightarrow> 'k \<Rightarrow> hal_failure + NS6HAL \<times> 'k" where
  "monitor_reconnect ipc cn h k =
     (case hal_connect ipc cn device_client_zero h k of (ok, replacement, h, k) \<Rightarrow>
      case (if ok then ns6_device_client_set_startup_buffer ipc (hl_driver_buffer_frames h) replacement k else (False, k)) of (ok, k) \<Rightarrow>
      case (if ok then ns6_device_client_set_audio_active ipc (0 < hl_io_clients h) replacement k else (False, k)) of (ok, k) \<Rightarrow>
      if ok then take_over ipc replacement h k else lose_service ipc replacement h k)"

definition log_io_metrics :: "NS6HAL \<Rightarrow> NS6HAL" where
  "log_io_metrics h = h\<lparr>hl_io_metrics := the (snd (snd (ns6_io_metrics_take_snapshot (Some (hl_io_metrics h)) (Some []) 32)))\<rparr>"

text \<open>One turn of the loop.\<close>

definition device_service_monitor :: "'k ipc \<Rightarrow> connect_world \<Rightarrow> NS6HAL \<Rightarrow> 'k \<Rightarrow> hal_failure + NS6HAL \<times> 'k" where
  "device_service_monitor ipc cn h k =
     (let h = log_io_metrics (initialize_io_metrics h) in
      case (if dc_connected (hl_device_client h) then ns6_device_client_get_state_result ipc (hl_device_client h) (Some snapshot_zero) k
            else (NS6_DEVICE_CLIENT_STATE_UNAVAILABLE, Some snapshot_zero, k)) of
        (NS6_DEVICE_CLIENT_STATE_REPLACED, _, k) \<Rightarrow>
          map_sum id (\<lambda>h. (h\<lparr>hl_service_ready := False, hl_service_superseded := True\<rparr>, k)) (withdraw_mapping h)
      | (NS6_DEVICE_CLIENT_STATE_READY, _, k) \<Rightarrow>
          let h = h\<lparr>hl_service_superseded := False\<rparr> in
          if hl_service_ready h then Inr (h, k)
          else (case ns6_device_client_set_audio_active ipc (0 < hl_io_clients h) (hl_device_client h) k of (ok, k) \<Rightarrow>
                if ok then map_sum id (\<lambda>h. (h, k)) (publish_device_mapping_locked h) else Inr (h, k))
      | (NS6_DEVICE_CLIENT_STATE_UNAVAILABLE, _, k) \<Rightarrow> monitor_reconnect ipc cn h k)"

subsection \<open>Initialisation\<close>

abbreviation supported_buffer_frames :: "u32 list" where "supported_buffer_frames \<equiv> [49, 128, 192, 256, 512, 1024]"

definition supported_buffer_size :: "u32 \<Rightarrow> bool" where
  "supported_buffer_size n \<longleftrightarrow> n \<in> set supported_buffer_frames"

text \<open>
  \<open>stored\<close> is the number found in the host's storage, if one is; \<open>present\<close> what the registry query answers. The object is the driver's own.
\<close>

definition connect_at_start :: "'k ipc \<Rightarrow> connect_world \<Rightarrow> NS6HAL \<Rightarrow> 'k \<Rightarrow> hal_failure + NS6HAL \<times> 'k" where
  "connect_at_start ipc cn h k =
     (case hal_connect ipc cn (hl_device_client h) h k of (ok, client, h, k) \<Rightarrow>
      case (if ok then ns6_device_client_set_startup_buffer ipc (hl_driver_buffer_frames h) client k else (False, k)) of (ok, k) \<Rightarrow>
      if ok then map_sum id (\<lambda>h. (h, k)) (publish_device_mapping_locked (h\<lparr>hl_device_client := client\<rparr>))
      else (case hal_disconnect ipc client h k of (client, h, k) \<Rightarrow> Inr (h\<lparr>hl_device_client := client\<rparr>, k)))"

definition hal_initialize :: "'k ipc \<Rightarrow> connect_world \<Rightarrow> u32 \<times> u32 \<Rightarrow> int option \<Rightarrow> bool \<Rightarrow> NS6HAL \<Rightarrow> 'k \<Rightarrow> hal_failure + NS6HAL \<times> 'k" where
  "hal_initialize ipc cn timebase stored present h k =
     connect_at_start ipc cn
       (h\<lparr>hl_host := True, hl_timebase := timebase, hl_callback_mapping := ns6_hal_mapping_init (hl_callback_mapping h),
          hl_device_client := (hl_device_client h)\<lparr>dc_service_port := None\<rparr>,
          hl_driver_buffer_frames := (case stored of None \<Rightarrow> hl_driver_buffer_frames h
            | Some n \<Rightarrow> if 0 < n \<and> supported_buffer_size (word_of_int n) then word_of_int n else hl_driver_buffer_frames h),
          hl_device_present := present\<rparr>) k"

subsection \<open>Clients, start and stop\<close>

definition find_client_locked :: "u32 \<Rightarrow> NS6HAL \<Rightarrow> nat option" where
  "find_client_locked cid h = find_slot (\<lambda>c. tc_used c \<and> tc_client_id c = cid) (hl_tracked_clients h)"

definition update_client :: "nat \<Rightarrow> (NS6TrackedClient \<Rightarrow> NS6TrackedClient) \<Rightarrow> NS6HAL \<Rightarrow> NS6HAL" where
  "update_client i f h = h\<lparr>hl_tracked_clients := (hl_tracked_clients h)[i := f (hl_tracked_clients h ! i)]\<rparr>"

text \<open>A client is announced by its number, process and, if it has one, the name of its bundle.\<close>

definition add_client :: "u32 \<Rightarrow> (u32 \<times> int \<times> string option) option \<Rightarrow> NS6HAL \<Rightarrow> NS6HAL" where
  "add_client obj info h =
     (case info of None \<Rightarrow> h | Some (cid, pid, bundle) \<Rightarrow>
      if obj \<noteq> DEVICE_ID then h
      else let named = (\<lambda>c. c\<lparr>tc_used := True, tc_client_id := cid, tc_pid := pid,
                 tc_bundle_id := take 255 (case bundle of None \<Rightarrow> ''unknown'' | Some b \<Rightarrow> b)\<rparr>)
           in case find_client_locked cid h of
                Some i \<Rightarrow> update_client i named h
              | None \<Rightarrow> (case find_slot (\<lambda>c. \<not> tc_used c) (hl_tracked_clients h) of
                  Some i \<Rightarrow> update_client i (\<lambda>_. named tracked_zero) h
                | None \<Rightarrow> h))"

definition idle_stream :: "'k ipc \<Rightarrow> NS6HAL \<Rightarrow> 'k \<Rightarrow> NS6HAL \<times> 'k" where
  "idle_stream ipc h k =
     (h\<lparr>hl_active_flow := ns6_active_flow_clear (hl_active_flow h)\<rparr>, snd (ns6_device_client_set_audio_active ipc False (hl_device_client h) k))"

text \<open>\<open>p\<close> is what \<^verbatim>\<open>publish_connection_state\<close> meets if the stream becomes idle.\<close>

definition remove_client :: "'k ipc \<Rightarrow> bool \<times> u32 \<times> bool \<Rightarrow> u32 \<Rightarrow> u32 option \<Rightarrow> NS6HAL \<Rightarrow> 'k \<Rightarrow> NS6HAL \<times> 'k" where
  "remove_client ipc p obj info h k =
     (case info of None \<Rightarrow> (h, k) | Some cid \<Rightarrow>
      if obj \<noteq> DEVICE_ID then (h, k)
      else case find_client_locked cid h of None \<Rightarrow> (h, k)
      | Some i \<Rightarrow>
        (case ns6_io_client_account_remove (Some (tc_starts (hl_tracked_clients h ! i))) (Some (hl_io_clients h)) of (given_back, _, clients) \<Rightarrow>
         let h = update_client i (\<lambda>_. tracked_zero) h in
         if given_back = 0 then (h, k)
         else let h = h\<lparr>hl_io_clients := the clients\<rparr> in
           if the clients \<noteq> 0 then (h, k)
           else (case idle_stream ipc h k of (h, k) \<Rightarrow>
                 (case p of (first, later, second) \<Rightarrow> (publish_connection_state first later second h, k)))))"

text \<open>
  Output that has run dry although clients are active is primed again by a pause; \<open>now\<close> is the host time. The queue is read through the
  pointer of the client.
\<close>

definition reprime :: "'k ipc \<Rightarrow> u64 \<Rightarrow> NS6HAL \<Rightarrow> 'k \<Rightarrow> hal_failure + bool \<times> 'k" where
  "reprime ipc now h k =
     (case (dc_shared_memory (hl_device_client h), hl_timebase h) of
        (None, _) \<Rightarrow> Inr (True, k)
      | (Some a, numer, denom) \<Rightarrow>
        if numer = 0 then Inr (True, k)
        else case hl_memory h a of None \<Rightarrow> Inl Fault
        | Some memory \<Rightarrow>
          let stale_after_ticks = (100000000 * ucast denom) div ucast numer;
              flow = ns6_active_flow_snapshot (hl_active_flow h) now stale_after_ticks;
              queued = ns6_transport_available_shared (Some (sm_output memory))
          in if \<not> ns6_active_flow_should_rearm flow queued 1024 then Inr (True, k)
             else (case ns6_device_client_set_audio_active ipc False (hl_device_client h) k of (paused, k) \<Rightarrow>
                   if paused then Inr (ns6_device_client_set_audio_active ipc True (hl_device_client h) k) else Inr (False, k)))"

definition hal_activate :: "'k ipc \<Rightarrow> u64 \<Rightarrow> NS6HAL \<Rightarrow> 'k \<Rightarrow> hal_failure + bool \<times> 'k" where
  "hal_activate ipc now h k =
     (if \<not> (hl_service_ready h \<and> dc_connected (hl_device_client h)) then Inr (False, k)
      else if ns6_io_client_needs_service_activation (hl_io_clients h) then Inr (ns6_device_client_set_audio_active ipc True (hl_device_client h) k)
      else reprime ipc now h k)"

definition account_started :: "u32 \<Rightarrow> NS6HAL \<Rightarrow> NS6HAL" where
  "account_started cid h =
     (case find_client_locked cid h of
        Some i \<Rightarrow> (case ns6_io_client_account_start (tc_starts (hl_tracked_clients h ! i)) (hl_io_clients h) of (starts, clients) \<Rightarrow>
          (update_client i (\<lambda>c. c\<lparr>tc_starts := starts, tc_order := hl_client_order h + 1\<rparr>) h)
            \<lparr>hl_client_order := hl_client_order h + 1, hl_io_clients := clients\<rparr>)
      | None \<Rightarrow> (case ns6_io_client_account_untracked_start (Some (hl_untracked_io_starts h)) (Some (hl_io_clients h)) of (untracked, clients) \<Rightarrow>
          h\<lparr>hl_untracked_io_starts := the untracked, hl_io_clients := the clients\<rparr>))"

definition first_start :: "u64 \<Rightarrow> NS6HAL \<Rightarrow> NS6HAL" where
  "first_start tick h = h\<lparr>hl_anchor_host_time := ns6_zero_timestamp_keep_anchor (hl_anchor_host_time h) tick,
     hl_seed := (if hl_anchor_host_time h = 0 then hl_seed h + 1 else hl_seed h), hl_enqueue_failures := 0, hl_last_enqueue_log_ms := 0\<rparr>"

text \<open>\<open>now\<close> and \<open>tick\<close> are the two readings of the host clock.\<close>

definition start_io :: "'k ipc \<Rightarrow> u64 \<Rightarrow> u64 \<Rightarrow> u32 \<Rightarrow> u32 \<Rightarrow> NS6HAL \<Rightarrow> 'k \<Rightarrow> hal_failure + OSStatus \<times> NS6HAL \<times> 'k" where
  "start_io ipc now tick obj cid h k =
     (if obj \<noteq> DEVICE_ID then Inr (kAudioHardwareBadObjectError, h, k)
      else let h = initialize_io_metrics h in
        if \<not> hl_device_present h then Inr (kAudioHardwareNotRunningError, h, k)
        else case hal_activate ipc now h k of Inl e \<Rightarrow> Inl e
        | Inr (activated, k) \<Rightarrow>
          if \<not> activated then Inr (kAudioHardwareUnspecifiedError, h, k)
          else let before = hl_io_clients h; h = account_started cid h
               in Inr (noErr, if before = 0 then first_start tick h else h, k))"

definition stop_io :: "'k ipc \<Rightarrow> bool \<times> u32 \<times> bool \<Rightarrow> u32 \<Rightarrow> u32 \<Rightarrow> NS6HAL \<Rightarrow> 'k \<Rightarrow> OSStatus \<times> NS6HAL \<times> 'k" where
  "stop_io ipc p obj cid h k =
     (if obj \<noteq> DEVICE_ID then (kAudioHardwareBadObjectError, h, k)
      else let slot = find_client_locked cid h in
        case ns6_io_client_account_stop (map_option (\<lambda>i. tc_starts (hl_tracked_clients h ! i)) slot) (Some (hl_untracked_io_starts h))
               (Some (hl_io_clients h)) of (matched, starts, untracked, clients) \<Rightarrow>
        if \<not> matched then (noErr, h, k)
        else let h = (case slot of None \<Rightarrow> h | Some i \<Rightarrow> update_client i (\<lambda>c. c\<lparr>tc_starts := the starts\<rparr>) h);
                 h = h\<lparr>hl_untracked_io_starts := the untracked, hl_io_clients := the clients\<rparr>
             in if the clients \<noteq> 0 then (noErr, h, k)
                else (case idle_stream ipc h k of (h, k) \<Rightarrow>
                      (case p of (first, later, second) \<Rightarrow> (noErr, publish_connection_state first later second h, k))))"

text \<open>\<open>outs\<close> says that the caller passed a place for every result.\<close>

definition zero_timestamp :: "bool \<Rightarrow> u64 \<Rightarrow> u32 \<Rightarrow> NS6HAL \<Rightarrow> OSStatus \<times> (flt \<times> u64 \<times> u64) option" where
  "zero_timestamp outs now obj h =
     (if obj \<noteq> DEVICE_ID \<or> \<not> outs then (kAudioHardwareIllegalOperationError, None)
      else case ns6_zero_timestamp_calculate (hl_anchor_host_time h) now (fst (hl_timebase h)) (snd (hl_timebase h)) (dlit 44100) of
           (sample, host_time) \<Rightarrow> (noErr, Some (double_of_nat (unat sample), host_time, ucast (hl_seed h))))"

subsection \<open>Properties\<close>

text \<open>
  A setter receives the selector, scope and element of the property, the size of the data and the data, read as an integer and as a string whose
  integer value counts. \<open>storage\<close> is the answer of the host's storage, if the value can be handed to it.
\<close>

datatype property_selector = BufferFrameSize | DriverBuffer | OtherProperty

datatype property_scope = ScopeGlobal | ScopeOutput | ScopeOther

definition set_buffer_frame_size :: "property_scope \<Rightarrow> u32 \<Rightarrow> u32 \<Rightarrow> (u32 \<times> int option) option \<Rightarrow> NS6HAL \<Rightarrow> OSStatus \<times> NS6HAL" where
  "set_buffer_frame_size scope element n v h =
     (case v of None \<Rightarrow> (kAudioHardwareBadPropertySizeError, h) | Some (requested, _) \<Rightarrow>
      if scope = ScopeOther \<or> element \<noteq> 0 \<or> n \<noteq> 4 then (kAudioHardwareBadPropertySizeError, h)
      else if \<not> ns6_buffer_frame_size_request_valid requested 49 1024 then (kAudioHardwareIllegalOperationError, h)
      else let h = h\<lparr>hl_buffer_frames := requested\<rparr>
           in (noErr, if hl_host h then h\<lparr>hl_changed := hl_changed h @ [BufferFrameSizeChanged]\<rparr> else h))"

definition apply_driver_buffer :: "'k ipc \<Rightarrow> u32 \<Rightarrow> NS6HAL \<Rightarrow> 'k \<Rightarrow> OSStatus \<times> NS6HAL \<times> 'k" where
  "apply_driver_buffer ipc requested h k =
     (case (if hl_service_ready h then ns6_device_client_set_startup_buffer ipc requested (hl_device_client h) k else (False, k)) of (applied, k) \<Rightarrow>
      let h = (if applied then h\<lparr>hl_driver_buffer_frames := requested, hl_buffer_restart_state := 4\<rparr> else h\<lparr>hl_buffer_restart_state := 3\<rparr>);
          h = h\<lparr>hl_buffer_restart_pending := False, hl_changed := hl_changed h @ [DriverBufferChanged, BufferRestartChanged]\<rparr>
      in (if applied then noErr else kAudioHardwareNotRunningError, h, k))"

definition set_driver_buffer :: "'k ipc \<Rightarrow> OSStatus option \<Rightarrow> property_scope \<Rightarrow> u32 \<Rightarrow> u32 \<Rightarrow> (u32 \<times> int option) option \<Rightarrow> NS6HAL \<Rightarrow> 'k \<Rightarrow>
    OSStatus \<times> NS6HAL \<times> 'k" where
  "set_driver_buffer ipc storage scope element n v h k =
     (case v of None \<Rightarrow> (kAudioHardwareBadPropertySizeError, h, k) | Some (_, text) \<Rightarrow>
      if scope \<noteq> ScopeGlobal \<or> element \<noteq> 0 \<or> n \<noteq> 8 then (kAudioHardwareBadPropertySizeError, h, k)
      else case text of None \<Rightarrow> (kAudioHardwareIllegalOperationError, h, k) | Some value \<Rightarrow>
      if value < 0 \<or> \<not> supported_buffer_size (word_of_int value) then (kAudioHardwareIllegalOperationError, h, k)
      else if hl_buffer_restart_pending h then (kAudioHardwareIllegalOperationError, h, k)
      else case storage of None \<Rightarrow> (kAudioHardwareUnspecifiedError, h, k) | Some status \<Rightarrow>
      if status \<noteq> noErr then (status, h, k)
      else apply_driver_buffer ipc (word_of_int value) (h\<lparr>hl_buffer_restart_pending := True, hl_buffer_restart_state := 1\<rparr>) k)"

definition set_property :: "'k ipc \<Rightarrow> OSStatus option \<Rightarrow> u32 \<Rightarrow> (property_selector \<times> property_scope \<times> u32) option \<Rightarrow> u32 \<Rightarrow>
    (u32 \<times> int option) option \<Rightarrow> NS6HAL \<Rightarrow> 'k \<Rightarrow> OSStatus \<times> NS6HAL \<times> 'k" where
  "set_property ipc storage obj addr n v h k =
     (case addr of None \<Rightarrow> (kAudioHardwareUnsupportedOperationError, h, k) | Some (selector, scope, element) \<Rightarrow>
      if obj \<noteq> DEVICE_ID then (kAudioHardwareUnsupportedOperationError, h, k)
      else case selector of
        BufferFrameSize \<Rightarrow> (case set_buffer_frame_size scope element n v h of (status, h) \<Rightarrow> (status, h, k))
      | DriverBuffer \<Rightarrow> set_driver_buffer ipc storage scope element n v h k
      | OtherProperty \<Rightarrow> (kAudioHardwareUnsupportedOperationError, h, k))"

subsection \<open>The I/O callbacks\<close>

datatype io_operation = WriteMix | ReadInput | OtherOperation

definition begin_io :: "u64 \<Rightarrow> u32 \<Rightarrow> u32 \<Rightarrow> io_operation \<Rightarrow> u32 \<Rightarrow> NS6HAL \<Rightarrow> NS6HAL" where
  "begin_io tick obj cid operation count h =
     (if obj = DEVICE_ID \<and> operation = WriteMix \<and> count \<noteq> 0
      then h\<lparr>hl_active_flow := ns6_active_flow_record (hl_active_flow h) count cid tick\<rparr> else h)"

definition will_do :: "bool \<Rightarrow> io_operation \<Rightarrow> OSStatus \<times> (bool \<times> bool) option" where
  "will_do outs operation =
     (if outs then (noErr, Some (operation = WriteMix \<or> operation = ReadInput, True)) else (kAudioHardwareIllegalOperationError, None))"

text \<open>The cycle a callback belongs to: its counter and, where the flag says it is valid, its sample time.\<close>

record AudioServerPlugInIOCycleInfo =
  ci_IOCycleCounter :: u64
  ci_sampleTimeValid :: bool
  ci_sampleTime :: flt

text \<open>The clocks read in a callback: the monotonic clock on the way in and out, and the host clock.\<close>

record io_clocks =
  ik_start_ns :: u64
  ik_end_ns :: u64
  ik_tick :: u64
  ik_log_tick :: u64

definition silence :: "u32 \<Rightarrow> flt list option \<Rightarrow> flt list option" where
  "silence count buffer = map_option (overwrite 0 (replicate (unat count * 2) (Fin 0))) buffer"

definition release_mapping :: "NS6HAL \<Rightarrow> NS6HAL" where
  "release_mapping h = h\<lparr>hl_callback_mapping := ns6_hal_mapping_release (hl_callback_mapping h)\<rparr>"

definition read_capture :: "u64 \<Rightarrow> u32 \<Rightarrow> flt list option \<Rightarrow> NS6SharedMemory \<Rightarrow> flt list option \<times> NS6SharedMemory" where
  "read_capture now_ns count buffer memory =
     (let ring = (if sm_capture_requested memory then Some (sm_capture memory) else ns6_capture_ring_clear (Some (sm_capture memory)))
      in case ns6_capture_ring_read ring buffer (ucast count) of (_, buffer, ring) \<Rightarrow>
         (buffer, memory\<lparr>sm_capture_requested := True, sm_capture_last_demand_ns := now_ns, sm_capture := the ring\<rparr>))"

definition do_input :: "io_clocks \<Rightarrow> io_operation \<Rightarrow> u32 \<Rightarrow> flt list option \<Rightarrow> NS6HAL \<Rightarrow> hal_failure + OSStatus \<times> flt list option \<times> NS6HAL" where
  "do_input ik operation count buffer h =
     (if operation \<noteq> ReadInput \<or> buffer = None \<and> count \<noteq> 0 then Inr (kAudioHardwareIllegalOperationError, buffer, h)
      else case ns6_hal_mapping_acquire (hl_callback_mapping h) of
        (None, m) \<Rightarrow> Inr (noErr, silence count buffer, h\<lparr>hl_callback_mapping := m\<rparr>)
      | (Some lease, m) \<Rightarrow>
        let h = h\<lparr>hl_callback_mapping := m\<rparr> in
        case hl_memory h (ml_memory lease) of None \<Rightarrow> Inl Fault
        | Some memory \<Rightarrow>
          (case ns6_device_session_io_begin (ml_session_id lease) (sm_session memory) of (inside, session) \<Rightarrow>
           let memory = memory\<lparr>sm_session := session\<rparr> in
           if \<not> inside then Inr (noErr, silence count buffer, release_mapping (h\<lparr>hl_memory := (hl_memory h)(ml_memory lease \<mapsto> memory)\<rparr>))
           else (case read_capture (ik_start_ns ik) count buffer memory of (buffer, memory) \<Rightarrow>
                 let memory = memory\<lparr>sm_session := ns6_device_session_io_end (sm_session memory)\<rparr>
                 in Inr (noErr, buffer, release_mapping (h\<lparr>hl_memory := (hl_memory h)(ml_memory lease \<mapsto> memory)\<rparr>)))))"

definition output_time :: "AudioServerPlugInIOCycleInfo option \<Rightarrow> u64 \<times> bool" where
  "output_time info =
     (case info of None \<Rightarrow> (0, False) | Some i \<Rightarrow>
      if ci_sampleTimeValid i \<and> isfinite (ci_sampleTime i) \<and> \<not> fless (ci_sampleTime i) (dlit 0) \<and> fless (ci_sampleTime i) (double_of_nat (2 ^ 64 - 1))
      then (of_nat (trunc_sat 64 (ci_sampleTime i)), True) else (0, False))"

definition note_failure :: "u64 \<Rightarrow> NS6HAL \<Rightarrow> NS6HAL" where
  "note_failure tick h =
     (let failures = hl_enqueue_failures h + 1;
          now_ms = fdiv f64 (fdiv f64 (fmul f64 (double_of_nat (unat tick)) (double_of_nat (unat (fst (hl_timebase h))))) (double_of_nat (unat (snd (hl_timebase h))))) (dlit 1000000);
          since = fsub f64 now_ms (double_of_nat (unat (hl_last_enqueue_log_ms h)))
      in h\<lparr>hl_enqueue_failures := failures,
           hl_last_enqueue_log_ms := (if failures \<noteq> 1 \<and> (since = dlit 1000 \<or> fless (dlit 1000) since) then of_nat (trunc_sat 64 now_ms) else hl_last_enqueue_log_ms h)\<rparr>)"

text \<open>The stream format is the plug-in's own: four channels of packed native floats.\<close>

definition do_output :: "io_clocks \<Rightarrow> AudioStreamBasicDescription \<Rightarrow> u32 \<Rightarrow> u32 \<Rightarrow> AudioServerPlugInIOCycleInfo option \<Rightarrow> u8 list option \<Rightarrow> NS6HAL \<Rightarrow>
    hal_failure + OSStatus \<times> NS6HAL" where
  "do_output ik stream_format cid count info buffer h =
     (case ns6_hal_mapping_acquire (hl_callback_mapping h) of
        (None, m) \<Rightarrow> Inr (noErr, h\<lparr>hl_callback_mapping := m\<rparr>)
      | (Some lease, m) \<Rightarrow>
        let h = h\<lparr>hl_callback_mapping := m\<rparr> in
        case hl_memory h (ml_memory lease) of None \<Rightarrow> Inl Fault
        | Some memory \<Rightarrow>
          (case ns6_device_session_io_begin (ml_session_id lease) (sm_session memory) of (inside, session) \<Rightarrow>
           let memory = memory\<lparr>sm_session := session\<rparr> in
           if \<not> inside then Inr (noErr, release_mapping (h\<lparr>hl_memory := (hl_memory h)(ml_memory lease \<mapsto> memory)\<rparr>))
           else let h = h\<lparr>hl_active_flow := ns6_active_flow_record (hl_active_flow h) count cid (ik_tick ik)\<rparr> in
             case output_time info of (sample_time, valid) \<Rightarrow>
             case ns6_transport_enqueue_shared (Some (sm_output memory)) buffer count (Some stream_format) of (accepted, ring) \<Rightarrow>
             let callback_ns = (if ik_start_ns ik \<le> ik_end_ns ik then ik_end_ns ik - ik_start_ns ik else 0);
                 deadline_ns = (if count \<noteq> 0 then ucast count * 1000000000 div 44100 else 0);
                 h = h\<lparr>hl_io_metrics := the (ns6_io_metrics_record_output_timed (Some (hl_io_metrics h)) cid count
                        (case info of None \<Rightarrow> 0 | Some i \<Rightarrow> ci_IOCycleCounter i) sample_time valid (ik_start_ns ik) callback_ns deadline_ns)\<rparr>;
                 h = (if accepted then h else note_failure (ik_log_tick ik) h);
                 memory = memory\<lparr>sm_output := the ring, sm_session := ns6_device_session_io_end (sm_session memory)\<rparr>
             in Inr (noErr, release_mapping (h\<lparr>hl_memory := (hl_memory h)(ml_memory lease \<mapsto> memory)\<rparr>))))"

text \<open>
  The main buffer is \<open>floats\<close> where the input stream writes it and \<open>bytes\<close> where the output stream reads it.
\<close>

definition do_io :: "io_clocks \<Rightarrow> AudioStreamBasicDescription \<Rightarrow> u32 \<Rightarrow> u32 \<Rightarrow> u32 \<Rightarrow> io_operation \<Rightarrow> u32 \<Rightarrow> AudioServerPlugInIOCycleInfo option \<Rightarrow>
    flt list option \<Rightarrow> u8 list option \<Rightarrow> NS6HAL \<Rightarrow> hal_failure + OSStatus \<times> flt list option \<times> NS6HAL" where
  "do_io ik stream_format obj stream cid operation count info floats bytes h =
     (if obj \<noteq> DEVICE_ID then Inr (kAudioHardwareBadObjectError, floats, h)
      else if stream = INPUT_STREAM_ID then do_input ik operation count floats h
      else if stream \<noteq> STREAM_ID then Inr (kAudioHardwareBadObjectError, floats, h)
      else if operation = WriteMix then map_sum id (\<lambda>(status, h). (status, floats, h)) (do_output ik stream_format cid count info bytes h)
      else Inr (noErr, floats, h))"

subsection \<open>Operations of the plug-in, one after the other\<close>

datatype hal_op =
    AddClient u32 "(u32 \<times> int \<times> string option) option"
  | RemoveClient "bool \<times> u32 \<times> bool" u32 "u32 option"
  | StartIO u64 u64 u32 u32
  | StopIO "bool \<times> u32 \<times> bool" u32 u32
  | SetProperty "OSStatus option" u32 "(property_selector \<times> property_scope \<times> u32) option" u32 "(u32 \<times> int option) option"
  | BeginIO u64 u32 u32 io_operation u32
  | DoIO io_clocks u32 u32 u32 io_operation u32 "AudioServerPlugInIOCycleInfo option" "flt list option" "u8 list option"
  | MonitorTurn connect_world
  | PresenceChanged bool u32 bool

fun hal_step :: "'k ipc \<Rightarrow> AudioStreamBasicDescription \<Rightarrow> hal_op \<Rightarrow> NS6HAL \<Rightarrow> 'k \<Rightarrow> hal_failure + NS6HAL \<times> 'k" where
  "hal_step ipc fmt (AddClient obj info) h k = Inr (add_client obj info h, k)"
| "hal_step ipc fmt (RemoveClient p obj info) h k = Inr (remove_client ipc p obj info h k)"
| "hal_step ipc fmt (StartIO now tick obj cid) h k = map_sum id snd (start_io ipc now tick obj cid h k)"
| "hal_step ipc fmt (StopIO p obj cid) h k = Inr (snd (stop_io ipc p obj cid h k))"
| "hal_step ipc fmt (SetProperty storage obj addr n v) h k = Inr (snd (set_property ipc storage obj addr n v h k))"
| "hal_step ipc fmt (BeginIO tick obj cid operation count) h k = Inr (begin_io tick obj cid operation count h, k)"
| "hal_step ipc fmt (DoIO ik obj stream cid operation count info floats bytes) h k =
     map_sum id (\<lambda>(_, _, h). (h, k)) (do_io ik fmt obj stream cid operation count info floats bytes h)"
| "hal_step ipc fmt (MonitorTurn cn) h k = device_service_monitor ipc cn h k"
| "hal_step ipc fmt (PresenceChanged first later second) h k = Inr (publish_connection_state first later second h, k)"

text \<open>The kernel maps memory at an address where nothing is mapped.\<close>

definition maps_fresh :: "'k ipc \<Rightarrow> hal_op \<Rightarrow> NS6HAL \<Rightarrow> bool" where
  "maps_fresh ipc op h = (case op of
     MonitorTurn cn \<Rightarrow> (\<forall>k. fst (hal_connect ipc cn device_client_zero h k) \<longrightarrow>
       hl_memory h (the (dc_shared_memory (fst (snd (hal_connect ipc cn device_client_zero h k))))) = None)
   | _ \<Rightarrow> True)"

inductive hal_reach :: "'k ipc \<Rightarrow> AudioStreamBasicDescription \<Rightarrow> nat \<Rightarrow> NS6HAL \<Rightarrow> 'k \<Rightarrow> bool" for ipc fmt where
  initialized: "hal_initialize ipc cn timebase stored present (hal_static metrics) k0 = Inr (h, k) \<Longrightarrow> hal_reach ipc fmt 0 h k"
| stepped: "hal_reach ipc fmt n h k \<Longrightarrow> maps_fresh ipc op h \<Longrightarrow> hal_step ipc fmt op h k = Inr (h', k') \<Longrightarrow> hal_reach ipc fmt (Suc n) h' k'"

text \<open>
  No callback is counted, what is published is the client's own memory and session, that memory is mapped, and the service is ready only when
  something is published. As the owner of the mapping the plug-in has kept its side of the contract, and what it did left the memory and the offer as they are.
\<close>

definition linked :: "NS6HALMapping \<Rightarrow> NS6DeviceClient \<Rightarrow> (u64 \<Rightarrow> NS6SharedMemory option) \<Rightarrow> bool \<Rightarrow> bool" where
  "linked m client memory ready \<longleftrightarrow>
     hm_readers m = 0 \<and>
     (\<forall>a. hm_memory m = Some a \<longrightarrow> dc_shared_memory client = Some a \<and> hm_session_id m = dc_session_id client) \<and>
     (\<forall>a. dc_shared_memory client = Some a \<longrightarrow> memory a \<noteq> None) \<and>
     (ready \<longrightarrow> hm_memory m \<noteq> None)"

definition owned :: "NS6HAL \<Rightarrow> bool" where
  "owned h \<longleftrightarrow> owner_run (hl_trace h) ({}, None) = Some (dom (hl_memory h), hm_memory (hl_callback_mapping h))"

definition hal_linked :: "NS6HAL \<Rightarrow> bool" where
  "hal_linked h \<longleftrightarrow> linked (hl_callback_mapping h) (hl_device_client h) (hl_memory h) (hl_service_ready h) \<and> owned h"

text \<open>The starts of all clients and those without one add up to the count of active starts.\<close>

definition total_starts :: "NS6TrackedClient list \<Rightarrow> nat" where
  "total_starts cs = (\<Sum>c\<leftarrow>cs. unat (tc_starts c))"

definition accounted :: "nat \<Rightarrow> NS6TrackedClient list \<times> u32 \<times> u32 \<Rightarrow> bool" where
  "accounted n = (\<lambda>(cs, untracked, clients).
     length cs = 128 \<and> slots_ok tc_used tc_client_id cs \<and> (\<forall>c \<in> set cs. tc_used c \<or> tc_starts c = 0) \<and>
     unat clients = total_starts cs + unat untracked \<and> unat clients \<le> n)"

definition accounts :: "NS6HAL \<Rightarrow> NS6TrackedClient list \<times> u32 \<times> u32" where
  "accounts h = (hl_tracked_clients h, hl_untracked_io_starts h, hl_io_clients h)"

interpretation trk: slot_table tc_used tc_client_id tracked_zero
  by unfold_locales (simp add: tracked_zero_def)

lemma connection_frame [simp]:
  "hal_linked (announce_presence b h) = hal_linked h" "accounts (announce_presence b h) = accounts h"
  "hal_linked (publish_connection_state x y z h) = hal_linked h" "accounts (publish_connection_state x y z h) = accounts h"
  "hal_linked (initialize_io_metrics h) = hal_linked h" "accounts (initialize_io_metrics h) = accounts h"
  "hal_linked (log_io_metrics h) = hal_linked h" "accounts (log_io_metrics h) = accounts h"
  "hal_linked (update_client i f h) = hal_linked h" "hal_linked (begin_io t obj cid operation count h) = hal_linked h"
  "accounts (begin_io t obj cid operation count h) = accounts h" "hal_linked (note_failure t h) = hal_linked h" "accounts (note_failure t h) = accounts h"
  "hal_linked (first_start t h) = hal_linked h" "accounts (first_start t h) = accounts h"
  by (simp_all add: hal_linked_def owned_def accounts_def announce_presence_def publish_connection_state_def initialize_io_metrics_def log_io_metrics_def
      update_client_def begin_io_def note_failure_def first_start_def Let_def)

lemma accounts_update [simp]:
  "accounts (hl_device_client_update f1 h) = accounts h" "accounts (hl_service_ready_update f2 h) = accounts h"
  "accounts (hl_callback_mapping_update f3 h) = accounts h" "accounts (hl_memory_update f4 h) = accounts h"
  "accounts (hl_service_superseded_update f5 h) = accounts h" "accounts (hl_active_flow_update f6 h) = accounts h"
  "accounts (hl_io_metrics_update f7 h) = accounts h"
  by (simp_all add: accounts_def)

lemma hal_memory_frame [simp]:
  "hl_memory (initialize_io_metrics h) = hl_memory h" "hl_memory (log_io_metrics h) = hl_memory h"
  by (simp_all add: initialize_io_metrics_def log_io_metrics_def)

lemma owner_did_fields [simp]:
  "hl_device_client (owner_did e h) = hl_device_client h" "hl_callback_mapping (owner_did e h) = hl_callback_mapping h"
  "hl_memory (owner_did e h) = hl_memory h" "hl_service_ready (owner_did e h) = hl_service_ready h" "accounts (owner_did e h) = accounts h"
  "hl_driver_buffer_frames (owner_did e h) = hl_driver_buffer_frames h" "hl_io_clients (owner_did e h) = hl_io_clients h"
  "hl_trace (owner_did e h) = hl_trace h @ [e]"
  by (simp_all add: owner_did_def accounts_def)

lemma owned_update [simp]:
  "owned (hl_device_client_update f1 h) = owned h" "owned (hl_service_ready_update f2 h) = owned h"
  "owned (hl_service_superseded_update f3 h) = owned h" "owned (hl_active_flow_update f4 h) = owned h"
  "owned (hl_io_clients_update f5 h) = owned h" "owned (hl_untracked_io_starts_update f6 h) = owned h"
  by (simp_all add: owned_def)

lemma owned_did:
  assumes "owned h" and "hl_trace h' = hl_trace h @ [e]"
    and "owner_next e (dom (hl_memory h), hm_memory (hl_callback_mapping h)) = Some (dom (hl_memory h'), hm_memory (hl_callback_mapping h'))"
  shows "owned h'"
  using assms by (simp add: owned_def owner_run_append)

lemma owned_mapped: "owned h \<Longrightarrow> owned (owner_did (Mapped a) (h\<lparr>hl_memory := (hl_memory h)(a \<mapsto> m)\<rparr>))"
  by (erule owned_did [where e = "Mapped a"]) simp_all

lemma owned_withdrawn: "owned h \<Longrightarrow> owned (owner_did Withdrew (h\<lparr>hl_callback_mapping := m\<lparr>hm_memory := None\<rparr>\<rparr>))"
  by (erule owned_did [where e = Withdrew]) simp_all

lemma owned_unmapped:
  assumes "owned h" and "\<And>a. dc_shared_memory c = Some a \<Longrightarrow> hl_memory h a \<noteq> None \<and> hm_memory (hl_callback_mapping h) \<noteq> Some a"
  shows "owned (unmap_client c h)"
proof (cases "dc_shared_memory c")
  case (Some a)
  then have "owner_next (Unmapped a) (dom (hl_memory h), hm_memory (hl_callback_mapping h)) =
      Some (dom ((hl_memory h)(a := None)), hm_memory (hl_callback_mapping h))" using assms(2) [of a] by auto
  then show ?thesis using Some by (intro owned_did [OF assms(1), where e = "Unmapped a"]) (simp_all add: unmap_client_def)
qed (use assms(1) in \<open>simp add: unmap_client_def\<close>)

subsection \<open>The plug-in never hangs or faults\<close>

lemma connect_result:
  assumes "ns6_device_client_connect ipc w sz port client k = (ok, client', k')" and "dc_shared_memory client = None"
  shows "if ok then dc_connected client' \<and> dc_shared_memory client' \<noteq> None else dc_shared_memory client' = None"
  using assms
  by (auto simp: ns6_device_client_connect_def ns6_device_client_connect_to_port_def connect_mapped_def ns6_device_client_disconnect_def
      device_client_zero_def Let_def split: option.splits prod.splits service_reply.splits if_splits)

lemma hal_connect_result:
  assumes "hal_connect ipc cn client h k = (ok, client', h', k')" and "dc_shared_memory client = None"
  shows "if ok then dc_connected client' \<and> (\<exists>a. dc_shared_memory client' = Some a \<and> h' = owner_did (Mapped a) (h\<lparr>hl_memory := (hl_memory h)(a \<mapsto> cn_memory cn)\<rparr>))
    else dc_shared_memory client' = None \<and> h' = h"
  using assms connect_result [of ipc "(cn_client cn)\<lparr>cw_header := (sm_protocol_version (cn_memory cn), sm_struct_size (cn_memory cn))\<rparr>"
      "cn_sizeof cn" "cn_port cn" client k]
  by (auto simp: hal_connect_def split: prod.splits if_splits)

lemma hal_connect_address:
  "fst (hal_connect ipc cn client h k) = fst (hal_connect ipc cn client g k)"
  "fst (snd (hal_connect ipc cn client h k)) = fst (snd (hal_connect ipc cn client g k))"
  by (simp_all add: hal_connect_def split: prod.split)

lemma hal_disconnect_result:
  "hal_disconnect ipc client h k = (device_client_zero, unmap_client client h, snd (ns6_device_client_disconnect ipc client k))"
  by (simp add: hal_disconnect_def ns6_device_client_disconnect_def)

lemma unmap_fields [simp]:
  "hl_device_client (unmap_client c h) = hl_device_client h" "hl_callback_mapping (unmap_client c h) = hl_callback_mapping h"
  "hl_service_ready (unmap_client c h) = hl_service_ready h" "accounts (unmap_client c h) = accounts h"
  "hl_memory (unmap_client c h) = (case dc_shared_memory c of None \<Rightarrow> hl_memory h | Some a \<Rightarrow> (hl_memory h)(a := None))"
  by (simp_all add: unmap_client_def split: option.split)

lemma withdraw_ok:
  "hm_readers (hl_callback_mapping h) = 0 \<Longrightarrow> withdraw_mapping h = Inr (owner_did Withdrew (h\<lparr>hl_callback_mapping := (hl_callback_mapping h)\<lparr>hm_memory := None\<rparr>\<rparr>))"
  by (simp add: withdraw_mapping_def ns6_hal_mapping_withdraw_def)

text \<open>What an operation that only follows the service achieves.\<close>

definition follows :: "NS6HAL \<Rightarrow> hal_failure + NS6HAL \<times> 'k \<Rightarrow> bool" where
  "follows h r \<longleftrightarrow> (\<exists>h' k'. r = Inr (h', k') \<and> hal_linked h' \<and> accounts h' = accounts h)"

lemma publish_ok:
  assumes "hm_readers (hl_callback_mapping h) = 0" and "\<And>a. dc_shared_memory (hl_device_client h) = Some a \<Longrightarrow> hl_memory h a \<noteq> None" and "owned h"
  shows "\<exists>h'. publish_device_mapping_locked h = Inr h' \<and> hal_linked h' \<and> accounts h' = accounts h \<and> hl_memory h' = hl_memory h \<and>
    hl_device_client h' = hl_device_client h"
proof -
  let ?w = "owner_did Withdrew (h\<lparr>hl_callback_mapping := (hl_callback_mapping h)\<lparr>hm_memory := None\<rparr>\<rparr>)"
  have w: "withdraw_mapping h = Inr ?w" "owned ?w" using assms by (simp_all add: withdraw_ok owned_withdrawn)
  have idle: "hal_linked (?w\<lparr>hl_service_ready := False\<rparr>)" using w assms by (auto simp: hal_linked_def linked_def)
  have publish: "hal_linked (owner_did (Published a (dc_session_id (hl_device_client h))) (?w\<lparr>hl_callback_mapping :=
      ns6_hal_mapping_publish a (dc_session_id (hl_device_client h)) (hl_callback_mapping ?w), hl_service_ready := True\<rparr>))" (is "hal_linked ?h")
    if a: "dc_shared_memory (hl_device_client h) = Some a" for a
  proof -
    have "owned ?h" using assms(2) [OF a]
      by (intro owned_did [OF w(2), where e = "Published a (dc_session_id (hl_device_client h))"]) (auto simp: ns6_hal_mapping_publish_def)
    then show ?thesis using assms a by (auto simp: hal_linked_def linked_def ns6_hal_mapping_publish_def)
  qed
  show ?thesis using w(1) idle publish by (auto simp: publish_device_mapping_locked_def split: option.split)
qed

lemma take_over_follows:
  assumes "hal_linked h" and "dc_connected r" and "dc_shared_memory r = Some a" and "hl_memory h a \<noteq> None"
    and "dc_shared_memory (hl_device_client h) \<noteq> Some a"
  shows "follows h (take_over ipc r h k)"
proof -
  let ?h = "h\<lparr>hl_device_client := r\<rparr>" and ?c = "hl_device_client h"
  have "hm_readers (hl_callback_mapping ?h) = 0" "owned ?h" using assms(1) by (simp_all add: hal_linked_def linked_def)
  then have "\<exists>h1. publish_device_mapping_locked ?h = Inr h1 \<and> hal_linked h1 \<and> accounts h1 = accounts ?h \<and> hl_memory h1 = hl_memory ?h \<and> hl_device_client h1 = hl_device_client ?h"
    by (intro publish_ok) (use assms(3,4) in simp_all)
  then obtain h1 where 1: "publish_device_mapping_locked ?h = Inr h1" "hal_linked h1" "accounts h1 = accounts h" "hl_memory h1 = hl_memory h" "hl_device_client h1 = r"
    by auto
  let ?h2 = "h1\<lparr>hl_service_superseded := False\<rparr>"
  have offer: "hm_memory (hl_callback_mapping h1) = Some b \<Longrightarrow> b = a" for b using 1 assms(3) by (auto simp: hal_linked_def linked_def)
  have "owned (unmap_client ?c ?h2)"
    by (rule owned_unmapped) (use 1 offer assms in \<open>auto simp: hal_linked_def linked_def\<close>)
  then have "hal_linked (unmap_client ?c ?h2)" using 1 assms(3,5) by (auto simp: hal_linked_def linked_def split: option.split)
  then show ?thesis using 1 by (simp add: follows_def take_over_def Let_def hal_disconnect_result)
qed

lemma lose_service_follows:
  assumes "hal_linked h" and "\<And>a. dc_shared_memory r = Some a \<Longrightarrow> dc_shared_memory (hl_device_client h) \<noteq> Some a \<and> hl_memory h a \<noteq> None"
  shows "follows h (lose_service ipc r h k)"
proof -
  let ?h1 = "unmap_client r h" and ?c = "hl_device_client h"
  let ?h2 = "owner_did Withdrew (?h1\<lparr>hl_callback_mapping := (hl_callback_mapping ?h1)\<lparr>hm_memory := None\<rparr>\<rparr>)"
  have 1: "withdraw_mapping ?h1 = Inr ?h2" using assms(1) by (simp add: withdraw_ok hal_linked_def linked_def)
  have "owned ?h1" by (rule owned_unmapped) (use assms in \<open>auto simp: hal_linked_def linked_def\<close>)
  then have owned: "owned ?h2" by (rule owned_withdrawn)
  have mapped: "dc_shared_memory ?c = Some a \<Longrightarrow> hl_memory ?h1 a \<noteq> None" for a using assms by (auto simp: hal_linked_def linked_def split: option.split)
  have "owned (unmap_client ?c ?h2)" by (rule owned_unmapped [OF owned]) (use mapped in simp)
  then have "hal_linked ((unmap_client ?c ?h2)\<lparr>hl_device_client := device_client_zero, hl_service_ready := False\<rparr>)"
    using assms(1) by (simp add: hal_linked_def linked_def device_client_zero_def)
  moreover have "hal_linked (?h2\<lparr>hl_service_ready := False\<rparr>)" using owned mapped assms(1) by (simp add: hal_linked_def linked_def)
  ultimately show ?thesis
    using 1 by (simp add: follows_def lose_service_def hal_disconnect_result hal_linked_def)
qed

lemma reconnect_follows:
  assumes "hal_linked h" and "maps_fresh ipc (MonitorTurn cn) h"
  shows "follows h (monitor_reconnect ipc cn h k)"
proof -
  obtain ok r h1 k1 where 1: "hal_connect ipc cn device_client_zero h k = (ok, r, h1, k1)" by (metis prod_cases4)
  have "dc_shared_memory device_client_zero = None" by (simp add: device_client_zero_def)
  note res = hal_connect_result [OF 1 this]
  have fresh: "ok \<Longrightarrow> hl_memory h (the (dc_shared_memory r)) = None" using assms(2) 1 by (simp add: maps_fresh_def) (metis fst_conv snd_conv)
  have old: "dc_shared_memory (hl_device_client h) \<noteq> Some a" if "dc_shared_memory r = Some a" for a
    using that res fresh assms(1) by (auto simp: hal_linked_def linked_def split: if_splits)
  have h1: "hal_linked h1" "accounts h1 = accounts h" "hl_device_client h1 = hl_device_client h"
    using res assms(1) owned_mapped [of h] by (auto simp: hal_linked_def linked_def split: if_splits)
  have new: "hl_memory h1 a \<noteq> None" if "dc_shared_memory r = Some a" for a using that res by (auto split: if_splits)
  have lose: "follows h (lose_service ipc r h1 k')" for k' using lose_service_follows [of h1 r ipc k'] old new h1 by (simp add: follows_def)
  have take: "follows h (take_over ipc r h1 k')" if ok for k'
    using that res old new h1 take_over_follows [of h1 r _ ipc k'] by (auto simp: follows_def)
  show ?thesis using 1 lose take by (auto simp: monitor_reconnect_def split: prod.split if_splits)
qed

lemma monitor_follows:
  assumes "hal_linked h" and "maps_fresh ipc (MonitorTurn cn) h"
  shows "follows h (device_service_monitor ipc cn h k)"
proof -
  let ?h = "log_io_metrics (initialize_io_metrics h)"
  have h: "hal_linked ?h" "accounts ?h = accounts h" using assms by simp_all
  have fresh: "maps_fresh ipc (MonitorTurn cn) ?h"
    using assms(2) hal_connect_address [of ipc cn device_client_zero ?h _ h] by (simp add: maps_fresh_def)
  obtain state snap k1 where 1: "(if dc_connected (hl_device_client ?h) then ns6_device_client_get_state_result ipc (hl_device_client ?h) (Some snapshot_zero) k
      else (NS6_DEVICE_CLIENT_STATE_UNAVAILABLE, Some snapshot_zero, k)) = (state, snap, k1)" by (metis prod_cases3)
  show ?thesis
  proof (cases state)
    case NS6_DEVICE_CLIENT_STATE_UNAVAILABLE
    then show ?thesis using 1 reconnect_follows [OF h(1) fresh] h(2) by (simp add: device_service_monitor_def Let_def follows_def)
  next
    case NS6_DEVICE_CLIENT_STATE_REPLACED
    then show ?thesis
      using 1 h owned_withdrawn [of ?h "hl_callback_mapping ?h"]
      by (simp add: device_service_monitor_def Let_def follows_def withdraw_ok hal_linked_def linked_def)
  next
    case NS6_DEVICE_CLIENT_STATE_READY
    let ?g = "?h\<lparr>hl_service_superseded := False\<rparr>"
    obtain h1 where "publish_device_mapping_locked ?g = Inr h1" "hal_linked h1" "accounts h1 = accounts ?g"
      using publish_ok [of ?g] h(1) by (auto simp: hal_linked_def linked_def)
    moreover have "hal_linked ?g" "accounts ?g = accounts h" using h by (simp_all add: hal_linked_def accounts_def)
    ultimately show ?thesis
      using 1 NS6_DEVICE_CLIENT_STATE_READY by (auto simp: device_service_monitor_def Let_def follows_def split: prod.split)
  qed
qed

lemma connect_at_start_follows:
  fixes ipc :: "'k ipc"
  assumes "hal_linked h" and "dc_shared_memory (hl_device_client h) = None"
  shows "follows h (connect_at_start ipc cn h k)"
proof -
  obtain ok client h1 k1 where 1: "hal_connect ipc cn (hl_device_client h) h k = (ok, client, h1, k1)" by (metis prod_cases4)
  note res = hal_connect_result [OF 1 assms(2)]
  have same: "hm_readers (hl_callback_mapping h1) = 0" "accounts h1 = accounts h" "hm_memory (hl_callback_mapping h1) = None" "\<not> hl_service_ready h1" "owned h1"
    using res assms owned_mapped [of h] by (auto simp: hal_linked_def linked_def split: if_splits)
  have new: "hl_memory h1 a \<noteq> None" if "dc_shared_memory client = Some a" for a using that res by (auto split: if_splits)
  have publish: "follows h (map_sum id (\<lambda>h. (h, k')) (publish_device_mapping_locked (h1\<lparr>hl_device_client := client\<rparr>)))" if ok for k' :: 'k
    using publish_ok [of "h1\<lparr>hl_device_client := client\<rparr>"] new same by (auto simp: follows_def)
  have fail: "follows h (case hal_disconnect ipc client h1 k' of (client, h, k) \<Rightarrow> Inr (h\<lparr>hl_device_client := client\<rparr>, k))" for k'
    using same owned_unmapped [of h1 client] new by (simp add: hal_disconnect_result follows_def hal_linked_def linked_def device_client_zero_def)
  obtain ok' k2 where 2: "(if ok then ns6_device_client_set_startup_buffer ipc (hl_driver_buffer_frames h1) client k1 else (False, k1)) = (ok', k2)" by fastforce
  show ?thesis
  proof (cases ok')
    case True
    with 2 have ok by (auto split: if_splits)
    then show ?thesis using 1 2 True publish by (simp add: connect_at_start_def)
  next
    case False
    then show ?thesis using 1 2 fail by (simp add: connect_at_start_def)
  qed
qed

lemma follows_same: "follows g r \<Longrightarrow> accounts g = accounts h \<Longrightarrow> follows h r"
  by (simp add: follows_def)

lemma initialize_follows: "follows (hal_static metrics) (hal_initialize ipc cn timebase stored present (hal_static metrics) k)"
  unfolding hal_initialize_def
  by (rule follows_same [OF connect_at_start_follows])
    (simp_all add: hal_static_def hal_linked_def linked_def owned_def ns6_hal_mapping_init_def device_client_zero_def accounts_def)

text \<open>
  A callback leaves mapping, gate and connection as they were, and changes memory only where the session it holds a lease of is current.
\<close>

definition lease_current :: "NS6HAL \<Rightarrow> u64 \<Rightarrow> NS6SharedMemory \<Rightarrow> bool" where
  "lease_current h a memory \<longleftrightarrow> hm_memory (hl_callback_mapping h) = Some a \<and>
     ns6_device_session_is_current (Some (sm_session memory)) (hm_session_id (hl_callback_mapping h))"

definition guarded :: "NS6HAL \<Rightarrow> NS6HAL \<Rightarrow> bool" where
  "guarded h h' \<longleftrightarrow> accounts h' = accounts h \<and> hl_callback_mapping h' = hl_callback_mapping h \<and> hl_device_client h' = hl_device_client h \<and>
     hl_service_ready h' = hl_service_ready h \<and> hl_trace h' = hl_trace h \<and> (\<forall>a. map_option sm_session (hl_memory h' a) = map_option sm_session (hl_memory h a)) \<and>
     (\<forall>a memory. hl_memory h a = Some memory \<and> \<not> lease_current h a memory \<longrightarrow> hl_memory h' a = Some memory)"

lemma guarded_linked:
  assumes "guarded h h'" and "hal_linked h"
  shows "hal_linked h'"
proof -
  have "hl_memory h' a = None \<longleftrightarrow> hl_memory h a = None" for a
    using assms(1) unfolding guarded_def by (metis option.map_disc_iff)
  then have "dom (hl_memory h') = dom (hl_memory h)" "\<And>a. hl_memory h' a = None \<longleftrightarrow> hl_memory h a = None"
    by (simp_all add: dom_def del: not_None_eq)
  then show ?thesis using assms unfolding guarded_def hal_linked_def linked_def owned_def by simp
qed

lemma guarded_refl: "guarded h h"
  by (simp add: guarded_def)

lemma acquire_cases:
  "ns6_hal_mapping_acquire m =
     (case hm_memory m of None \<Rightarrow> (None, m) | Some a \<Rightarrow> (Some \<lparr>ml_memory = a, ml_session_id = hm_session_id m\<rparr>, m\<lparr>hm_readers := hm_readers m + 1\<rparr>))"
  by (simp add: ns6_hal_mapping_acquire_def Let_def split: option.split)

lemma io_begin_cases:
  "ns6_device_session_io_begin sid s =
     (if ns6_device_session_is_current (Some s) sid then (True, s\<lparr>sg_callbacks_in_flight := sg_callbacks_in_flight s + 1\<rparr>) else (False, s))"
  by (simp add: ns6_device_session_io_begin_def ns6_device_session_is_current_def Let_def)

lemma io_end_begin [simp]: "ns6_device_session_io_end (s\<lparr>sg_callbacks_in_flight := sg_callbacks_in_flight s + 1\<rparr>) = s"
  by (simp add: ns6_device_session_io_end_def)

lemma release_acquire [simp]:
  "ns6_hal_mapping_release (m\<lparr>hm_readers := hm_readers m + 1\<rparr>) = m"
  by (simp add: ns6_hal_mapping_release_def)

lemma read_capture_session [simp]: "sm_session (snd (read_capture now count buffer memory)) = sm_session memory"
  by (simp add: read_capture_def Let_def split: prod.split)

lemma do_input_guarded:
  assumes "hal_linked h"
  shows "\<exists>st out h'. do_input ik operation count buffer h = Inr (st, out, h') \<and> guarded h h'"
proof (cases "hm_memory (hl_callback_mapping h)")
  case None
  then show ?thesis using guarded_refl [of h] by (auto simp: do_input_def acquire_cases)
next
  case (Some a)
  then obtain memory where m: "hl_memory h a = Some memory" using assms by (fastforce simp: hal_linked_def linked_def)
  show ?thesis
  proof (cases "ns6_device_session_is_current (Some (sm_session memory)) (hm_session_id (hl_callback_mapping h))")
    case True
    then show ?thesis
      using Some m by (auto simp: do_input_def acquire_cases io_begin_cases release_mapping_def Let_def guarded_def lease_current_def
          guarded_refl case_prod_unfold)
  next
    case False
    then show ?thesis
      using Some m by (auto simp: do_input_def acquire_cases io_begin_cases release_mapping_def Let_def guarded_def lease_current_def)
  qed
qed

lemma enqueue_shared_result: "\<exists>ok ring. ns6_transport_enqueue_shared (Some sh) buffer count fmt = (ok, Some ring)"
proof -
  have "snd (ns6_transport_enqueue_shared (Some sh) buffer count fmt) \<noteq> None"
    by (simp add: ns6_transport_enqueue_shared_def ns6_transport_enqueue_at_shared_def Let_def)
  then show ?thesis by (metis option.collapse prod.collapse)
qed

lemma note_failure_fields [simp]:
  "hl_memory (note_failure t h) = hl_memory h" "hl_callback_mapping (note_failure t h) = hl_callback_mapping h"
  "hl_device_client (note_failure t h) = hl_device_client h" "hl_service_ready (note_failure t h) = hl_service_ready h"
  "hl_trace (note_failure t h) = hl_trace h"
  by (simp_all add: note_failure_def Let_def)

lemma do_output_current:
  assumes "hm_memory (hl_callback_mapping h) = Some a" and "hl_memory h a = Some memory" and "lease_current h a memory"
    and "ns6_transport_enqueue_shared (Some (sm_output memory)) buffer count (Some fmt) = (ok, Some ring)"
  shows "\<exists>h'. do_output ik fmt cid count info buffer h = Inr (noErr, h') \<and> hl_memory h' = (hl_memory h)(a \<mapsto> memory\<lparr>sm_output := ring\<rparr>) \<and>
    hl_callback_mapping h' = hl_callback_mapping h \<and> accounts h' = accounts h \<and> hl_device_client h' = hl_device_client h \<and>
    hl_service_ready h' = hl_service_ready h \<and> hl_trace h' = hl_trace h"
  using assms by (simp add: do_output_def acquire_cases io_begin_cases release_mapping_def Let_def lease_current_def case_prod_unfold)

lemma do_output_guarded:
  assumes "hal_linked h"
  shows "\<exists>st h'. do_output ik fmt cid count info buffer h = Inr (st, h') \<and> guarded h h' \<and>
    (\<forall>a memory. hl_memory h a = Some memory \<and> lease_current h a memory \<longrightarrow>
       map_option sm_output (hl_memory h' a) = snd (ns6_transport_enqueue_shared (Some (sm_output memory)) buffer count (Some fmt)))"
proof (cases "hm_memory (hl_callback_mapping h)")
  case None
  then show ?thesis using guarded_refl [of h] by (auto simp: do_output_def acquire_cases lease_current_def)
next
  case (Some a)
  then obtain memory where m: "hl_memory h a = Some memory" using assms by (fastforce simp: hal_linked_def linked_def)
  show ?thesis
  proof (cases "ns6_device_session_is_current (Some (sm_session memory)) (hm_session_id (hl_callback_mapping h))")
    case True
    then have current: "lease_current h a memory" using Some by (simp add: lease_current_def)
    obtain ok ring where e: "ns6_transport_enqueue_shared (Some (sm_output memory)) buffer count (Some fmt) = (ok, Some ring)"
      using enqueue_shared_result by blast
    from do_output_current [OF Some m current e, of ik cid info] show ?thesis
      using Some m e current by (auto simp: guarded_def lease_current_def)
  next
    case False
    then show ?thesis
      using Some m by (auto simp: do_output_def acquire_cases io_begin_cases release_mapping_def Let_def guarded_def lease_current_def)
  qed
qed

lemma do_io_guarded:
  assumes "hal_linked h"
  shows "\<exists>st out h'. do_io ik fmt obj stream cid operation count info floats bytes h = Inr (st, out, h') \<and> guarded h h'"
  using do_input_guarded [OF assms] do_output_guarded [OF assms, of ik fmt cid count info bytes] guarded_refl [of h] by (auto simp: do_io_def)

lemma hal_activate_result:
  assumes "hal_linked h"
  shows "\<exists>ok k'. hal_activate ipc now h k = Inr (ok, k')"
  using assms by (auto simp: hal_activate_def reprime_def hal_linked_def linked_def Let_def split: option.split prod.split)

lemma start_io_result:
  assumes "hal_linked h"
  shows "\<exists>st h' k'. start_io ipc now tick obj cid h k = Inr (st, h', k') \<and> hal_linked h' \<and>
    (accounts h' = accounts h \<or> accounts h' = accounts (account_started cid (initialize_io_metrics h)))"
proof -
  obtain ok k' where a: "hal_activate ipc now (initialize_io_metrics h) k = Inr (ok, k')" using hal_activate_result [of "initialize_io_metrics h" ipc now k] assms by auto
  have "hal_linked (account_started cid g) = hal_linked g" for g
    by (simp add: account_started_def hal_linked_def update_client_def owned_def split: option.split prod.split)
  then show ?thesis using a assms by (simp add: start_io_def Let_def)
qed

lemma idle_stream_frame [simp]: "hal_linked (fst (idle_stream ipc h k)) = hal_linked h" "accounts (fst (idle_stream ipc h k)) = accounts h"
  by (simp_all add: idle_stream_def hal_linked_def)

lemma clients_linked:
  "hal_linked (add_client obj info h) = hal_linked h" "hal_linked (fst (remove_client ipc p obj rm h k)) = hal_linked h"
  "hal_linked (fst (snd (stop_io ipc p obj cid h k))) = hal_linked h"
proof -
  have frame: "hal_linked (hl_io_clients_update f1 g) = hal_linked g" "hal_linked (hl_untracked_io_starts_update f2 g) = hal_linked g" for g f1 f2
    by (simp_all add: hal_linked_def)
  show "hal_linked (add_client obj info h) = hal_linked h" by (simp add: add_client_def Let_def split: option.split prod.split)
  show "hal_linked (fst (remove_client ipc p obj rm h k)) = hal_linked h"
    by (simp add: remove_client_def Let_def case_prod_unfold frame split: option.split)
  show "hal_linked (fst (snd (stop_io ipc p obj cid h k))) = hal_linked h"
    by (simp add: stop_io_def Let_def case_prod_unfold frame split: option.split)
qed

lemma set_property_frame:
  "hal_linked (fst (snd (set_property ipc storage obj addr n v h k))) = hal_linked h"
  "accounts (fst (snd (set_property ipc storage obj addr n v h k))) = accounts h"
  by (simp_all add: set_property_def set_buffer_frame_size_def set_driver_buffer_def apply_driver_buffer_def Let_def case_prod_unfold hal_linked_def
      owned_def accounts_def split: option.split property_selector.split)

subsection \<open>The starts are accounted for\<close>

lemma total_update: "i < length cs \<Longrightarrow> total_starts (cs[i := c]) + unat (tc_starts (cs ! i)) = total_starts cs + unat (tc_starts c)"
  by (simp add: total_starts_def map_update sum_list_update)
    (metis (no_types, lifting) add.commute add_diff_cancel_right' elem_le_sum_list le_add_diff_inverse2 length_map nth_map trans_le_add1)

lemma total_member: "i < length cs \<Longrightarrow> unat (tc_starts (cs ! i)) \<le> total_starts cs"
  unfolding total_starts_def by (metis elem_le_sum_list length_map nth_map)

lemma accounted_update:
  assumes "accounted n (cs, u, io)" and "i < 128" and "slots_ok tc_used tc_client_id (cs[i := c])" and "tc_used c \<or> tc_starts c = 0"
    and "unat io' + unat (tc_starts (cs ! i)) + unat u = unat io + unat (tc_starts c) + unat u'" and "unat io' \<le> m"
  shows "accounted m (cs[i := c], u', io')"
proof -
  have cs: "length cs = 128" "\<forall>c \<in> set cs. tc_used c \<or> tc_starts c = 0" "unat io = total_starts cs + unat u"
    using assms(1) by (simp_all add: accounted_def)
  have "\<forall>d \<in> set (cs[i := c]). tc_used d \<or> tc_starts d = 0" using cs(2) assms(4) set_update_subset_insert [of cs i c] by auto
  moreover have "unat io' = total_starts (cs[i := c]) + unat u'" using total_update [of i cs c] assms(2,5) cs by simp
  ultimately show ?thesis using cs assms(3,6) by (simp add: accounted_def)
qed

lemma found:
  assumes "find_client_locked cid h = Some i" and "accounted n (accounts h)"
  shows "i < 128" "tc_used (hl_tracked_clients h ! i)" "tc_client_id (hl_tracked_clients h ! i) = cid"
    "find_slot (\<lambda>c. tc_used c \<and> tc_client_id c = cid) (hl_tracked_clients h) = Some i" "slots_ok tc_used tc_client_id (hl_tracked_clients h)"
  using find_slot_Some [OF assms(1) [unfolded find_client_locked_def]] assms by (auto simp: accounted_def accounts_def find_client_locked_def)

lemma accounts_parts: "accounts (update_client i f h) = ((hl_tracked_clients h)[i := f (hl_tracked_clients h ! i)], hl_untracked_io_starts h, hl_io_clients h)"
  by (simp add: accounts_def update_client_def)

lemma accounts_set [simp]:
  "accounts (h\<lparr>hl_untracked_io_starts := u, hl_io_clients := c\<rparr>) = (hl_tracked_clients h, u, c)"
  "accounts (h\<lparr>hl_io_clients := c\<rparr>) = (hl_tracked_clients h, hl_untracked_io_starts h, c)"
  "hl_tracked_clients (update_client i f h) = (hl_tracked_clients h)[i := f (hl_tracked_clients h ! i)]"
  "hl_untracked_io_starts (update_client i f h) = hl_untracked_io_starts h"
  by (simp_all add: accounts_def update_client_def)

lemma add_client_accounted:
  assumes "accounted n (accounts h)"
  shows "accounted n (accounts (add_client obj info h))"
proof (cases "info = None \<or> obj \<noteq> DEVICE_ID")
  case True
  then show ?thesis using assms by (auto simp: add_client_def split: option.split)
next
  case False
  then obtain cid pid bid where info: "info = Some (cid, pid, bid)" "obj = DEVICE_ID" by (cases info) auto
  let ?name = "\<lambda>c :: NS6TrackedClient. c\<lparr>tc_used := True, tc_client_id := cid, tc_pid := pid,
    tc_bundle_id := take 255 (case bid of None \<Rightarrow> ''unknown'' | Some b \<Rightarrow> b)\<rparr>"
  have acc: "accounted n (hl_tracked_clients h, hl_untracked_io_starts h, hl_io_clients h)" using assms by (simp add: accounts_def)
  then have cs: "slots_ok tc_used tc_client_id (hl_tracked_clients h)" "length (hl_tracked_clients h) = 128" "unat (hl_io_clients h) \<le> n"
    "\<forall>c \<in> set (hl_tracked_clients h). tc_used c \<or> tc_starts c = 0" by (simp_all add: accounted_def)
  show ?thesis
  proof (cases "find_client_locked cid h")
    case (Some i)
    note i = found [OF Some assms]
    have "accounted n ((hl_tracked_clients h)[i := ?name (hl_tracked_clients h ! i)], hl_untracked_io_starts h, hl_io_clients h)"
      by (rule accounted_update [OF acc i(1) trk.update(1) [OF i(5,4)]]) (use i cs in simp_all)
    then show ?thesis using Some info by (simp add: add_client_def accounts_parts)
  next
    case None
    show ?thesis
    proof (cases "find_slot (\<lambda>c. \<not> tc_used c) (hl_tracked_clients h)")
      case (Some i)
      note i = find_slot_Some [OF Some]
      have "slot_lookup tc_used tc_client_id (hl_tracked_clients h) cid = None" using None by (simp add: slot_lookup_def find_client_locked_def)
      note ok = trk.add(1) [OF cs(1) this Some, of "?name tracked_zero"]
      have "accounted n ((hl_tracked_clients h)[i := ?name tracked_zero], hl_untracked_io_starts h, hl_io_clients h)"
        by (rule accounted_update [OF acc _ ok]) (use i cs in \<open>auto simp: tracked_zero_def\<close>)
      then show ?thesis using None Some info by (simp add: add_client_def accounts_parts)
    qed (use None info assms in \<open>simp add: add_client_def\<close>)
  qed
qed

lemma account_started_accounted:
  assumes "accounted n (accounts h)" and "n < 2 ^ 32 - 1"
  shows "accounted (Suc n) (accounts (account_started cid h))"
proof -
  have acc: "accounted n (hl_tracked_clients h, hl_untracked_io_starts h, hl_io_clients h)" using assms by (simp add: accounts_def)
  then have n: "unat (hl_io_clients h) \<le> n" "unat (hl_io_clients h) = total_starts (hl_tracked_clients h) + unat (hl_untracked_io_starts h)"
    "length (hl_tracked_clients h) = 128" by (simp_all add: accounted_def)
  have inc: "unat (w + 1) = Suc (unat w)" if "unat w \<le> n" for w :: u32 using that assms(2) by (simp add: unat_word_ariths)
  show ?thesis
  proof (cases "find_client_locked cid h")
    case None
    have "accounted (Suc n) (hl_tracked_clients h, hl_untracked_io_starts h + 1, hl_io_clients h + 1)"
      using acc n inc [of "hl_io_clients h"] inc [of "hl_untracked_io_starts h"] by (simp add: accounted_def)
    then show ?thesis using None by (simp add: account_started_def ns6_io_client_account_untracked_start_def accounts_def)
  next
    case (Some i)
    note i = found [OF Some assms(1)]
    have "unat (tc_starts (hl_tracked_clients h ! i)) \<le> n" using total_member [of i "hl_tracked_clients h"] i(1) n by simp
    then have "accounted (Suc n) ((hl_tracked_clients h)[i := (hl_tracked_clients h ! i)\<lparr>tc_starts := tc_starts (hl_tracked_clients h ! i) + 1,
        tc_order := hl_client_order h + 1\<rparr>], hl_untracked_io_starts h, hl_io_clients h + 1)"
      by (intro accounted_update [OF acc i(1) trk.update(1) [OF i(5,4)]]) (use i n inc in simp_all)
    then show ?thesis using Some by (simp add: account_started_def ns6_io_client_account_start_def accounts_def update_client_def)
  qed
qed

lemma remove_client_accounted:
  assumes "accounted n (accounts h)"
  shows "accounted n (accounts (fst (remove_client ipc p obj info h k)))"
proof (cases "info = None \<or> obj \<noteq> DEVICE_ID \<or> find_client_locked (the info) h = None")
  case True
  then show ?thesis using assms by (auto simp: remove_client_def split: option.split)
next
  case False
  then obtain cid i where info: "info = Some cid" "obj = DEVICE_ID" and Some: "find_client_locked cid h = Some i" by auto
  note i = found [OF Some assms]
  let ?c = "hl_tracked_clients h ! i" and ?io = "hl_io_clients h"
  have acc: "accounted n (hl_tracked_clients h, hl_untracked_io_starts h, ?io)" using assms by (simp add: accounts_def)
  have le: "tc_starts ?c \<le> ?io"
    using total_member [of i "hl_tracked_clients h"] i(1) acc by (simp add: accounted_def word_le_nat_alt)
  then have "unat (?io - tc_starts ?c) = unat ?io - unat (tc_starts ?c)" by (rule unat_sub)
  moreover have "unat (tc_starts ?c) \<le> unat ?io" using le by (simp add: word_le_nat_alt)
  moreover have "\<not> tc_used tracked_zero" "tc_starts tracked_zero = 0" by (simp_all add: tracked_zero_def)
  ultimately have "accounted n ((hl_tracked_clients h)[i := tracked_zero], hl_untracked_io_starts h, ?io - tc_starts ?c)"
    using acc by (intro accounted_update [OF acc i(1) trk.clear(1) [OF i(5,4)]]) (auto simp: accounted_def)
  moreover obtain io where io: "io = ?io - tc_starts ?c" by simp
  ultimately have "accounted n ((hl_tracked_clients h)[i := tracked_zero], hl_untracked_io_starts h, io)" by simp
  moreover have "ns6_io_client_account_remove (Some (tc_starts ?c)) (Some ?io) = (tc_starts ?c, Some 0, Some io)"
    using le io by (simp add: ns6_io_client_account_remove_def)
  moreover have "tc_starts ?c = 0 \<Longrightarrow> io = ?io" using io by simp
  ultimately show ?thesis
    using info Some by (auto simp: remove_client_def Let_def case_prod_unfold accounts_parts)
qed

lemma dec_nonzero: "w \<noteq> 0 \<Longrightarrow> Suc (unat (w - 1)) = unat (w :: u32)"
  using unat_minus_one [of w] by (cases "unat w") (auto simp: unat_eq_0)

lemma account_stop_result:
  "\<exists>ok u' io'. ns6_io_client_account_stop None (Some u) (Some io) = (ok, None, Some u', Some io')"
  "\<exists>ok st' u' io'. ns6_io_client_account_stop (Some st) (Some u) (Some io) = (ok, Some st', Some u', Some io')"
  by (auto simp: ns6_io_client_account_stop_def)

lemma stop_io_accounted:
  assumes "accounted n (accounts h)"
  shows "accounted n (accounts (fst (snd (stop_io ipc p obj cid h k))))"
proof -
  let ?cs = "hl_tracked_clients h" and ?u = "hl_untracked_io_starts h" and ?io = "hl_io_clients h"
  have acc: "accounted n (?cs, ?u, ?io)" using assms by (simp add: accounts_def)
  then have n: "unat ?io \<le> n" by (simp add: accounted_def)
  have untracked: "accounted n (?cs, ?u - 1, ?io - 1)" if "?u \<noteq> 0" "?io \<noteq> 0"
    using acc dec_nonzero [OF that(1)] dec_nonzero [OF that(2)] by (auto simp: accounted_def)
  show ?thesis
  proof (cases "find_client_locked cid h")
    case None
    obtain ok u io where r: "ns6_io_client_account_stop None (Some ?u) (Some ?io) = (ok, None, Some u, Some io)"
      using account_stop_result(1) by blast
    then have "ok \<Longrightarrow> accounted n (?cs, u, io)" using untracked by (auto simp: ns6_io_client_account_stop_def split: if_splits)
    then show ?thesis using None assms r by (auto simp: stop_io_def Let_def case_prod_unfold)
  next
    case (Some i)
    note i = found [OF Some assms]
    let ?c = "?cs ! i"
    have tracked: "accounted n (?cs[i := ?c\<lparr>tc_starts := tc_starts ?c - 1\<rparr>], ?u, ?io - 1)" if "tc_starts ?c \<noteq> 0" "?io \<noteq> 0"
      by (rule accounted_update [OF acc i(1) trk.update(1) [OF i(5,4)]]) (use i n dec_nonzero [OF that(1)] dec_nonzero [OF that(2)] in auto)
    have "?c\<lparr>tc_starts := 0\<rparr> = ?c" if "tc_starts ?c = 0" by (rule NS6TrackedClient.equality) (simp_all add: that)
    then have same: "tc_starts ?c = 0 \<Longrightarrow> ?cs[i := ?c\<lparr>tc_starts := 0\<rparr>] = ?cs" by (metis list_update_id)
    obtain ok st u io where r: "ns6_io_client_account_stop (Some (tc_starts ?c)) (Some ?u) (Some ?io) = (ok, Some st, Some u, Some io)"
      using account_stop_result(2) by blast
    then have "ok \<Longrightarrow> accounted n (?cs[i := ?c\<lparr>tc_starts := st\<rparr>], u, io)"
      using untracked tracked same by (auto simp: ns6_io_client_account_stop_def split: if_splits)
    then show ?thesis using Some assms r by (auto simp: stop_io_def Let_def case_prod_unfold)
  qed
qed

lemma accounted_mono: "accounted n a \<Longrightarrow> n \<le> m \<Longrightarrow> accounted m a"
  by (auto simp: accounted_def)

text \<open>Every operation returns and keeps the links; up to the width of the counters it keeps the accounts.\<close>

lemma hal_step_result:
  assumes "hal_linked h" and "maps_fresh ipc op h"
  shows "\<exists>h' k'. hal_step ipc fmt op h k = Inr (h', k') \<and> hal_linked h' \<and>
    (n < 2 ^ 32 - 1 \<longrightarrow> accounted n (accounts h) \<longrightarrow> accounted (Suc n) (accounts h'))"
proof (cases op)
  case (AddClient obj info)
  then show ?thesis using assms(1) add_client_accounted [of n h obj info] accounted_mono [of n _ "Suc n"] by (simp add: clients_linked)
next
  case (RemoveClient p obj info)
  obtain h' k' where r: "remove_client ipc p obj info h k = (h', k')" by fastforce
  then show ?thesis
    using RemoveClient assms(1) remove_client_accounted [of n h ipc p obj info k] clients_linked(2) [of ipc p obj info h k]
      accounted_mono [of n _ "Suc n"] by simp
next
  case (StartIO now tick obj cid)
  then show ?thesis
    using start_io_result [OF assms(1), of ipc now tick obj cid k] account_started_accounted [of n "initialize_io_metrics h" cid]
      accounted_mono [of n "accounts h" "Suc n"] by auto
next
  case (StopIO p obj cid)
  obtain h' k' where r: "snd (stop_io ipc p obj cid h k) = (h', k')" by fastforce
  then show ?thesis
    using StopIO assms(1) stop_io_accounted [of n h ipc p obj cid k] clients_linked(3) [of ipc p obj cid h k]
      accounted_mono [of n _ "Suc n"] by simp
next
  case (SetProperty storage obj addr m v)
  obtain h' k' where r: "snd (set_property ipc storage obj addr m v h k) = (h', k')" by fastforce
  then show ?thesis using SetProperty assms(1) set_property_frame [of ipc storage obj addr m v h k] accounted_mono [of n _ "Suc n"] by simp
next
  case (BeginIO tick obj cid operation count)
  then show ?thesis using assms(1) accounted_mono [of n _ "Suc n"] by simp
next
  case (DoIO ik obj stream cid operation count info floats bytes)
  obtain st out h' where "do_io ik fmt obj stream cid operation count info floats bytes h = Inr (st, out, h')" "guarded h h'"
    using do_io_guarded [OF assms(1)] by blast
  moreover from this have "hal_linked h'" "accounts h' = accounts h" using guarded_linked assms(1) by (blast, simp add: guarded_def)
  ultimately show ?thesis using DoIO accounted_mono [of n _ "Suc n"] by simp
next
  case (MonitorTurn cn)
  then show ?thesis using monitor_follows [OF assms(1), of ipc cn k] assms(2) accounted_mono [of n "accounts h" "Suc n"] by (auto simp: follows_def)
next
  case (PresenceChanged x y z)
  then show ?thesis using assms(1) accounted_mono [of n _ "Suc n"] by simp
qed

lemma hal_reach_inv:
  assumes "hal_reach ipc fmt n h k"
  shows "hal_linked h \<and> (n < 2 ^ 32 \<longrightarrow> accounted n (accounts h))"
  using assms
proof induction
  case (initialized cn timebase stored present metrics k0 h k)
  have "accounted 0 (accounts (hal_static metrics))"
    by (simp add: accounted_def accounts_def hal_static_def slots_ok_def tracked_zero_def total_starts_def)
  then show ?case using initialize_follows [of metrics ipc cn timebase stored present k0] initialized by (simp add: follows_def)
next
  case (stepped n h k op h' k')
  then show ?case using hal_step_result [of h ipc op fmt k n] by auto
qed

text \<open>
  (C14) Whatever the host and the service do, no operation of the plug-in waits for ever on a callback or reads through a pointer to memory
  that is no longer mapped; the active starts are exactly those of the tracked clients and the untracked ones together, and the plug-in is ready only
  while it offers its callbacks the memory and the session of the client it is connected with. As the owner of the mapping it has published only
  mapped memory, after a withdrawal, and unmapped memory only when it was not offered, so what it offers is what its last publication or
  withdrawal left, and what is mapped is what it mapped and has not unmapped.
\<close>

theorem hal_never_stuck:
  assumes "hal_reach ipc fmt n h k" and "n < 2 ^ 32" and "maps_fresh ipc op h"
  shows "(\<exists>h' k'. hal_step ipc fmt op h k = Inr (h', k')) \<and>
    unat (hl_io_clients h) = total_starts (hl_tracked_clients h) + unat (hl_untracked_io_starts h) \<and>
    (hl_service_ready h \<longrightarrow> hm_memory (hl_callback_mapping h) = dc_shared_memory (hl_device_client h) \<and>
       hm_session_id (hl_callback_mapping h) = dc_session_id (hl_device_client h) \<and>
       (\<exists>a memory. dc_shared_memory (hl_device_client h) = Some a \<and> hl_memory h a = Some memory)) \<and>
    owner_run (hl_trace h) ({}, None) = Some (dom (hl_memory h), hm_memory (hl_callback_mapping h))"
proof -
  have inv: "hal_linked h" "accounted n (accounts h)" using hal_reach_inv [OF assms(1)] assms(2) by simp_all
  have "\<exists>h' k'. hal_step ipc fmt op h k = Inr (h', k')" using hal_step_result [OF inv(1) assms(3), of fmt k n] by blast
  then show ?thesis using inv by (auto simp: hal_linked_def linked_def owned_def accounted_def accounts_def)
qed

text \<open>Witness for C0: the plug-in has connected to a service that accepts every request, and a client starts.\<close>

definition answering_ipc :: "unit ipc" where
  "answering_ipc = \<lparr>ipc_reply_port = (\<lambda>_. True), ipc_send = (\<lambda>port message k. (Some (case message of
     HelloMessage _ \<Rightarrow> HelloReply \<lparr>hr_memory_entry = Some 7, hr_protocol_version = 4, hr_shared_struct_size = 0x8000, hr_mapped_size = 0x8000,
       hr_memory_offset = 0, hr_session_id = 5, hr_status = KERN_SUCCESS\<rparr>
   | ControlMessage m _ \<Rightarrow> if m = NS6_DEVICE_MSG_GET_STATE then StateReply KERN_SUCCESS snapshot_zero else ControlReply KERN_SUCCESS), k))\<rparr>"

definition connect_example :: connect_world where
  "connect_example = \<lparr>cn_client = client_world_example, cn_port = Some 9, cn_sizeof = 0x8000,
     cn_memory = memory_example\<lparr>sm_session := \<lparr>sg_active_id = 5, sg_callbacks_in_flight = 0\<rparr>\<rparr>\<rparr>"

lemma initialize_example:
  "\<exists>h. hal_initialize answering_ipc connect_example (1, 1) None True (hal_static []) () = Inr (h, ()) \<and> hl_service_ready h \<and>
     hm_memory (hl_callback_mapping h) = Some 0x200000 \<and> hm_session_id (hl_callback_mapping h) = 5 \<and>
     hl_memory h 0x200000 = Some (cn_memory connect_example) \<and> hl_trace h = [Mapped 0x200000, Withdrew, Published 0x200000 5]"
  by (simp add: hal_initialize_def connect_at_start_def hal_connect_def ns6_device_client_connect_def ns6_device_client_connect_to_port_def
      ns6_device_client_disconnect_def exchange_message_def hello_valid_def connect_mapped_def ns6_device_client_set_startup_buffer_def send_control_def
      publish_device_mapping_locked_def withdraw_mapping_def ns6_hal_mapping_withdraw_def ns6_hal_mapping_init_def ns6_hal_mapping_publish_def
      answering_ipc_def connect_example_def client_world_example_def memory_example_def ns6_shared_memory_init_def hal_static_def device_client_zero_def
      owner_did_def ns6_device_protocol_version_supported_def Let_def)

theorem hal_never_stuck_witness:
  "\<exists>h. hal_reach answering_ipc format_example 0 h () \<and> hl_service_ready h \<and>
     (\<exists>h' k'. hal_step answering_ipc format_example (StartIO 1 2 DEVICE_ID 77) h () = Inr (h', k')) \<and>
     (\<exists>a memory. dc_shared_memory (hl_device_client h) = Some a \<and> hl_memory h a = Some memory) \<and>
     owner_run [Mapped 0x200000, Withdrew, Published 0x200000 5] ({}, None) = Some (dom (hl_memory h), Some 0x200000)"
proof -
  obtain h where h: "hal_initialize answering_ipc connect_example (1, 1) None True (hal_static []) () = Inr (h, ())" "hl_service_ready h"
      "hl_trace h = [Mapped 0x200000, Withdrew, Published 0x200000 5]" "hm_memory (hl_callback_mapping h) = Some 0x200000"
    using initialize_example by blast
  note reach = initialized [OF h(1), of format_example]
  have "maps_fresh answering_ipc (StartIO 1 2 DEVICE_ID 77) h" by (simp add: maps_fresh_def)
  from hal_never_stuck [OF reach _ this] have "\<exists>h' k'. hal_step answering_ipc format_example (StartIO 1 2 DEVICE_ID 77) h () = Inr (h', k')"
    "\<exists>a memory. dc_shared_memory (hl_device_client h) = Some a \<and> hl_memory h a = Some memory"
    "owner_run (hl_trace h) ({}, None) = Some (dom (hl_memory h), hm_memory (hl_callback_mapping h))" using h(2) by simp_all
  then show ?thesis using reach h(2-4) by (intro exI [of _ h]) (simp del: hal_step.simps owner_run.simps)
qed

subsection \<open>Callbacks beside the plug-in\<close>

text \<open>
  (C12) Whatever the plug-in does as the owner of the mapping, and however its accesses and those of the callbacks interleave with stores becoming
  visible late but before the storing thread's next load, a callback that holds a lease reads memory that is still mapped, and the lease is that of the
  publication in force: the owner has published this memory with this session and has not come back from withdrawing it.
\<close>

theorem hal_mapping_safe:
  assumes "hal_reach ipc fmt n h k" and "(mapping_step True threads)\<^sup>*\<^sup>* (mapping_start (hl_trace h)) s" and "threads < 2 ^ 32"
    and "mp_reader s t = Leasing a sid"
  shows "a \<in> mp_mapped s \<and> mp_offer s = Some (a, sid) \<and> Published a sid \<in> set (hl_trace h)"
proof -
  have "owner_run (hl_trace h) ({}, None) \<noteq> None" using hal_reach_inv [OF assms(1)] by (simp add: hal_linked_def owned_def)
  note inv = mapping_reach_inv [OF assms(2,3) this]
  have "readable s a" using assms(4) unfolding readable_def by (metis pointer_of.simps(2))
  moreover have "sid = hm_session_id (mp_mapping s)" using inv assms(4) by (auto simp: leases_inv_def)
  ultimately have "mp_offer s = Some (a, sid)" using inv by (simp add: leases_inv_def)
  then show ?thesis using inv by (simp add: owner_inv_def)
qed

text \<open>The owner publishes its first mapping and all its stores land; a callback that finds it takes a lease.\<close>

definition published_state :: "u64 \<Rightarrow> u64 \<Rightarrow> owner_event list \<Rightarrow> mapping_state" where
  "published_state a sid es = \<lparr>mp_mapping = \<lparr>hm_memory = Some a, hm_session_id = sid, hm_readers = 0\<rparr>, mp_stores = [], mp_reader = (\<lambda>_. Resting),
     mp_late = {}, mp_owner = Settled, mp_todo = es, mp_offer = Some (a, sid), mp_mapped = {a}\<rparr>"

lemma mapping_published:
  "(mapping_step ordered threads)\<^sup>*\<^sup>* (mapping_start (Mapped a # Withdrew # Published a sid # es)) (published_state a sid es)"
proof -
  let ?R = "mapping_step ordered threads" and ?s0 = "mapping_start (Mapped a # Withdrew # Published a sid # es)"
  let ?s1 = "?s0\<lparr>mp_todo := Withdrew # Published a sid # es, mp_mapped := insert a (mp_mapped ?s0)\<rparr>"
  let ?s2 = "owner_store (StoreMemory None) Withdrawing ?s1"
  let ?s3 = "?s2\<lparr>mp_mapping := lands (StoreMemory None) (mp_mapping ?s2), mp_stores := []\<rparr>"
  let ?s4 = "?s3\<lparr>mp_owner := Settled, mp_todo := tl (mp_todo ?s3), mp_offer := None\<rparr>"
  let ?s5 = "owner_store (StoreSession sid) (Publishing a) (?s4\<lparr>mp_todo := es, mp_offer := Some (a, sid)\<rparr>)"
  let ?s6 = "owner_store (StoreMemory (Some a)) Settled ?s5"
  let ?s7 = "?s6\<lparr>mp_mapping := lands (StoreSession sid) (mp_mapping ?s6), mp_stores := [StoreMemory (Some a)]\<rparr>"
  let ?s8 = "?s7\<lparr>mp_mapping := lands (StoreMemory (Some a)) (mp_mapping ?s7), mp_stores := []\<rparr>"
  note eval = mapping_start_def ns6_hal_mapping_init_def owner_store_def
  have "?R ?s0 ?s1" by (rule mapping_step.map) (simp_all add: eval)
  moreover have "?R ?s1 ?s2" by (rule withdraw_clear) (simp_all add: eval)
  moreover have "?R ?s2 ?s3" by (rule store_lands) (simp add: eval)
  moreover have "?R ?s3 ?s4" by (rule withdraw_done) (simp_all add: eval)
  moreover have "?R ?s4 ?s5" by (rule publish_session) (simp_all add: eval)
  moreover have "?R ?s5 ?s6" by (rule publish_memory) (simp add: eval)
  moreover have "?R ?s6 ?s7" by (rule store_lands) (simp add: eval)
  moreover have "?R ?s7 ?s8" by (rule store_lands) (simp add: eval)
  ultimately have "?R\<^sup>*\<^sup>* ?s0 ?s8" by (meson rtranclp.rtrancl_into_rtrancl rtranclp.rtrancl_refl)
  then show ?thesis by (simp add: eval published_state_def)
qed

lemma mapping_leased:
  assumes "t < threads" and "mp_reader s t = Resting" and "t \<notin> mp_late s" and "hm_memory (mp_mapping s) = Some a"
  shows "\<exists>s'. (mapping_step ordered threads)\<^sup>*\<^sup>* s s' \<and> mp_reader s' t = Leasing a (hm_session_id (mp_mapping s)) \<and> mp_mapped s' = mp_mapped s \<and>
    mp_owner s' = mp_owner s \<and> mp_todo s' = mp_todo s"
proof -
  let ?R = "mapping_step ordered threads"
  let ?s1 = "at_reader t Counted (s\<lparr>mp_late := insert t (mp_late s)\<rparr>)"
  let ?s2 = "count_reader (\<lambda>n. n + 1) (?s1\<lparr>mp_late := mp_late ?s1 - {t}\<rparr>)"
  let ?s3 = "at_reader t (Loaded a) ?s2"
  let ?s4 = "at_reader t (Leasing a (hm_session_id (mp_mapping ?s3))) ?s3"
  have "?R s ?s1" using assms by (intro acquire_count)
  moreover have "?R ?s1 ?s2" by (rule count_lands) simp
  moreover have "?R ?s2 ?s3" by (rule acquire_load) (use assms(4) in simp_all)
  moreover have "?R ?s3 ?s4" by (rule acquire_session) simp
  ultimately have "?R\<^sup>*\<^sup>* s ?s4" by (meson rtranclp.rtrancl_into_rtrancl rtranclp.rtrancl_refl)
  then show ?thesis by (intro exI [of _ ?s4]) simp
qed

text \<open>Witness for C0: beside the plug-in that has connected, a callback leases the memory of session 5.\<close>

theorem hal_mapping_safe_witness:
  "\<exists>h s. hal_reach answering_ipc format_example 0 h () \<and> (mapping_step True 1)\<^sup>*\<^sup>* (mapping_start (hl_trace h)) s \<and>
     mp_reader s 0 = Leasing 0x200000 5 \<and> 0x200000 \<in> mp_mapped s \<and> mp_offer s = Some (0x200000, 5) \<and> Published 0x200000 5 \<in> set (hl_trace h)"
proof -
  obtain h where h: "hal_initialize answering_ipc connect_example (1, 1) None True (hal_static []) () = Inr (h, ())"
      "hl_trace h = [Mapped 0x200000, Withdrew, Published 0x200000 5]"
    using initialize_example by blast
  note reach = initialized [OF h(1), of format_example]
  note published = mapping_published [where a = "0x200000" and sid = 5 and es = "[]" and ordered = True and threads = 1]
  obtain s where s: "(mapping_step True 1)\<^sup>*\<^sup>* (mapping_start (hl_trace h)) s" "mp_reader s 0 = Leasing 0x200000 5"
    using rtranclp_trans [OF published] mapping_leased [of 0 1 "published_state 0x200000 5 []" "0x200000" True] h(2) by (auto simp: published_state_def)
  from hal_mapping_safe [OF reach s(1) _ s(2)] reach s show ?thesis by (intro exI [of _ h] exI [of _ s]) simp
qed

text \<open>
  The order of a thread's store before its next load is needed, and the release stores and acquire loads of the code do not ask for it:
  when the service is lost, the plug-in can read a count of zero before its clearing of the pointer is visible, and unmap the memory while a callback that
  still finds the pointer holds a lease of it.
\<close>

definition failing_ipc :: "nat ipc" where
  "failing_ipc = \<lparr>ipc_reply_port = (\<lambda>_. True), ipc_send = (\<lambda>port message k. if k = 0 then (None, 0) else (fst (ipc_send answering_ipc port message ()), k - 1))\<rparr>"

lemma initialize_failing:
  "\<exists>h. hal_initialize failing_ipc connect_example (1, 1) None True (hal_static []) 2 = Inr (h, 0) \<and> hm_readers (hl_callback_mapping h) = 0 \<and>
     dc_connected (hl_device_client h) \<and> dc_shared_memory (hl_device_client h) = Some 0x200000 \<and>
     hl_trace h = [Mapped 0x200000, Withdrew, Published 0x200000 5]"
  by (simp add: hal_initialize_def connect_at_start_def hal_connect_def ns6_device_client_connect_def ns6_device_client_connect_to_port_def
      ns6_device_client_disconnect_def exchange_message_def hello_valid_def connect_mapped_def ns6_device_client_set_startup_buffer_def send_control_def
      publish_device_mapping_locked_def withdraw_mapping_def ns6_hal_mapping_withdraw_def ns6_hal_mapping_init_def ns6_hal_mapping_publish_def
      failing_ipc_def answering_ipc_def connect_example_def client_world_example_def memory_example_def ns6_shared_memory_init_def hal_static_def
      device_client_zero_def owner_did_def ns6_device_protocol_version_supported_def Let_def)

lemma hal_trace_frame [simp]:
  "hl_trace (initialize_io_metrics h) = hl_trace h" "hl_trace (log_io_metrics h) = hl_trace h"
  "hl_device_client (initialize_io_metrics h) = hl_device_client h" "hl_device_client (log_io_metrics h) = hl_device_client h"
  "hl_callback_mapping (initialize_io_metrics h) = hl_callback_mapping h" "hl_callback_mapping (log_io_metrics h) = hl_callback_mapping h"
  by (simp_all add: initialize_io_metrics_def log_io_metrics_def)

lemma lost_example:
  "\<exists>h. hal_reach failing_ipc format_example 1 h 0 \<and> hl_trace h = [Mapped 0x200000, Withdrew, Published 0x200000 5, Withdrew, Unmapped 0x200000]"
proof -
  obtain h where h: "hal_initialize failing_ipc connect_example (1, 1) None True (hal_static []) 2 = Inr (h, 0)" "hm_readers (hl_callback_mapping h) = 0"
      "dc_connected (hl_device_client h)" "dc_shared_memory (hl_device_client h) = Some 0x200000" "hl_trace h = [Mapped 0x200000, Withdrew, Published 0x200000 5]"
    using initialize_failing by blast
  let ?cn = "connect_example\<lparr>cn_port := None\<rparr>"
  have zero: "dc_shared_memory device_client_zero = None" by (simp add: device_client_zero_def)
  have none: "hal_connect failing_ipc ?cn device_client_zero g k = (False, device_client_zero, g, k)" for g k
    by (simp add: hal_connect_def ns6_device_client_connect_def)
  have "ns6_device_client_get_state_result failing_ipc (hl_device_client h) (Some snapshot_zero) 0 = (NS6_DEVICE_CLIENT_STATE_UNAVAILABLE, Some snapshot_zero, 0)"
    by (simp add: ns6_device_client_get_state_result_def exchange_message_def failing_ipc_def)
  moreover have "snd (ns6_device_client_disconnect failing_ipc c 0) = 0" for c
    by (simp add: ns6_device_client_disconnect_def send_control_def exchange_message_def failing_ipc_def split: option.split)
  ultimately obtain h' where h': "device_service_monitor failing_ipc ?cn h 0 = Inr (h', 0)" "hl_trace h' = hl_trace h @ [Withdrew, Unmapped 0x200000]"
    using h(2-4) by (simp add: device_service_monitor_def monitor_reconnect_def none lose_service_def hal_disconnect_result withdraw_ok unmap_client_def zero Let_def)
  have "hal_reach failing_ipc format_example (Suc 0) h' 0"
    by (rule stepped [OF initialized [OF h(1)], of "MonitorTurn ?cn"]) (use h' none in \<open>simp_all add: maps_fresh_def\<close>)
  then show ?thesis using h(5) h'(2) by auto
qed

theorem hal_mapping_reorders:
  "\<exists>h s. hal_reach failing_ipc format_example 1 h 0 \<and> (mapping_step False 1)\<^sup>*\<^sup>* (mapping_start (hl_trace h)) s \<and>
     mp_reader s 0 = Leasing 0x200000 5 \<and> 0x200000 \<notin> mp_mapped s"
proof -
  obtain h where h: "hal_reach failing_ipc format_example 1 h 0"
      "hl_trace h = [Mapped 0x200000, Withdrew, Published 0x200000 5, Withdrew, Unmapped 0x200000]" using lost_example by blast
  let ?R = "mapping_step False 1" and ?es = "[Withdrew, Unmapped 0x200000]"
  let ?s = "published_state 0x200000 5 ?es"
  have 0: "?R\<^sup>*\<^sup>* (mapping_start (hl_trace h)) ?s" using mapping_published [where a = "0x200000" and sid = 5 and es = ?es and ordered = False and threads = 1] h(2) by simp
  let ?s1 = "owner_store (StoreMemory None) Withdrawing ?s"
  let ?s2 = "?s1\<lparr>mp_owner := Settled, mp_todo := tl (mp_todo ?s1), mp_offer := None\<rparr>"
  have 1: "?R ?s ?s1" by (rule withdraw_clear) (simp_all add: published_state_def)
  have 2: "?R ?s1 ?s2" by (rule withdraw_done) (simp_all add: published_state_def)
  obtain s3 where 3: "?R\<^sup>*\<^sup>* ?s2 s3" "mp_reader s3 0 = Leasing 0x200000 5" "mp_owner s3 = Settled" "mp_todo s3 = [Unmapped 0x200000]"
    using mapping_leased [of 0 1 ?s2 "0x200000" False] by (auto simp: owner_store_def published_state_def)
  let ?s4 = "s3\<lparr>mp_todo := [], mp_mapped := mp_mapped s3 - {0x200000}\<rparr>"
  have 4: "?R s3 ?s4" by (rule unmap) (use 3 in simp_all)
  have "?R\<^sup>*\<^sup>* (mapping_start (hl_trace h)) ?s4"
    using 0 1 2 3(1) 4 by (meson rtranclp.rtrancl_into_rtrancl rtranclp_trans)
  then show ?thesis using h(1) 3(2) by (intro exI [of _ h] exI [of _ ?s4]) simp
qed

text \<open>
  (C15) A callback is guarded by the session gate: whatever its stream and operation, it leaves the mapping and every gate counter as it found them,
  it touches no shared memory unless the memory is the published one and the lease's session is still current there, and when it is, a write
  enqueues exactly its block in that memory's output ring.
\<close>

theorem hal_callback_guarded:
  assumes "hal_reach ipc fmt n h k" and "do_io ik fmt obj stream cid operation count info floats bytes h = Inr (st, out, h')"
  shows "hl_callback_mapping h' = hl_callback_mapping h \<and>
    (\<forall>a. map_option sm_session (hl_memory h' a) = map_option sm_session (hl_memory h a)) \<and>
    (\<forall>a memory. hl_memory h a = Some memory \<and> \<not> lease_current h a memory \<longrightarrow> hl_memory h' a = Some memory) \<and>
    (\<forall>a memory. obj = DEVICE_ID \<and> stream = STREAM_ID \<and> operation = WriteMix \<and> hl_memory h a = Some memory \<and> lease_current h a memory \<longrightarrow>
       map_option sm_output (hl_memory h' a) = snd (ns6_transport_enqueue_shared (Some (sm_output memory)) bytes count (Some fmt)))"
proof -
  have inv: "hal_linked h" using hal_reach_inv [OF assms(1)] by simp
  have "guarded h h'" using do_io_guarded [OF inv, of ik fmt obj stream cid operation count info floats bytes] assms(2) by auto
  moreover have "map_option sm_output (hl_memory h' a) = snd (ns6_transport_enqueue_shared (Some (sm_output memory)) bytes count (Some fmt))"
    if "obj = DEVICE_ID" "stream = STREAM_ID" "operation = WriteMix" "hl_memory h a = Some memory" "lease_current h a memory" for a memory
    using do_output_guarded [OF inv, of ik fmt cid count info bytes] that assms(2) by (auto simp: do_io_def)
  ultimately show ?thesis by (simp add: guarded_def)
qed

text \<open>Witness for C0: a write of one frame in the session the plug-in has connected to, which the output ring then holds.\<close>

lemma enqueue_example:
  "map_option tx_high_water (snd (ns6_transport_enqueue_shared (Some (sm_output (cn_memory connect_example))) (Some (replicate 16 1)) 1 (Some format_example))) =
     Some 1"
  by code_simp

theorem hal_callback_guarded_witness:
  "\<exists>h st out h' memory. hal_reach answering_ipc format_example 0 h () \<and>
     do_io \<lparr>ik_start_ns = 1, ik_end_ns = 2, ik_tick = 3, ik_log_tick = 4\<rparr> format_example DEVICE_ID STREAM_ID 77 WriteMix 1 None None (Some (replicate 16 1)) h =
       Inr (st, out, h') \<and>
     lease_current h 0x200000 (cn_memory connect_example) \<and> hl_memory h' 0x200000 = Some memory \<and> tx_high_water (sm_output memory) = 1"
proof -
  obtain h where h: "hal_initialize answering_ipc connect_example (1, 1) None True (hal_static []) () = Inr (h, ())"
    "hm_memory (hl_callback_mapping h) = Some 0x200000" "hm_session_id (hl_callback_mapping h) = 5" "hl_memory h 0x200000 = Some (cn_memory connect_example)"
    using initialize_example by blast
  note reach = initialized [OF h(1), of format_example]
  have linked: "hal_linked h" using hal_reach_inv [OF reach] by simp
  have current: "lease_current h 0x200000 (cn_memory connect_example)"
    using h by (simp add: lease_current_def ns6_device_session_is_current_def connect_example_def)
  obtain st out h' where io: "do_io \<lparr>ik_start_ns = 1, ik_end_ns = 2, ik_tick = 3, ik_log_tick = 4\<rparr> format_example DEVICE_ID STREAM_ID 77 WriteMix 1 None None
      (Some (replicate 16 1)) h = Inr (st, out, h')"
    using do_io_guarded [OF linked] by blast
  have "map_option sm_output (hl_memory h' 0x200000) =
      snd (ns6_transport_enqueue_shared (Some (sm_output (cn_memory connect_example))) (Some (replicate 16 1)) 1 (Some format_example))"
    using hal_callback_guarded [OF reach io] h(4) current by blast
  then obtain memory where "hl_memory h' 0x200000 = Some memory" "tx_high_water (sm_output memory) = 1" using enqueue_example by (cases "hl_memory h' 0x200000") auto
  then show ?thesis using current io reach by blast
qed

end
