(* ===== verification/Spec2Isabelle.thy ===== *)
theory Spec2Isabelle
  imports NS6_Input NS6_Clients NS6_Activation NS6_Transport NS6_Metrics NS6_MidiReads NS6_Hal
begin

text \<open>
  A model of the Numark NS6 audio and MIDI drivers for macOS.
\<close>

end
